(* ===== verification/Resin_Prelude.thy ===== *)
theory Resin_Prelude
  imports Main "HOL-Library.Word" "HOL-Library.AList"
begin

text \<open>
  What every component of the model shares: Go's signed 64-bit and 32-bit arithmetic, finite
  maps with an iteration order (association lists, for Go's \<open>map\<close> and for the concurrent map
  whose \<open>Load\<close>, \<open>Store\<close>, \<open>Compute\<close>, \<open>Delete\<close> and \<open>Range\<close> the code calls), the environment
  the code reads (the clock and the random generator), the two interface contracts that most
  components rely on (a finite map store; a machine whose operations keep an invariant), and the
  lemma collections the component proofs use.
\<close>

named_theorems i64_simps "wrap-around arithmetic of Go's int64"
named_theorems store_simps "lookup laws of association lists used as finite maps"

section \<open>Machine integers\<close>

text \<open>
  \<open>int64\<close>, \<open>int\<close> (64 bits wide on the supported platforms) and \<open>time.Duration\<close> values are kept
  as \<open>int\<close>; every arithmetic operation of the source is followed by \<open>i64\<close> (or \<open>i32\<close>), the
  two's complement wrap-around.
\<close>

definition i64 :: "int \<Rightarrow> int" where
  "i64 k = signed_take_bit 63 k"

definition i32 :: "int \<Rightarrow> int" where
  "i32 k = signed_take_bit 31 k"

definition max_i64 :: int where
  "max_i64 = 9223372036854775807"

definition min_i64 :: int where
  "min_i64 = - 9223372036854775808"

lemma i64_id: "min_i64 \<le> k \<Longrightarrow> k \<le> max_i64 \<Longrightarrow> i64 k = k"
  by (simp add: i64_def min_i64_def max_i64_def signed_take_bit_int_eq_self_iff)

lemma i64_range: "min_i64 \<le> i64 k \<and> i64 k \<le> max_i64"
  using signed_take_bit_int_greater_eq_minus_exp [of 63 k] signed_take_bit_int_less_exp [of 63 k]
  by (simp add: i64_def min_i64_def max_i64_def)

lemma i64_add_left [i64_simps]: "i64 (i64 a + b) = i64 (a + b)"
  by (metis i64_def signed_take_bit_add signed_take_bit_signed_take_bit min.idem)

lemma i64_add_right [i64_simps]: "i64 (a + i64 b) = i64 (a + b)"
  by (metis add.commute i64_add_left)

lemma i64_diff_left [i64_simps]: "i64 (i64 a - b) = i64 (a - b)"
  using i64_add_left [of a "- b"] by simp

lemma i64_idem [i64_simps]: "i64 (i64 a) = i64 a"
  using i64_add_left [of a 0] by simp

lemma i64_0 [simp]: "i64 0 = 0"
  by (simp add: i64_def)

section \<open>Finite maps\<close>

text \<open>
  A Go map, and the concurrent hash map the program stores its tables in, is an association list:
  its list order is the order an iteration visits the entries in. Theorems that do not fix the
  list hold for every iteration order.
\<close>

type_synonym ('k, 'v) amap = "('k \<times> 'v) list"

abbreviation m_load :: "('k, 'v) amap \<Rightarrow> 'k \<Rightarrow> 'v option" where
  "m_load m k \<equiv> map_of m k"

abbreviation m_store :: "'k \<Rightarrow> 'v \<Rightarrow> ('k, 'v) amap \<Rightarrow> ('k, 'v) amap" where
  "m_store k v m \<equiv> AList.update k v m"

abbreviation m_delete :: "'k \<Rightarrow> ('k, 'v) amap \<Rightarrow> ('k, 'v) amap" where
  "m_delete k m \<equiv> AList.delete k m"

definition m_ok :: "('k, 'v) amap \<Rightarrow> bool" where
  "m_ok m \<longleftrightarrow> distinct (map fst m)"

lemma map_of_store [store_simps]: "map_of (AList.update k v m) = (map_of m)(k \<mapsto> v)"
  by (rule update_conv')

lemma map_of_delete [store_simps]: "map_of (AList.delete k m) = (map_of m)(k := None)"
  by (rule delete_conv')

lemma m_ok_Nil [simp]: "m_ok []"
  by (simp add: m_ok_def)

lemma m_ok_store [simp]: "m_ok m \<Longrightarrow> m_ok (AList.update k v m)"
  by (simp add: m_ok_def distinct_update)

lemma m_ok_delete [simp]: "m_ok m \<Longrightarrow> m_ok (AList.delete k m)"
  by (simp add: m_ok_def distinct_delete)

lemma m_ok_mem: "m_ok m \<Longrightarrow> (k, v) \<in> set m \<longleftrightarrow> map_of m k = Some v"
  by (simp add: m_ok_def)

lemma m_ok_length: "m_ok m \<Longrightarrow> length m = card (dom (map_of m))"
  by (metis distinct_card dom_map_of_conv_image_fst length_map list.set_map m_ok_def)

lemma option_eqI: "(\<And>v. x = Some v \<longleftrightarrow> y = Some v) \<Longrightarrow> x = y"
  by (cases x; cases y) auto

lemma rel_option_trans:
  "(\<And>a b c. R a b \<Longrightarrow> R b c \<Longrightarrow> R a c) \<Longrightarrow> rel_option R x y \<Longrightarrow> rel_option R y z \<Longrightarrow> rel_option R x z"
  by (cases x; cases y; cases z; auto)

subsection \<open>Counting the keys of a map that satisfy a predicate\<close>

definition keys_where :: "('k \<Rightarrow> 'v \<Rightarrow> bool) \<Rightarrow> ('k \<rightharpoonup> 'v) \<Rightarrow> 'k set" where
  "keys_where P f = {k. \<exists>v. f k = Some v \<and> P k v}"

lemma finite_keys_where: "finite (dom f) \<Longrightarrow> finite (keys_where P f)"
  by (rule finite_subset [of _ "dom f"]) (auto simp: keys_where_def)

lemma finite_keys_where_map_of [simp]: "finite (keys_where P (map_of m))"
  by (rule finite_keys_where) (simp add: finite_dom_map_of)

definition counted :: "('k \<Rightarrow> 'v \<Rightarrow> bool) \<Rightarrow> 'k \<Rightarrow> 'v option \<Rightarrow> int" where
  "counted P k w = (case w of None \<Rightarrow> 0 | Some v \<Rightarrow> of_bool (P k v))"

lemma counted_simps [simp]:
  "counted P k None = 0"
  "counted P k (Some v) = of_bool (P k v)"
  by (simp_all add: counted_def)

lemma card_keys_where_upd:
  assumes "finite (dom f)"
  shows "int (card (keys_where P (f(k := w))))
       = int (card (keys_where P f)) - counted P k (f k) + counted P k w"
proof -
  define A where "A = keys_where P f - {k}"
  have A: "finite A" "k \<notin> A"
    using assms by (simp_all add: A_def finite_keys_where)
  have new: "keys_where P (f(k := w)) = (if counted P k w = 1 then insert k A else A)"
    by (auto simp: A_def keys_where_def counted_def split: option.splits if_splits)
  have old: "keys_where P f = (if counted P k (f k) = 1 then insert k A else A)"
    by (auto simp: A_def keys_where_def counted_def split: option.splits if_splits)
  have "int (card (keys_where P (f(k := w)))) = int (card A) + counted P k w"
    using A by (subst new) (auto simp: counted_def split: option.splits)
  moreover have "int (card (keys_where P f)) = int (card A) + counted P k (f k)"
    using A by (subst old) (auto simp: counted_def split: option.splits)
  ultimately show ?thesis by simp
qed

section \<open>Interface: a finite map store\<close>

text \<open>
  The operations a client calls on a table and the laws it relies on: what a lookup returns after
  an insert or a delete, and that an iteration lists every binding once.
\<close>

locale map_store =
  fixes get :: "'m \<Rightarrow> 'k \<Rightarrow> 'v option"
    and put :: "'k \<Rightarrow> 'v \<Rightarrow> 'm \<Rightarrow> 'm"
    and del :: "'k \<Rightarrow> 'm \<Rightarrow> 'm"
    and items :: "'m \<Rightarrow> ('k \<times> 'v) list"
    and ok :: "'m \<Rightarrow> bool"
  assumes get_put: "get (put k v m) = (get m)(k \<mapsto> v)"
    and get_del: "get (del k m) = (get m)(k := None)"
    and ok_put: "ok m \<Longrightarrow> ok (put k v m)"
    and ok_del: "ok m \<Longrightarrow> ok (del k m)"
    and items_get: "map_of (items m) = get m"
    and items_once: "ok m \<Longrightarrow> distinct (map fst (items m))"
begin

lemma finite_keys: "finite (dom (get m))"
  by (metis finite_dom_map_of items_get)

lemma card_put:
  "int (card (keys_where P (get (put k v m))))
     = int (card (keys_where P (get m))) - counted P k (get m k) + of_bool (P k v)"
  using card_keys_where_upd [OF finite_keys, of P m k "Some v"] by (simp add: get_put)

lemma card_del:
  "int (card (keys_where P (get (del k m))))
     = int (card (keys_where P (get m))) - counted P k (get m k)"
  using card_keys_where_upd [OF finite_keys, of P m k None] by (simp add: get_del)

lemma size_items: "ok m \<Longrightarrow> length (items m) = card (dom (get m))"
  by (metis items_get items_once m_ok_def m_ok_length)

text \<open>Deleting the keys of an iteration one by one leaves a map without them.\<close>

lemma get_fold_del: "get (fold del ks m) k = (if k \<in> set ks then None else get m k)"
  by (induction ks arbitrary: m) (auto simp: get_del)

lemma ok_fold_del: "ok m \<Longrightarrow> ok (fold del ks m)"
  by (induction ks arbitrary: m) (auto simp: ok_del)

lemma get_fold_put:
  "distinct (map fst kvs) \<Longrightarrow>
   get (fold (\<lambda>kv. put (fst kv) (snd kv)) kvs m) = get m ++ map_of kvs"
proof (induction kvs arbitrary: m)
  case (Cons kv kvs)
  then have "fst kv \<notin> dom (map_of kvs)" by (simp add: dom_map_of_conv_image_fst)
  with Cons show ?case
    by (cases kv) (auto simp: get_put map_add_def fun_eq_iff split: option.splits)
qed simp

end

interpretation am: map_store map_of AList.update AList.delete "\<lambda>m. m" m_ok
  by unfold_locales (simp_all add: store_simps, simp add: m_ok_def)

section \<open>Interface: a machine whose operations keep an invariant\<close>

text \<open>
  A component that is driven by a sequence of operations: if every admissible operation keeps the
  invariant, every finite run of admissible operations does.
\<close>

locale invariant_machine =
  fixes step :: "'e \<Rightarrow> 's \<Rightarrow> 's"
    and admissible :: "'e \<Rightarrow> bool"
    and inv :: "'s \<Rightarrow> bool"
  assumes step_inv: "inv s \<Longrightarrow> admissible e \<Longrightarrow> inv (step e s)"
begin

lemma run_inv: "inv s \<Longrightarrow> list_all admissible es \<Longrightarrow> inv (fold step es s)"
  by (induction es arbitrary: s) (auto intro: step_inv)

lemma prefix_inv:
  "inv s \<Longrightarrow> list_all admissible (es @ fs) \<Longrightarrow> inv (fold step es s)"
  by (rule run_inv) auto

end

section \<open>The environment: clock and random generator\<close>

text \<open>
  \<open>time.Now\<close> reads the next instant (nanoseconds) from a list of readings and repeats the last
  one when the list holds a single reading, so a one-element list is a clock that stands still;
  \<open>rng.IntN(n)\<close> takes the next draw below \<open>n\<close> from a list of draws, 0 when it is used up.
  Theorems hold for every list of readings and draws.
\<close>

record env =
  draws :: "nat list"
  clock :: "int list"

fun time_now :: "env \<Rightarrow> int \<times> env" where
  "time_now e = (case clock e of
      [] \<Rightarrow> (0, e)
    | [t] \<Rightarrow> (t, e)
    | t # ts \<Rightarrow> (t, e\<lparr>clock := ts\<rparr>))"

fun rng_int_n :: "nat \<Rightarrow> env \<Rightarrow> nat \<times> env" where
  "rng_int_n n e = (case draws e of
      [] \<Rightarrow> (0, e)
    | d # ds \<Rightarrow> (d mod n, e\<lparr>draws := ds\<rparr>))"

lemma rng_int_n_less: "0 < n \<Longrightarrow> fst (rng_int_n n e) < n"
  by (simp split: list.splits)

declare time_now.simps [simp del] rng_int_n.simps [simp del]

section \<open>Loops over lists\<close>

text \<open>
  The index of the first element that satisfies a predicate: the shape of every search loop of
  the source that breaks or returns at the first hit.
\<close>

fun find_index :: "('a \<Rightarrow> bool) \<Rightarrow> 'a list \<Rightarrow> nat option" where
  "find_index P [] = None"
| "find_index P (x # xs) = (if P x then Some 0 else map_option Suc (find_index P xs))"

lemma find_index_Some:
  "find_index P xs = Some i \<Longrightarrow> i < length xs \<and> P (xs ! i) \<and> (\<forall>j<i. \<not> P (xs ! j))"
proof (induction xs arbitrary: i)
  case (Cons x xs)
  then show ?case by (auto split: if_splits simp: less_Suc_eq_0_disj)
qed simp

lemma find_index_None: "find_index P xs = None \<longleftrightarrow> (\<forall>x\<in>set xs. \<not> P x)"
  by (induction xs) auto

end
