(* ===== verification/Go_Std.thy ===== *)
theory Go_Std
  imports Resin_Prelude "HOL-Library.Signed_Division" "HOL-Library.Log_Nat"
begin

text \<open>
  The parts of Go's standard library the modelled code computes with: IEEE double arithmetic
  (rationals rounded to 53 significant bits), string trimming and case mapping on byte strings,
  and \<open>netip.Addr\<close> values. A \<open>string\<close> is its list of bytes, as in Go.
\<close>

section \<open>float64\<close>

text \<open>
  The exponent of the leading bit of a positive rational, and round-to-nearest, ties to even. A
  double is the rational it denotes; \<open>f64\<close> rounds an exact result to the nearest double, with
  the subnormal range included. Values here stay far below the overflow threshold (they are
  products of two 64-bit integers at most), so infinities and NaN do not occur.
\<close>

definition lead_exp :: "rat \<Rightarrow> int" where
  "lead_exp x = (let pq = quotient_of x;
                     k = bitlen (fst pq) - bitlen (snd pq)
                 in if power_int 2 k \<le> x then k else k - 1)"

definition round_even :: "rat \<Rightarrow> int" where
  "round_even x = (let r = \<lfloor>x\<rfloor>; d = x - of_int r
     in if d < 1 / 2 then r else if 1 / 2 < d then r + 1 else if even r then r else r + 1)"

definition f64 :: "rat \<Rightarrow> rat" where
  "f64 x = (if x = 0 then 0
            else let u = power_int 2 (max (lead_exp \<bar>x\<bar> - 52) (- 1074))
                 in of_int (round_even (x / u)) * u)"

text \<open>\<open>float64(n)\<close> of an integer, and a conversion back, which truncates towards zero.\<close>

definition f64_of_int :: "int \<Rightarrow> rat" where
  "f64_of_int n = f64 (of_int n)"

definition int_of_f64 :: "rat \<Rightarrow> int" where
  "int_of_f64 x = (if 0 \<le> x then \<lfloor>x\<rfloor> else - \<lfloor>- x\<rfloor>)"

text \<open>\<open>time.Duration.Seconds\<close>: whole seconds plus the fraction, each rounded.\<close>

definition dur_seconds :: "int \<Rightarrow> rat" where
  "dur_seconds d =
     f64 (f64_of_int (d sdiv 1000000000) + f64 (f64_of_int (d smod 1000000000) / 1000000000))"

text \<open>\<open>time.Time.Sub\<close> saturates at the ends of the \<open>Duration\<close> range.\<close>

definition time_sub :: "int \<Rightarrow> int \<Rightarrow> int" where
  "time_sub t u = max min_i64 (min max_i64 (t - u))"

lemma round_even_of_int [simp]: "round_even (of_int n) = n"
  by (simp add: round_even_def)

lemma f64_0 [simp]: "f64 0 = 0"
  by (simp add: f64_def)

text \<open>Integers below $2^{53}$ convert to a double exactly.\<close>

lemma lead_exp_int:
  assumes "0 < n"
  shows "lead_exp (of_int n) = bitlen n - 1"
proof -
  define b where "b = bitlen n"
  have pos: "0 < b" using assms bitlen_eq_zero_iff [of n] bitlen_nonneg [of n] by (simp add: b_def)
  have "2 ^ nat (b - 1) \<le> n" "n < 2 ^ nat b"
    using bitlen_bounds [OF assms] by (simp_all add: b_def)
  then have "(2::rat) ^ nat (b - 1) \<le> of_int n" by (metis of_int_le_iff of_int_power of_int_numeral)
  then have "power_int 2 (b - 1) \<le> (of_int n :: rat)"
    using pos by (simp add: power_int_def)
  then show ?thesis
    by (simp add: lead_exp_def Let_def b_def [symmetric] bitlen_alt_def [of 1])
qed

lemma f64_of_int_exact:
  assumes "\<bar>n\<bar> < 2 ^ 53"
  shows "f64_of_int n = of_int n"
proof (cases "n = 0")
  case False
  then have n: "0 < \<bar>n\<bar>" by simp
  have "lead_exp \<bar>of_int n\<bar> = bitlen \<bar>n\<bar> - 1"
    using lead_exp_int [OF n] by simp
  moreover have "bitlen \<bar>n\<bar> \<le> 53" using assms by (simp add: bitlen_le_iff_power)
  moreover have "0 < bitlen \<bar>n\<bar>"
    using n bitlen_nonneg [of "\<bar>n\<bar>"] by (simp add: order_less_le bitlen_eq_zero_iff)
  ultimately have "max (lead_exp \<bar>of_int n\<bar> - 52) (- 1074) = - int (nat (53 - bitlen \<bar>n\<bar>))"
    by simp
  then obtain j where j: "max (lead_exp \<bar>rat_of_int n\<bar> - 52) (- 1074) = - int j" by blast
  have "rat_of_int n / power_int 2 (- int j) = of_int (n * 2 ^ j)"
    by (simp add: power_int_minus field_simps)
  then have "f64_of_int n = of_int (round_even (of_int (n * 2 ^ j))) * inverse (2 ^ j)"
    using False by (simp only: f64_of_int_def f64_def Let_def j) (simp add: power_int_minus)
  then show ?thesis by (simp only: round_even_of_int) simp
qed (simp add: f64_of_int_def)

section \<open>Byte strings\<close>

abbreviation byte :: "nat \<Rightarrow> char" where
  "byte n \<equiv> char_of n"

text \<open>
  The white space of \<open>strings.TrimSpace\<close> (\<open>unicode.IsSpace\<close>), as UTF-8: the six ASCII spaces,
  U+0085, U+00A0, U+1680, U+2000 to U+200A, U+2028, U+2029, U+202F, U+205F and U+3000.
\<close>

definition go_spaces :: "string list" where
  "go_spaces =
     map (\<lambda>n. [byte n]) [9, 10, 11, 12, 13, 32]
     @ [[byte 0xC2, byte 0x85], [byte 0xC2, byte 0xA0], [byte 0xE1, byte 0x9A, byte 0x80]]
     @ map (\<lambda>n. [byte 0xE2, byte 0x80, byte n])
         [0x80, 0x81, 0x82, 0x83, 0x84, 0x85, 0x86, 0x87, 0x88, 0x89, 0x8A, 0xA8, 0xA9, 0xAF]
     @ [[byte 0xE2, byte 0x81, byte 0x9F], [byte 0xE3, byte 0x80, byte 0x80]]"

fun drop_prefix :: "string \<Rightarrow> string \<Rightarrow> string option" where
  "drop_prefix [] s = Some s"
| "drop_prefix (p # ps) [] = None"
| "drop_prefix (p # ps) (c # cs) = (if p = c then drop_prefix ps cs else None)"

fun drop_first_of :: "string list \<Rightarrow> string \<Rightarrow> string option" where
  "drop_first_of [] s = None"
| "drop_first_of (p # ps) s =
     (case drop_prefix p s of Some r \<Rightarrow> Some r | None \<Rightarrow> drop_first_of ps s)"

lemma drop_prefix_Some: "drop_prefix p s = Some r \<longleftrightarrow> s = p @ r"
  by (induction p s rule: drop_prefix.induct) auto

lemma drop_first_of_shorter:
  "drop_first_of ps s = Some r \<Longrightarrow> [] \<notin> set ps \<Longrightarrow> length r < length s"
  by (induction ps) (auto simp: drop_prefix_Some split: option.splits)

lemma drop_first_of_None:
  "drop_first_of ps s = None \<longleftrightarrow> (\<forall>p\<in>set ps. \<forall>r. s \<noteq> p @ r)"
proof (induction ps)
  case (Cons p ps)
  show ?case
  proof (cases "drop_prefix p s")
    case None
    then have "\<forall>r. s \<noteq> p @ r" by (metis drop_prefix_Some option.distinct(1))
    with None Cons show ?thesis by simp
  next
    case (Some r)
    then show ?thesis by (auto dest: drop_prefix_Some [THEN iffD1])
  qed
qed simp

lemma go_spaces_nonempty: "[] \<notin> set go_spaces" "[] \<notin> set (map rev go_spaces)"
  by (simp_all add: go_spaces_def)

function trim_front :: "string list \<Rightarrow> string \<Rightarrow> string" where
  "trim_front ps s =
     (if [] \<in> set ps then s
      else case drop_first_of ps s of None \<Rightarrow> s | Some r \<Rightarrow> trim_front ps r)"
  by pat_completeness auto
termination
  by (relation "measure (\<lambda>(ps, s). length s)") (auto dest: drop_first_of_shorter)

declare trim_front.simps [simp del]

definition trim_space :: "string \<Rightarrow> string" where
  "trim_space s = rev (trim_front (map rev go_spaces) (rev (trim_front go_spaces s)))"

lemma trim_front_done: "[] \<notin> set ps \<Longrightarrow> drop_first_of ps (trim_front ps s) = None"
  by (induction ps s rule: trim_front.induct) (subst trim_front.simps, auto split: option.splits)

lemma trim_front_fix: "drop_first_of ps s = None \<Longrightarrow> trim_front ps s = s"
  by (subst trim_front.simps) simp

lemma trim_front_suffix: "\<exists>p. s = p @ trim_front ps s"
proof (induction ps s rule: trim_front.induct)
  case (1 ps s)
  show ?case
  proof (cases "[] \<in> set ps \<or> drop_first_of ps s = None")
    case True
    then show ?thesis by (subst trim_front.simps) auto
  next
    case False
    then obtain r where r: "drop_first_of ps s = Some r" "[] \<notin> set ps" by auto
    then obtain q where "r = q @ trim_front ps r" using "1" by auto
    moreover obtain p where "s = p @ r"
      using r(1) by (induction ps) (auto simp: drop_prefix_Some split: option.splits)
    ultimately have "s = (p @ q) @ trim_front ps r" by simp
    then show ?thesis using r by (subst trim_front.simps) auto
  qed
qed

lemma trim_space_Nil [simp]: "trim_space [] = []"
  by (simp add: trim_space_def trim_front_fix drop_first_of_None go_spaces_def)

text \<open>A text that starts and ends in a printable ASCII character other than a space is kept.\<close>

definition plain_char :: "char \<Rightarrow> bool" where
  "plain_char c \<longleftrightarrow> of_char c \<in> {33..126 :: nat}"

lemma plain_byte: "plain_char (byte n) \<longleftrightarrow> 33 \<le> n mod 256 \<and> n mod 256 \<le> 126"
  by (simp add: plain_char_def)

lemma go_spaces_ends:
  "list_all (\<lambda>p. p \<noteq> [] \<and> \<not> plain_char (hd p) \<and> \<not> plain_char (last p)) go_spaces"
  unfolding go_spaces_def list.map append.simps list.pred_inject list.sel last.simps plain_byte
  by (simp only: list.distinct if_False if_True refl simp_thms plain_byte) simp

lemma trim_space_plain:
  assumes "plain_char (hd s)" "plain_char (last s)" "s \<noteq> []"
  shows "trim_space s = s"
proof -
  have ends: "p \<noteq> [] \<and> hd p \<noteq> hd s \<and> last p \<noteq> last s" if "p \<in> set go_spaces" for p
    using go_spaces_ends that assms(1,2) by (auto simp: list_all_iff)
  have "drop_first_of go_spaces s = None"
    unfolding drop_first_of_None using ends by (metis hd_append2)
  moreover have "drop_first_of (map rev go_spaces) (rev s) = None"
  proof -
    have "rev s \<noteq> rev p @ r" if p: "p \<in> set go_spaces" for p r
    proof
      assume "rev s = rev p @ r"
      then have "s = rev r @ p" by (metis rev_append rev_rev_ident)
      with ends [OF p] show False by (metis last_appendR)
    qed
    then show ?thesis by (auto simp: drop_first_of_None)
  qed
  ultimately show ?thesis by (simp add: trim_space_def trim_front_fix)
qed

text \<open>
  \<open>strings.ToLower\<close> and \<open>strings.EqualFold\<close>: ASCII letters are mapped bytewise; what the Unicode
  tables say of strings with bytes above 127 comes in as a parameter.
\<close>

definition ascii :: "string \<Rightarrow> bool" where
  "ascii s \<longleftrightarrow> (\<forall>c\<in>set s. of_char c < (128 :: nat))"

definition lower_char :: "char \<Rightarrow> char" where
  "lower_char c = (let n = of_char c :: nat in if 65 \<le> n \<and> n \<le> 90 then char_of (n + 32) else c)"

definition to_lower :: "(string \<Rightarrow> string) \<Rightarrow> string \<Rightarrow> string" where
  "to_lower uni s = (if ascii s then map lower_char s else uni s)"

definition equal_fold :: "(string \<Rightarrow> string \<Rightarrow> bool) \<Rightarrow> string \<Rightarrow> string \<Rightarrow> bool" where
  "equal_fold uni s t =
     (if ascii s \<and> ascii t then map lower_char s = map lower_char t else uni s t)"

text \<open>Bytewise comparison of strings, Go's \<open><\<close>.\<close>

fun str_less :: "string \<Rightarrow> string \<Rightarrow> bool" where
  "str_less s [] = False"
| "str_less [] (d # ds) = True"
| "str_less (c # cs) (d # ds) =
     ((of_char c :: nat) < of_char d \<or> c = d \<and> str_less cs ds)"

lemma str_less_irrefl [simp]: "\<not> str_less s s"
  by (induction s) auto

lemma str_less_trans: "str_less s t \<Longrightarrow> str_less t u \<Longrightarrow> str_less s u"
proof (induction s t arbitrary: u rule: str_less.induct)
  case (2 d ds)
  then show ?case by (cases u) auto
next
  case (3 c cs d ds)
  then show ?case by (cases u) auto
qed simp

lemma str_less_linear: "str_less s t \<or> s = t \<or> str_less t s"
proof (induction s t rule: str_less.induct)
  case (1 s)
  then show ?case by (cases s) auto
next
  case (3 c cs d ds)
  then show ?case by (auto simp: not_less dest!: le_neq_implies_less)
qed simp

text \<open>\<open>strings.Split\<close> at a byte, \<open>strings.Join\<close>, \<open>strings.TrimSuffix\<close> of one byte.\<close>

fun split_at_byte :: "char \<Rightarrow> string \<Rightarrow> string list" where
  "split_at_byte c [] = [[]]"
| "split_at_byte c (d # ds) =
     (if d = c then [] # split_at_byte c ds
      else case split_at_byte c ds of [] \<Rightarrow> [[d]] | x # xs \<Rightarrow> (d # x) # xs)"

fun join_with :: "string \<Rightarrow> string list \<Rightarrow> string" where
  "join_with sep [] = []"
| "join_with sep [s] = s"
| "join_with sep (s # t # ts) = s @ sep @ join_with sep (t # ts)"

definition trim_suffix_byte :: "char \<Rightarrow> string \<Rightarrow> string" where
  "trim_suffix_byte c s = (if s \<noteq> [] \<and> last s = c then butlast s else s)"

text \<open>
  \<open>textproto.CanonicalMIMEHeaderKey\<close>: a key of token bytes gets an upper case letter at its start
  and after each hyphen, lower case elsewhere; any other key is returned unchanged.
\<close>

definition token_byte :: "char \<Rightarrow> bool" where
  "token_byte c = (let n = of_char c :: nat in
     48 \<le> n \<and> n \<le> 57 \<or> 65 \<le> n \<and> n \<le> 90 \<or> 97 \<le> n \<and> n \<le> 122
     \<or> n \<in> {33, 35, 36, 37, 38, 39, 42, 43, 45, 46, 94, 95, 96, 124, 126})"

definition upper_char :: "char \<Rightarrow> char" where
  "upper_char c = (let n = of_char c :: nat in if 97 \<le> n \<and> n \<le> 122 then char_of (n - 32) else c)"

fun canonical_bytes :: "bool \<Rightarrow> string \<Rightarrow> string" where
  "canonical_bytes upper [] = []"
| "canonical_bytes upper (c # cs) =
     (if upper then upper_char c else lower_char c) # canonical_bytes (c = CHR ''-'') cs"

definition canonical_header_key :: "string \<Rightarrow> string" where
  "canonical_header_key s = (if list_all token_byte s then canonical_bytes True s else s)"

section \<open>netip.Addr\<close>

text \<open>
  The zero \<open>Addr\<close>, an IPv4 address, an IPv6 address with its zone. Equality is Go's \<open>==\<close>: an
  IPv4 address and the IPv6 address it maps to differ.
\<close>

datatype addr = NoAddr | V4 "32 word" | V6 "128 word" string

definition addr_valid :: "addr \<Rightarrow> bool" where
  "addr_valid ip \<longleftrightarrow> ip \<noteq> NoAddr"

lemma addr_valid_simps [simp]:
  "\<not> addr_valid NoAddr" "addr_valid (V4 a)" "addr_valid (V6 b z)"
  by (simp_all add: addr_valid_def)

section \<open>Code outside the repository\<close>

text \<open>
  The functions the modelled code calls and that are not code of the repository, as one record of
  parameters: the xxh3 hashes, the public suffix list, the header name check of \<open>httpguts\<close>, and the parts of Go's library whose results
  are not spelled out here (regular expressions, JSON and URL parsing, address parsing and
  printing, Unicode tables, \<open>math.Exp\<close>). No theorem fixes them.
\<close>

record external =
  xxh3_string :: "string \<Rightarrow> 64 word"
  xxh3_128 :: "string \<Rightarrow> 64 word \<times> 64 word"
  math_exp :: "rat \<Rightarrow> rat"
  json_without_tag :: "string \<Rightarrow> string option"
  url_host :: "string \<Rightarrow> string option"
  etld_plus_one :: "string \<Rightarrow> string option"
  regex_compile :: "string \<Rightarrow> (string \<Rightarrow> bool) option"
  parse_addr :: "string \<Rightarrow> addr option"
  addr_string :: "addr \<Rightarrow> string"
  uni_lower :: "string \<Rightarrow> string"
  uni_fold :: "string \<Rightarrow> string \<Rightarrow> bool"
  valid_header_name :: "string \<Rightarrow> bool"

text \<open>A concrete instance, for evaluating the model on examples.\<close>

definition plain_external :: external where
  "plain_external = \<lparr>
     xxh3_string = (\<lambda>s. of_nat (foldl (\<lambda>a c. 257 * a + of_char c + 1) 0 s)),
     xxh3_128 = (\<lambda>s. (of_nat (length s), 7)),
     math_exp = (\<lambda>x. 1 / 2),
     json_without_tag = (\<lambda>s. Some s),
     url_host = (\<lambda>s. None),
     etld_plus_one = (\<lambda>s. None),
     regex_compile = (\<lambda>p. Some (\<lambda>s. p = s)),
     parse_addr = (\<lambda>s. if s = [] then None else Some (V4 (of_nat (length s)))),
     addr_string = (\<lambda>a. case a of V4 n \<Rightarrow> replicate (unat n) (CHR ''1'') | _ \<Rightarrow> []),
     uni_lower = (\<lambda>s. s),
     uni_fold = (\<lambda>s t. s = t),
     valid_header_name = (\<lambda>s. s \<noteq> [] \<and> CHR '' '' \<notin> set s)\<rparr>"

end
