(* ===== verification/Latency_Table.thy ===== *)
theory Latency_Table
  imports Go_Std
begin

text \<open>
  \<open>internal/node/latency.go\<close>: the bounded per-domain latency table of a node. Authority domains
  live in a resident list, regular domains in a fixed number of slots, replaced by least recent
  access. The lemmas show that the table refines a finite map from domain keys to statistics, that
  the number of regular slots never changes, and what an update evicts.
\<close>

section \<open>Data\<close>

record domain_stats =
  ewma :: int
  last_updated :: int

record latency_slot =
  s_key :: "64 word"
  s_domain :: string
  s_stats :: domain_stats
  s_last_access :: int
  s_occupied :: bool

record latency_table =
  authorities :: "latency_slot list"
  regular :: "latency_slot list"

definition zero_stats :: domain_stats where
  "zero_stats = \<lparr>ewma = 0, last_updated = 0\<rparr>"

definition empty_slot :: latency_slot where
  "empty_slot = \<lparr>s_key = 0, s_domain = [], s_stats = zero_stats, s_last_access = 0,
     s_occupied = False\<rparr>"

definition latency_read_touch_min_interval :: int where
  "latency_read_touch_min_interval = 100000000"

text \<open>\<open>NewLatencyTable\<close> panics on a non-positive bound: \<open>None\<close>.\<close>

definition new_latency_table :: "int \<Rightarrow> latency_table option" where
  "new_latency_table max_entries =
     (if max_entries \<le> 0 then None
      else Some \<lparr>authorities = [], regular = replicate (nat max_entries) empty_slot\<rparr>)"

definition domain_key :: "external \<Rightarrow> string \<Rightarrow> 64 word" where
  "domain_key X domain = xxh3_string X domain"

section \<open>Operations\<close>

definition total_size :: "latency_table \<Rightarrow> nat" where
  "total_size t =
     length (filter s_occupied (authorities t)) + length (filter s_occupied (regular t))"

text \<open>\<open>deleteLatencySlot\<close> closes the gap at an index, and ignores an index out of range.\<close>

definition delete_latency_slot :: "latency_slot list \<Rightarrow> nat \<Rightarrow> latency_slot list" where
  "delete_latency_slot slots idx =
     (if idx \<ge> length slots then slots else take idx slots @ drop (Suc idx) slots)"

definition holds_key :: "64 word \<Rightarrow> latency_slot \<Rightarrow> bool" where
  "holds_key key s \<longleftrightarrow> s_occupied s \<and> s_key s = key"

definition pop_domain :: "64 word \<Rightarrow> latency_table \<Rightarrow> latency_table \<times> domain_stats \<times> bool" where
  "pop_domain key t =
     (case find_index (holds_key key) (authorities t) of
        Some i \<Rightarrow> (t\<lparr>authorities := delete_latency_slot (authorities t) i\<rparr>,
                   s_stats (authorities t ! i), True)
      | None \<Rightarrow>
         (case find_index (holds_key key) (regular t) of
            Some i \<Rightarrow> (t\<lparr>regular := (regular t)[i := empty_slot]\<rparr>,
                       s_stats (regular t ! i), True)
          | None \<Rightarrow> (t, zero_stats, False)))"

definition mk_slot :: "64 word \<Rightarrow> string \<Rightarrow> domain_stats \<Rightarrow> int \<Rightarrow> latency_slot" where
  "mk_slot key domain stats access_ns =
     \<lparr>s_key = key, s_domain = domain, s_stats = stats, s_last_access = access_ns,
      s_occupied = True\<rparr>"

definition upsert_authority ::
  "64 word \<Rightarrow> string \<Rightarrow> domain_stats \<Rightarrow> int \<Rightarrow> latency_table \<Rightarrow> latency_table" where
  "upsert_authority key domain stats access_ns t =
     t\<lparr>authorities := authorities t @ [mk_slot key domain stats access_ns]\<rparr>"

text \<open>
  The scan of \<open>upsertRegularLocked\<close>: the first free slot, and the first occupied slot with the
  smallest access time, with that time.
\<close>

fun scan_regular ::
  "nat \<Rightarrow> latency_slot list \<Rightarrow> nat option \<times> (nat \<times> int) option
     \<Rightarrow> nat option \<times> (nat \<times> int) option" where
  "scan_regular i [] acc = acc"
| "scan_regular i (s # ss) (empty_idx, oldest) =
     (if \<not> s_occupied s
      then scan_regular (Suc i) ss (if empty_idx = None then Some i else empty_idx, oldest)
      else scan_regular (Suc i) ss (empty_idx,
             case oldest of
               None \<Rightarrow> Some (i, s_last_access s)
             | Some (j, a) \<Rightarrow> if s_last_access s < a then Some (i, s_last_access s)
                            else Some (j, a)))"

definition upsert_regular ::
  "64 word \<Rightarrow> string \<Rightarrow> domain_stats \<Rightarrow> int \<Rightarrow> latency_table \<Rightarrow> latency_table \<times> string option" where
  "upsert_regular key domain stats access_ns t =
     (case scan_regular 0 (regular t) (None, None) of
        (Some i, _) \<Rightarrow>
          (t\<lparr>regular := (regular t)[i := mk_slot key domain stats access_ns]\<rparr>, None)
      | (None, Some (i, _)) \<Rightarrow>
          (t\<lparr>regular := (regular t)[i := mk_slot key domain stats access_ns]\<rparr>,
           Some (s_domain (regular t ! i)))
      | (None, None) \<Rightarrow> (t, None))"

definition td_ewma_update ::
  "external \<Rightarrow> domain_stats \<Rightarrow> bool \<Rightarrow> int \<Rightarrow> int \<Rightarrow> int \<Rightarrow> domain_stats" where
  "td_ewma_update X old found latency decay_window now =
     (if \<not> found then \<lparr>ewma = latency, last_updated = now\<rparr>
      else let dt = dur_seconds (time_sub now (last_updated old));
               decay = (if dur_seconds decay_window \<le> 0 then 1 else dur_seconds decay_window);
               weight = math_exp X (f64 (- dt / decay));
               new = f64 (f64 (f64_of_int (ewma old) * weight)
                          + f64 (f64_of_int latency * f64 (1 - weight)))
           in \<lparr>ewma = int_of_f64 new, last_updated = now\<rparr>)"

text \<open>
  \<open>UpdateClassified\<close> returns the table, whether it was empty, and the evicted domain.
\<close>

definition update_classified ::
  "external \<Rightarrow> string \<Rightarrow> int \<Rightarrow> int \<Rightarrow> bool \<Rightarrow> int \<Rightarrow> latency_table
     \<Rightarrow> latency_table \<times> bool \<times> string option" where
  "update_classified X domain latency decay_window is_authority now t =
     (let key = domain_key X domain;
          was_empty = (total_size t = 0);
          (t1, old, found) = pop_domain key t;
          stats = td_ewma_update X old found latency decay_window now
      in if is_authority then (upsert_authority key domain stats now t1, was_empty, None)
         else let (t2, evicted) = upsert_regular key domain stats now t1
              in (t2, was_empty, evicted))"

text \<open>\<open>Update\<close>: an unclassified observation goes to the regular partition.\<close>

definition latency_update ::
  "external \<Rightarrow> string \<Rightarrow> int \<Rightarrow> int \<Rightarrow> int \<Rightarrow> latency_table \<Rightarrow> latency_table \<times> bool" where
  "latency_update X domain latency decay_window now t =
     (case update_classified X domain latency decay_window False now t of
        (t', was_empty, _) \<Rightarrow> (t', was_empty))"

text \<open>A read refreshes the access time of the slot it hits, at most every 100 ms.\<close>

definition touch_slot :: "int \<Rightarrow> latency_slot \<Rightarrow> latency_slot" where
  "touch_slot now s =
     (if i64 (now - s_last_access s) \<ge> latency_read_touch_min_interval
      then s\<lparr>s_last_access := now\<rparr> else s)"

definition get_domain_stats ::
  "external \<Rightarrow> string \<Rightarrow> int \<Rightarrow> latency_table \<Rightarrow> latency_table \<times> domain_stats option" where
  "get_domain_stats X domain now t =
     (let key = domain_key X domain in
      case find_index (holds_key key) (authorities t) of
        Some i \<Rightarrow> (t\<lparr>authorities := (authorities t)[i := touch_slot now (authorities t ! i)]\<rparr>,
                   Some (s_stats (authorities t ! i)))
      | None \<Rightarrow>
         (case find_index (holds_key key) (regular t) of
            Some i \<Rightarrow> (t\<lparr>regular := (regular t)[i := touch_slot now (regular t ! i)]\<rparr>,
                       Some (s_stats (regular t ! i)))
          | None \<Rightarrow> (t, None)))"

text \<open>\<open>LoadEntryClassified\<close>: bootstrap recovery, without averaging.\<close>

definition load_entry_classified ::
  "external \<Rightarrow> string \<Rightarrow> domain_stats \<Rightarrow> bool \<Rightarrow> int \<Rightarrow> latency_table
     \<Rightarrow> latency_table \<times> string option" where
  "load_entry_classified X domain stats is_authority now t =
     (let key = domain_key X domain;
          access_ns = (if i64 (last_updated stats) \<le> 0 then now else i64 (last_updated stats));
          (t1, _, _) = pop_domain key t
      in if is_authority then (upsert_authority key domain stats access_ns t1, None)
         else upsert_regular key domain stats access_ns t1)"

definition load_entry ::
  "external \<Rightarrow> string \<Rightarrow> domain_stats \<Rightarrow> int \<Rightarrow> latency_table \<Rightarrow> latency_table" where
  "load_entry X domain stats now t = fst (load_entry_classified X domain stats False now t)"

text \<open>\<open>Range\<close> walks a snapshot: the occupied authority slots, then the occupied regular slots.\<close>

definition range_entries :: "latency_table \<Rightarrow> (string \<times> domain_stats) list" where
  "range_entries t =
     map (\<lambda>s. (s_domain s, s_stats s))
       (filter s_occupied (authorities t) @ filter s_occupied (regular t))"

section \<open>The table as a finite map\<close>

definition slot_map :: "latency_slot list \<Rightarrow> 64 word \<rightharpoonup> latency_slot" where
  "slot_map ss = map_of (map (\<lambda>s. (s_key s, s)) (filter s_occupied ss))"

definition slot_keys :: "latency_slot list \<Rightarrow> 64 word list" where
  "slot_keys ss = map s_key (filter s_occupied ss)"

definition table_map :: "latency_table \<Rightarrow> 64 word \<rightharpoonup> latency_slot" where
  "table_map t = slot_map (authorities t @ regular t)"

text \<open>
  The invariant: a key occupies one slot at most, over both partitions, and every authority slot
  is occupied.
\<close>

definition table_ok :: "latency_table \<Rightarrow> bool" where
  "table_ok t \<longleftrightarrow> distinct (slot_keys (authorities t @ regular t))
     \<and> (\<forall>s\<in>set (authorities t). s_occupied s)"

lemma slot_keys_simps [simp]:
  "slot_keys [] = []"
  "slot_keys (s # ss) = (if s_occupied s then s_key s # slot_keys ss else slot_keys ss)"
  "slot_keys (ss @ ts) = slot_keys ss @ slot_keys ts"
  by (simp_all add: slot_keys_def)

lemma slot_map_simps [simp]:
  "slot_map [] = Map.empty"
  "slot_map (s # ss) = (if s_occupied s then (slot_map ss)(s_key s \<mapsto> s) else slot_map ss)"
  "slot_map (ss @ ts) = slot_map ts ++ slot_map ss"
  by (simp_all add: slot_map_def)

lemma slot_map_None: "slot_map ss k = None \<longleftrightarrow> k \<notin> set (slot_keys ss)"
  by (induction ss) auto

lemma slot_map_free [simp]: "k \<notin> set (slot_keys ss) \<Longrightarrow> slot_map ss k = None"
  by (simp add: slot_map_None)

lemma slot_map_Some: "slot_map ss k = Some s \<Longrightarrow> s \<in> set ss \<and> s_occupied s \<and> s_key s = k"
  by (induction ss) (auto split: if_splits)

lemma empty_slot_free [simp]: "\<not> s_occupied empty_slot"
  by (simp add: empty_slot_def)

lemma mk_slot_simps [simp]:
  "s_occupied (mk_slot k d st a)" "s_key (mk_slot k d st a) = k"
  "s_domain (mk_slot k d st a) = d" "s_stats (mk_slot k d st a) = st"
  "s_last_access (mk_slot k d st a) = a"
  by (simp_all add: mk_slot_def)

text \<open>Replacing one slot of a list: the one lemma the operations rest on.\<close>

lemma slot_map_replace:
  assumes "distinct (slot_keys (a @ s # b))"
    and "s_occupied v \<Longrightarrow> s_key v \<notin> set (slot_keys (a @ b))"
  shows "slot_map (a @ v # b) =
      (let m = (if s_occupied s then (slot_map (a @ s # b))(s_key s := None)
                else slot_map (a @ s # b))
       in if s_occupied v then m(s_key v \<mapsto> v) else m)"
  using assms by (auto simp: Let_def fun_eq_iff map_add_def split: option.splits)

lemma slot_map_remove:
  assumes "distinct (slot_keys (a @ s # b))" "s_occupied s"
  shows "slot_map (a @ b) = (slot_map (a @ s # b))(s_key s := None)"
  using assms by (auto simp: fun_eq_iff map_add_def split: option.splits)

lemma split_at: "i < length xs \<Longrightarrow> xs = take i xs @ xs ! i # drop (Suc i) xs"
  by (rule id_take_nth_drop)

section \<open>What the operations do to the map\<close>

lemma find_key_hit:
  assumes "find_index (holds_key k) ss = Some i" "distinct (slot_keys ss)"
  shows "slot_map ss k = Some (ss ! i)"
proof -
  from find_index_Some [OF assms(1)] have i: "i < length ss" "holds_key k (ss ! i)" by auto
  from assms(2) split_at [OF i(1)]
  have "distinct (slot_keys (take i ss @ ss ! i # drop (Suc i) ss))" by simp
  with i(2) have "slot_map (take i ss @ ss ! i # drop (Suc i) ss) k = Some (ss ! i)"
    by (auto simp: holds_key_def map_add_def split: option.splits)
  with split_at [OF i(1)] show ?thesis by simp
qed

lemma find_key_miss: "find_index (holds_key k) ss = None \<Longrightarrow> k \<notin> set (slot_keys ss)"
  by (auto simp: find_index_None holds_key_def slot_keys_def)

lemma slot_map_update_at:
  assumes "i < length ss" "distinct (slot_keys ss)" "s_occupied (ss ! i)"
    and "\<not> s_occupied v \<or> s_key v = s_key (ss ! i)"
  shows "distinct (slot_keys (ss[i := v]))"
    and "slot_map (ss[i := v]) =
      (slot_map ss)(s_key (ss ! i) := (if s_occupied v then Some v else None))"
    and "set (slot_keys (ss[i := v])) \<subseteq> set (slot_keys ss)"
proof -
  let ?a = "take i ss" and ?b = "drop (Suc i) ss"
  have d: "distinct (slot_keys (?a @ ss ! i # ?b))"
    using assms(2) split_at [OF assms(1)] by simp
  have upd: "ss[i := v] = ?a @ v # ?b" by (rule upd_conv_take_nth_drop [OF assms(1)])
  show "distinct (slot_keys (ss[i := v]))" using d assms(3,4) unfolding upd by auto
  have "slot_map (?a @ v # ?b) = (slot_map (?a @ ss ! i # ?b))
      (s_key (ss ! i) := (if s_occupied v then Some v else None))"
    using d assms(3,4) by (subst slot_map_replace [OF d]) (auto simp: Let_def)
  then show "slot_map (ss[i := v]) =
      (slot_map ss)(s_key (ss ! i) := (if s_occupied v then Some v else None))"
    unfolding upd split_at [OF assms(1), symmetric] .
  have "set (slot_keys (?a @ v # ?b)) \<subseteq> set (slot_keys (?a @ ss ! i # ?b))"
    using assms(3,4) by auto
  then show "set (slot_keys (ss[i := v])) \<subseteq> set (slot_keys ss)"
    unfolding upd split_at [OF assms(1), symmetric] .
qed

lemma delete_latency_slot_at:
  assumes "i < length ss" "distinct (slot_keys ss)" "s_occupied (ss ! i)"
  shows "distinct (slot_keys (delete_latency_slot ss i))"
    and "slot_map (delete_latency_slot ss i) = (slot_map ss)(s_key (ss ! i) := None)"
    and "set (slot_keys (delete_latency_slot ss i)) \<subseteq> set (slot_keys ss)"
    and "set (delete_latency_slot ss i) \<subseteq> set ss"
proof -
  let ?a = "take i ss" and ?b = "drop (Suc i) ss"
  have d: "distinct (slot_keys (?a @ ss ! i # ?b))"
    using assms(2) split_at [OF assms(1)] by simp
  have del: "delete_latency_slot ss i = ?a @ ?b"
    using assms(1) by (simp add: delete_latency_slot_def)
  show "distinct (slot_keys (delete_latency_slot ss i))" using d assms(3) unfolding del by auto
  have "slot_map (?a @ ?b) = (slot_map (?a @ ss ! i # ?b))(s_key (ss ! i) := None)"
    by (rule slot_map_remove [OF d assms(3)])
  then show "slot_map (delete_latency_slot ss i) = (slot_map ss)(s_key (ss ! i) := None)"
    unfolding del split_at [OF assms(1), symmetric] .
  have "set (slot_keys (?a @ ?b)) \<subseteq> set (slot_keys (?a @ ss ! i # ?b))" by auto
  then show "set (slot_keys (delete_latency_slot ss i)) \<subseteq> set (slot_keys ss)"
    unfolding del split_at [OF assms(1), symmetric] .
  show "set (delete_latency_slot ss i) \<subseteq> set ss"
    unfolding del by (auto dest: in_set_takeD in_set_dropD)
qed

lemma table_map_parts: "table_map t = slot_map (regular t) ++ slot_map (authorities t)"
  by (simp add: table_map_def)

lemma table_ok_parts:
  "table_ok t \<longleftrightarrow> distinct (slot_keys (authorities t)) \<and> distinct (slot_keys (regular t))
     \<and> set (slot_keys (authorities t)) \<inter> set (slot_keys (regular t)) = {}
     \<and> (\<forall>s\<in>set (authorities t). s_occupied s)"
  by (auto simp: table_ok_def)

lemma table_map_None:
  "table_map t k = None \<longleftrightarrow>
     k \<notin> set (slot_keys (authorities t)) \<and> k \<notin> set (slot_keys (regular t))"
  by (auto simp: table_map_parts slot_map_None)

lemma map_add_at: "(f ++ g) k = (case g k of None \<Rightarrow> f k | Some v \<Rightarrow> Some v)"
  by (simp add: map_add_def)

lemma map_add_upd_right:
  "k \<notin> dom f \<Longrightarrow> f ++ (g(k := None)) = (f ++ g)(k := None)"
  by (auto simp: map_add_def fun_eq_iff split: option.splits)

lemma map_add_upd_left:
  "k \<notin> dom g \<Longrightarrow> (f(k := w)) ++ g = (f ++ g)(k := w)"
  by (auto simp: map_add_def fun_eq_iff domIff split: option.splits)

lemma pop_domain_spec:
  assumes "table_ok t"
  shows "table_ok (fst (pop_domain key t))"
    and "table_map (fst (pop_domain key t)) = (table_map t)(key := None)"
    and "snd (pop_domain key t) =
      (case table_map t key of Some s \<Rightarrow> (s_stats s, True) | None \<Rightarrow> (zero_stats, False))"
    and "length (regular (fst (pop_domain key t))) = length (regular t)"
proof -
  note ok = assms [unfolded table_ok_parts]
  have "table_ok (fst (pop_domain key t)) \<and>
     table_map (fst (pop_domain key t)) = (table_map t)(key := None) \<and>
     snd (pop_domain key t) =
      (case table_map t key of Some s \<Rightarrow> (s_stats s, True) | None \<Rightarrow> (zero_stats, False)) \<and>
     length (regular (fst (pop_domain key t))) = length (regular t)"
  proof (cases "find_index (holds_key key) (authorities t)")
    case (Some i)
    note hit = find_key_hit [OF Some conjunct1 [OF ok]]
    from find_index_Some [OF Some]
    have i: "i < length (authorities t)" "s_occupied (authorities t ! i)"
        "s_key (authorities t ! i) = key"
      by (auto simp: holds_key_def)
    note del = delete_latency_slot_at [OF i(1) conjunct1 [OF ok] i(2), unfolded i(3)]
    have nr: "key \<notin> set (slot_keys (regular t))"
      using hit ok by (metis disjoint_iff slot_map_None option.distinct(1))
    then have "key \<notin> dom (slot_map (regular t))" by (simp add: domIff)
    with Some del hit ok show ?thesis
      by (auto simp: pop_domain_def table_ok_parts table_map_parts map_add_upd_right
          map_add_at [of _ _ key])
  next
    case None
    note na = find_key_miss [OF None]
    show ?thesis
    proof (cases "find_index (holds_key key) (regular t)")
      case (Some i)
      have dr: "distinct (slot_keys (regular t))" using ok by blast
      note hit = find_key_hit [OF Some dr]
      from find_index_Some [OF Some]
      have i: "i < length (regular t)" "s_occupied (regular t ! i)"
          "s_key (regular t ! i) = key"
        by (auto simp: holds_key_def)
      note upd = slot_map_update_at [OF i(1) dr i(2), of empty_slot, unfolded i(3), simplified]
      from na have "key \<notin> dom (slot_map (authorities t))" by (simp add: domIff)
      with None Some upd hit ok na show ?thesis
        by (auto simp: pop_domain_def table_ok_parts table_map_parts map_add_upd_left
          map_add_at [of _ _ key])
    next
      case n: None
      note nr = find_key_miss [OF n]
      have "table_map t key = None" using na nr by (simp add: table_map_None)
      moreover from this have "(table_map t)(key := None) = table_map t"
        by (simp add: fun_upd_idem)
      ultimately show ?thesis using assms None n by (simp add: pop_domain_def)
    qed
  qed
  then show "table_ok (fst (pop_domain key t))"
    "table_map (fst (pop_domain key t)) = (table_map t)(key := None)"
    "snd (pop_domain key t) =
      (case table_map t key of Some s \<Rightarrow> (s_stats s, True) | None \<Rightarrow> (zero_stats, False))"
    "length (regular (fst (pop_domain key t))) = length (regular t)" by blast+
qed

subsection \<open>The eviction scan\<close>

definition oldest_of :: "latency_slot list \<Rightarrow> (nat \<times> int) option \<Rightarrow> bool" where
  "oldest_of ss r = (case r of
      None \<Rightarrow> \<forall>s\<in>set ss. \<not> s_occupied s
    | Some (j, a) \<Rightarrow> j < length ss \<and> s_occupied (ss ! j) \<and> s_last_access (ss ! j) = a
        \<and> (\<forall>s\<in>set ss. s_occupied s \<longrightarrow> a \<le> s_last_access s))"

lemma scan_regular_oldest:
  "oldest_of pre old \<Longrightarrow> oldest_of (pre @ ss) (snd (scan_regular (length pre) ss (em, old)))"
proof (induction ss arbitrary: pre em old)
  case (Cons s ss)
  let ?old = "if \<not> s_occupied s then old
     else case old of None \<Rightarrow> Some (length pre, s_last_access s)
          | Some (j, a) \<Rightarrow> if s_last_access s < a then Some (length pre, s_last_access s)
                         else Some (j, a)"
  from Cons.prems have "oldest_of (pre @ [s]) ?old"
    by (fastforce simp: oldest_of_def nth_append split: option.splits prod.splits)
  from Cons.IH [OF this] show ?case by (cases "s_occupied s") simp_all
qed simp

lemma scan_regular_empty:
  "fst (scan_regular i ss (em, old)) =
     (case em of Some e \<Rightarrow> Some e
      | None \<Rightarrow> map_option ((+) i) (find_index (\<lambda>s. \<not> s_occupied s) ss))"
  by (induction ss arbitrary: i em old)
    (auto simp: option.map_comp o_def fun_eq_iff intro!: option.map_cong split: option.splits)

lemma scan_regular_0:
  obtains old where "scan_regular 0 ss (None, None) =
      (find_index (\<lambda>s. \<not> s_occupied s) ss, old)" "oldest_of ss old"
proof -
  have "oldest_of [] None" by (simp add: oldest_of_def)
  from scan_regular_oldest [OF this, of ss None]
  have "oldest_of ss (snd (scan_regular 0 ss (None, None)))" by simp
  moreover have "fst (scan_regular 0 ss (None, None)) = find_index (\<lambda>s. \<not> s_occupied s) ss"
    by (simp add: scan_regular_empty option.map_ident cong: option.map_cong)
  ultimately show ?thesis using that by (metis prod.collapse)
qed

subsection \<open>Inserting a domain that has no slot\<close>

lemma upsert_authority_spec:
  assumes "table_ok t" "table_map t key = None"
  shows "table_ok (upsert_authority key d st a t)"
    and "table_map (upsert_authority key d st a t) = (table_map t)(key \<mapsto> mk_slot key d st a)"
  using assms
  by (auto simp: upsert_authority_def table_ok_parts table_map_parts slot_map_None map_add_def
      fun_eq_iff table_map_None split: option.splits)

text \<open>
  Which slot an insertion gives up: none while a slot is free, otherwise one with the smallest
  access time of the regular partition.
\<close>

definition victim :: "latency_table \<Rightarrow> latency_slot \<Rightarrow> bool" where
  "victim t v \<longleftrightarrow> (\<forall>s\<in>set (regular t). s_occupied s) \<and> v \<in> set (regular t)
     \<and> (\<forall>s\<in>set (regular t). s_last_access v \<le> s_last_access s)"

lemma upsert_regular_spec:
  assumes "table_ok t" "table_map t key = None" "regular t \<noteq> []"
    and up: "upsert_regular key d st a t = (t', ev)"
  shows "table_ok t' \<and> length (regular t') = length (regular t)
     \<and> authorities t' = authorities t
     \<and> ((ev = None \<and> table_map t' = (table_map t)(key \<mapsto> mk_slot key d st a))
        \<or> (\<exists>v. victim t v \<and> ev = Some (s_domain v)
             \<and> table_map t' = (table_map t)(s_key v := None, key \<mapsto> mk_slot key d st a)))"
proof -
  note ok = assms(1) [unfolded table_ok_parts]
  note new = assms(2) [unfolded table_map_None]
  obtain old where scan: "scan_regular 0 (regular t) (None, None) =
      (find_index (\<lambda>s. \<not> s_occupied s) (regular t), old)" "oldest_of (regular t) old"
    by (rule scan_regular_0)
  let ?v = "mk_slot key d st a"
  have keyd: "key \<notin> dom (slot_map (authorities t))" using new by (simp add: domIff)
  have put: "table_ok (t\<lparr>regular := (regular t)[i := ?v]\<rparr>) \<and>
      table_map (t\<lparr>regular := (regular t)[i := ?v]\<rparr>) =
        ((if s_occupied (regular t ! i) then (table_map t)(s_key (regular t ! i) := None)
          else table_map t)(key \<mapsto> ?v))" if i: "i < length (regular t)" for i
  proof -
    let ?a = "take i (regular t)" and ?b = "drop (Suc i) (regular t)" and ?s = "regular t ! i"
    have upd: "(regular t)[i := ?v] = ?a @ ?v # ?b" by (rule upd_conv_take_nth_drop [OF i])
    note cut = split_at [OF i]
    have d: "distinct (slot_keys (?a @ ?s # ?b))" using ok cut by simp
    have fresh: "key \<notin> set (slot_keys (?a @ ?s # ?b))"
      using new unfolding cut [symmetric] by blast
    have sub: "set (slot_keys (?a @ ?b)) \<subseteq> set (slot_keys (regular t))"
      by (subst (3) cut) auto
    have rest: "key \<notin> set (slot_keys (?a @ ?b))" using fresh by (auto split: if_splits)
    have map: "slot_map ((regular t)[i := ?v]) =
        ((if s_occupied ?s then (slot_map (regular t))(s_key ?s := None)
          else slot_map (regular t))(key \<mapsto> ?v))"
      using slot_map_replace [OF d, of ?v] rest
      unfolding upd cut [symmetric] Let_def mk_slot_simps by simp
    have "distinct (slot_keys ((regular t)[i := ?v]))"
      using d fresh unfolding upd by (auto split: if_splits)
    moreover have "set (slot_keys ((regular t)[i := ?v])) \<subseteq> insert key (set (slot_keys (regular t)))"
      using sub unfolding upd by auto
    moreover have "s_occupied ?s \<Longrightarrow> s_key ?s \<notin> dom (slot_map (authorities t))"
    proof -
      assume "s_occupied ?s"
      then have "s_key ?s \<in> set (slot_keys (regular t))" using i by (auto simp: slot_keys_def)
      then show ?thesis using ok by (auto simp: domIff slot_map_None)
    qed
    ultimately show ?thesis using ok new keyd map
      by (auto simp: table_ok_parts table_map_parts map_add_upd_left)
  qed
  show ?thesis
  proof (cases "find_index (\<lambda>s. \<not> s_occupied s) (regular t)")
    case (Some i)
    from find_index_Some [OF Some] have "i < length (regular t)" "\<not> s_occupied (regular t ! i)"
      by auto
    with put [of i] Some up scan show ?thesis by (auto simp: upsert_regular_def)
  next
    case None
    then have full: "\<forall>s\<in>set (regular t). s_occupied s" by (simp add: find_index_None)
    with assms(3) scan(2) obtain i a' where old: "old = Some (i, a')"
      by (cases old) (auto simp: oldest_of_def neq_Nil_conv)
    with scan(2) have i: "i < length (regular t)" and "victim t (regular t ! i)"
      using full by (auto simp: oldest_of_def victim_def)
    with put [of i] None up scan old full show ?thesis
      by (auto simp: upsert_regular_def)
  qed
qed

subsection \<open>The exported operations\<close>

text \<open>
  The effect of recording a value for a domain: the domain's slot is the new one; every other
  domain keeps its slot, but for the one a full regular partition gives up.
\<close>

definition recorded ::
  "latency_table \<Rightarrow> 64 word \<Rightarrow> latency_slot \<Rightarrow> bool \<Rightarrow> latency_table \<Rightarrow> string option \<Rightarrow> bool" where
  "recorded t key v is_authority t' ev \<longleftrightarrow>
     (ev = None \<and> table_map t' = (table_map t)(key \<mapsto> v))
     \<or> (\<not> is_authority \<and> (\<exists>w. victim (fst (pop_domain key t)) w \<and> ev = Some (s_domain w)
          \<and> s_key w \<noteq> key
          \<and> table_map t' = (table_map t)(s_key w := None, key \<mapsto> v)))"

lemma insert_after_pop:
  assumes "table_ok t" "regular t \<noteq> []"
    and "t1 = fst (pop_domain key t)"
    and ins: "(if is_authority then (upsert_authority key d st a t1, None)
               else upsert_regular key d st a t1) = (t', ev)"
  shows "table_ok t' \<and> length (regular t') = length (regular t)
    \<and> recorded t key (mk_slot key d st a) is_authority t' ev"
proof -
  note pop = pop_domain_spec [OF assms(1), of key, folded assms(3)]
  have free: "table_map t1 key = None" by (simp add: pop(2))
  have ne: "regular t1 \<noteq> []" using assms(2) pop(4) by (metis length_0_conv)
  show ?thesis
  proof (cases is_authority)
    case True
    with ins upsert_authority_spec [OF pop(1) free, of d st a] pop show ?thesis
      by (auto simp: recorded_def upsert_authority_def)
  next
    case False
    with ins have up: "upsert_regular key d st a t1 = (t', ev)" by simp
    from upsert_regular_spec [OF pop(1) free ne up] consider
        "ev = None" "table_map t' = (table_map t1)(key \<mapsto> mk_slot key d st a)"
      | w where "victim t1 w" "ev = Some (s_domain w)"
          "table_map t' = (table_map t1)(s_key w := None, key \<mapsto> mk_slot key d st a)"
      by blast
    then have "recorded t key (mk_slot key d st a) is_authority t' ev"
    proof cases
      case 1
      then show ?thesis by (simp add: recorded_def pop)
    next
      case 2
      then have "s_occupied w" "w \<in> set (regular t1)" by (auto simp: victim_def)
      then have "s_key w \<noteq> key" using free by (auto simp: table_map_None slot_keys_def)
      moreover have "table_map t' = (table_map t)(s_key w := None, key \<mapsto> mk_slot key d st a)"
        unfolding 2(3) pop(2) by (simp add: fun_eq_iff)
      ultimately show ?thesis using 2(1,2) False assms(3) unfolding recorded_def by blast
    qed
    with upsert_regular_spec [OF pop(1) free ne up] pop(4) show ?thesis by simp
  qed
qed

lemma update_classified_spec:
  assumes "table_ok t" "regular t \<noteq> []"
    and "update_classified X d lat w is_authority now t = (t', e, ev)"
  shows "table_ok t' \<and> length (regular t') = length (regular t)
    \<and> recorded t (domain_key X d)
        (mk_slot (domain_key X d) d
          (case table_map t (domain_key X d) of
             None \<Rightarrow> td_ewma_update X zero_stats False lat w now
           | Some s \<Rightarrow> td_ewma_update X (s_stats s) True lat w now) now)
        is_authority t' ev
    \<and> e = (total_size t = 0)"
proof -
  let ?k = "domain_key X d"
  let ?st = "case table_map t ?k of
             None \<Rightarrow> td_ewma_update X zero_stats False lat w now
           | Some s \<Rightarrow> td_ewma_update X (s_stats s) True lat w now"
  obtain t1 old found where pop: "pop_domain ?k t = (t1, old, found)"
    by (metis prod_cases3)
  have st: "td_ewma_update X old found lat w now = ?st"
    using pop_domain_spec(3) [OF assms(1), of ?k] pop by (auto split: option.splits)
  have "(if is_authority then (upsert_authority ?k d ?st now t1, None)
         else upsert_regular ?k d ?st now t1) = (t', ev)"
    using assms(3) pop st
    by (auto simp: update_classified_def Let_def split: if_splits prod.splits)
  moreover have "e = (total_size t = 0)"
    using assms(3) pop
    by (auto simp: update_classified_def Let_def split: if_splits prod.splits)
  ultimately show ?thesis
    using insert_after_pop [OF assms(1,2), of t1 ?k is_authority d ?st now t' ev] pop by simp
qed

lemma load_entry_classified_spec:
  assumes "table_ok t" "regular t \<noteq> []"
    and "load_entry_classified X d st is_authority now t = (t', ev)"
  shows "table_ok t' \<and> length (regular t') = length (regular t)"
proof -
  let ?k = "domain_key X d"
  let ?a = "if i64 (last_updated st) \<le> 0 then now else i64 (last_updated st)"
  obtain t1 p where pop: "pop_domain ?k t = (t1, p)" by (metis prod.exhaust)
  have "(if is_authority then (upsert_authority ?k d st ?a t1, None)
         else upsert_regular ?k d st ?a t1) = (t', ev)"
    using assms(3) pop by (auto simp: load_entry_classified_def Let_def split: prod.splits)
  with insert_after_pop [OF assms(1,2), of t1 ?k] pop show ?thesis by auto
qed

lemma touch_slot_simps [simp]:
  "s_key (touch_slot now s) = s_key s" "s_occupied (touch_slot now s) = s_occupied s"
  "s_stats (touch_slot now s) = s_stats s" "s_domain (touch_slot now s) = s_domain s"
  by (simp_all add: touch_slot_def)

lemma map_upd_same: "i < length xs \<Longrightarrow> f v = f (xs ! i) \<Longrightarrow> map f (xs[i := v]) = map f xs"
  by (simp add: map_update list_update_same_conv)

lemma slot_keys_map:
  "slot_keys xs = map snd (filter fst (map (\<lambda>s. (s_occupied s, s_key s)) xs))"
  by (induction xs) auto

lemma length_filter_map_id: "length (filter p xs) = length (filter id (map p xs))"
  by (induction xs) auto

lemma touch_at:
  assumes "i < length ss"
  shows "slot_keys (ss[i := touch_slot now (ss ! i)]) = slot_keys ss"
    and "length (filter s_occupied (ss[i := touch_slot now (ss ! i)]))
       = length (filter s_occupied ss)"
    and "map s_stats (ss[i := touch_slot now (ss ! i)]) = map s_stats ss"
  using assms
  by (simp_all only: slot_keys_map length_filter_map_id [of s_occupied], simp_all add: map_upd_same)

text \<open>A lookup finds the domain's statistics and changes no statistics.\<close>

lemma get_domain_stats_result:
  assumes "table_ok t"
  shows "snd (get_domain_stats X d now t) = map_option s_stats (table_map t (domain_key X d))"
proof -
  note ok = assms [unfolded table_ok_parts]
  let ?k = "domain_key X d"
  show ?thesis
  proof (cases "find_index (holds_key ?k) (authorities t)")
    case (Some i)
    from find_key_hit [OF Some conjunct1 [OF ok]] Some show ?thesis
      by (simp add: get_domain_stats_def Let_def table_map_parts map_add_at)
  next
    case None
    from find_key_miss [OF None] have na: "slot_map (authorities t) ?k = None" by simp
    show ?thesis
    proof (cases "find_index (holds_key ?k) (regular t)")
      case (Some i)
      from find_key_hit [OF Some] ok Some None na show ?thesis
        by (simp add: get_domain_stats_def Let_def table_map_parts map_add_at)
    next
      case n: None
      from find_key_miss [OF n] None n na show ?thesis
        by (simp add: get_domain_stats_def Let_def table_map_parts map_add_at)
    qed
  qed
qed

lemma get_domain_stats_size:
  "total_size (fst (get_domain_stats X d now t)) = total_size t"
  "length (regular (fst (get_domain_stats X d now t))) = length (regular t)"
  by (auto simp: get_domain_stats_def Let_def total_size_def touch_at
      dest: find_index_Some split: option.splits)

lemma set_upd_occupied:
  "i < length ss \<Longrightarrow> \<forall>s\<in>set ss. s_occupied s
     \<Longrightarrow> \<forall>s\<in>set (ss[i := touch_slot now (ss ! i)]). s_occupied s"
  by (metis in_set_conv_nth length_list_update nth_list_update_eq nth_list_update_neq
      touch_slot_simps(2))

lemma get_domain_stats_ok: "table_ok t \<Longrightarrow> table_ok (fst (get_domain_stats X d now t))"
  by (auto simp: get_domain_stats_def Let_def table_ok_parts
      touch_at(1) [OF find_index_Some [THEN conjunct1]]
      intro: set_upd_occupied [rule_format] dest: find_index_Some split: option.splits)

text \<open>A read refreshes at most one access time; what every domain maps to stays.\<close>

lemma get_domain_stats_frame:
  assumes "table_ok t"
  shows "map_option s_stats (table_map (fst (get_domain_stats X d now t)) k)
       = map_option s_stats (table_map t k)"
proof -
  have upd: "map_option s_stats (slot_map (ss[i := touch_slot now (ss ! i)]) k)
      = map_option s_stats (slot_map ss k)"
    if "find_index (holds_key q) ss = Some i" "distinct (slot_keys ss)" for q ss i
  proof -
    from find_index_Some [OF that(1)] have i: "i < length ss" "s_occupied (ss ! i)"
      by (auto simp: holds_key_def)
    moreover have "slot_map ss (s_key (ss ! i)) = Some (ss ! i)"
      using find_key_hit [OF that] find_index_Some [OF that(1)] by (auto simp: holds_key_def)
    ultimately show ?thesis
      using slot_map_update_at(2) [OF i(1) that(2) i(2), of "touch_slot now (ss ! i)"] by simp
  qed
  have add: "map_option s_stats ((f ++ g) k) =
      (case map_option s_stats (g k) of None \<Rightarrow> map_option s_stats (f k) | Some v \<Rightarrow> Some v)"
    for f g :: "64 word \<rightharpoonup> latency_slot"
    by (simp add: map_add_def split: option.splits)
  note ok = assms [unfolded table_ok_parts]
  let ?k = "domain_key X d"
  show ?thesis
  proof (cases "find_index (holds_key ?k) (authorities t)")
    case (Some i)
    from Some have "fst (get_domain_stats X d now t) =
        t\<lparr>authorities := (authorities t)[i := touch_slot now (authorities t ! i)]\<rparr>"
      by (simp add: get_domain_stats_def Let_def)
    with upd [OF Some conjunct1 [OF ok]] show ?thesis by (simp add: table_map_parts add)
  next
    case None
    show ?thesis
    proof (cases "find_index (holds_key ?k) (regular t)")
      case (Some i)
      from Some None have "fst (get_domain_stats X d now t) =
          t\<lparr>regular := (regular t)[i := touch_slot now (regular t ! i)]\<rparr>"
        by (simp add: get_domain_stats_def Let_def)
      with upd [OF Some] ok show ?thesis
        by (simp add: table_map_parts add split: option.splits)
    next
      case n: None
      with None show ?thesis by (simp add: get_domain_stats_def Let_def)
    qed
  qed
qed

section \<open>Every run of the table\<close>

datatype latency_op =
    Observe string int int bool int
  | Read_Stats string int
  | Recover string domain_stats bool int

fun latency_step :: "external \<Rightarrow> latency_op \<Rightarrow> latency_table \<Rightarrow> latency_table" where
  "latency_step X (Observe d lat w auth now) t = fst (update_classified X d lat w auth now t)"
| "latency_step X (Read_Stats d now) t = fst (get_domain_stats X d now t)"
| "latency_step X (Recover d st auth now) t = fst (load_entry_classified X d st auth now t)"

definition latency_inv :: "nat \<Rightarrow> latency_table \<Rightarrow> bool" where
  "latency_inv n t \<longleftrightarrow> table_ok t \<and> length (regular t) = n \<and> 0 < n"

interpretation lat: invariant_machine "latency_step X" "\<lambda>_. True" "latency_inv n" for X n
proof
  fix t :: latency_table and op :: latency_op
  assume "latency_inv n t"
  then have ok: "table_ok t" "regular t \<noteq> []" "length (regular t) = n" "0 < n"
    by (auto simp: latency_inv_def)
  show "latency_inv n (latency_step X op t)"
  proof (cases op)
    case (Observe d lat w auth now)
    obtain t' e ev where u: "update_classified X d lat w auth now t = (t', e, ev)"
      by (metis prod_cases3)
    from update_classified_spec [OF ok(1,2) u] ok u Observe show ?thesis
      by (simp add: latency_inv_def)
  next
    case (Read_Stats d now)
    with ok show ?thesis by (simp add: latency_inv_def get_domain_stats_ok get_domain_stats_size)
  next
    case (Recover d st auth now)
    obtain t' ev where u: "load_entry_classified X d st auth now t = (t', ev)"
      by (metis prod.exhaust)
    from load_entry_classified_spec [OF ok(1,2) u] ok u Recover show ?thesis
      by (simp add: latency_inv_def)
  qed
qed

lemma new_table_inv: "new_latency_table m = Some t \<Longrightarrow> latency_inv (nat m) t"
proof -
  have "slot_keys (replicate k empty_slot) = []" for k by (induction k) auto
  then show "new_latency_table m = Some t \<Longrightarrow> latency_inv (nat m) t"
    by (auto simp: new_latency_table_def latency_inv_def table_ok_def split: if_splits)
qed

lemma victim_regular:
  assumes "table_ok t" "victim (fst (pop_domain key t)) w"
  shows "victim t w"
proof -
  have "regular (fst (pop_domain key t)) = regular t"
  proof (rule ccontr)
    assume ne: "regular (fst (pop_domain key t)) \<noteq> regular t"
    then obtain i where i: "find_index (holds_key key) (regular t) = Some i"
      and eq: "regular (fst (pop_domain key t)) = (regular t)[i := empty_slot]"
      by (auto simp: pop_domain_def split: option.splits)
    from find_index_Some [OF i] have "empty_slot \<in> set ((regular t)[i := empty_slot])"
      by (simp add: set_update_memI)
    with assms(2) eq show False by (auto simp: victim_def)
  qed
  with assms(2) show ?thesis by (simp add: victim_def)
qed

lemma table_map_regular:
  assumes "table_ok t" "w \<in> set (regular t)" "s_occupied w"
  shows "table_map t (s_key w) = Some w"
proof -
  from assms(2) obtain a b where ab: "regular t = a @ w # b" by (meson split_list)
  with assms have "slot_map (regular t) (s_key w) = Some w"
    by (auto simp: table_ok_parts map_add_at split: option.splits)
  moreover have "s_key w \<in> set (slot_keys (regular t))"
    using assms(2,3) by (auto simp: slot_keys_def)
  then have "slot_map (authorities t) (s_key w) = None"
    using assms(1) by (auto simp: table_ok_parts slot_map_None)
  ultimately show ?thesis by (simp add: table_map_parts map_add_at)
qed

lemma total_size_pos: "0 < total_size t \<longleftrightarrow> (\<exists>k. table_map t k \<noteq> None)"
proof -
  have "total_size t = length (slot_keys (authorities t @ regular t))"
    by (simp add: total_size_def slot_keys_def)
  moreover have "(\<exists>k. table_map t k \<noteq> None) \<longleftrightarrow> set (slot_keys (authorities t @ regular t)) \<noteq> {}"
    by (simp only: table_map_def slot_map_None not_not ex_in_conv)
  ultimately show ?thesis by (simp only: length_greater_0_conv set_empty)
qed

text \<open>An update leaves a table that is not empty.\<close>

lemma update_classified_pos:
  assumes "table_ok t" "regular t \<noteq> []"
    and "update_classified X d lat w is_authority now t = (t', e, ev)"
  shows "0 < total_size t'"
  using update_classified_spec [OF assms]
  by (auto simp: total_size_pos recorded_def intro!: exI [of _ "domain_key X d"])

section \<open>Properties\<close>

text \<open>
  Whatever sequence of observations, reads and recoveries a new table goes through, it holds
  every domain key in one slot at most and never more regular entries than its bound: the memory
  of a node's latency table stays bounded, authority entries aside.
\<close>

lemma latency_table_bounded:
  assumes "new_latency_table m = Some t0"
  shows "table_ok (fold (latency_step X) ops t0)
    \<and> int (length (filter s_occupied (regular (fold (latency_step X) ops t0)))) \<le> m"
proof -
  have "latency_inv (nat m) (fold (latency_step X) ops t0)"
    by (rule lat.run_inv [OF new_table_inv [OF assms]]) (simp add: list_all_iff)
  then show ?thesis
    using length_filter_le [of s_occupied "regular (fold (latency_step X) ops t0)"]
    by (auto simp: latency_inv_def)
qed

text \<open>
  An update forgets no other domain, except that a regular update into a full regular
  partition evicts exactly one regular domain: one whose last access is the oldest, and that
  domain is reported as evicted. Authority domains are never evicted.
\<close>

lemma update_evicts_least_recent:
  assumes "table_ok t" "regular t \<noteq> []"
    and "update_classified X d lat w is_authority now t = (t', e, ev)"
    and "k \<noteq> domain_key X d" "table_map t k = Some s" "table_map t' k \<noteq> Some s"
  shows "\<not> is_authority \<and> ev = Some (s_domain s) \<and> s \<in> set (regular t)
    \<and> (\<forall>r\<in>set (regular t). s_occupied r \<and> s_last_access s \<le> s_last_access r)"
proof -
  from update_classified_spec [OF assms(1-3)] assms(4-6) obtain v
    where v: "\<not> is_authority" "victim (fst (pop_domain (domain_key X d) t)) v"
      "ev = Some (s_domain v)" "k = s_key v"
    by (auto simp: recorded_def split: if_splits)
  note vic = victim_regular [OF assms(1) v(2)]
  then have "table_map t k = Some v"
    using table_map_regular [OF assms(1), of v] v(4) by (auto simp: victim_def)
  with assms(5) v vic show ?thesis by (auto simp: victim_def)
qed

text \<open>
  What an update records, a later read of the same domain returns, whenever it happens: the
  raw latency for a domain without an entry, the decayed average of the old value and the new one
  otherwise.
\<close>

lemma update_then_read:
  assumes "table_ok t" "regular t \<noteq> []"
    and "update_classified X d lat w is_authority now t = (t', e, ev)"
  shows "snd (get_domain_stats X d later t') = Some
     (case snd (get_domain_stats X d now t) of
        None \<Rightarrow> \<lparr>ewma = lat, last_updated = now\<rparr>
      | Some old \<Rightarrow> td_ewma_update X old True lat w now)"
proof -
  note upd = update_classified_spec [OF assms]
  then have "table_map t' (domain_key X d) = Some (mk_slot (domain_key X d) d
      (case table_map t (domain_key X d) of
         None \<Rightarrow> td_ewma_update X zero_stats False lat w now
       | Some s \<Rightarrow> td_ewma_update X (s_stats s) True lat w now) now)"
    by (auto simp: recorded_def)
  with upd show ?thesis
    by (simp add: get_domain_stats_result assms(1) td_ewma_update_def split: option.splits)
qed

text \<open>A table with one regular slot: the second domain evicts the first.\<close>

definition one_slot_table :: latency_table where
  "one_slot_table = \<lparr>authorities = [], regular = [mk_slot 97 ''a'' zero_stats 5]\<rparr>"

lemma domain_key_plain: "domain_key plain_external ''b'' = 99"
  by (simp add: domain_key_def plain_external_def of_char_def)

lemma one_slot_update:
  "update_classified plain_external ''b'' 7 0 False 9 one_slot_table =
     (\<lparr>authorities = [],
       regular = [mk_slot 99 ''b'' \<lparr>ewma = 7, last_updated = 9\<rparr> 9]\<rparr>, False, Some ''a'')"
  by (simp add: update_classified_def domain_key_plain one_slot_table_def pop_domain_def
      holds_key_def td_ewma_update_def upsert_regular_def total_size_def Let_def)

lemma one_slot_ok: "table_ok one_slot_table" "regular one_slot_table \<noteq> []"
  by (simp_all add: table_ok_def one_slot_table_def)

end
