(* ===== verification/IP_Window.thy ===== *)
theory IP_Window
  imports Go_Std
begin

text \<open>
  \<open>internal/routing/ip_window.go\<close>: for every egress address, when each distinct account was last
  active on it, and the admission decisions of the per-address account quota. Every exported
  method runs under the window's mutex, so any interleaving of concurrent requests is a sequence
  of these operations; the quota bounds are invariants of all such sequences, with no assumption
  on the clock readings the operations carry.
\<close>

section \<open>Data\<close>

record window_entry =
  last_seen_ns :: int
  via_fallback :: bool

record ip_window =
  w_entries :: "(addr, (string, window_entry) amap) amap"
  blocked_total :: int
  fallback_total :: int

record account_entry =
  ae_account :: string
  ae_last_seen_ns :: int
  ae_via_fallback :: bool
  ae_has_lease :: bool

definition new_ip_window :: ip_window where
  "new_ip_window = \<lparr>w_entries = [], blocked_total = 0, fallback_total = 0\<rparr>"

text \<open>Reading \<open>w.entries[ip]\<close> of an absent address gives a nil map, which reads as empty.\<close>

definition accounts_of :: "ip_window \<Rightarrow> addr \<Rightarrow> (string, window_entry) amap" where
  "accounts_of w ip = (case m_load (w_entries w) ip of None \<Rightarrow> [] | Some m \<Rightarrow> m)"

definition set_accounts :: "addr \<Rightarrow> (string, window_entry) amap \<Rightarrow> ip_window \<Rightarrow> ip_window" where
  "set_accounts ip m w = w\<lparr>w_entries := m_store ip m (w_entries w)\<rparr>"

section \<open>Operations\<close>

definition touch_locked :: "addr \<Rightarrow> string \<Rightarrow> int \<Rightarrow> ip_window \<Rightarrow> ip_window" where
  "touch_locked ip account now w =
     (let m = accounts_of w ip in
      case m_load m account of
        None \<Rightarrow> set_accounts ip
          (m_store account \<lparr>last_seen_ns = now, via_fallback = False\<rparr> m) w
      | Some e \<Rightarrow> set_accounts ip (m_store account (e\<lparr>last_seen_ns := now\<rparr>) m) w)"

definition insert_locked :: "addr \<Rightarrow> string \<Rightarrow> int \<Rightarrow> bool \<Rightarrow> ip_window \<Rightarrow> ip_window" where
  "insert_locked ip account now fallback w =
     set_accounts ip
       (m_store account \<lparr>last_seen_ns = now, via_fallback = fallback\<rparr> (accounts_of w ip)) w"

definition live_accounts :: "int \<Rightarrow> (string, window_entry) amap \<Rightarrow> (string, window_entry) amap" where
  "live_accounts cutoff m = filter (\<lambda>(acc, e). \<not> last_seen_ns e \<le> cutoff) m"

text \<open>\<open>countLocked\<close> prunes the expired entries of one address and counts the others.\<close>

definition count_locked :: "addr \<Rightarrow> int \<Rightarrow> int \<Rightarrow> ip_window \<Rightarrow> ip_window \<times> int" where
  "count_locked ip now window_ns w =
     (case m_load (w_entries w) ip of
        None \<Rightarrow> (w, 0)
      | Some m \<Rightarrow>
          let m' = live_accounts (i64 (now - window_ns)) m
          in (if m' = [] then w\<lparr>w_entries := m_delete ip (w_entries w)\<rparr> else set_accounts ip m' w,
              int (length m')))"

definition touch :: "addr \<Rightarrow> string \<Rightarrow> int \<Rightarrow> ip_window \<Rightarrow> ip_window" where
  "touch ip account now w =
     (if \<not> addr_valid ip \<or> account = [] then w else touch_locked ip account now w)"

definition count_recent :: "addr \<Rightarrow> int \<Rightarrow> int \<Rightarrow> ip_window \<Rightarrow> ip_window \<times> int" where
  "count_recent ip now window_ns w = count_locked ip now window_ns w"

fun counts_loop ::
  "addr list \<Rightarrow> int \<Rightarrow> int \<Rightarrow> ip_window \<Rightarrow> (addr, int) amap \<Rightarrow> ip_window \<times> (addr, int) amap" where
  "counts_loop [] now window_ns w out = (w, out)"
| "counts_loop (ip # ips) now window_ns w out =
     (let (w', n) = count_locked ip now window_ns w
      in counts_loop ips now window_ns w' (if n > 0 then m_store ip n out else out))"

definition counts_by_ip :: "int \<Rightarrow> int \<Rightarrow> ip_window \<Rightarrow> ip_window \<times> (addr, int) amap" where
  "counts_by_ip now window_ns w = counts_loop (map fst (w_entries w)) now window_ns w []"

text \<open>\<open>AccountsByIP\<close> lists the accounts of an address in ascending order.\<close>

fun insert_by_account :: "account_entry \<Rightarrow> account_entry list \<Rightarrow> account_entry list" where
  "insert_by_account a [] = [a]"
| "insert_by_account a (b # bs) =
     (if str_less (ae_account a) (ae_account b) then a # b # bs else b # insert_by_account a bs)"

definition sort_by_account :: "account_entry list \<Rightarrow> account_entry list" where
  "sort_by_account as = foldr insert_by_account as []"

fun accounts_loop ::
  "addr list \<Rightarrow> int \<Rightarrow> int \<Rightarrow> ip_window \<Rightarrow> (addr, account_entry list) amap
     \<Rightarrow> ip_window \<times> (addr, account_entry list) amap" where
  "accounts_loop [] now window_ns w out = (w, out)"
| "accounts_loop (ip # ips) now window_ns w out =
     (let (w', n) = count_locked ip now window_ns w;
          accounts = map (\<lambda>(acc, e). \<lparr>ae_account = acc, ae_last_seen_ns = last_seen_ns e,
            ae_via_fallback = via_fallback e, ae_has_lease = False\<rparr>) (accounts_of w' ip)
      in accounts_loop ips now window_ns w'
           (if n > 0 then m_store ip (sort_by_account accounts) out else out))"

definition accounts_by_ip ::
  "int \<Rightarrow> int \<Rightarrow> ip_window \<Rightarrow> ip_window \<times> (addr, account_entry list) amap" where
  "accounts_by_ip now window_ns w = accounts_loop (map fst (w_entries w)) now window_ns w []"

definition reserve_if_eligible ::
  "addr \<Rightarrow> string \<Rightarrow> int \<Rightarrow> int \<Rightarrow> int \<Rightarrow> ip_window \<Rightarrow> ip_window \<times> bool" where
  "reserve_if_eligible ip account now window_ns mx w =
     (if \<not> addr_valid ip \<or> account = [] \<or> mx \<le> 0 then (w, True)
      else let (w1, count) = count_locked ip now window_ns w in
           if m_load (accounts_of w1 ip) account \<noteq> None
           then (touch_locked ip account now w1, True)
           else if count \<ge> mx
           then (w1\<lparr>blocked_total := i64 (blocked_total w1 + 1)\<rparr>, False)
           else (touch_locked ip account now w1, True))"

definition refresh_on_hit ::
  "addr \<Rightarrow> string \<Rightarrow> int \<Rightarrow> int \<Rightarrow> int \<Rightarrow> ip_window \<Rightarrow> ip_window \<times> bool" where
  "refresh_on_hit ip account now window_ns mx w =
     (if \<not> addr_valid ip \<or> account = [] \<or> mx \<le> 0 then (w, True)
      else let (w1, count) = count_locked ip now window_ns w in
           case m_load (accounts_of w1 ip) account of
             Some e \<Rightarrow> (set_accounts ip
               (m_store account (e\<lparr>last_seen_ns := now\<rparr>) (accounts_of w1 ip)) w1, True)
           | None \<Rightarrow>
               if count \<ge> i64 (mx + 1)
               then (w1\<lparr>blocked_total := i64 (blocked_total w1 + 1)\<rparr>, False)
               else let fallback = (count \<ge> mx);
                        w2 = (if fallback
                              then w1\<lparr>fallback_total := i64 (fallback_total w1 + 1)\<rparr> else w1)
                    in (insert_locked ip account now fallback w2, True))"

definition reserve_forced_fallback ::
  "addr \<Rightarrow> string \<Rightarrow> int \<Rightarrow> int \<Rightarrow> int \<Rightarrow> ip_window \<Rightarrow> ip_window \<times> bool" where
  "reserve_forced_fallback ip account now window_ns mx w =
     (if \<not> addr_valid ip \<or> account = [] then (w, True)
      else let (w1, count) = count_locked ip now window_ns w in
           if m_load (accounts_of w1 ip) account \<noteq> None
           then (touch_locked ip account now w1, True)
           else if count \<ge> i64 (mx + 1) then (w1, False)
           else let w2 = insert_locked ip account now True w1
                in (w2\<lparr>fallback_total := i64 (fallback_total w2 + 1)\<rparr>, True))"

definition prune :: "int \<Rightarrow> int \<Rightarrow> ip_window \<Rightarrow> ip_window" where
  "prune now window_ns w =
     w\<lparr>w_entries := filter (\<lambda>(ip, m). m \<noteq> [])
        (map (\<lambda>(ip, m). (ip, live_accounts (i64 (now - window_ns)) m)) (w_entries w))\<rparr>"

definition window_stats :: "ip_window \<Rightarrow> int \<times> int" where
  "window_stats w = (blocked_total w, fallback_total w)"

section \<open>Well-formed windows\<close>

definition window_ok :: "ip_window \<Rightarrow> bool" where
  "window_ok w \<longleftrightarrow> m_ok (w_entries w) \<and> (\<forall>ip m. m_load (w_entries w) ip = Some m \<longrightarrow> m_ok m)"

lemma window_ok_accounts: "window_ok w \<Longrightarrow> m_ok (accounts_of w ip)"
  by (auto simp: window_ok_def accounts_of_def split: option.splits)

lemma accounts_of_set [simp]:
  "accounts_of (set_accounts ip m w) jp = (if jp = ip then m else accounts_of w jp)"
  by (simp add: accounts_of_def set_accounts_def store_simps)

lemma accounts_of_totals [simp]:
  "accounts_of (w\<lparr>blocked_total := b\<rparr>) = accounts_of w"
  "accounts_of (w\<lparr>fallback_total := b\<rparr>) = accounts_of w"
  by (simp_all add: accounts_of_def fun_eq_iff)

lemma window_ok_totals [simp]:
  "window_ok (w\<lparr>blocked_total := b\<rparr>) = window_ok w"
  "window_ok (w\<lparr>fallback_total := b\<rparr>) = window_ok w"
  by (simp_all add: window_ok_def)

lemma window_ok_set: "window_ok w \<Longrightarrow> m_ok m \<Longrightarrow> window_ok (set_accounts ip m w)"
  by (auto simp: window_ok_def set_accounts_def store_simps)

lemma live_accounts_ok: "m_ok m \<Longrightarrow> m_ok (live_accounts c m)"
  by (auto simp: m_ok_def live_accounts_def distinct_map intro: inj_on_subset)

lemma live_accounts_lookup:
  "m_ok m \<Longrightarrow> m_load (live_accounts c m) a =
     (case m_load m a of None \<Rightarrow> None
      | Some e \<Rightarrow> if last_seen_ns e \<le> c then None else Some e)"
proof -
  assume ok: "m_ok m"
  have "(a, e) \<in> set (live_accounts c m) \<longleftrightarrow> (a, e) \<in> set m \<and> \<not> last_seen_ns e \<le> c" for e
    by (auto simp: live_accounts_def)
  then have iff: "m_load (live_accounts c m) a = Some e \<longleftrightarrow>
      m_load m a = Some e \<and> \<not> last_seen_ns e \<le> c" for e
    using ok live_accounts_ok [OF ok, of c] by (simp add: m_ok_mem)
  show ?thesis
    by (rule option_eqI, subst iff) (auto split: option.splits)
qed

text \<open>What counting does: it drops the expired accounts of the address and nothing else.\<close>

lemma count_locked_spec:
  assumes "window_ok w" "count_locked ip now win w = (w', n)"
  shows "window_ok w'"
    and "accounts_of w' jp = (if jp = ip then live_accounts (i64 (now - win)) (accounts_of w ip)
                              else accounts_of w jp)"
    and "n = int (length (accounts_of w' ip))"
    and "blocked_total w' = blocked_total w" "fallback_total w' = fallback_total w"
proof -
  have Nil: "live_accounts c [] = []" for c by (simp add: live_accounts_def)
  show "window_ok w'"
  proof (cases "m_load (w_entries w) ip")
    case (Some m)
    then have "m_ok m" using window_ok_accounts [OF assms(1), of ip] by (simp add: accounts_of_def)
    then have "m_ok (live_accounts (i64 (now - win)) m)" by (rule live_accounts_ok)
    with assms Some window_ok_set [OF assms(1), of _ ip] show ?thesis
      by (auto simp: count_locked_def Let_def window_ok_def store_simps split: if_splits)
  qed (use assms in \<open>simp add: count_locked_def\<close>)
  show acc: "accounts_of w' jp =
      (if jp = ip then live_accounts (i64 (now - win)) (accounts_of w ip) else accounts_of w jp)"
    for jp
    using assms(2)
    by (auto simp: count_locked_def Let_def accounts_of_def set_accounts_def store_simps Nil
        split: option.splits if_splits)
  show "n = int (length (accounts_of w' ip))"
    using assms(2) unfolding acc
    by (auto simp: count_locked_def Let_def accounts_of_def Nil split: option.splits)
  show "blocked_total w' = blocked_total w" "fallback_total w' = fallback_total w"
    using assms(2)
    by (auto simp: count_locked_def Let_def set_accounts_def split: option.splits if_splits)
qed

section \<open>Counting accounts\<close>

definition acct_count :: "(string \<Rightarrow> window_entry \<Rightarrow> bool) \<Rightarrow> (string, window_entry) amap \<Rightarrow> int" where
  "acct_count P m = int (card (keys_where P (m_load m)))"

abbreviation all_accounts :: "(string, window_entry) amap \<Rightarrow> int" where
  "all_accounts \<equiv> acct_count (\<lambda>_ _. True)"

abbreviation regular_accounts :: "(string, window_entry) amap \<Rightarrow> int" where
  "regular_accounts \<equiv> acct_count (\<lambda>_ e. \<not> via_fallback e)"

lemma all_accounts_length: "m_ok m \<Longrightarrow> all_accounts m = int (length m)"
  by (simp add: acct_count_def keys_where_def m_ok_length dom_def)

lemma acct_count_store:
  "acct_count P (m_store a e m) = acct_count P m - counted P a (m_load m a) + of_bool (P a e)"
  unfolding acct_count_def by (rule am.card_put)

lemma acct_count_live: "m_ok m \<Longrightarrow> acct_count P (live_accounts c m) \<le> acct_count P m"
  unfolding acct_count_def
  by (intro of_nat_mono card_mono finite_keys_where_map_of)
    (auto simp: keys_where_def live_accounts_lookup split: option.splits if_splits)

lemma acct_count_regular_le: "regular_accounts m \<le> all_accounts m"
  unfolding acct_count_def
  by (intro of_nat_mono card_mono finite_keys_where_map_of) (auto simp: keys_where_def)

lemma acct_count_Nil [simp]: "acct_count P [] = 0"
  by (simp add: acct_count_def keys_where_def)

section \<open>The quota invariant\<close>

text \<open>
  At most \<open>mx + 1\<close> accounts per address, and at most \<open>mx\<close> of them outside a fallback slot.
\<close>

definition within_quota :: "int \<Rightarrow> (string, window_entry) amap \<Rightarrow> bool" where
  "within_quota mx m \<longleftrightarrow> all_accounts m \<le> mx + 1 \<and> regular_accounts m \<le> mx"

definition quota_inv :: "int \<Rightarrow> ip_window \<Rightarrow> bool" where
  "quota_inv mx w \<longleftrightarrow> window_ok w \<and> (\<forall>ip. within_quota mx (accounts_of w ip))"

lemma quota_inv_totals [simp]:
  "quota_inv mx (w\<lparr>blocked_total := b\<rparr>) = quota_inv mx w"
  "quota_inv mx (w\<lparr>fallback_total := b\<rparr>) = quota_inv mx w"
  by (simp_all add: quota_inv_def)

lemma quota_inv_set:
  "quota_inv mx w \<Longrightarrow> m_ok m \<Longrightarrow> within_quota mx m \<Longrightarrow> quota_inv mx (set_accounts ip m w)"
  by (simp add: quota_inv_def window_ok_set)

lemma within_quota_live: "m_ok m \<Longrightarrow> within_quota mx m \<Longrightarrow> within_quota mx (live_accounts c m)"
  using acct_count_live [of m "\<lambda>_ _. True" c] acct_count_live [of m "\<lambda>_ e. \<not> via_fallback e" c]
  by (simp add: within_quota_def)

lemma count_locked_quota:
  assumes "quota_inv mx w" "count_locked ip now win w = (w', n)"
  shows "quota_inv mx w'" "n = all_accounts (accounts_of w' ip)"
proof -
  have ok: "window_ok w" using assms(1) by (simp add: quota_inv_def)
  note c = count_locked_spec [OF ok assms(2)]
  have "within_quota mx (live_accounts (i64 (now - win)) (accounts_of w ip))"
    using assms(1) window_ok_accounts [OF ok]
    by (intro within_quota_live) (simp_all add: quota_inv_def)
  with assms(1) c show "quota_inv mx w'" by (simp add: quota_inv_def)
  show "n = all_accounts (accounts_of w' ip)"
    using c(1,3) by (simp add: all_accounts_length window_ok_accounts)
qed

text \<open>Refreshing an account that is counted, and inserting one below the respective bound.\<close>

lemma quota_refresh:
  assumes "quota_inv mx w" "m_load (accounts_of w ip) a = Some e"
  shows "quota_inv mx (set_accounts ip
    (m_store a (e\<lparr>last_seen_ns := now\<rparr>) (accounts_of w ip)) w)"
  using assms
  by (intro quota_inv_set) (auto simp: quota_inv_def window_ok_accounts within_quota_def acct_count_store)

lemma quota_insert:
  assumes "quota_inv mx w" "m_load (accounts_of w ip) a = None"
    and "all_accounts (accounts_of w ip) < (if via_fallback e then mx + 1 else mx)"
  shows "quota_inv mx (set_accounts ip (m_store a e (accounts_of w ip)) w)"
  using assms acct_count_regular_le [of "accounts_of w ip"]
  by (intro quota_inv_set)
    (auto simp: quota_inv_def window_ok_accounts within_quota_def acct_count_store split: if_splits)

lemma touch_locked_quota:
  assumes "quota_inv mx w"
    and "m_load (accounts_of w ip) a = None \<Longrightarrow> all_accounts (accounts_of w ip) < mx"
  shows "quota_inv mx (touch_locked ip a now w)"
  using assms quota_refresh [OF assms(1)] quota_insert [OF assms(1)]
  by (auto simp: touch_locked_def Let_def split: option.splits)

lemma i64_succ: "0 < mx \<Longrightarrow> mx < max_i64 \<Longrightarrow> i64 (mx + 1) = mx + 1"
  by (rule i64_id) (simp_all add: min_i64_def)

lemma reserve_quota:
  assumes "quota_inv mx w" "0 < mx"
  shows "quota_inv mx (fst (reserve_if_eligible ip a now win mx w))"
proof -
  obtain w1 n where c: "count_locked ip now win w = (w1, n)" by fastforce
  note q = count_locked_quota [OF assms(1) c]
  from assms(1) q show ?thesis
    by (auto simp: reserve_if_eligible_def c Let_def intro!: touch_locked_quota)
qed

lemma refresh_quota:
  assumes "quota_inv mx w" "0 < mx" "mx < max_i64"
  shows "quota_inv mx (fst (refresh_on_hit ip a now win mx w))"
proof -
  obtain w1 n where c: "count_locked ip now win w = (w1, n)" by fastforce
  note q = count_locked_quota [OF assms(1) c]
  note up = i64_succ [OF assms(2,3)]
  have ins: "quota_inv mx (insert_locked ip a now fb v)"
    if "quota_inv mx v" "accounts_of v = accounts_of w1"
      "m_load (accounts_of w1 ip) a = None" "n < (if fb then mx + 1 else mx)" for v fb
    unfolding insert_locked_def
    by (rule quota_insert) (use that q in \<open>auto split: if_splits\<close>)
  show ?thesis
  proof (cases "m_load (accounts_of w1 ip) a")
    case None
    with assms(1) q up show ?thesis
      by (auto simp: refresh_on_hit_def c Let_def intro!: ins)
  next
    case (Some e)
    with assms(1) q quota_refresh [OF q(1) Some] show ?thesis
      by (auto simp: refresh_on_hit_def c Let_def)
  qed
qed

lemma forced_quota:
  assumes "quota_inv mx w" "0 < mx" "mx < max_i64"
  shows "quota_inv mx (fst (reserve_forced_fallback ip a now win mx w))"
proof -
  obtain w1 n where c: "count_locked ip now win w = (w1, n)" by fastforce
  note q = count_locked_quota [OF assms(1) c]
  note up = i64_succ [OF assms(2,3)]
  show ?thesis
  proof (cases "m_load (accounts_of w1 ip) a")
    case None
    show ?thesis
    proof (cases "n \<ge> mx + 1")
      case False
      have "quota_inv mx (insert_locked ip a now True w1)"
        unfolding insert_locked_def
        by (rule quota_insert [OF q(1) None]) (use q False in auto)
      with assms(1) None False up show ?thesis
        by (simp add: reserve_forced_fallback_def c Let_def)
    qed (use assms(1) q up None in \<open>simp add: reserve_forced_fallback_def c Let_def\<close>)
  next
    case (Some e)
    with assms(1) q touch_locked_quota [OF q(1), of ip a now] show ?thesis
      by (simp add: reserve_forced_fallback_def c Let_def)
  qed
qed

lemma counts_loop_quota:
  "quota_inv mx w \<Longrightarrow> quota_inv mx (fst (counts_loop ips now win w out))"
  by (induction ips arbitrary: w out)
    (auto simp: Let_def split: prod.splits dest: count_locked_quota(1))

lemma accounts_loop_quota:
  "quota_inv mx w \<Longrightarrow> quota_inv mx (fst (accounts_loop ips now win w out))"
  by (induction ips arbitrary: w out)
    (auto simp: Let_def split: prod.splits dest: count_locked_quota(1))

lemma prune_spec:
  assumes "window_ok w"
  shows "window_ok (prune now win w)"
    and "accounts_of (prune now win w) ip = live_accounts (i64 (now - win)) (accounts_of w ip)"
proof -
  let ?c = "i64 (now - win)"
  let ?es = "filter (\<lambda>(ip, m). m \<noteq> []) (map (\<lambda>(ip, m). (ip, live_accounts ?c m)) (w_entries w))"
  have d: "m_ok ?es"
  proof -
    have "map fst (map (\<lambda>(ip, m). (ip, live_accounts ?c m)) es) = map fst es"
      for es :: "(addr, (string, window_entry) amap) amap"
      by (induction es) auto
    moreover have "distinct (map fst (w_entries w))"
      using assms by (simp add: window_ok_def m_ok_def)
    ultimately have "distinct (map fst (map (\<lambda>(ip, m). (ip, live_accounts ?c m)) (w_entries w)))"
      by (simp only:)
    then show ?thesis unfolding m_ok_def by (rule distinct_map_filter)
  qed
  have mem: "m_load ?es ip = Some m \<longleftrightarrow>
      (\<exists>m0. m_load (w_entries w) ip = Some m0 \<and> m = live_accounts ?c m0 \<and> m \<noteq> [])" for ip m
    using assms by (auto simp: m_ok_mem [OF d, symmetric] window_ok_def m_ok_mem [symmetric])
  show "window_ok (prune now win w)"
    using d mem assms by (auto simp: window_ok_def prune_def live_accounts_ok)
  have "accounts_of (prune now win w) ip = (case m_load ?es ip of None \<Rightarrow> [] | Some m \<Rightarrow> m)"
    by (simp add: accounts_of_def prune_def)
  also have "\<dots> = live_accounts ?c (accounts_of w ip)"
  proof (cases "m_load ?es ip")
    case None
    have "live_accounts ?c [] = []" by (simp add: live_accounts_def)
    with None mem [of ip "live_accounts ?c (the (m_load (w_entries w) ip))"] show ?thesis
      by (auto simp: accounts_of_def split: option.splits)
  next
    case (Some m)
    then show ?thesis using mem [of ip m] by (auto simp: accounts_of_def)
  qed
  finally show "accounts_of (prune now win w) ip = live_accounts ?c (accounts_of w ip)" .
qed

lemma prune_quota: "quota_inv mx w \<Longrightarrow> quota_inv mx (prune now win w)"
  by (simp add: quota_inv_def prune_spec within_quota_live window_ok_accounts)

definition counted_accounts :: "ip_window \<Rightarrow> int \<Rightarrow> int \<Rightarrow> addr \<Rightarrow> int" where
  "counted_accounts w now win ip = int (length (live_accounts (i64 (now - win)) (accounts_of w ip)))"

lemma counts_loop_spec:
  assumes "window_ok w" "distinct ips" "counts_loop ips now win w out = (w', out')"
  shows "m_load out' ip = (if ip \<in> set ips \<and> 0 < counted_accounts w now win ip
     then Some (counted_accounts w now win ip) else m_load out ip)"
  using assms
proof (induction ips arbitrary: w out)
  case (Cons jp ips)
  obtain w1 n where c: "count_locked jp now win w = (w1, n)" by (rule prod.exhaust)
  note s = count_locked_spec [OF Cons.prems(1) c]
  have n: "n = counted_accounts w now win jp" using s(2,3) by (simp add: counted_accounts_def)
  have eq: "counted_accounts w1 now win kp = counted_accounts w now win kp" if "kp \<noteq> jp" for kp
    using s(2) [of kp] that by (simp add: counted_accounts_def)
  have "counts_loop ips now win w1 (if n > 0 then m_store jp n out else out) = (w', out')"
    using Cons.prems(3) c by simp
  from Cons.IH [OF s(1) _ this] Cons.prems(2) eq [of ip] n show ?case
    by (cases "ip = jp") (auto simp: store_simps)
qed simp

text \<open>\<open>CountsByIP\<close> gives the number of accounts in the window of each address.\<close>

lemma counts_by_ip_spec:
  assumes "window_ok w" "counts_by_ip now win w = (w', counts)"
  shows "(case m_load counts ip of None \<Rightarrow> 0 | Some n \<Rightarrow> n) = counted_accounts w now win ip"
proof -
  have "distinct (map fst (w_entries w))" using assms(1) by (simp add: window_ok_def m_ok_def)
  from counts_loop_spec [OF assms(1) this assms(2) [unfolded counts_by_ip_def], of ip]
  have "m_load counts ip = (if ip \<in> fst ` set (w_entries w) \<and> 0 < counted_accounts w now win ip
     then Some (counted_accounts w now win ip) else None)" by simp
  moreover have "counted_accounts w now win ip = 0" if "ip \<notin> fst ` set (w_entries w)"
  proof -
    from that have "m_load (w_entries w) ip = None" by (simp add: map_of_eq_None_iff)
    then show ?thesis by (simp add: counted_accounts_def accounts_of_def live_accounts_def)
  qed
  ultimately show ?thesis by (auto simp: counted_accounts_def)
qed

section \<open>Every run of the window\<close>

datatype window_op =
    Op_Reserve addr string int int int
  | Op_Refresh addr string int int int
  | Op_Force addr string int int int
  | Op_Count addr int int
  | Op_Counts int int
  | Op_Accounts int int
  | Op_Prune int int

fun window_step :: "window_op \<Rightarrow> ip_window \<Rightarrow> ip_window" where
  "window_step (Op_Reserve ip a now win mx) w = fst (reserve_if_eligible ip a now win mx w)"
| "window_step (Op_Refresh ip a now win mx) w = fst (refresh_on_hit ip a now win mx w)"
| "window_step (Op_Force ip a now win mx) w = fst (reserve_forced_fallback ip a now win mx w)"
| "window_step (Op_Count ip now win) w = fst (count_recent ip now win w)"
| "window_step (Op_Counts now win) w = fst (counts_by_ip now win w)"
| "window_step (Op_Accounts now win) w = fst (accounts_by_ip now win w)"
| "window_step (Op_Prune now win) w = prune now win w"

text \<open>The quota of a platform is a setting: all operations carry the same maximum.\<close>

fun with_max :: "int \<Rightarrow> window_op \<Rightarrow> bool" where
  "with_max mx (Op_Reserve _ _ _ _ m) = (m = mx \<and> 0 < mx \<and> mx < max_i64)"
| "with_max mx (Op_Refresh _ _ _ _ m) = (m = mx \<and> 0 < mx \<and> mx < max_i64)"
| "with_max mx (Op_Force _ _ _ _ m) = (m = mx \<and> 0 < mx \<and> mx < max_i64)"
| "with_max mx _ = True"

interpretation qw: invariant_machine window_step "with_max mx" "quota_inv mx" for mx
proof
  fix w op
  assume inv: "quota_inv mx w" and "with_max mx op"
  then show "quota_inv mx (window_step op w)"
    using count_locked_quota(1) [OF inv]
    by (cases op)
      (auto simp: reserve_quota refresh_quota forced_quota count_recent_def counts_by_ip_def
        accounts_by_ip_def counts_loop_quota accounts_loop_quota prune_quota
        split: prod.splits, metis prod.collapse)
qed

lemma new_window_quota: "0 \<le> mx \<Longrightarrow> quota_inv mx new_ip_window"
  by (simp add: quota_inv_def new_ip_window_def window_ok_def accounts_of_def within_quota_def)

section \<open>Properties\<close>

text \<open>
  The account quota holds under every interleaving: after any sequence of admissions (new
  bindings, lease hits, forced fallbacks), counts and prunes with quota \<open>mx\<close>, no egress address
  has more than \<open>mx + 1\<close> accounts in its window, and no more than \<open>mx\<close> that are not in a forced
  fallback slot. Nothing is assumed of the clock readings, so a request that carries an older
  time than its predecessor cannot break the bound either.
\<close>

lemma account_quota_bound:
  assumes "0 \<le> mx" "list_all (with_max mx) ops"
  shows "int (length (accounts_of (fold window_step ops new_ip_window) ip)) \<le> mx + 1
    \<and> int (card {a. \<exists>e. m_load (accounts_of (fold window_step ops new_ip_window) ip) a = Some e
                      \<and> \<not> via_fallback e}) \<le> mx"
proof -
  let ?w = "fold window_step ops new_ip_window"
  have inv: "quota_inv mx ?w" by (rule qw.run_inv [OF new_window_quota [OF assms(1)] assms(2)])
  then have "m_ok (accounts_of ?w ip)" by (simp add: quota_inv_def window_ok_accounts)
  note len = all_accounts_length [OF this]
  have "within_quota mx (accounts_of ?w ip)" using inv by (simp add: quota_inv_def)
  then show ?thesis unfolding within_quota_def len by (simp add: acct_count_def keys_where_def)
qed

text \<open>
  The admission rule of a new binding: an account gets a slot on an address exactly when it is
  already active there within the window, or fewer than \<open>mx\<close> distinct accounts are. An admitted
  account is recorded as active now, a refused one is not recorded and counts as blocked, the
  other accounts keep their entries unless those have expired, and other addresses are untouched.
\<close>

lemma reserve_if_eligible_rule:
  assumes "window_ok w" "addr_valid ip" "a \<noteq> []" "0 < mx"
    and "live = live_accounts (i64 (now - win)) (accounts_of w ip)"
    and "reserve_if_eligible ip a now win mx w = (w', ok)"
  shows "(ok \<longleftrightarrow> m_load live a \<noteq> None \<or> int (length live) < mx)
    \<and> map_option last_seen_ns (m_load (accounts_of w' ip) a) = (if ok then Some now else None)
    \<and> (\<forall>b. b \<noteq> a \<longrightarrow> m_load (accounts_of w' ip) b = m_load live b)
    \<and> (\<forall>jp. jp \<noteq> ip \<longrightarrow> accounts_of w' jp = accounts_of w jp)
    \<and> blocked_total w' = (if ok then blocked_total w else i64 (blocked_total w + 1))"
proof -
  obtain w1 n where c: "count_locked ip now win w = (w1, n)" by fastforce
  note s = count_locked_spec [OF assms(1) c]
  have l: "accounts_of w1 ip = live" using s(2) [of ip] assms(5) by simp
  have n: "n = int (length live)" using s(3) l by simp
  note r = assms(6) [unfolded reserve_if_eligible_def c Let_def, simplified assms(2-4), simplified]
  have frame: "jp \<noteq> ip \<Longrightarrow> accounts_of w1 jp = accounts_of w jp" for jp using s(2) [of jp] by simp
  show ?thesis
  proof (cases "m_load live a")
    case None
    show ?thesis
    proof (cases "n \<ge> mx")
      case True
      with r None assms(2-4) l n frame s(4) show ?thesis by auto
    next
      case False
      with r None assms(2-4) l n frame s(4) show ?thesis
        by (auto simp: touch_locked_def Let_def store_simps set_accounts_def accounts_of_def)
    qed
  next
    case (Some e)
    with r assms(2-4) l n frame s(4) show ?thesis
      by (auto simp: touch_locked_def Let_def store_simps set_accounts_def accounts_of_def)
  qed
qed

end
