(* ===== verification/Node_Hash.thy ===== *)
theory Node_Hash
  imports Go_Std
begin

text \<open>
  \<open>internal/node/hash.go\<close>: the 128-bit identity of a node. A hash is the list of its 16 bytes;
  \<open>hash_ok\<close> is the length Go's array type enforces. The lemmas show that hexadecimal printing and
  parsing are inverse to each other on both sides.
\<close>

type_synonym hash = "8 word list"

definition hash_ok :: "hash \<Rightarrow> bool" where
  "hash_ok h \<longleftrightarrow> length h = 16"

definition zero_hash :: hash where
  "zero_hash = replicate 16 0"

definition is_zero :: "hash \<Rightarrow> bool" where
  "is_zero h \<longleftrightarrow> h = zero_hash"

text \<open>\<open>hashBytes\<close>: the two 64-bit halves of the xxh3 hash, each in little-endian order.\<close>

definition le_bytes :: "64 word \<Rightarrow> 8 word list" where
  "le_bytes w = map (\<lambda>i. ucast (drop_bit (8 * i) w)) [0..<8]"

definition hash_bytes :: "external \<Rightarrow> string \<Rightarrow> hash" where
  "hash_bytes X bs = (let (lo, hi) = xxh3_128 X bs in le_bytes lo @ le_bytes hi)"

text \<open>
  \<open>HashFromRawOptions\<close>: \<open>json_without_tag\<close> is the round trip through \<open>encoding/json\<close> with the
  \<open>tag\<close> key deleted, \<open>None\<close> when the bytes are no JSON object.
\<close>

definition hash_from_raw_options :: "external \<Rightarrow> string \<Rightarrow> hash" where
  "hash_from_raw_options X raw =
     (case json_without_tag X raw of
        None \<Rightarrow> hash_bytes X raw
      | Some canonical \<Rightarrow> hash_bytes X canonical)"

section \<open>Hexadecimal form\<close>

definition hex_digit :: "nat \<Rightarrow> char" where
  "hex_digit n = (if n < 10 then char_of (48 + n) else char_of (87 + n))"

definition hash_hex :: "hash \<Rightarrow> string" where
  "hash_hex h = concat (map (\<lambda>b. [hex_digit (unat b div 16), hex_digit (unat b mod 16)]) h)"

datatype hex_error = Invalid_Byte char | Odd_Length

datatype parse_hex_error = Hex_Error hex_error | Wrong_Length nat

definition hex_val :: "char \<Rightarrow> nat option" where
  "hex_val c = (let n = of_char c in
     if 48 \<le> n \<and> n \<le> 57 then Some (n - 48)
     else if 97 \<le> n \<and> n \<le> 102 then Some (n - 87)
     else if 65 \<le> n \<and> n \<le> 70 then Some (n - 55)
     else None)"

text \<open>\<open>hex.DecodeString\<close>: pairs of digits, then the complaint about a digit left over.\<close>

fun decode_hex :: "string \<Rightarrow> hex_error + 8 word list" where
  "decode_hex [] = Inr []"
| "decode_hex [c] =
     (case hex_val c of None \<Rightarrow> Inl (Invalid_Byte c) | Some _ \<Rightarrow> Inl Odd_Length)"
| "decode_hex (p # q # cs) =
     (case hex_val p of
        None \<Rightarrow> Inl (Invalid_Byte p)
      | Some a \<Rightarrow>
         (case hex_val q of
            None \<Rightarrow> Inl (Invalid_Byte q)
          | Some b \<Rightarrow>
             (case decode_hex cs of
                Inl e \<Rightarrow> Inl e
              | Inr bs \<Rightarrow> Inr (of_nat (16 * a + b) # bs))))"

definition parse_hex :: "string \<Rightarrow> parse_hex_error + hash" where
  "parse_hex s =
     (case decode_hex s of
        Inl e \<Rightarrow> Inl (Hex_Error e)
      | Inr b \<Rightarrow> if length b \<noteq> 16 then Inl (Wrong_Length (length b)) else Inr b)"

lemma hex_val_digit: "n < 16 \<Longrightarrow> hex_val (hex_digit n) = Some n"
  by (auto simp: hex_val_def hex_digit_def Let_def)

lemma hex_val_Some: "hex_val c = Some n \<Longrightarrow> n < 16 \<and> hex_digit n = lower_char c"
  by (auto simp: hex_val_def hex_digit_def lower_char_def Let_def split: if_splits)

lemma unat_byte_bounds: "unat (b :: 8 word) div 16 < 16"
  using unsigned_less [of b, where 'a = nat] by simp

lemma decode_hash_hex: "decode_hex (hash_hex h) = Inr h"
proof (induction h)
  case (Cons b h)
  have "of_nat (16 * (unat b div 16) + unat b mod 16) = b"
    by (simp only: mult_div_mod_eq of_nat_unat ucast_id)
  with Cons show ?case
    by (simp add: hash_hex_def hex_val_digit unat_byte_bounds del: of_nat_add of_nat_mult)
qed (simp add: hash_hex_def)

lemma hash_hex_decode: "decode_hex s = Inr bs \<Longrightarrow> hash_hex bs = map lower_char s"
proof (induction s arbitrary: bs rule: decode_hex.induct)
  case (3 p q cs)
  then obtain a b r where ab: "hex_val p = Some a" "hex_val q = Some b" "decode_hex cs = Inr r"
    "bs = of_nat (16 * a + b) # r"
    by (auto split: option.splits sum.splits)
  then have lt: "a < 16" "b < 16" by (auto dest: hex_val_Some)
  then have "unat (of_nat (16 * a + b) :: 8 word) = 16 * a + b"
    by (simp add: unat_of_nat take_bit_eq_mod del: of_nat_add of_nat_mult)
  then have "unat (of_nat (16 * a + b) :: 8 word) div 16 = a"
    "unat (of_nat (16 * a + b) :: 8 word) mod 16 = b" using lt by simp_all
  with ab "3.IH" [OF ab(1,2,3)] show ?case
    by (simp add: hash_hex_def hex_val_Some del: of_nat_add of_nat_mult)
qed (auto simp: hash_hex_def split: option.splits)

section \<open>Properties\<close>

text \<open>
  A node hash survives its printed form: parsing the hexadecimal form of a 16-byte hash
  returns that hash, so the persistence layer and the API identify nodes without loss.
\<close>

lemma parse_hex_of_hex:
  assumes "hash_ok h"
  shows "parse_hex (hash_hex h) = Inr h"
  using assms by (simp add: parse_hex_def decode_hash_hex hash_ok_def)

text \<open>
  Parsing accepts exactly the hexadecimal strings of 16 bytes, in either case: an accepted
  string yields a well-formed hash whose printed form is the string in lower case.
\<close>

lemma parse_hex_canonical:
  assumes "parse_hex s = Inr h"
  shows "hash_ok h \<and> hash_hex h = map lower_char s \<and> length s = 32"
proof -
  from assms have d: "decode_hex s = Inr h" "length h = 16"
    by (auto simp: parse_hex_def split: sum.splits if_splits)
  have "length (hash_hex h) = 2 * length h" by (induction h) (auto simp: hash_hex_def)
  with d hash_hex_decode [OF d(1)] show ?thesis by (auto simp: hash_ok_def dest: arg_cong [of _ _ length])
qed

end
