(* ===== verification/Node_Entry.thy ===== *)
theory Node_Entry
  imports Node_Hash Latency_Table
begin

text \<open>
  \<open>internal/node/entry.go\<close>: a node of the pool. Static fields, the set of subscriptions that
  reference it, its health (failure count, circuit breaker), its egress address and region, its
  latency table and whether it has an outbound. The lemmas give the meaning of the tag filter and
  of the subscription reference counting.
\<close>

section \<open>Data\<close>

text \<open>
  A compiled regular expression is the predicate \<open>MatchString\<close> decides. A subscription lookup
  returns the subscription's name, whether it is enabled and its tags for the node; \<open>None\<close> stands
  for \<open>ok = false\<close>, and the outer option for the nil function.
\<close>

type_synonym regex = "string \<Rightarrow> bool"

type_synonym sub_lookup = "string \<Rightarrow> hash \<Rightarrow> (string \<times> bool \<times> string list) option"

record tag_filter =
  any_rules :: "regex list"
  must_rules :: "regex list"
  must_not_rules :: "regex list"

record node_entry =
  node_hash :: hash
  raw_options :: string
  created_at :: int
  subscription_ids :: "string list"
  last_error :: string
  failure_count :: int
  circuit_open_since :: int
  egress_ip :: "addr option"
  egress_region :: "string option"
  last_egress_update :: int
  last_latency_probe_attempt :: int
  last_authority_latency_probe_attempt :: int
  last_egress_update_attempt :: int
  latency_tab :: "latency_table option"
  has_outbound :: bool

definition filter_empty :: "tag_filter \<Rightarrow> bool" where
  "filter_empty f \<longleftrightarrow> any_rules f = [] \<and> must_rules f = [] \<and> must_not_rules f = []"

definition new_node_entry :: "hash \<Rightarrow> string \<Rightarrow> int \<Rightarrow> int \<Rightarrow> node_entry" where
  "new_node_entry h raw now max_entries =
     \<lparr>node_hash = h, raw_options = raw, created_at = now, subscription_ids = [], last_error = [],
      failure_count = 0, circuit_open_since = 0, egress_ip = None, egress_region = None,
      last_egress_update = 0, last_latency_probe_attempt = 0,
      last_authority_latency_probe_attempt = 0, last_egress_update_attempt = 0,
      latency_tab = (if max_entries > 0 then new_latency_table max_entries else None),
      has_outbound = False\<rparr>"

section \<open>Subscription references\<close>

definition add_subscription_id :: "string \<Rightarrow> node_entry \<Rightarrow> node_entry" where
  "add_subscription_id sub_id e =
     (if sub_id \<in> set (subscription_ids e) then e
      else e\<lparr>subscription_ids := subscription_ids e @ [sub_id]\<rparr>)"

text \<open>The entry without its first reference to the subscription, and whether none is left.\<close>

definition remove_subscription_id :: "string \<Rightarrow> node_entry \<Rightarrow> node_entry \<times> bool" where
  "remove_subscription_id sub_id e =
     (let e' = e\<lparr>subscription_ids := remove1 sub_id (subscription_ids e)\<rparr>
      in (e', subscription_ids e' = []))"

definition subscription_count :: "node_entry \<Rightarrow> nat" where
  "subscription_count e = length (subscription_ids e)"

section \<open>Tag filters\<close>

definition matches_all :: "string \<Rightarrow> regex list \<Rightarrow> bool" where
  "matches_all s res = list_all (\<lambda>re. re s) res"

definition matches_any :: "string \<Rightarrow> regex list \<Rightarrow> bool" where
  "matches_any s res = list_ex (\<lambda>re. re s) res"

text \<open>
  The two nested loops of \<open>MatchTagFilter\<close>. The inner one walks the tags of a subscription and
  returns \<open>None\<close> when a candidate hits a must-not rule (the function then returns false).
\<close>

fun match_tags :: "tag_filter \<Rightarrow> string \<Rightarrow> string list \<Rightarrow> bool \<Rightarrow> bool option" where
  "match_tags f name [] matched = Some matched"
| "match_tags f name (tag # tags) matched =
     (let candidate = name @ ''/'' @ tag in
      if matches_any candidate (must_not_rules f) then None
      else match_tags f name tags
        (if \<not> matched \<and> matches_all candidate (must_rules f)
            \<and> (any_rules f = [] \<or> matches_any candidate (any_rules f))
         then True else matched))"

fun match_subs ::
  "tag_filter \<Rightarrow> sub_lookup \<Rightarrow> hash \<Rightarrow> string list \<Rightarrow> bool \<times> bool \<Rightarrow> (bool \<times> bool) option" where
  "match_subs f lookup h [] acc = Some acc"
| "match_subs f lookup h (sub_id # subs) (enabled_seen, matched) =
     (case lookup sub_id h of
        None \<Rightarrow> match_subs f lookup h subs (enabled_seen, matched)
      | Some (name, enabled, tags) \<Rightarrow>
          if \<not> enabled then match_subs f lookup h subs (enabled_seen, matched)
          else (case match_tags f name tags matched of
                  None \<Rightarrow> None
                | Some matched' \<Rightarrow> match_subs f lookup h subs (True, matched')))"

definition match_tag_filter :: "node_entry \<Rightarrow> tag_filter \<Rightarrow> sub_lookup option \<Rightarrow> bool" where
  "match_tag_filter e f sub_lookup =
     (case sub_lookup of
        None \<Rightarrow> filter_empty f
      | Some lookup \<Rightarrow>
          if subscription_ids e = [] then False
          else (case match_subs f lookup (node_hash e) (subscription_ids e) (False, False) of
                  None \<Rightarrow> False
                | Some (enabled_seen, matched) \<Rightarrow>
                    if \<not> (any_rules f \<noteq> [] \<or> must_rules f \<noteq> []) then enabled_seen
                    else matched))"

definition match_regexs :: "node_entry \<Rightarrow> regex list \<Rightarrow> sub_lookup option \<Rightarrow> bool" where
  "match_regexs e regexes sub_lookup =
     match_tag_filter e \<lparr>any_rules = [], must_rules = regexes, must_not_rules = []\<rparr> sub_lookup"

fun has_enabled_loop :: "sub_lookup \<Rightarrow> hash \<Rightarrow> string list \<Rightarrow> bool" where
  "has_enabled_loop lookup h [] = False"
| "has_enabled_loop lookup h (sub_id # subs) =
     (case lookup sub_id h of
        Some (_, True, _) \<Rightarrow> True
      | _ \<Rightarrow> has_enabled_loop lookup h subs)"

definition has_enabled_subscription :: "node_entry \<Rightarrow> sub_lookup option \<Rightarrow> bool" where
  "has_enabled_subscription e sub_lookup =
     (case sub_lookup of
        None \<Rightarrow> False
      | Some lookup \<Rightarrow> has_enabled_loop lookup (node_hash e) (subscription_ids e))"

definition is_disabled_by_subscriptions :: "node_entry \<Rightarrow> sub_lookup option \<Rightarrow> bool" where
  "is_disabled_by_subscriptions e sub_lookup = (\<not> has_enabled_subscription e sub_lookup)"

section \<open>Health, egress, region\<close>

definition is_circuit_open :: "node_entry \<Rightarrow> bool" where
  "is_circuit_open e \<longleftrightarrow> circuit_open_since e \<noteq> 0"

definition has_latency :: "node_entry \<Rightarrow> bool" where
  "has_latency e = (case latency_tab e of None \<Rightarrow> False | Some t \<Rightarrow> total_size t > 0)"

definition is_healthy :: "node_entry \<Rightarrow> bool" where
  "is_healthy e \<longleftrightarrow> \<not> is_circuit_open e \<and> has_outbound e"

definition get_egress_ip :: "node_entry \<Rightarrow> addr" where
  "get_egress_ip e = (case egress_ip e of None \<Rightarrow> NoAddr | Some ip \<Rightarrow> ip)"

definition set_egress_ip :: "addr \<Rightarrow> node_entry \<Rightarrow> node_entry" where
  "set_egress_ip ip e = e\<lparr>egress_ip := Some ip\<rparr>"

definition get_egress_region :: "node_entry \<Rightarrow> string" where
  "get_egress_region e = (case egress_region e of None \<Rightarrow> [] | Some r \<Rightarrow> r)"

definition set_egress_region :: "external \<Rightarrow> string \<Rightarrow> node_entry \<Rightarrow> node_entry" where
  "set_egress_region X region e =
     (let region = to_lower (uni_lower X) (trim_space region)
      in if region = [] then e\<lparr>egress_region := None\<rparr> else e\<lparr>egress_region := Some region\<rparr>)"

definition get_region :: "node_entry \<Rightarrow> (addr \<Rightarrow> string) option \<Rightarrow> string" where
  "get_region e geo_lookup =
     (if get_egress_region e \<noteq> [] then get_egress_region e
      else case geo_lookup of
             None \<Rightarrow> []
           | Some geo \<Rightarrow> if \<not> addr_valid (get_egress_ip e) then [] else geo (get_egress_ip e))"

definition set_last_error :: "string \<Rightarrow> node_entry \<Rightarrow> node_entry" where
  "set_last_error msg e = e\<lparr>last_error := msg\<rparr>"

section \<open>Average latency over a list of domains\<close>

text \<open>
  \<open>AverageEWMAForDomainsMs\<close> reads each domain (a read touches its slot) and averages the
  millisecond values in floating point. The entry is returned because reads change it.
\<close>

fun sum_ewma_ms ::
  "external \<Rightarrow> string list \<Rightarrow> latency_table \<times> env \<Rightarrow> rat \<Rightarrow> nat \<Rightarrow> (latency_table \<times> env) \<times> rat \<times> nat" where
  "sum_ewma_ms X [] s sum_ms n = (s, sum_ms, n)"
| "sum_ewma_ms X (domain # ds) (t, ev) sum_ms n =
     (let domain = trim_space domain in
      if domain = [] then sum_ewma_ms X ds (t, ev) sum_ms n
      else let (now, ev') = time_now ev;
               (t', st) = get_domain_stats X domain now t
           in case st of
                None \<Rightarrow> sum_ewma_ms X ds (t', ev') sum_ms n
              | Some st \<Rightarrow> sum_ewma_ms X ds (t', ev')
                  (f64 (sum_ms + f64_of_int (ewma st sdiv 1000000))) (Suc n))"

definition average_ewma_for_domains_ms ::
  "external \<Rightarrow> node_entry \<Rightarrow> string list \<Rightarrow> env \<Rightarrow> (node_entry \<times> env) \<times> rat option" where
  "average_ewma_for_domains_ms X e domains ev =
     (case latency_tab e of
        None \<Rightarrow> ((e, ev), None)
      | Some t \<Rightarrow>
          if total_size t = 0 \<or> domains = [] then ((e, ev), None)
          else let ((t', ev'), sum_ms, n) = sum_ewma_ms X domains (t, ev) 0 0
               in ((e\<lparr>latency_tab := Some t'\<rparr>, ev'),
                   if n = 0 then None else Some (f64 (sum_ms / f64_of_int (int n)))))"

section \<open>What the tag filter decides\<close>

text \<open>
  The candidates of a node: \<open>name/tag\<close> for each tag of each enabled subscription that still
  holds it.
\<close>

definition enabled_subs :: "sub_lookup \<Rightarrow> hash \<Rightarrow> string list \<Rightarrow> (string \<times> string list) set" where
  "enabled_subs lookup h subs =
     {(name, tags). \<exists>sub_id\<in>set subs. lookup sub_id h = Some (name, True, tags)}"

definition candidates :: "sub_lookup \<Rightarrow> hash \<Rightarrow> string list \<Rightarrow> string set" where
  "candidates lookup h subs =
     {name @ ''/'' @ tag | name tags tag. (name, tags) \<in> enabled_subs lookup h subs \<and> tag \<in> set tags}"

definition positive_hit :: "tag_filter \<Rightarrow> string \<Rightarrow> bool" where
  "positive_hit f c \<longleftrightarrow> (\<forall>re\<in>set (must_rules f). re c)
     \<and> (any_rules f = [] \<or> (\<exists>re\<in>set (any_rules f). re c))"

definition negative_hit :: "tag_filter \<Rightarrow> string \<Rightarrow> bool" where
  "negative_hit f c \<longleftrightarrow> (\<exists>re\<in>set (must_not_rules f). re c)"

lemma match_tags_spec:
  "match_tags f name tags m =
     (if \<exists>tag\<in>set tags. negative_hit f (name @ ''/'' @ tag) then None
      else Some (m \<or> (\<exists>tag\<in>set tags. positive_hit f (name @ ''/'' @ tag))))"
  by (induction tags arbitrary: m)
    (auto simp: Let_def matches_any_def matches_all_def negative_hit_def positive_hit_def
      list_all_iff list_ex_iff)

lemma enabled_subs_Cons:
  "enabled_subs lookup h (s # ss) =
     (case lookup s h of Some (name, True, tags) \<Rightarrow> insert (name, tags) (enabled_subs lookup h ss)
      | _ \<Rightarrow> enabled_subs lookup h ss)"
  by (auto simp: enabled_subs_def split: option.splits bool.splits)

lemma candidates_Nil [simp]: "candidates lookup h [] = {}" "enabled_subs lookup h [] = {}"
  by (simp_all add: candidates_def enabled_subs_def)

lemma candidates_Cons:
  "candidates lookup h (s # ss) =
     (case lookup s h of
        Some (name, True, tags) \<Rightarrow> (\<lambda>tag. name @ ''/'' @ tag) ` set tags \<union> candidates lookup h ss
      | _ \<Rightarrow> candidates lookup h ss)"
  by (auto simp: candidates_def enabled_subs_Cons split: option.splits bool.splits prod.splits)

lemma match_subs_spec:
  "match_subs f lookup h subs (en, m) =
     (if \<exists>c\<in>candidates lookup h subs. negative_hit f c then None
      else Some (en \<or> enabled_subs lookup h subs \<noteq> {},
                 m \<or> (\<exists>c\<in>candidates lookup h subs. positive_hit f c)))"
  by (induction subs arbitrary: en m)
    (auto simp: match_tags_spec candidates_Cons enabled_subs_Cons split: option.splits bool.splits)

lemma has_enabled_loop_spec: "has_enabled_loop lookup h subs \<longleftrightarrow> enabled_subs lookup h subs \<noteq> {}"
  by (induction subs) (auto simp: enabled_subs_Cons split: option.splits bool.splits)

lemma has_enabled_subscription_iff:
  "has_enabled_subscription e (Some lookup) \<longleftrightarrow>
     enabled_subs lookup (node_hash e) (subscription_ids e) \<noteq> {}"
  by (simp add: has_enabled_subscription_def has_enabled_loop_spec)

section \<open>Properties\<close>

text \<open>
  The tag filter means what its rules say: a node passes when no candidate tag of any of its
  enabled subscriptions hits a must-not rule and, if there are positive rules, one single
  candidate satisfies every must rule and (when there are any) one of the any rules; with no
  positive rule an enabled subscription is enough. The early exits of the two loops, and the
  order of subscriptions and tags, make no difference.
\<close>

lemma match_tag_filter_meaning:
  "match_tag_filter e f (Some lookup) \<longleftrightarrow>
     \<not> (\<exists>c\<in>candidates lookup (node_hash e) (subscription_ids e). negative_hit f c)
     \<and> (if any_rules f = [] \<and> must_rules f = []
        then enabled_subs lookup (node_hash e) (subscription_ids e) \<noteq> {}
        else \<exists>c\<in>candidates lookup (node_hash e) (subscription_ids e). positive_hit f c)"
  by (cases "subscription_ids e = []") (auto simp: match_tag_filter_def match_subs_spec)

text \<open>References form a set: adding is idempotent, removing reports exactly the last one.\<close>

lemma add_subscription_id_set:
  "set (subscription_ids (add_subscription_id s e)) = insert s (set (subscription_ids e))"
  "distinct (subscription_ids e) \<Longrightarrow> distinct (subscription_ids (add_subscription_id s e))"
  by (auto simp: add_subscription_id_def)

lemma remove_subscription_id_set:
  assumes "distinct (subscription_ids e)"
  shows "set (subscription_ids (fst (remove_subscription_id s e))) = set (subscription_ids e) - {s}"
    and "distinct (subscription_ids (fst (remove_subscription_id s e)))"
    and "snd (remove_subscription_id s e) \<longleftrightarrow> set (subscription_ids e) - {s} = {}"
  using assms set_empty [of "remove1 s (subscription_ids e)"]
  by (simp_all add: remove_subscription_id_def Let_def distinct_remove1 del: set_empty)

end
