(* ===== verification/Routable_View.thy ===== *)
theory Routable_View
  imports Node_Hash
begin

text \<open>
  \<open>internal/platform/routableview.go\<close>: the sharded set of routable nodes of a platform, with
  constant-time insert, delete (swap with the last), membership and random pick. The interface
  locale states the contract a platform relies on; the interpretation proves that the shards with
  their position index implement it.
\<close>

section \<open>The interface: a set of nodes\<close>

locale node_set =
  fixes add :: "hash \<Rightarrow> 'v \<Rightarrow> 'v"
    and rem :: "hash \<Rightarrow> 'v \<Rightarrow> 'v"
    and clear :: "'v \<Rightarrow> 'v"
    and contains :: "'v \<Rightarrow> hash \<Rightarrow> bool"
    and elems :: "'v \<Rightarrow> hash list"
    and count :: "'v \<Rightarrow> int"
    and ok :: "'v \<Rightarrow> bool"
  assumes ok_add: "ok v \<Longrightarrow> ok (add h v)"
    and ok_rem: "ok v \<Longrightarrow> ok (rem h v)"
    and ok_clear: "ok v \<Longrightarrow> ok (clear v)"
    and contains_add: "ok v \<Longrightarrow> contains (add h v) g \<longleftrightarrow> g = h \<or> contains v g"
    and contains_rem: "ok v \<Longrightarrow> contains (rem h v) g \<longleftrightarrow> g \<noteq> h \<and> contains v g"
    and contains_clear: "ok v \<Longrightarrow> \<not> contains (clear v) g"
    and elems_contains: "ok v \<Longrightarrow> set (elems v) = {h. contains v h}"
    and elems_once: "ok v \<Longrightarrow> distinct (elems v)"
    and count_elems: "ok v \<Longrightarrow> count v = int (length (elems v))"
begin

text \<open>Adding the nodes of an iteration that pass a test, as a rebuild does.\<close>

lemma ok_fold_add: "ok v \<Longrightarrow> ok (fold (\<lambda>x v. if p x then add (f x) v else v) xs v)"
  by (induction xs arbitrary: v) (auto simp: ok_add)

lemma contains_fold_add:
  "ok v \<Longrightarrow> contains (fold (\<lambda>x v. if p x then add (f x) v else v) xs v) g \<longleftrightarrow>
     contains v g \<or> (\<exists>x\<in>set xs. p x \<and> f x = g)"
  by (induction xs arbitrary: v) (auto simp: ok_add contains_add)

lemma contains_rebuild:
  "ok v \<Longrightarrow> contains (fold (\<lambda>x v. if p x then add (f x) v else v) xs (clear v)) g \<longleftrightarrow>
     (\<exists>x\<in>set xs. p x \<and> f x = g)"
  by (simp add: contains_fold_add ok_clear contains_clear)

lemma count_card: "ok v \<Longrightarrow> count v = int (card {h. contains v h})"
  by (metis count_elems distinct_card elems_contains elems_once)

end

section \<open>Data and operations\<close>

definition num_shards :: nat where
  "num_shards = 64"

record shard =
  nodes :: "hash list"
  index :: "hash \<rightharpoonup> nat"

record routable_view =
  shards :: "shard list"
  vsize :: int

definition empty_shard :: shard where
  "empty_shard = \<lparr>nodes = [], index = Map.empty\<rparr>"

definition new_routable_view :: routable_view where
  "new_routable_view = \<lparr>shards = replicate num_shards empty_shard, vsize = 0\<rparr>"

definition shard_for :: "hash \<Rightarrow> nat" where
  "shard_for h = unat (h ! 0) mod num_shards"

definition shard_add :: "hash \<Rightarrow> shard \<Rightarrow> shard" where
  "shard_add h s = s\<lparr>index := (index s)(h \<mapsto> length (nodes s)), nodes := nodes s @ [h]\<rparr>"

text \<open>Swap-last-remove: the last node takes the place of the removed one.\<close>

definition shard_remove :: "hash \<Rightarrow> nat \<Rightarrow> shard \<Rightarrow> shard" where
  "shard_remove h idx s =
     (let last = length (nodes s) - 1;
          s1 = (if idx \<noteq> last
                then let ns = (nodes s)[idx := nodes s ! last]
                     in s\<lparr>nodes := ns, index := (index s)(ns ! idx \<mapsto> idx)\<rparr>
                else s)
      in s1\<lparr>nodes := take last (nodes s1), index := (index s1)(h := None)\<rparr>)"

definition view_add :: "hash \<Rightarrow> routable_view \<Rightarrow> routable_view" where
  "view_add h rv =
     (let i = shard_for h; s = shards rv ! i in
      case index s h of
        Some _ \<Rightarrow> rv
      | None \<Rightarrow> rv\<lparr>shards := (shards rv)[i := shard_add h s], vsize := vsize rv + 1\<rparr>)"

definition view_remove :: "hash \<Rightarrow> routable_view \<Rightarrow> routable_view" where
  "view_remove h rv =
     (let i = shard_for h; s = shards rv ! i in
      case index s h of
        None \<Rightarrow> rv
      | Some idx \<Rightarrow> rv\<lparr>shards := (shards rv)[i := shard_remove h idx s], vsize := vsize rv - 1\<rparr>)"

definition view_contains :: "routable_view \<Rightarrow> hash \<Rightarrow> bool" where
  "view_contains rv h \<longleftrightarrow> index (shards rv ! shard_for h) h \<noteq> None"

definition view_size :: "routable_view \<Rightarrow> int" where
  "view_size rv = vsize rv"

definition view_clear :: "routable_view \<Rightarrow> routable_view" where
  "view_clear rv = rv\<lparr>shards := map (\<lambda>s. s\<lparr>nodes := [], index := Map.empty\<rparr>) (shards rv), vsize := 0\<rparr>"

fun pick_walk :: "shard list \<Rightarrow> nat \<Rightarrow> hash option" where
  "pick_walk [] target = None"
| "pick_walk (s # ss) target =
     (if target < length (nodes s) then Some (nodes s ! target)
      else pick_walk ss (target - length (nodes s)))"

definition random_pick :: "routable_view \<Rightarrow> env \<Rightarrow> hash option \<times> env" where
  "random_pick rv ev =
     (if view_size rv = 0 then (None, ev)
      else let (target, ev') = rng_int_n (nat (view_size rv)) ev
           in (pick_walk (shards rv) target, ev'))"

text \<open>\<open>Range\<close>: the nodes shard by shard.\<close>

definition view_range :: "routable_view \<Rightarrow> hash list" where
  "view_range rv = concat (map nodes (shards rv))"

section \<open>The shards implement the interface\<close>

definition shard_ok :: "nat \<Rightarrow> shard \<Rightarrow> bool" where
  "shard_ok i s \<longleftrightarrow> (\<forall>h j. index s h = Some j \<longleftrightarrow> j < length (nodes s) \<and> nodes s ! j = h)
     \<and> (\<forall>h\<in>set (nodes s). shard_for h = i)"

definition view_ok :: "routable_view \<Rightarrow> bool" where
  "view_ok rv \<longleftrightarrow> length (shards rv) = num_shards
     \<and> (\<forall>i<num_shards. shard_ok i (shards rv ! i))
     \<and> vsize rv = int (length (view_range rv))"

lemma shard_for_less: "shard_for h < num_shards"
  by (simp add: shard_for_def num_shards_def)

lemma shard_ok_index: "shard_ok i s \<Longrightarrow> index s h \<noteq> None \<longleftrightarrow> h \<in> set (nodes s)"
  by (auto simp: shard_ok_def in_set_conv_nth)

lemma shard_ok_distinct: "shard_ok i s \<Longrightarrow> distinct (nodes s)"
  by (auto simp: shard_ok_def distinct_conv_nth) (metis option.inject)

lemma shard_add_ok:
  assumes "shard_ok i s" "index s h = None" "shard_for h = i"
  shows "shard_ok i (shard_add h s)"
proof -
  from assms have "h \<notin> set (nodes s)" using shard_ok_index by blast
  with assms show ?thesis
    by (auto simp: shard_ok_def shard_add_def nth_append less_Suc_eq in_set_conv_nth)
qed

lemma shard_remove_ok:
  assumes ok: "shard_ok i s" and idx: "index s h = Some idx"
  shows "shard_ok i (shard_remove h idx s)"
    and "set (nodes (shard_remove h idx s)) = set (nodes s) - {h}"
    and "length (nodes (shard_remove h idx s)) = length (nodes s) - 1"
proof -
  let ?ns = "nodes s"
  define n where "n = length ?ns - 1"
  from ok idx have i: "idx < length ?ns" "?ns ! idx = h" by (auto simp: shard_ok_def)
  then have len_ns: "length ?ns = Suc n" by (simp add: n_def)
  note d = shard_ok_distinct [OF ok]
  define ms where "ms = take n (?ns[idx := ?ns ! n])"
  have len: "length ms = n" by (simp add: ms_def len_ns)
  have nth: "ms ! j = (if j = idx then ?ns ! n else ?ns ! j)" if "j < n" for j
    using that i(1) by (simp add: ms_def)
  have last: "length ?ns - Suc 0 = n" by (simp add: n_def)
  have res: "nodes (shard_remove h idx s) = ms"
    using i by (auto simp: shard_remove_def Let_def ms_def last)
  have inj: "?ns ! j = ?ns ! k \<longleftrightarrow> j = k" if "j < length ?ns" "k < length ?ns" for j k
    using d that by (simp add: nth_eq_iff_index_eq)
  show "length (nodes (shard_remove h idx s)) = length ?ns - 1" by (simp add: res len last)
  have ix: "index (shard_remove h idx s) g =
      (if g = h then None else if idx \<noteq> n \<and> g = ?ns ! n then Some idx else index s g)" for g
    using i by (auto simp: shard_remove_def Let_def last)
  have idx_iff: "index s g = Some j \<longleftrightarrow> j < Suc n \<and> ?ns ! j = g" for g j
    using ok by (simp add: shard_ok_def len_ns)
  have main: "index (shard_remove h idx s) g = Some j \<longleftrightarrow> j < n \<and> ms ! j = g" for g j
  proof -
    have "idx = n \<or> idx < n" using i(1) len_ns by linarith
    then show ?thesis
      using i nth [of j] idx_iff [of g j] inj [of j idx] inj [of n idx] inj [of j n]
      unfolding ix len_ns by (auto simp: less_Suc_eq)
  qed
  have sub: "set ms \<subseteq> set ?ns - {h}"
  proof
    fix g assume "g \<in> set ms"
    then obtain j where j: "j < n" "ms ! j = g" using len by (auto simp: in_set_conv_nth)
    then have "index (shard_remove h idx s) g = Some j" by (simp add: main)
    then have "g \<noteq> h" using ix [of h] by auto
    moreover have "g \<in> set ?ns"
      unfolding j(2) [symmetric] nth [OF j(1)] using j(1) len_ns by simp
    ultimately show "g \<in> set ?ns - {h}" by simp
  qed
  moreover have "set ?ns - {h} \<subseteq> set ms"
  proof
    fix g assume "g \<in> set ?ns - {h}"
    then obtain j where j: "j < length ?ns" "?ns ! j = g" "g \<noteq> h" by (auto simp: in_set_conv_nth)
    then have "j \<noteq> idx" using i by auto
    show "g \<in> set ms"
    proof (cases "j = n")
      case True
      with \<open>j \<noteq> idx\<close> i(1) len_ns have "idx < n" by linarith
      with True j nth [of idx] len show ?thesis by (metis nth_mem)
    next
      case False
      then have "j < n" using j(1) len_ns by linarith
      with j \<open>j \<noteq> idx\<close> nth [of j] len show ?thesis by (metis nth_mem)
    qed
  qed
  ultimately show set: "set (nodes (shard_remove h idx s)) = set ?ns - {h}" by (auto simp: res)
  show "shard_ok i (shard_remove h idx s)"
    using main set ok by (auto simp: shard_ok_def res len)
qed

lemma in_view_range:
  assumes "view_ok rv"
  shows "h \<in> set (view_range rv) \<longleftrightarrow> h \<in> set (nodes (shards rv ! shard_for h))"
proof
  assume "h \<in> set (view_range rv)"
  then obtain i where i: "i < num_shards" "h \<in> set (nodes (shards rv ! i))"
    using assms by (auto simp: view_range_def view_ok_def in_set_conv_nth [of _ "shards rv"])
  then have "shard_for h = i" using assms by (auto simp: view_ok_def shard_ok_def)
  with i show "h \<in> set (nodes (shards rv ! shard_for h))" by simp
next
  assume "h \<in> set (nodes (shards rv ! shard_for h))"
  moreover have "shards rv ! shard_for h \<in> set (shards rv)"
    using assms shard_for_less [of h] by (auto simp: view_ok_def)
  ultimately show "h \<in> set (view_range rv)" by (auto simp: view_range_def)
qed

lemma view_contains_range: "view_ok rv \<Longrightarrow> view_contains rv h \<longleftrightarrow> h \<in> set (view_range rv)"
  using shard_ok_index [of "shard_for h" "shards rv ! shard_for h" h] shard_for_less [of h]
  by (simp add: in_view_range view_contains_def view_ok_def)

lemma distinct_shard_concat:
  assumes "\<forall>i<length ss. shard_ok (k + i) (ss ! i)"
  shows "distinct (concat (map nodes ss))
    \<and> (\<forall>h\<in>set (concat (map nodes ss)). k \<le> shard_for h)"
  using assms
proof (induction ss arbitrary: k)
  case (Cons s ss)
  have s: "shard_ok k s" using Cons.prems [rule_format, of 0] by simp
  have "\<forall>i<length ss. shard_ok (Suc k + i) (ss ! i)"
    using Cons.prems by (metis Suc_less_eq add_Suc_shift length_Cons nth_Cons_Suc)
  note ih = Cons.IH [OF this]
  have k: "\<forall>h\<in>set (nodes s). shard_for h = k" using s by (simp add: shard_ok_def)
  have "set (nodes s) \<inter> set (concat (map nodes ss)) = {}"
  proof (rule ccontr)
    assume "set (nodes s) \<inter> set (concat (map nodes ss)) \<noteq> {}"
    then obtain h where "h \<in> set (nodes s)" "h \<in> set (concat (map nodes ss))" by blast
    with k ih have "shard_for h = k" "Suc k \<le> shard_for h" by blast+
    then show False by simp
  qed
  moreover have "\<forall>h\<in>set (concat (map nodes ss)). k \<le> shard_for h"
    using ih Suc_leD by blast
  ultimately show ?case using ih k shard_ok_distinct [OF s] by (simp add: ball_Un)
qed simp

lemma view_range_distinct: "view_ok rv \<Longrightarrow> distinct (view_range rv)"
  using distinct_shard_concat [of "shards rv" 0] by (simp add: view_ok_def view_range_def)

lemma length_view_range:
  "length (view_range rv) = sum_list (map (\<lambda>s. length (nodes s)) (shards rv))"
  by (simp add: view_range_def length_concat o_def)

lemma sum_list_upd:
  "i < length xs \<Longrightarrow> int (sum_list (map f (xs[i := x])))
     = int (sum_list (map f xs)) - int (f (xs ! i)) + int (f x)" for f :: "'a \<Rightarrow> nat"
  by (induction xs arbitrary: i) (auto split: nat.splits)

lemma view_upd_ok:
  assumes "view_ok rv" "i < num_shards" "shard_ok i s"
    and "vs = vsize rv - int (length (nodes (shards rv ! i))) + int (length (nodes s))"
  shows "view_ok (rv\<lparr>shards := (shards rv)[i := s], vsize := vs\<rparr>)"
  using assms sum_list_upd [of i "shards rv" "\<lambda>s. length (nodes s)" s]
  by (auto simp: view_ok_def length_view_range nth_list_update)

lemma view_contains_upd:
  assumes "view_ok rv" "shard_for h < num_shards"
    and "shard_ok (shard_for h) s" "\<forall>g. shard_for g = shard_for h \<longrightarrow>
      (index s g \<noteq> None \<longleftrightarrow> (if g = h then b else index (shards rv ! shard_for h) g \<noteq> None))"
  shows "view_contains (rv\<lparr>shards := (shards rv)[shard_for h := s], vsize := vs\<rparr>) g \<longleftrightarrow>
      (if g = h then b else view_contains rv g)"
  using assms by (auto simp: view_contains_def view_ok_def nth_list_update)

lemma view_add_ok: "view_ok rv \<Longrightarrow> view_ok (view_add h rv)"
  using view_upd_ok [of rv "shard_for h" "shard_add h (shards rv ! shard_for h)"]
    shard_add_ok [of "shard_for h" "shards rv ! shard_for h" h] shard_for_less [of h]
  by (auto simp: view_add_def Let_def view_ok_def shard_add_def split: option.splits)

lemma view_add_contains:
  assumes "view_ok rv"
  shows "view_contains (view_add h rv) g \<longleftrightarrow> g = h \<or> view_contains rv g"
proof (cases "index (shards rv ! shard_for h) h")
  case None
  have "shard_ok (shard_for h) (shards rv ! shard_for h)"
    using assms shard_for_less [of h] by (simp add: view_ok_def)
  from view_contains_upd [OF assms shard_for_less shard_add_ok [OF this None refl], of True]
  show ?thesis using None by (auto simp: view_add_def Let_def shard_add_def)
next
  case (Some j)
  then have "view_contains rv h" by (simp add: view_contains_def)
  with Some show ?thesis by (auto simp: view_add_def Let_def)
qed

lemma view_remove_facts:
  assumes "view_ok rv"
  shows "view_ok (view_remove h rv)"
    and "view_contains (view_remove h rv) g \<longleftrightarrow> g \<noteq> h \<and> view_contains rv g"
proof -
  let ?s = "shards rv ! shard_for h"
  have s: "shard_ok (shard_for h) ?s" using assms shard_for_less [of h] by (simp add: view_ok_def)
  have "view_ok (view_remove h rv)
    \<and> (view_contains (view_remove h rv) g \<longleftrightarrow> g \<noteq> h \<and> view_contains rv g)"
  proof (cases "index ?s h")
    case None
    then have "\<not> view_contains rv h" by (simp add: view_contains_def)
    with None assms show ?thesis by (auto simp: view_remove_def Let_def)
  next
    case (Some j)
    note r = shard_remove_ok [OF s Some]
    have "h \<in> set (nodes ?s)" using shard_ok_index [OF s] Some by blast
    then have pos: "0 < length (nodes ?s)" by (cases "nodes ?s") auto
    have "\<forall>g. shard_for g = shard_for h \<longrightarrow> (index (shard_remove h j ?s) g \<noteq> None \<longleftrightarrow>
        (if g = h then False else index ?s g \<noteq> None))"
      using shard_ok_index [OF s] shard_ok_index [OF r(1)] r(2) by auto
    from view_contains_upd [OF assms shard_for_less r(1) this]
      view_upd_ok [OF assms shard_for_less r(1), of "vsize rv - 1"] r(3) pos Some
    show ?thesis by (auto simp: view_remove_def Let_def)
  qed
  then show "view_ok (view_remove h rv)"
    "view_contains (view_remove h rv) g \<longleftrightarrow> g \<noteq> h \<and> view_contains rv g" by blast+
qed

lemma view_clear_facts:
  assumes "length (shards rv) = num_shards"
  shows "view_ok (view_clear rv)" "\<not> view_contains (view_clear rv) g"
  using assms shard_for_less [of g]
  by (simp_all add: view_ok_def view_clear_def shard_ok_def view_contains_def length_view_range o_def)

lemma new_view_ok: "view_ok new_routable_view"
  by (simp add: view_ok_def new_routable_view_def shard_ok_def empty_shard_def length_view_range
      num_shards_def)

interpretation rv: node_set view_add view_remove view_clear view_contains view_range view_size view_ok
proof (unfold_locales, goal_cases)
  case (3 v) then show ?case by (intro view_clear_facts) (simp add: view_ok_def)
next
  case (4 v h g) then show ?case by (rule view_add_contains)
next
  case (5 v h g) then show ?case by (rule view_remove_facts)
next
  case (6 v g) then show ?case by (intro view_clear_facts) (simp add: view_ok_def)
next
  case (7 v) then show ?case by (auto simp: view_contains_range)
next
  case (9 v) then show ?case by (simp add: view_size_def view_ok_def)
qed (simp_all add: view_add_ok view_remove_facts view_range_distinct)

section \<open>Random picks\<close>

lemma pick_walk_concat:
  "pick_walk ss t = (let hs = concat (map nodes ss) in if t < length hs then Some (hs ! t) else None)"
  by (induction ss arbitrary: t) (auto simp: Let_def nth_append)

lemma random_pick_in_view:
  assumes "view_ok rv" "random_pick rv ev = (r, ev')"
  shows "(r = None \<longleftrightarrow> view_size rv = 0) \<and> (\<forall>h. r = Some h \<longrightarrow> view_contains rv h)"
proof (cases "view_size rv = 0")
  case False
  then have len: "0 < length (view_range rv)"
    using rv.count_elems [OF assms(1)] by simp
  obtain t e where t: "rng_int_n (length (view_range rv)) ev = (t, e)" by fastforce
  then have lt: "t < length (view_range rv)" using rng_int_n_less [OF len, of ev] by simp
  then have "r = Some (view_range rv ! t)"
    using assms False t rv.count_elems [OF assms(1)]
    by (auto simp: random_pick_def pick_walk_concat view_range_def [symmetric])
  then show ?thesis using False lt by (auto simp: view_contains_range [OF assms(1)])
qed (use assms in \<open>auto simp: random_pick_def\<close>)

section \<open>Properties\<close>

datatype view_op = View_Add hash | View_Remove hash | View_Clear

fun view_step :: "view_op \<Rightarrow> routable_view \<Rightarrow> routable_view" where
  "view_step (View_Add h) rv = view_add h rv"
| "view_step (View_Remove h) rv = view_remove h rv"
| "view_step View_Clear rv = view_clear rv"

fun set_step :: "view_op \<Rightarrow> hash set \<Rightarrow> hash set" where
  "set_step (View_Add h) A = insert h A"
| "set_step (View_Remove h) A = A - {h}"
| "set_step View_Clear A = {}"

interpretation vm: invariant_machine view_step "\<lambda>_. True" view_ok
proof
  fix rv op
  assume "view_ok rv"
  then show "view_ok (view_step op rv)"
    by (cases op) (simp_all add: rv.ok_add rv.ok_rem rv.ok_clear)
qed

lemma view_step_set:
  "view_ok rv \<Longrightarrow> {h. view_contains (view_step op rv) h} = set_step op {h. view_contains rv h}"
  by (cases op) (auto simp: rv.contains_add rv.contains_rem rv.contains_clear)

text \<open>
  C39. The sharded view refines a plain set: after any sequence of inserts, deletes and clears of
  a new view, membership is membership of the set the same operations build, the size counter is
  its cardinality, and an iteration visits every element once. The position index, the swap with
  the last element and the atomic counter never get out of step.
\<close>

theorem view_refines_set:
  "let rv = fold view_step ops new_routable_view; A = fold set_step ops {} in
     {h. view_contains rv h} = A \<and> set (view_range rv) = A \<and> distinct (view_range rv)
     \<and> view_size rv = int (card A)"
proof -
  have run: "view_ok (fold view_step ops rv)
      \<and> {h. view_contains (fold view_step ops rv) h} = fold set_step ops {h. view_contains rv h}"
    if "view_ok rv" for rv
    using that
  proof (induction ops arbitrary: rv)
    case (Cons op ops)
    from Cons.IH [OF vm.step_inv [OF Cons.prems]] view_step_set [OF Cons.prems] show ?case by simp
  qed simp
  have "{h. view_contains new_routable_view h} = {}"
    using rv.contains_clear [OF new_view_ok] shard_for_less
    by (auto simp: view_contains_def new_routable_view_def empty_shard_def)
  with run [OF new_view_ok] show ?thesis
    by (simp add: Let_def rv.elems_contains rv.elems_once rv.count_card)
qed

text \<open>
  Random picks are fair: on a non-empty view every draw below the size yields a routable
  node, and every routable node is the result of exactly one draw, so a uniform draw makes every
  node equally likely although the nodes are spread unevenly over the shards.
\<close>

lemma random_pick_fair:
  assumes "view_ok rv"
  shows "bij_betw (\<lambda>t. the (fst (random_pick rv \<lparr>draws = [t], clock = ck\<rparr>)))
     {t. int t < view_size rv} {h. view_contains rv h}"
proof -
  let ?hs = "view_range rv"
  have n: "view_size rv = int (length ?hs)" by (rule rv.count_elems [OF assms])
  have "the (fst (random_pick rv \<lparr>draws = [t], clock = ck\<rparr>)) = ?hs ! t" if "t < length ?hs" for t
  proof -
    have "?hs \<noteq> []" using that by auto
    with that n show ?thesis
      by (simp add: random_pick_def rng_int_n.simps pick_walk_concat view_range_def [symmetric])
  qed
  then have "bij_betw (\<lambda>t. the (fst (random_pick rv \<lparr>draws = [t], clock = ck\<rparr>)))
      {..<length ?hs} (set ?hs) = bij_betw ((!) ?hs) {..<length ?hs} (set ?hs)"
    by (intro bij_betw_cong) simp
  moreover have "bij_betw ((!) ?hs) {..<length ?hs} (set ?hs)"
    by (rule bij_betw_nth [OF rv.elems_once [OF assms] refl refl])
  moreover have "{t. int t < view_size rv} = {..<length ?hs}" using n by auto
  ultimately show ?thesis
    by (simp add: rv.elems_contains [OF assms, symmetric])
qed

text \<open>Two nodes in different shards.\<close>

definition sample_view :: routable_view where
  "sample_view = view_add (replicate 16 2) (view_add (replicate 16 1) new_routable_view)"

lemma sample_view_ok: "view_ok sample_view"
  by (simp add: sample_view_def rv.ok_add new_view_ok)

end
