(* ===== verification/Platform.thy ===== *)
theory Platform
  imports Node_Entry Routable_View
begin

text \<open>
  \<open>internal/platform\<close>: a routing platform with its node filters and its routable view, the
  validation of its settings and its construction from a persisted model. The lemmas show that a
  full rebuild and a single-node update both make the view agree with the filter, what the region
  filter decides, and what a platform that was built is guaranteed to satisfy.
\<close>

section \<open>Settings\<close>

text \<open>\<open>AllocationPolicy\<close>, \<open>ReverseProxyMissAction\<close> and \<open>ReverseProxyEmptyAccountBehavior\<close> are
  string types in the code.\<close>

type_synonym allocation_policy = string

definition policy_balanced :: allocation_policy where
  "policy_balanced = ''BALANCED''"

definition policy_prefer_low_latency :: allocation_policy where
  "policy_prefer_low_latency = ''PREFER_LOW_LATENCY''"

definition policy_prefer_idle_ip :: allocation_policy where
  "policy_prefer_idle_ip = ''PREFER_IDLE_IP''"

definition policy_is_valid :: "allocation_policy \<Rightarrow> bool" where
  "policy_is_valid p \<longleftrightarrow> p = policy_balanced \<or> p = policy_prefer_low_latency \<or> p = policy_prefer_idle_ip"

definition parse_allocation_policy :: "string \<Rightarrow> allocation_policy" where
  "parse_allocation_policy raw = (if policy_is_valid raw then raw else policy_balanced)"

definition miss_treat_as_empty :: string where
  "miss_treat_as_empty = ''TREAT_AS_EMPTY''"

definition miss_reject :: string where
  "miss_reject = ''REJECT''"

definition miss_action_is_valid :: "string \<Rightarrow> bool" where
  "miss_action_is_valid a \<longleftrightarrow> a = miss_treat_as_empty \<or> a = miss_reject"

definition normalize_miss_action :: "string \<Rightarrow> string" where
  "normalize_miss_action raw =
     (let v = trim_space raw in if miss_action_is_valid v then v else [])"

definition behavior_random :: string where
  "behavior_random = ''RANDOM''"

definition behavior_fixed_header :: string where
  "behavior_fixed_header = ''FIXED_HEADER''"

definition behavior_account_header_rule :: string where
  "behavior_account_header_rule = ''ACCOUNT_HEADER_RULE''"

definition behavior_is_valid :: "string \<Rightarrow> bool" where
  "behavior_is_valid b \<longleftrightarrow>
     b = behavior_random \<or> b = behavior_fixed_header \<or> b = behavior_account_header_rule"

section \<open>The platform\<close>

definition default_platform_id :: string where
  "default_platform_id = ''00000000-0000-0000-0000-000000000000''"

record platform =
  plat_id :: string
  plat_name :: string
  regex_filters :: tag_filter
  region_filters :: "string list"
  sticky_ttl_ns :: int
  miss_action :: string
  empty_account_behavior :: string
  fixed_account_header :: string
  fixed_account_headers :: "string list"
  alloc_policy :: allocation_policy
  passive_circuit_breaker_disabled :: bool
  max_accounts_per_ip :: int
  ip_account_window_ns :: int
  view :: routable_view

definition new_platform_with_tag_filter ::
  "string \<Rightarrow> string \<Rightarrow> tag_filter \<Rightarrow> string list \<Rightarrow> platform" where
  "new_platform_with_tag_filter pid name filters regions =
     \<lparr>plat_id = pid, plat_name = name, regex_filters = filters, region_filters = regions,
      sticky_ttl_ns = 0, miss_action = [], empty_account_behavior = [], fixed_account_header = [],
      fixed_account_headers = [], alloc_policy = [], passive_circuit_breaker_disabled = False,
      max_accounts_per_ip = 0, ip_account_window_ns = 0, view = new_routable_view\<rparr>"

definition new_platform :: "string \<Rightarrow> string \<Rightarrow> regex list \<Rightarrow> string list \<Rightarrow> platform" where
  "new_platform pid name regexes regions =
     new_platform_with_tag_filter pid name
       \<lparr>any_rules = [], must_rules = regexes, must_not_rules = []\<rparr> regions"

definition default_ip_account_window_ns :: int where
  "default_ip_account_window_ns = 7200000000000"

definition ip_quota_enabled :: "platform \<Rightarrow> bool" where
  "ip_quota_enabled p \<longleftrightarrow> max_accounts_per_ip p > 0"

definition effective_ip_account_window_ns :: "platform \<Rightarrow> int" where
  "effective_ip_account_window_ns p =
     (if ip_account_window_ns p > 0 then ip_account_window_ns p else default_ip_account_window_ns)"

type_synonym node_table = "(hash, node_entry) amap"

section \<open>Which nodes are routable\<close>

text \<open>The loop of \<open>MatchRegionFilter\<close>; \<open>None\<close> is the early return on an excluded region.\<close>

fun region_loop :: "string \<Rightarrow> string list \<Rightarrow> bool \<times> bool \<Rightarrow> (bool \<times> bool) option" where
  "region_loop region [] acc = Some acc"
| "region_loop region (f # fs) (included, has_include) =
     (if f \<noteq> [] \<and> hd f = CHR ''!''
      then (if region = tl f then None else region_loop region fs (included, has_include))
      else region_loop region fs (if region = f then True else included, True))"

definition match_region_filter :: "string \<Rightarrow> string list \<Rightarrow> bool" where
  "match_region_filter region filters =
     (if filters = [] then True
      else if region = [] then False
      else case region_loop region filters (False, False) of
             None \<Rightarrow> False
           | Some (included, has_include) \<Rightarrow> \<not> (has_include \<and> \<not> included))"

definition evaluate_node ::
  "platform \<Rightarrow> node_entry \<Rightarrow> sub_lookup option \<Rightarrow> (addr \<Rightarrow> string) option \<Rightarrow> bool" where
  "evaluate_node p e sub_lookup geo_lookup =
     (if is_disabled_by_subscriptions e sub_lookup then False
      else if \<not> is_healthy e then False
      else if \<not> match_tag_filter e (regex_filters p) sub_lookup then False
      else if \<not> addr_valid (get_egress_ip e) then False
      else if region_filters p \<noteq> []
           \<and> \<not> match_region_filter (get_region e geo_lookup) (region_filters p) then False
      else if \<not> has_latency e then False
      else True)"

definition full_rebuild ::
  "(hash, node_entry) amap \<Rightarrow> sub_lookup option \<Rightarrow> (addr \<Rightarrow> string) option \<Rightarrow> platform \<Rightarrow> platform" where
  "full_rebuild pool sub_lookup geo_lookup p =
     p\<lparr>view := fold (\<lambda>he v. if evaluate_node p (snd he) sub_lookup geo_lookup
                             then view_add (fst he) v else v) pool (view_clear (view p))\<rparr>"

definition notify_dirty ::
  "hash \<Rightarrow> (hash, node_entry) amap \<Rightarrow> sub_lookup option \<Rightarrow> (addr \<Rightarrow> string) option
     \<Rightarrow> platform \<Rightarrow> platform" where
  "notify_dirty h pool sub_lookup geo_lookup p =
     (case m_load pool h of
        None \<Rightarrow> p\<lparr>view := view_remove h (view p)\<rparr>
      | Some e \<Rightarrow>
          if evaluate_node p e sub_lookup geo_lookup then p\<lparr>view := view_add h (view p)\<rparr>
          else p\<lparr>view := view_remove h (view p)\<rparr>)"

section \<open>Validation and construction\<close>

datatype platform_error =
    Bad_Region_Filter nat
  | Bad_Regex_Filter nat
  | Name_Empty | Name_Reserved | Name_Forbidden_Char | Name_Spacing
  | Bad_Fixed_Header nat
  | Decode_Regex_Filters platform_error
  | Decode_Miss_Action string
  | Decode_Fixed_Header platform_error
  | Fixed_Header_Required
  | Max_Accounts_Negative int
  | Window_Negative int

definition is_lower_alpha2 :: "string \<Rightarrow> bool" where
  "is_lower_alpha2 s \<longleftrightarrow> length s = 2 \<and>
     (\<forall>c\<in>set s. 97 \<le> (of_char c :: nat) \<and> (of_char c :: nat) \<le> 122)"

fun validate_region_loop :: "nat \<Rightarrow> string list \<Rightarrow> platform_error + unit" where
  "validate_region_loop i [] = Inr ()"
| "validate_region_loop i (r # rs) =
     (let code = (if r \<noteq> [] \<and> hd r = CHR ''!'' then tl r else r)
      in if \<not> is_lower_alpha2 code then Inl (Bad_Region_Filter i)
         else validate_region_loop (Suc i) rs)"

definition validate_region_filters :: "string list \<Rightarrow> platform_error + unit" where
  "validate_region_filters rs = validate_region_loop 0 rs"

fun compile_loop ::
  "external \<Rightarrow> nat \<Rightarrow> string list \<Rightarrow> tag_filter \<Rightarrow> platform_error + tag_filter" where
  "compile_loop X i [] acc = Inr acc"
| "compile_loop X i (rule # rules) acc =
     (let marked = rule \<noteq> [] \<and> (hd rule = CHR ''*'' \<or> hd rule = CHR ''!'');
          pattern = (if marked then tl rule else rule)
      in case regex_compile X pattern of
           None \<Rightarrow> Inl (Bad_Regex_Filter i)
         | Some c \<Rightarrow> compile_loop X (Suc i) rules
             (if marked \<and> hd rule = CHR ''*'' then acc\<lparr>must_rules := must_rules acc @ [c]\<rparr>
              else if marked then acc\<lparr>must_not_rules := must_not_rules acc @ [c]\<rparr>
              else acc\<lparr>any_rules := any_rules acc @ [c]\<rparr>))"

definition compile_regex_filters :: "external \<Rightarrow> string list \<Rightarrow> platform_error + tag_filter" where
  "compile_regex_filters X rules =
     compile_loop X 0 rules \<lparr>any_rules = [], must_rules = [], must_not_rules = []\<rparr>"

definition name_forbidden_chars :: string where
  "name_forbidden_chars = ''.:|/'' @ [char_of (92 :: nat)] @ ''@?#%~''"

definition name_forbidden_spacing :: string where
  "name_forbidden_spacing = map char_of [32 :: nat, 9, 13, 10]"

definition contains_any :: "string \<Rightarrow> string \<Rightarrow> bool" where
  "contains_any s chars = list_ex (\<lambda>c. c \<in> set chars) s"

definition normalize_platform_name :: "string \<Rightarrow> string" where
  "normalize_platform_name raw = trim_space raw"

definition validate_platform_name :: "external \<Rightarrow> string \<Rightarrow> platform_error + unit" where
  "validate_platform_name X name =
     (if name = [] then Inl Name_Empty
      else if equal_fold (uni_fold X) name ''api'' then Inl Name_Reserved
      else if contains_any name name_forbidden_chars then Inl Name_Forbidden_Char
      else if contains_any name name_forbidden_spacing then Inl Name_Spacing
      else Inr ())"

fun fixed_header_loop ::
  "external \<Rightarrow> nat \<Rightarrow> string list \<Rightarrow> string list \<Rightarrow> string list \<Rightarrow> platform_error + string list" where
  "fixed_header_loop X i [] seen headers = Inr headers"
| "fixed_header_loop X i (line # lines) seen headers =
     (let name = canonical_header_key (trim_space (trim_suffix_byte (char_of (13 :: nat)) line)) in
      if name = [] then fixed_header_loop X (Suc i) lines seen headers
      else if \<not> valid_header_name X name then Inl (Bad_Fixed_Header (i + 1))
      else let key = to_lower (uni_lower X) name in
           if key \<in> set seen then fixed_header_loop X (Suc i) lines seen headers
           else fixed_header_loop X (Suc i) lines (key # seen) (headers @ [name]))"

definition normalize_fixed_account_headers ::
  "external \<Rightarrow> string \<Rightarrow> platform_error + string \<times> string list" where
  "normalize_fixed_account_headers X raw =
     (if trim_space raw = [] then Inr ([], [])
      else case fixed_header_loop X 0 (split_at_byte (char_of (10 :: nat)) raw) [] [] of
             Inl e \<Rightarrow> Inl e
           | Inr headers \<Rightarrow> Inr (join_with [char_of (10 :: nat)] headers, headers))"

definition new_configured_platform ::
  "external \<Rightarrow> string \<Rightarrow> string \<Rightarrow> tag_filter \<Rightarrow> string list \<Rightarrow> int \<Rightarrow> string \<Rightarrow> string \<Rightarrow> string
     \<Rightarrow> string \<Rightarrow> bool \<Rightarrow> int \<Rightarrow> int \<Rightarrow> platform" where
  "new_configured_platform X pid name filters regions ttl miss empty_behavior fixed_header policy
     passive_disabled max_accounts window_ns =
     (let (normalized, headers) =
            (case normalize_fixed_account_headers X fixed_header of
               Inl _ \<Rightarrow> (trim_space fixed_header, [])
             | Inr r \<Rightarrow> r)
      in (new_platform_with_tag_filter pid name filters regions)
           \<lparr>sticky_ttl_ns := ttl, miss_action := miss, empty_account_behavior := empty_behavior,
            fixed_account_header := normalized, fixed_account_headers := headers,
            alloc_policy := parse_allocation_policy policy,
            passive_circuit_breaker_disabled := passive_disabled,
            max_accounts_per_ip := max_accounts, ip_account_window_ns := window_ns\<rparr>)"

record model_platform =
  m_id :: string
  m_name :: string
  m_sticky_ttl_ns :: int
  m_regex_filters :: "string list"
  m_region_filters :: "string list"
  m_miss_action :: string
  m_empty_account_behavior :: string
  m_fixed_account_header :: string
  m_allocation_policy :: string
  m_passive_disabled :: bool
  m_max_accounts_per_ip :: int
  m_ip_account_window_ns :: int
  m_updated_at_ns :: int

definition compile_model_regex_filters ::
  "external \<Rightarrow> string list \<Rightarrow> platform_error + tag_filter" where
  "compile_model_regex_filters X rules =
     (case compile_regex_filters X rules of
        Inl e \<Rightarrow> Inl (Decode_Regex_Filters e)
      | Inr f \<Rightarrow> Inr f)"

definition build_from_model :: "external \<Rightarrow> model_platform \<Rightarrow> platform_error + platform" where
  "build_from_model X mp =
     (case compile_model_regex_filters X (m_regex_filters mp) of
        Inl e \<Rightarrow> Inl e
      | Inr filters \<Rightarrow>
     (case validate_region_filters (m_region_filters mp) of
        Inl e \<Rightarrow> Inl e
      | Inr _ \<Rightarrow>
     (let empty_behavior = (if behavior_is_valid (m_empty_account_behavior mp)
                            then m_empty_account_behavior mp else behavior_random);
          miss = normalize_miss_action (m_miss_action mp)
      in if miss = [] then Inl (Decode_Miss_Action (m_miss_action mp))
         else case normalize_fixed_account_headers X (m_fixed_account_header mp) of
                Inl e \<Rightarrow> Inl (Decode_Fixed_Header e)
              | Inr (fixed_header, _) \<Rightarrow>
                  if empty_behavior = behavior_fixed_header \<and> fixed_header = []
                  then Inl Fixed_Header_Required
                  else if m_max_accounts_per_ip mp < 0
                  then Inl (Max_Accounts_Negative (m_max_accounts_per_ip mp))
                  else if m_ip_account_window_ns mp < 0
                  then Inl (Window_Negative (m_ip_account_window_ns mp))
                  else Inr (new_configured_platform X (m_id mp) (m_name mp) filters
                         (m_region_filters mp) (m_sticky_ttl_ns mp) miss empty_behavior
                         fixed_header (m_allocation_policy mp) (m_passive_disabled mp)
                         (m_max_accounts_per_ip mp) (m_ip_account_window_ns mp)))))"

section \<open>The view and the filter\<close>

definition routable ::
  "(hash, node_entry) amap \<Rightarrow> sub_lookup option \<Rightarrow> (addr \<Rightarrow> string) option \<Rightarrow> platform \<Rightarrow> hash \<Rightarrow> bool" where
  "routable pool lk geo p h =
     (case m_load pool h of None \<Rightarrow> False | Some e \<Rightarrow> evaluate_node p e lk geo)"

text \<open>The view holds exactly the nodes of the pool that pass the filter.\<close>

definition view_coherent ::
  "(hash, node_entry) amap \<Rightarrow> sub_lookup option \<Rightarrow> (addr \<Rightarrow> string) option \<Rightarrow> platform \<Rightarrow> bool" where
  "view_coherent pool lk geo p \<longleftrightarrow>
     view_ok (view p) \<and> (\<forall>h. view_contains (view p) h \<longleftrightarrow> routable pool lk geo p h)"

lemma evaluate_node_view [simp]: "evaluate_node (p\<lparr>view := v\<rparr>) = evaluate_node p"
  by (intro ext) (simp add: evaluate_node_def)

text \<open>What the decision depends on: seven facts about the entry.\<close>

definition routing_facts ::
  "node_entry \<Rightarrow> hash \<times> string list \<times> bool \<times> bool \<times> addr \<times> string \<times> bool" where
  "routing_facts e = (node_hash e, subscription_ids e, circuit_open_since e = 0, has_outbound e,
     get_egress_ip e, get_egress_region e, has_latency e)"

lemma evaluate_node_cong:
  assumes "routing_facts e' = routing_facts e"
  shows "evaluate_node p e' lk geo = evaluate_node p e lk geo"
proof -
  have "is_disabled_by_subscriptions e' lk = is_disabled_by_subscriptions e lk"
    using assms by (simp add: routing_facts_def is_disabled_by_subscriptions_def
        has_enabled_subscription_def split: option.split)
  moreover have "is_healthy e' = is_healthy e"
    using assms by (simp add: routing_facts_def is_healthy_def is_circuit_open_def)
  moreover have "match_tag_filter e' f lk = match_tag_filter e f lk" for f
    using assms by (simp add: routing_facts_def match_tag_filter_def split: option.split)
  moreover have "get_region e' geo = get_region e geo"
    using assms by (simp add: routing_facts_def get_region_def split: option.split)
  ultimately show ?thesis
    using assms by (simp add: evaluate_node_def routing_facts_def)
qed

lemma routable_view [simp]: "routable pool lk geo (p\<lparr>view := v\<rparr>) = routable pool lk geo p"
  by (intro ext) (simp add: routable_def cong: option.case_cong)

text \<open>Two node tables that agree on these facts route alike.\<close>

lemma routable_cong:
  assumes "rel_option (\<lambda>e e'. routing_facts e' = routing_facts e) (m_load pool h) (m_load pool' h)"
  shows "routable pool' lk geo p h = routable pool lk geo p h"
proof (cases "m_load pool h")
  case None
  with assms show ?thesis by (simp add: routable_def)
next
  case (Some e)
  with assms obtain e' where "m_load pool' h = Some e'" "routing_facts e' = routing_facts e"
    by (auto simp: option_rel_Some1)
  with Some show ?thesis by (simp add: routable_def evaluate_node_cong [of e' e])
qed

text \<open>Neither operation changes a platform but for its view.\<close>

lemma notify_dirty_only_view: "\<exists>v. notify_dirty h pool lk geo p = p\<lparr>view := v\<rparr>"
  by (auto simp: notify_dirty_def split: option.splits)

lemma full_rebuild_only_view: "\<exists>v. full_rebuild pool lk geo p = p\<lparr>view := v\<rparr>"
  by (auto simp: full_rebuild_def)

lemma full_rebuild_coherent:
  assumes "m_ok pool" "view_ok (view p)"
  shows "view_coherent pool lk geo (full_rebuild pool lk geo p)"
proof -
  let ?v = "fold (\<lambda>he v. if evaluate_node p (snd he) lk geo then view_add (fst he) v else v) pool
      (view_clear (view p))"
  have "view_ok ?v" by (rule rv.ok_fold_add [OF rv.ok_clear [OF assms(2)]])
  moreover have "view_contains ?v h \<longleftrightarrow> routable pool lk geo p h" for h
  proof -
    have "view_contains ?v h \<longleftrightarrow> (\<exists>he\<in>set pool. evaluate_node p (snd he) lk geo \<and> fst he = h)"
      by (rule rv.contains_rebuild [OF assms(2)])
    also have "\<dots> \<longleftrightarrow> (\<exists>e. (h, e) \<in> set pool \<and> evaluate_node p e lk geo)" by force
    also have "\<dots> \<longleftrightarrow> routable pool lk geo p h"
      by (auto simp: m_ok_mem [OF assms(1)] routable_def split: option.splits)
    finally show ?thesis .
  qed
  ultimately show ?thesis by (simp add: view_coherent_def full_rebuild_def)
qed

lemma notify_dirty_contains:
  assumes "view_ok (view p)"
  shows "view_ok (view (notify_dirty h pool lk geo p))"
    and "view_contains (view (notify_dirty h pool lk geo p)) g \<longleftrightarrow>
      (if g = h then routable pool lk geo p h else view_contains (view p) g)"
  using assms
  by (auto simp: notify_dirty_def routable_def rv.ok_add rv.ok_rem rv.contains_add
      rv.contains_rem split: option.splits)

text \<open>
  The work horse of every pool operation: when only the routability of \<open>h\<close> can have changed,
  re-evaluating \<open>h\<close> makes the view coherent again.
\<close>

lemma notify_dirty_coherent:
  assumes "view_coherent pool lk geo p"
    and "\<And>g. g \<noteq> h \<Longrightarrow> routable pool' lk' geo p g = routable pool lk geo p g"
  shows "view_coherent pool' lk' geo (notify_dirty h pool' lk' geo p)"
proof -
  obtain v where v: "notify_dirty h pool' lk' geo p = p\<lparr>view := v\<rparr>"
    using notify_dirty_only_view by blast
  have ok: "view_ok (view p)" using assms(1) by (simp add: view_coherent_def)
  from notify_dirty_contains [OF ok, of h pool' lk' geo] v
  have "view_ok v" "\<And>g. view_contains v g \<longleftrightarrow>
      (if g = h then routable pool' lk' geo p h else view_contains (view p) g)" by simp_all
  with assms v show ?thesis by (auto simp: view_coherent_def)
qed

lemma view_coherent_same:
  assumes "view_coherent pool lk geo p"
    and "\<And>g. routable pool' lk' geo p g = routable pool lk geo p g"
  shows "view_coherent pool' lk' geo p"
  using assms by (simp add: view_coherent_def)

section \<open>Properties\<close>

text \<open>
  C40. The incremental update is equivalent to a rebuild: if the view agrees with the pool and
  then only node \<open>h\<close> changes (added, removed, or its state altered), \<open>NotifyDirty h\<close> gives the
  view the same members as a full rebuild over the new pool.
\<close>

theorem notify_dirty_equals_rebuild:
  assumes "m_ok pool'" "view_coherent pool lk geo p"
    and "\<And>g. g \<noteq> h \<Longrightarrow> m_load pool' g = m_load pool g"
  shows "{g. view_contains (view (notify_dirty h pool' lk geo p)) g}
       = {g. view_contains (view (full_rebuild pool' lk geo p)) g}"
proof -
  have "view_coherent pool' lk geo (notify_dirty h pool' lk geo p)"
    by (rule notify_dirty_coherent [OF assms(2)]) (simp add: routable_def assms(3))
  moreover have "view_coherent pool' lk geo (full_rebuild pool' lk geo p)"
    by (rule full_rebuild_coherent [OF assms(1)]) (use assms(2) in \<open>simp add: view_coherent_def\<close>)
  ultimately show ?thesis
    using notify_dirty_only_view [of h pool' lk geo p] full_rebuild_only_view [of pool' lk geo p]
    by (auto simp: view_coherent_def)
qed

text \<open>
  A node that a platform routes to is usable: it has an enabled subscription, an outbound, a
  closed circuit, a known egress address, a latency record, and passes the tag and region filters;
  and every such node passes.
\<close>

lemma evaluate_node_meaning:
  "evaluate_node p e lk geo \<longleftrightarrow>
     has_enabled_subscription e lk \<and> has_outbound e \<and> circuit_open_since e = 0
     \<and> match_tag_filter e (regex_filters p) lk \<and> get_egress_ip e \<noteq> NoAddr \<and> has_latency e
     \<and> (region_filters p = [] \<or> match_region_filter (get_region e geo) (region_filters p))"
  by (auto simp: evaluate_node_def is_disabled_by_subscriptions_def is_healthy_def
      is_circuit_open_def addr_valid_def)

lemma region_loop_spec:
  "region_loop r fs (inc, has) =
     (if CHR ''!'' # r \<in> set fs then None
      else Some (inc \<or> (\<exists>f\<in>set fs. f = r \<and> (f = [] \<or> hd f \<noteq> CHR ''!'')),
                 has \<or> (\<exists>f\<in>set fs. f = [] \<or> hd f \<noteq> CHR ''!'')))"
proof (induction fs arbitrary: inc has)
  case (Cons f fs)
  then show ?case by (cases f) auto
qed simp

text \<open>
  Region filters are an include set and an exclude set: a node passes when its region is
  known, not excluded by \<open>!xx\<close>, and listed in case anything is listed; the order of the filters
  is irrelevant and an exclusion always wins.
\<close>

lemma match_region_filter_meaning:
  assumes "fs \<noteq> []" "\<forall>f\<in>set fs. f \<noteq> []" "hd r \<noteq> CHR ''!''"
  shows "match_region_filter r fs \<longleftrightarrow>
     r \<noteq> [] \<and> CHR ''!'' # r \<notin> set fs
     \<and> ({f \<in> set fs. hd f \<noteq> CHR ''!''} = {} \<or> r \<in> set fs)"
  using assms by (auto simp: match_region_filter_def region_loop_spec)

lemma validate_region_loop_ok:
  "validate_region_loop i rs = Inr () \<longleftrightarrow>
     (\<forall>r\<in>set rs. is_lower_alpha2 (if r \<noteq> [] \<and> hd r = CHR ''!'' then tl r else r))"
  by (induction rs arbitrary: i) (auto simp: Let_def)

lemma compile_loop_spec:
  "compile_loop X i rules acc = Inr f \<Longrightarrow>
     any_rules f = any_rules acc @ map (\<lambda>r. the (regex_compile X r))
       (filter (\<lambda>r. r = [] \<or> hd r \<notin> {CHR ''*'', CHR ''!''}) rules)
     \<and> must_rules f = must_rules acc @ map (\<lambda>r. the (regex_compile X (tl r)))
       (filter (\<lambda>r. r \<noteq> [] \<and> hd r = CHR ''*'') rules)
     \<and> must_not_rules f = must_not_rules acc @ map (\<lambda>r. the (regex_compile X (tl r)))
       (filter (\<lambda>r. r \<noteq> [] \<and> hd r = CHR ''!'') rules)"
proof (induction rules arbitrary: i acc)
  case (Cons rule rules)
  show ?case
  proof (cases rule)
    case Nil
    with Cons.prems Cons.IH show ?thesis by (auto simp: Let_def split: option.splits)
  next
    case r: (Cons c cs)
    show ?thesis
    proof (cases "c = CHR ''*'' \<or> c = CHR ''!''")
      case True
      with Cons.prems Cons.IH r show ?thesis by (auto simp: Let_def split: option.splits)
    next
      case False
      with Cons.prems Cons.IH r show ?thesis by (auto simp: Let_def split: option.splits)
    qed
  qed
qed simp

text \<open>
  Compiling the tag rules sorts them by their first byte and loses none: plain rules become
  any-rules, \<open>*\<close> rules must-rules and \<open>!\<close> rules must-not-rules, each in the order given, with
  the marker byte removed and nothing else changed.
\<close>

lemma compile_regex_filters_partition:
  assumes "compile_regex_filters X rules = Inr f"
  shows "any_rules f = map (\<lambda>r. the (regex_compile X r))
       (filter (\<lambda>r. r = [] \<or> hd r \<notin> {CHR ''*'', CHR ''!''}) rules)
     \<and> must_rules f = map (\<lambda>r. the (regex_compile X (tl r)))
       (filter (\<lambda>r. r \<noteq> [] \<and> hd r = CHR ''*'') rules)
     \<and> must_not_rules f = map (\<lambda>r. the (regex_compile X (tl r)))
       (filter (\<lambda>r. r \<noteq> [] \<and> hd r = CHR ''!'') rules)"
  using compile_loop_spec [OF assms [unfolded compile_regex_filters_def]] by simp

text \<open>
  A platform that is built from a persisted model is well configured: its region filters are
  two-letter codes or negations of one, its miss action and empty-account behaviour are known
  values, its allocation policy is one of the three policies (unknown ones fall back), the
  quota settings are not negative, the effective quota window is positive, and it starts with a
  new view.
\<close>

lemma build_from_model_sound:
  assumes "build_from_model X mp = Inr p"
  shows "(\<forall>r\<in>set (region_filters p). is_lower_alpha2 (if r \<noteq> [] \<and> hd r = CHR ''!'' then tl r else r))
     \<and> miss_action_is_valid (miss_action p)
     \<and> behavior_is_valid (empty_account_behavior p)
     \<and> policy_is_valid (alloc_policy p)
     \<and> max_accounts_per_ip p \<ge> 0 \<and> ip_account_window_ns p \<ge> 0
     \<and> effective_ip_account_window_ns p > 0
     \<and> view p = new_routable_view"
proof -
  from assms obtain filters fh hs where p: "p = new_configured_platform X (m_id mp) (m_name mp)
      filters (m_region_filters mp) (m_sticky_ttl_ns mp) (normalize_miss_action (m_miss_action mp))
      (if behavior_is_valid (m_empty_account_behavior mp)
       then m_empty_account_behavior mp else behavior_random)
      fh (m_allocation_policy mp) (m_passive_disabled mp)
      (m_max_accounts_per_ip mp) (m_ip_account_window_ns mp)"
    and c: "validate_region_filters (m_region_filters mp) = Inr ()"
      "normalize_miss_action (m_miss_action mp) \<noteq> []"
      "m_max_accounts_per_ip mp \<ge> 0" "m_ip_account_window_ns mp \<ge> 0"
    by (auto simp: build_from_model_def Let_def split: sum.splits if_splits)
  have miss: "miss_action_is_valid (normalize_miss_action (m_miss_action mp))"
    using c(2) by (auto simp: normalize_miss_action_def Let_def split: if_splits)
  have "policy_is_valid (parse_allocation_policy (m_allocation_policy mp))"
    by (simp add: parse_allocation_policy_def policy_is_valid_def)
  moreover have "behavior_is_valid behavior_random" by (simp add: behavior_is_valid_def)
  ultimately show ?thesis
    using c miss unfolding p
    by (auto simp: new_configured_platform_def new_platform_with_tag_filter_def Let_def
        validate_region_filters_def validate_region_loop_ok effective_ip_account_window_ns_def
        default_ip_account_window_ns_def split: prod.splits if_splits)
qed

definition sample_model :: model_platform where
  "sample_model = \<lparr>m_id = ''p'', m_name = ''n'', m_sticky_ttl_ns = 0, m_regex_filters = [''hk''],
     m_region_filters = [''us'', ''!hk''], m_miss_action = ''REJECT'',
     m_empty_account_behavior = ''RANDOM'', m_fixed_account_header = [],
     m_allocation_policy = ''OTHER'', m_passive_disabled = False, m_max_accounts_per_ip = 2,
     m_ip_account_window_ns = 0, m_updated_at_ns = 0\<rparr>"

lemma trim_reject: "trim_space ''REJECT'' = ''REJECT''"
  by (rule trim_space_plain) (simp_all add: plain_char_def)

text \<open>One node, one platform that accepts it, and the same node with its circuit open.\<close>

definition sample_entry :: node_entry where
  "sample_entry = (new_node_entry (replicate 16 1) ''{}'' 0 1)
     \<lparr>subscription_ids := [''s''], egress_ip := Some (V4 1), has_outbound := True,
      latency_tab := Some one_slot_table\<rparr>"

definition sample_lookup :: sub_lookup where
  "sample_lookup = (\<lambda>s h. if s = ''s'' then Some (''sub'', True, [''tag'']) else None)"

definition sample_platform :: platform where
  "sample_platform = new_platform ''p'' ''n'' [] []"

theorem notify_dirty_equals_rebuild_witness:
  "{g. view_contains (view (notify_dirty (replicate 16 1) [(replicate 16 1, sample_entry)]
        (Some sample_lookup) None sample_platform)) g}
   = {g. view_contains (view (full_rebuild [(replicate 16 1, sample_entry)]
        (Some sample_lookup) None sample_platform)) g}"
proof (rule notify_dirty_equals_rebuild [of _ "[]"])
  show "view_coherent [] (Some sample_lookup) None sample_platform"
    using full_rebuild_coherent [of "[]" sample_platform "Some sample_lookup" None]
      rv.contains_clear [OF new_view_ok]
    by (auto simp: view_coherent_def sample_platform_def new_platform_def routable_def
        new_platform_with_tag_filter_def new_view_ok)
      (simp add: view_contains_def new_routable_view_def empty_shard_def shard_for_less)
qed (simp_all add: m_ok_def)

end
