(* ===== verification/Lease_Table.thy ===== *)
theory Lease_Table
  imports Node_Hash
begin

text \<open>
  \<open>internal/routing/lease.go\<close>: the sticky leases of a platform and the per-address lease counters
  that move with them. The interface locale states what the counters promise; the lease table's
  lemmas rest on it: after every table operation the counter of each valid address is the number
  of leases on it, modulo the 64-bit width.
\<close>

section \<open>The interface: per-address load counters\<close>

locale load_stats =
  fixes inc :: "addr \<Rightarrow> 's \<Rightarrow> 's"
    and dec :: "addr \<Rightarrow> 's \<Rightarrow> 's"
    and get :: "'s \<Rightarrow> addr \<Rightarrow> int"
    and tracked :: "'s \<Rightarrow> addr \<Rightarrow> bool"
  assumes get_inc: "get (inc ip s) jp =
      (if jp = ip \<and> addr_valid ip then i64 (get s jp + 1) else get s jp)"
    and get_dec: "get (dec ip s) jp =
      (if jp = ip \<and> addr_valid ip \<and> tracked s ip then i64 (get s jp - 1) else get s jp)"
    and tracked_inc: "tracked (inc ip s) jp \<longleftrightarrow> tracked s jp \<or> jp = ip \<and> addr_valid ip"
    and tracked_dec: "tracked (dec ip s) jp \<longleftrightarrow> tracked s jp"

record lease =
  l_node :: hash
  l_egress :: addr
  l_created_at_ns :: int
  l_expiry_ns :: int
  l_last_accessed_ns :: int

text \<open>The number of leases on an address, and the agreement of counters and leases.\<close>

definition leases_on :: "(string \<rightharpoonup> lease) \<Rightarrow> addr \<Rightarrow> int" where
  "leases_on f ip = int (card (keys_where (\<lambda>_ l. l_egress l = ip) f))"

definition stats_match ::
  "('s \<Rightarrow> addr \<Rightarrow> int) \<Rightarrow> ('s \<Rightarrow> addr \<Rightarrow> bool) \<Rightarrow> (string \<rightharpoonup> lease) \<Rightarrow> 's \<Rightarrow> bool" where
  "stats_match get tracked f s \<longleftrightarrow>
     (\<forall>ip. addr_valid ip \<longrightarrow> get s ip = i64 (leases_on f ip))
     \<and> (\<forall>a l. f a = Some l \<longrightarrow> addr_valid (l_egress l) \<longrightarrow> tracked s (l_egress l))"

lemma leases_on_upd:
  "finite (dom f) \<Longrightarrow> leases_on (f(a := w)) ip =
     leases_on f ip - counted (\<lambda>_ l. l_egress l = ip) a (f a)
     + counted (\<lambda>_ l. l_egress l = ip) a w"
  unfolding leases_on_def by (rule card_keys_where_upd)

context load_stats
begin

abbreviation matches :: "(string \<rightharpoonup> lease) \<Rightarrow> 's \<Rightarrow> bool" where
  "matches \<equiv> stats_match get tracked"

lemma match_new:
  assumes "finite (dom f)" "matches f s" "f a = None"
  shows "matches (f(a \<mapsto> l)) (inc (l_egress l) s)"
  using assms
  by (auto simp: stats_match_def get_inc tracked_inc leases_on_upd i64_simps)

lemma match_delete:
  assumes "finite (dom f)" "matches f s" "f a = Some l"
  shows "matches (f(a := None)) (dec (l_egress l) s)"
  using assms
  by (auto simp: stats_match_def get_dec tracked_dec leases_on_upd i64_simps)

lemma match_replace:
  assumes "finite (dom f)" "matches f s" "f a = Some l"
  shows "matches (f(a \<mapsto> l')) (inc (l_egress l') (dec (l_egress l) s))"
proof -
  have "matches ((f(a := None))(a \<mapsto> l')) (inc (l_egress l') (dec (l_egress l) s))"
    by (rule match_new [OF _ match_delete [OF assms]]) (use assms(1) in simp_all)
  then show ?thesis by simp
qed

text \<open>Replacing a lease by one on the same address needs no counter change.\<close>

lemma match_same_ip:
  assumes "finite (dom f)" "matches f s" "f a = Some l" "l_egress l' = l_egress l"
  shows "matches (f(a \<mapsto> l')) s"
  using assms by (auto simp: stats_match_def leases_on_upd)

lemma match_get:
  assumes "matches f s" "addr_valid ip" "leases_on f ip \<le> max_i64"
  shows "get s ip = leases_on f ip"
proof -
  have "0 \<le> leases_on f ip" by (simp add: leases_on_def)
  with assms show ?thesis by (simp add: stats_match_def i64_id min_i64_def)
qed

end

section \<open>Counters\<close>

type_synonym ip_load_stats = "(addr, int) amap"

definition stats_inc :: "addr \<Rightarrow> ip_load_stats \<Rightarrow> ip_load_stats" where
  "stats_inc ip s =
     (if \<not> addr_valid ip then s
      else let ctr = (case m_load s ip of None \<Rightarrow> 0 | Some n \<Rightarrow> n)
           in m_store ip (i64 (ctr + 1)) s)"

text \<open>\<open>Dec\<close> keeps a counter that reaches zero, and ignores an address without a counter.\<close>

definition stats_dec :: "addr \<Rightarrow> ip_load_stats \<Rightarrow> ip_load_stats" where
  "stats_dec ip s =
     (if \<not> addr_valid ip then s
      else case m_load s ip of
             None \<Rightarrow> s
           | Some n \<Rightarrow> m_store ip (i64 (n - 1)) s)"

definition stats_get :: "ip_load_stats \<Rightarrow> addr \<Rightarrow> int" where
  "stats_get s ip =
     (if \<not> addr_valid ip then 0
      else case m_load s ip of None \<Rightarrow> 0 | Some n \<Rightarrow> n)"

definition stats_snapshot :: "ip_load_stats \<Rightarrow> (addr, int) amap" where
  "stats_snapshot s = filter (\<lambda>(ip, n). addr_valid ip \<and> \<not> n \<le> 0) s"

definition stats_tracked :: "ip_load_stats \<Rightarrow> addr \<Rightarrow> bool" where
  "stats_tracked s ip \<longleftrightarrow> m_load s ip \<noteq> None"

interpretation ls: load_stats stats_inc stats_dec stats_get stats_tracked
  by unfold_locales
    (auto simp: stats_inc_def stats_dec_def stats_get_def stats_tracked_def store_simps Let_def
      split: option.splits)

section \<open>The lease table\<close>

text \<open>
  \<open>LeaseTable.stats\<close> and \<open>PlatformRoutingState.IPLoadStats\<close> are the same pointer: one field here.
\<close>

record lease_table =
  lt_leases :: "(string, lease) amap"
  lt_stats :: ip_load_stats

definition new_lease_table :: lease_table where
  "new_lease_table = \<lparr>lt_leases = [], lt_stats = []\<rparr>"

definition get_lease :: "lease_table \<Rightarrow> string \<Rightarrow> lease option" where
  "get_lease t account = m_load (lt_leases t) account"

definition create_lease :: "string \<Rightarrow> lease \<Rightarrow> lease_table \<Rightarrow> lease_table" where
  "create_lease account l t =
     (let s = (case m_load (lt_leases t) account of
                 None \<Rightarrow> lt_stats t
               | Some old \<Rightarrow> stats_dec (l_egress old) (lt_stats t))
      in \<lparr>lt_leases = m_store account l (lt_leases t), lt_stats = stats_inc (l_egress l) s\<rparr>)"

definition delete_lease :: "string \<Rightarrow> lease_table \<Rightarrow> lease_table \<times> lease option" where
  "delete_lease account t =
     (case m_load (lt_leases t) account of
        None \<Rightarrow> (t, None)
      | Some old \<Rightarrow>
          (\<lparr>lt_leases = m_delete account (lt_leases t), lt_stats = stats_dec (l_egress old) (lt_stats t)\<rparr>,
           Some old))"

definition table_size :: "lease_table \<Rightarrow> nat" where
  "table_size t = length (lt_leases t)"

definition is_expired :: "lease \<Rightarrow> int \<Rightarrow> bool" where
  "is_expired l now \<longleftrightarrow> l_expiry_ns l < now"

text \<open>The invariant of a lease table.\<close>

definition lease_inv :: "lease_table \<Rightarrow> bool" where
  "lease_inv t \<longleftrightarrow> m_ok (lt_leases t) \<and> m_ok (lt_stats t)
     \<and> stats_match stats_get stats_tracked (m_load (lt_leases t)) (lt_stats t)"

lemma stats_ok [simp]: "m_ok s \<Longrightarrow> m_ok (stats_inc ip s)" "m_ok s \<Longrightarrow> m_ok (stats_dec ip s)"
  by (auto simp: stats_inc_def stats_dec_def Let_def split: option.split)

lemma new_lease_table_inv: "lease_inv new_lease_table"
  by (simp add: lease_inv_def new_lease_table_def stats_match_def leases_on_def keys_where_def
      stats_get_def)

lemma create_lease_inv: "lease_inv t \<Longrightarrow> lease_inv (create_lease a l t)"
  using ls.match_new [of "m_load (lt_leases t)" "lt_stats t" a l]
    ls.match_replace [of "m_load (lt_leases t)" "lt_stats t" a _ l]
  by (auto simp: lease_inv_def create_lease_def Let_def store_simps finite_dom_map_of fun_upd_def
      split: option.splits)

lemma delete_lease_inv: "lease_inv t \<Longrightarrow> lease_inv (fst (delete_lease a t))"
  using ls.match_delete [of "m_load (lt_leases t)" "lt_stats t" a]
  by (auto simp: lease_inv_def delete_lease_def store_simps finite_dom_map_of fun_upd_def
      split: option.splits)

lemma create_lease_lookup:
  "get_lease (create_lease a l t) b = (if b = a then Some l else get_lease t b)"
  by (simp add: get_lease_def create_lease_def Let_def store_simps)

lemma delete_lease_lookup:
  "get_lease (fst (delete_lease a t)) b = (if b = a then None else get_lease t b)"
  "snd (delete_lease a t) = get_lease t a"
  by (auto simp: get_lease_def delete_lease_def store_simps split: option.splits)

text \<open>
  The snapshot lists exactly the addresses with leases, with their number.
\<close>

lemma stats_snapshot_lookup:
  assumes "m_ok s"
  shows "m_load (stats_snapshot s) ip = (if stats_get s ip > 0 then Some (stats_get s ip) else None)"
proof (rule option_eqI)
  fix n
  have "m_ok (stats_snapshot s)"
    using assms by (auto simp: m_ok_def stats_snapshot_def distinct_map intro: inj_on_subset)
  then have "m_load (stats_snapshot s) ip = Some n \<longleftrightarrow>
      m_load s ip = Some n \<and> addr_valid ip \<and> \<not> n \<le> 0"
    using assms by (auto simp: m_ok_mem [symmetric] stats_snapshot_def)
  then show "m_load (stats_snapshot s) ip = Some n \<longleftrightarrow>
      (if stats_get s ip > 0 then Some (stats_get s ip) else None) = Some n"
    by (auto simp: stats_get_def split: option.splits)
qed

end
