(* ===== verification/Route_Select.thy ===== *)
theory Route_Select
  imports Platform Lease_Table
begin

text \<open>
  \<open>internal/routing/latency_eval.go\<close>, \<open>random.go\<close> and the same-address rotation choice of
  \<open>router.go\<close>: which node a request goes to. Reading a latency entry refreshes its access time,
  so the node table is threaded through every read, together with the clock and the random
  generator. The lemmas show that reads leave everything but access times alone, that a pick is
  always a member of the view, and which of two candidates wins.
\<close>

datatype route_error = Platform_Not_Found | No_Available_Nodes | Node_Gone hash

section \<open>Latency evaluation\<close>

definition is_recent :: "int \<Rightarrow> int \<Rightarrow> int \<Rightarrow> bool" where
  "is_recent t now window \<longleftrightarrow> time_sub now t \<le> window"

definition lookup_recent_domain_latency ::
  "external \<Rightarrow> hash \<Rightarrow> string \<Rightarrow> int \<Rightarrow> int \<Rightarrow> node_table \<times> env \<Rightarrow> int option \<times> node_table \<times> env" where
  "lookup_recent_domain_latency X h domain now window s =
     (case m_load (fst s) h of
        None \<Rightarrow> (None, s)
      | Some e \<Rightarrow>
         (case latency_tab e of
            None \<Rightarrow> (None, s)
          | Some t \<Rightarrow>
              if domain = [] then (None, s)
              else let (t_now, ev') = time_now (snd s);
                       (t', st) = get_domain_stats X domain t_now t;
                       s' = (m_store h (e\<lparr>latency_tab := Some t'\<rparr>) (fst s), ev')
                   in case st of
                        None \<Rightarrow> (None, s')
                      | Some st \<Rightarrow>
                          if \<not> is_recent (last_updated st) now window then (None, s')
                          else (Some (ewma st), s')))"

definition has_table :: "node_table \<Rightarrow> hash \<Rightarrow> bool" where
  "has_table pool h = (case m_load pool h of None \<Rightarrow> False | Some e \<Rightarrow> latency_tab e \<noteq> None)"

fun authority_sum ::
  "external \<Rightarrow> hash \<Rightarrow> string list \<Rightarrow> int \<Rightarrow> int \<Rightarrow> node_table \<times> env \<Rightarrow> int \<times> int
     \<Rightarrow> (int \<times> int) \<times> node_table \<times> env" where
  "authority_sum X h [] now window s acc = (acc, s)"
| "authority_sum X h (d # ds) now window s (tot, count) =
     (case lookup_recent_domain_latency X h d now window s of
        (None, s') \<Rightarrow> authority_sum X h ds now window s' (tot, count)
      | (Some latency, s') \<Rightarrow>
          authority_sum X h ds now window s' (i64 (tot + latency), i64 (count + 1)))"

definition average_recent_authority_latency ::
  "external \<Rightarrow> hash \<Rightarrow> string list \<Rightarrow> int \<Rightarrow> int \<Rightarrow> node_table \<times> env \<Rightarrow> int option \<times> node_table \<times> env" where
  "average_recent_authority_latency X h auths now window s =
     (if \<not> has_table (fst s) h \<or> auths = [] then (None, s)
      else let ((tot, count), s') = authority_sum X h auths now window s (0, 0)
           in if count = 0 then (None, s') else (Some (tot sdiv count), s'))"

fun comparable_sums ::
  "external \<Rightarrow> hash \<Rightarrow> hash \<Rightarrow> string list \<Rightarrow> int \<Rightarrow> int \<Rightarrow> node_table \<times> env \<Rightarrow> int \<times> int \<times> int
     \<Rightarrow> (int \<times> int \<times> int) \<times> node_table \<times> env" where
  "comparable_sums X h1 h2 [] now window s acc = (acc, s)"
| "comparable_sums X h1 h2 (d # ds) now window s (sum1, sum2, count) =
     (let (l1, s1) = lookup_recent_domain_latency X h1 d now window s;
          (l2, s2) = lookup_recent_domain_latency X h2 d now window s1
      in case (l1, l2) of
           (Some a, Some b) \<Rightarrow> comparable_sums X h1 h2 ds now window s2
             (i64 (sum1 + a), i64 (sum2 + b), i64 (count + 1))
         | _ \<Rightarrow> comparable_sums X h1 h2 ds now window s2 (sum1, sum2, count))"

definition average_comparable_authority_latencies ::
  "external \<Rightarrow> hash \<Rightarrow> hash \<Rightarrow> string list \<Rightarrow> int \<Rightarrow> int \<Rightarrow> node_table \<times> env
     \<Rightarrow> (int \<times> int) option \<times> node_table \<times> env" where
  "average_comparable_authority_latencies X h1 h2 auths now window s =
     (if \<not> has_table (fst s) h1 \<or> \<not> has_table (fst s) h2 \<or> auths = [] then (None, s)
      else let ((sum1, sum2, count), s') =
                 comparable_sums X h1 h2 auths now window s (0, 0, 0)
           in if count = 0 then (None, s')
              else (Some (sum1 sdiv count, sum2 sdiv count), s'))"

text \<open>
  \<open>compareLatencies\<close>: the target domain if both nodes know it, else the common auths, else
  no latency for either.
\<close>

definition compare_latencies ::
  "external \<Rightarrow> hash \<Rightarrow> hash \<Rightarrow> string \<Rightarrow> string list \<Rightarrow> int \<Rightarrow> node_table \<times> env
     \<Rightarrow> (int \<times> int) \<times> node_table \<times> env" where
  "compare_latencies X h1 h2 target auths window s =
     (if \<not> has_table (fst s) h1 \<or> \<not> has_table (fst s) h2 then ((0, 0), s)
      else let (now, ev) = time_now (snd s);
               (l1, s1) = lookup_recent_domain_latency X h1 target now window (fst s, ev);
               (l2, s2) = lookup_recent_domain_latency X h2 target now window s1
           in case (l1, l2) of
                (Some a, Some b) \<Rightarrow> ((a, b), s2)
              | _ \<Rightarrow>
                 (case average_comparable_authority_latencies X h1 h2 auths now window s2 of
                    (Some ab, s3) \<Rightarrow> (ab, s3)
                  | (None, s3) \<Rightarrow> ((0, 0), s3)))"

definition lease_count_of :: "ip_load_stats \<Rightarrow> node_table \<Rightarrow> hash \<Rightarrow> int" where
  "lease_count_of stats pool h =
     (case m_load pool h of
        None \<Rightarrow> 0
      | Some e \<Rightarrow> if addr_valid (get_egress_ip e) then stats_get stats (get_egress_ip e) else 0)"

definition calculate_score ::
  "hash \<Rightarrow> int \<Rightarrow> platform \<Rightarrow> ip_load_stats \<Rightarrow> node_table \<Rightarrow> rat" where
  "calculate_score h latency plat stats pool =
     (let lease_count = lease_count_of stats pool h in
      if latency \<le> 0 then f64_of_int lease_count
      else if alloc_policy plat = policy_prefer_low_latency then f64_of_int latency
      else if alloc_policy plat = policy_prefer_idle_ip then f64_of_int lease_count
      else f64 (f64_of_int (i64 (lease_count + 1)) * f64_of_int latency))"

section \<open>Power of two choices\<close>

fun retry_pick :: "nat \<Rightarrow> routable_view \<Rightarrow> hash \<Rightarrow> env \<Rightarrow> hash \<times> env" where
  "retry_pick 0 v h1 ev = (h1, ev)"
| "retry_pick (Suc n) v h1 ev =
     (case random_pick v ev of
        (None, ev') \<Rightarrow> (h1, ev')
      | (Some c, ev') \<Rightarrow> if c \<noteq> h1 then (c, ev') else retry_pick n v h1 ev')"

definition random_route ::
  "external \<Rightarrow> platform \<Rightarrow> ip_load_stats \<Rightarrow> string \<Rightarrow> string list \<Rightarrow> int \<Rightarrow> node_table \<times> env
     \<Rightarrow> (route_error + hash) \<times> node_table \<times> env" where
  "random_route X plat stats target auths window s =
     (let v = view plat; size = view_size v in
      if size = 0 then (Inl No_Available_Nodes, s)
      else case random_pick v (snd s) of
        (None, ev1) \<Rightarrow> (Inl No_Available_Nodes, fst s, ev1)
      | (Some h1, ev1) \<Rightarrow>
          if size = 1 then (Inr h1, fst s, ev1)
          else (case random_pick v ev1 of
             (None, ev2) \<Rightarrow> (Inr h1, fst s, ev2)
           | (Some h2, ev2) \<Rightarrow>
               let (h2, ev3) = (if h2 = h1 then retry_pick 3 v h1 ev2 else (h2, ev2)) in
               if h2 = h1 then (Inr h1, fst s, ev3)
               else let ((lat1, lat2), s') =
                          compare_latencies X h1 h2 target auths window (fst s, ev3);
                        s1 = calculate_score h1 lat1 plat stats (fst s');
                        s2 = calculate_score h2 lat2 plat stats (fst s')
                    in (Inr (if s1 < s2 then h1 else h2), s')))"

section \<open>Same-address rotation\<close>

definition same_ip_candidate_latency ::
  "external \<Rightarrow> hash \<Rightarrow> string \<Rightarrow> string list \<Rightarrow> int \<Rightarrow> node_table \<times> env
     \<Rightarrow> int option \<times> node_table \<times> env" where
  "same_ip_candidate_latency X h target auths window s =
     (let (now, ev) = time_now (snd s) in
      case lookup_recent_domain_latency X h target now window (fst s, ev) of
        (Some l, s') \<Rightarrow> (Some l, s')
      | (None, s') \<Rightarrow> average_recent_authority_latency X h auths now window s')"

fun rotation_loop ::
  "external \<Rightarrow> addr \<Rightarrow> string \<Rightarrow> string list \<Rightarrow> int \<Rightarrow> hash list \<Rightarrow> hash \<times> int \<times> hash
     \<Rightarrow> node_table \<times> env \<Rightarrow> (hash \<times> int \<times> hash) \<times> node_table \<times> env" where
  "rotation_loop X ip target auths window [] acc s = (acc, s)"
| "rotation_loop X ip target auths window (h # hs) (best, best_latency, fallback) s =
     (case m_load (fst s) h of
        None \<Rightarrow> rotation_loop X ip target auths window hs (best, best_latency, fallback) s
      | Some e \<Rightarrow>
          if get_egress_ip e \<noteq> ip
          then rotation_loop X ip target auths window hs (best, best_latency, fallback) s
          else let fallback = (if fallback = zero_hash then h else fallback);
                   (l, s') = same_ip_candidate_latency X h target auths window s
               in case l of
                    Some latency \<Rightarrow>
                      if latency < best_latency
                      then rotation_loop X ip target auths window hs (h, latency, fallback) s'
                      else rotation_loop X ip target auths window hs
                             (best, best_latency, fallback) s'
                  | None \<Rightarrow> rotation_loop X ip target auths window hs
                             (best, best_latency, fallback) s')"

definition choose_same_ip_rotation_candidate ::
  "external \<Rightarrow> platform \<Rightarrow> addr \<Rightarrow> string \<Rightarrow> string list \<Rightarrow> int \<Rightarrow> node_table \<times> env
     \<Rightarrow> hash option \<times> node_table \<times> env" where
  "choose_same_ip_rotation_candidate X plat ip target auths window s =
     (let ((best, _, fallback), s') = rotation_loop X ip target auths window
            (view_range (view plat)) (zero_hash, max_i64, zero_hash) s
      in if best \<noteq> zero_hash then (Some best, s')
         else if fallback \<noteq> zero_hash then (Some fallback, s')
         else (None, s'))"

section \<open>Reads leave the nodes alone\<close>

text \<open>
  Two node tables that agree on everything but the access times inside the latency tables.
\<close>

definition same_table :: "latency_table \<Rightarrow> latency_table \<Rightarrow> bool" where
  "same_table t t' \<longleftrightarrow> total_size t' = total_size t \<and> length (regular t') = length (regular t)
     \<and> (table_ok t \<longrightarrow> table_ok t' \<and>
         (\<forall>k. map_option s_stats (table_map t' k) = map_option s_stats (table_map t k)))"

definition same_entry :: "node_entry \<Rightarrow> node_entry \<Rightarrow> bool" where
  "same_entry e e' \<longleftrightarrow> (\<exists>t'. e' = e\<lparr>latency_tab := t'\<rparr> \<and> rel_option same_table (latency_tab e) t')"

definition same_nodes :: "node_table \<Rightarrow> node_table \<Rightarrow> bool" where
  "same_nodes p p' \<longleftrightarrow> map fst p' = map fst p
     \<and> (\<forall>h. rel_option same_entry (m_load p h) (m_load p' h))"

definition tables_ok :: "node_table \<Rightarrow> bool" where
  "tables_ok p \<longleftrightarrow> (\<forall>h e t. m_load p h = Some e \<longrightarrow> latency_tab e = Some t \<longrightarrow> table_ok t)"

lemma same_table_refl [simp]: "same_table t t"
  by (simp add: same_table_def)

lemma same_table_trans: "same_table a b \<Longrightarrow> same_table b c \<Longrightarrow> same_table a c"
  by (auto simp: same_table_def)

lemma same_entry_refl [simp]: "same_entry e e"
  by (auto simp: same_entry_def option.rel_refl intro!: exI [of _ "latency_tab e"])

lemma same_entry_trans:
  assumes "same_entry a b" "same_entry b c"
  shows "same_entry a c"
proof -
  from assms(1) obtain t where t: "b = a\<lparr>latency_tab := t\<rparr>" "rel_option same_table (latency_tab a) t"
    by (auto simp: same_entry_def)
  with assms(2) obtain u where u: "c = a\<lparr>latency_tab := u\<rparr>" "rel_option same_table t u"
    by (auto simp: same_entry_def)
  from rel_option_trans [of same_table, OF _ t(2) u(2)] u(1) same_table_trans show ?thesis
    unfolding same_entry_def by blast
qed

lemma same_nodes_refl [simp]: "same_nodes p p"
  by (simp add: same_nodes_def option.rel_refl)

lemma same_nodes_trans: "same_nodes a b \<Longrightarrow> same_nodes b c \<Longrightarrow> same_nodes a c"
  unfolding same_nodes_def by (auto intro: rel_option_trans [OF same_entry_trans])

lemma same_entry_simps:
  assumes "same_entry e e'"
  shows "get_egress_ip e' = get_egress_ip e" "has_latency e' = has_latency e"
    "latency_tab e' = None \<longleftrightarrow> latency_tab e = None" "subscription_ids e' = subscription_ids e"
  using assms
  by (auto simp: same_entry_def get_egress_ip_def has_latency_def same_table_def option_rel_Some1
      split: option.splits)

lemma same_nodes_load:
  "same_nodes p p' \<Longrightarrow> (m_load p h = None \<longleftrightarrow> m_load p' h = None)"
  "same_nodes p p' \<Longrightarrow> m_load p h = Some e \<Longrightarrow> \<exists>e'. m_load p' h = Some e' \<and> same_entry e e'"
  by (auto simp: same_nodes_def option_rel_Some1 dest: spec [of _ h])

lemma same_nodes_m_ok: "same_nodes p p' \<Longrightarrow> m_ok p' = m_ok p"
  by (simp add: same_nodes_def m_ok_def)

lemma same_nodes_tables_ok:
  assumes "same_nodes p p'" "tables_ok p"
  shows "tables_ok p'"
  unfolding tables_ok_def
proof (intro allI impI)
  fix h e' t'
  assume a: "m_load p' h = Some e'" "latency_tab e' = Some t'"
  from assms(1) have "rel_option same_entry (m_load p h) (m_load p' h)" by (simp add: same_nodes_def)
  with a obtain e t where "m_load p h = Some e" "latency_tab e = Some t" "same_table t t'"
    by (auto simp: option_rel_Some2 same_entry_def)
  with assms(2) show "table_ok t'" by (auto simp: tables_ok_def same_table_def)
qed

lemma same_nodes_has_table: "same_nodes p p' \<Longrightarrow> has_table p' h = has_table p h"
  using same_nodes_load [of p p' h]
  by (cases "m_load p h"; cases "m_load p' h") 
    (auto simp: has_table_def same_entry_def option_rel_Some1 option_rel_Some2)

lemma same_entry_evaluate:
  assumes "same_entry e e'"
  shows "evaluate_node q e' lk geo = evaluate_node q e lk geo"
proof (rule evaluate_node_cong)
  from assms obtain t' where "e' = e\<lparr>latency_tab := t'\<rparr>" by (auto simp: same_entry_def)
  with same_entry_simps(1,2) [OF assms] show "routing_facts e' = routing_facts e"
    by (simp add: routing_facts_def get_egress_region_def)
qed

lemma same_nodes_routable: "same_nodes p p' \<Longrightarrow> routable p' lk geo q h = routable p lk geo q h"
  using same_nodes_load [of p p' h]
  by (auto simp: routable_def same_entry_evaluate split: option.splits)

lemma same_nodes_lease_count: "same_nodes p p' \<Longrightarrow> lease_count_of stats p' h = lease_count_of stats p h"
  using same_nodes_load [of p p' h]
  by (auto simp: lease_count_of_def same_entry_simps split: option.splits)

lemma same_nodes_score:
  "same_nodes p p' \<Longrightarrow> calculate_score h l plat stats p' = calculate_score h l plat stats p"
  by (simp add: calculate_score_def same_nodes_lease_count)

lemma map_fst_update_present: "map_of m k = Some v \<Longrightarrow> map fst (AList.update k w m) = map fst m"
  by (induction m) auto

lemma same_nodes_touch:
  assumes "m_load p h = Some e" "same_entry e e'"
  shows "same_nodes p (m_store h e' p)"
  using assms
  by (auto simp: same_nodes_def map_fst_update_present store_simps option.rel_refl)

section \<open>The reference semantics of the reads\<close>

definition known_latency :: "external \<Rightarrow> node_table \<Rightarrow> hash \<Rightarrow> string \<Rightarrow> int \<Rightarrow> int \<Rightarrow> int option" where
  "known_latency X p h d now window =
     (if d = [] then None
      else case Option.bind (m_load p h) latency_tab of
        None \<Rightarrow> None
      | Some t \<Rightarrow>
          (case map_option s_stats (table_map t (domain_key X d)) of
             None \<Rightarrow> None
           | Some st \<Rightarrow> if is_recent (last_updated st) now window then Some (ewma st) else None))"

lemma known_latency_same:
  assumes "same_nodes p p'" "tables_ok p"
  shows "known_latency X p' h d now w = known_latency X p h d now w"
proof (cases "m_load p h")
  case None
  with same_nodes_load(1) [OF assms(1), of h] show ?thesis by (simp add: known_latency_def)
next
  case (Some e)
  from same_nodes_load(2) [OF assms(1) Some] obtain e' where
    e': "m_load p' h = Some e'" "same_entry e e'" by blast
  show ?thesis
  proof (cases "latency_tab e")
    case None
    with Some e' show ?thesis by (auto simp: known_latency_def same_entry_def)
  next
    case t: (Some t)
    with e' obtain t' where "latency_tab e' = Some t'" "same_table t t'"
      by (auto simp: same_entry_def option_rel_Some1)
    moreover have "table_ok t" using assms(2) Some t by (auto simp: tables_ok_def)
    ultimately show ?thesis using Some e' t by (simp add: known_latency_def same_table_def)
  qed
qed

lemma lookup_recent_spec:
  assumes "lookup_recent_domain_latency X h d now w s = (r, s')"
  shows "same_nodes (fst s) (fst s')"
    and "tables_ok (fst s) \<Longrightarrow> r = known_latency X (fst s) h d now w"
proof -
  show "same_nodes (fst s) (fst s')"
  proof (cases "m_load (fst s) h")
    case None
    with assms show ?thesis by (auto simp: lookup_recent_domain_latency_def)
  next
    case (Some e)
    show ?thesis
    proof (cases "latency_tab e = None \<or> d = []")
      case True
      with assms Some show ?thesis
        by (auto simp: lookup_recent_domain_latency_def split: option.splits)
    next
      case False
      then obtain t where t: "latency_tab e = Some t" by auto
      obtain tn ev' where tn: "time_now (snd s) = (tn, ev')" by fastforce
      obtain t' st where g: "get_domain_stats X d tn t = (t', st)" by fastforce
      from g have "same_table t t'"
        using get_domain_stats_size [of X d tn t] get_domain_stats_ok [of t X d tn]
          get_domain_stats_frame [of t X d tn]
        by (auto simp: same_table_def)
      with t have "same_entry e (e\<lparr>latency_tab := Some t'\<rparr>)" by (auto simp: same_entry_def)
      from same_nodes_touch [OF Some this] show ?thesis
        using assms Some t False tn g
        by (auto simp: lookup_recent_domain_latency_def Let_def split: option.splits if_splits)
    qed
  qed
  show "r = known_latency X (fst s) h d now w" if ok: "tables_ok (fst s)"
  proof (cases "Option.bind (m_load (fst s) h) latency_tab = None \<or> d = []")
    case True
    with assms show ?thesis
      by (auto simp: lookup_recent_domain_latency_def known_latency_def split: option.splits)
  next
    case False
    then obtain e t where e: "m_load (fst s) h = Some e" "latency_tab e = Some t" and d: "d \<noteq> []"
      by (auto split: bind_splits)
    with ok have "table_ok t" by (auto simp: tables_ok_def)
    then have g: "snd (get_domain_stats X d n t) = map_option s_stats (table_map t (domain_key X d))"
      for n by (rule get_domain_stats_result)
    obtain tn ev' where tn: "time_now (snd s) = (tn, ev')" by fastforce
    show ?thesis
      using assms e d tn g [of tn]
      by (cases "get_domain_stats X d tn t")
        (auto simp: lookup_recent_domain_latency_def known_latency_def Let_def
          split: option.splits if_splits)
  qed
qed

definition known_all :: "external \<Rightarrow> node_table \<Rightarrow> hash \<Rightarrow> string list \<Rightarrow> int \<Rightarrow> int \<Rightarrow> int list" where
  "known_all X p h ds now w = List.map_filter (\<lambda>d. known_latency X p h d now w) ds"

definition known_both ::
  "external \<Rightarrow> node_table \<Rightarrow> hash \<Rightarrow> hash \<Rightarrow> string list \<Rightarrow> int \<Rightarrow> int \<Rightarrow> (int \<times> int) list" where
  "known_both X p h1 h2 ds now w = List.map_filter
     (\<lambda>d. case (known_latency X p h1 d now w, known_latency X p h2 d now w) of
            (Some a, Some b) \<Rightarrow> Some (a, b) | _ \<Rightarrow> None) ds"

definition average :: "int list \<Rightarrow> int" where
  "average ls = i64 (sum_list ls) sdiv i64 (int (length ls))"

lemma known_all_Nil [simp]: "known_all X p h [] now w = []"
  by (simp add: known_all_def List.map_filter_def)

lemma known_both_Nil [simp]: "known_both X p h1 h2 [] now w = []"
  by (simp add: known_both_def List.map_filter_def)

lemma known_all_Cons:
  "known_all X p h (d # ds) now w = (case known_latency X p h d now w of
     None \<Rightarrow> known_all X p h ds now w | Some l \<Rightarrow> l # known_all X p h ds now w)"
  by (simp add: known_all_def List.map_filter_def split: option.split)

lemma known_both_Cons:
  "known_both X p h1 h2 (d # ds) now w =
     (case (known_latency X p h1 d now w, known_latency X p h2 d now w) of
        (Some a, Some b) \<Rightarrow> (a, b) # known_both X p h1 h2 ds now w
      | _ \<Rightarrow> known_both X p h1 h2 ds now w)"
  by (simp add: known_both_def List.map_filter_def split: option.split)

lemma known_same:
  assumes "same_nodes p p'" "tables_ok p"
  shows "known_all X p' h ds now w = known_all X p h ds now w"
    "known_both X p' h1 h2 ds now w = known_both X p h1 h2 ds now w"
  by (simp_all add: known_all_def known_both_def known_latency_same [OF assms] cong: option.case_cong)

lemma authority_sum_spec:
  assumes "authority_sum X h ds now w s (tot, n) = (r, s')"
  shows "same_nodes (fst s) (fst s') \<and>
    (tables_ok (fst s) \<longrightarrow> i64 tot = tot \<longrightarrow> i64 n = n \<longrightarrow>
      r = (i64 (tot + sum_list (known_all X (fst s) h ds now w)),
           i64 (n + int (length (known_all X (fst s) h ds now w)))))"
  using assms
proof (induction ds arbitrary: s tot n)
  case (Cons d ds)
  obtain l s1 where l: "lookup_recent_domain_latency X h d now w s = (l, s1)" by (rule prod.exhaust)
  note sp = lookup_recent_spec [OF l]
  show ?case
  proof (cases l)
    case None
    with Cons.prems l have "authority_sum X h ds now w s1 (tot, n) = (r, s')" by simp
    from Cons.IH [OF this] same_nodes_trans [OF sp(1)] sp(2) None known_same(1) [OF sp(1)]
      same_nodes_tables_ok [OF sp(1)]
    show ?thesis by (auto simp: known_all_Cons)
  next
    case (Some x)
    have eqs: "i64 (i64 (tot + x)) = i64 (tot + x)" "i64 (i64 (n + 1)) = i64 (n + 1)"
      by (simp_all only: i64_simps)
    from Some Cons.prems l have "authority_sum X h ds now w s1 (i64 (tot + x), i64 (n + 1)) = (r, s')"
      by simp
    note ih = Cons.IH [OF this]
    have "known_all X (fst s) h (d # ds) now w = x # known_all X (fst s) h ds now w"
      if "tables_ok (fst s)"
      using sp(2) [OF that, symmetric] Some by (simp add: known_all_Cons)
    with ih same_nodes_trans [OF sp(1)] known_same(1) [OF sp(1)]
      same_nodes_tables_ok [OF sp(1)] eqs
    show ?thesis by (auto simp: i64_simps ac_simps)
  qed
qed auto

lemma comparable_sums_spec:
  assumes "comparable_sums X h1 h2 ds now w s (a, b, n) = (r, s')"
  shows "same_nodes (fst s) (fst s') \<and>
    (tables_ok (fst s) \<longrightarrow> i64 a = a \<longrightarrow> i64 b = b \<longrightarrow> i64 n = n \<longrightarrow>
      r = (let ls = known_both X (fst s) h1 h2 ds now w in
        (i64 (a + sum_list (map fst ls)), i64 (b + sum_list (map snd ls)),
         i64 (n + int (length ls)))))"
  using assms
proof (induction ds arbitrary: s a b n)
  case (Cons d ds)
  obtain l1 s1 where l1: "lookup_recent_domain_latency X h1 d now w s = (l1, s1)"
    by (rule prod.exhaust)
  obtain l2 s2 where l2: "lookup_recent_domain_latency X h2 d now w s1 = (l2, s2)"
    by (rule prod.exhaust)
  note sp1 = lookup_recent_spec [OF l1] and sp2 = lookup_recent_spec [OF l2]
  note same2 = same_nodes_trans [OF sp1(1) sp2(1)]
  have k: "known_latency X (fst s) h1 d now w = l1" "known_latency X (fst s) h2 d now w = l2"
    if "tables_ok (fst s)"
    using sp1(2) [OF that] sp2(2) [OF same_nodes_tables_ok [OF sp1(1) that]]
      known_latency_same [OF sp1(1) that] by simp_all
  show ?case
  proof (cases "\<exists>x y. l1 = Some x \<and> l2 = Some y")
    case False
    then have "comparable_sums X h1 h2 ds now w s2 (a, b, n) = (r, s')"
      using Cons.prems l1 l2 by (auto split: option.splits)
    note ih = Cons.IH [OF this]
    have "known_both X (fst s) h1 h2 (d # ds) now w = known_both X (fst s) h1 h2 ds now w"
      if "tables_ok (fst s)"
      using False k [OF that] by (auto simp: known_both_Cons split: option.split)
    with ih same_nodes_trans [OF same2] same_nodes_tables_ok [OF same2]
      known_same(2) [OF same2] show ?thesis by (auto simp: Let_def)
  next
    case True
    then obtain x y where xy: "l1 = Some x" "l2 = Some y" by blast
    have eqs: "i64 (i64 (a + x)) = i64 (a + x)" "i64 (i64 (b + y)) = i64 (b + y)"
      "i64 (i64 (n + 1)) = i64 (n + 1)"
      by (simp_all only: i64_simps)
    have "comparable_sums X h1 h2 ds now w s2 (i64 (a + x), i64 (b + y), i64 (n + 1)) = (r, s')"
      using xy Cons.prems l1 l2 by simp
    note ih = Cons.IH [OF this]
    have "known_both X (fst s) h1 h2 (d # ds) now w = (x, y) # known_both X (fst s) h1 h2 ds now w"
      if "tables_ok (fst s)"
      using k [OF that] xy by (simp add: known_both_Cons)
    with ih same_nodes_trans [OF same2] same_nodes_tables_ok [OF same2]
      known_same(2) [OF same2] eqs show ?thesis
      by (auto simp: Let_def i64_simps ac_simps)
  qed
qed (auto simp: Let_def)

definition recent_average :: "int list \<Rightarrow> int option" where
  "recent_average ls = (if i64 (int (length ls)) = 0 then None else Some (average ls))"

lemma average_recent_spec:
  assumes "average_recent_authority_latency X h ds now w s = (r, s')"
  shows "same_nodes (fst s) (fst s')"
    and "tables_ok (fst s) \<Longrightarrow> r = recent_average (known_all X (fst s) h ds now w)"
proof -
  obtain t n s1 where a: "authority_sum X h ds now w s (0, 0) = ((t, n), s1)"
    by (metis prod.exhaust)
  note sp = authority_sum_spec [OF a]
  have none: "known_all X (fst s) h ds now w = []" if "\<not> has_table (fst s) h"
    using that by (auto simp: known_all_def known_latency_def has_table_def List.map_filter_def
        filter_empty_conv split: option.splits)
  show "same_nodes (fst s) (fst s')"
    using assms a sp by (auto simp: average_recent_authority_latency_def split: if_splits)
  show "r = recent_average (known_all X (fst s) h ds now w)" if "tables_ok (fst s)"
    using assms a sp that none
    by (auto simp: average_recent_authority_latency_def recent_average_def average_def
        split: if_splits)
qed

text \<open>The pair of latencies two nodes are compared by.\<close>

definition compared_latencies ::
  "external \<Rightarrow> node_table \<Rightarrow> hash \<Rightarrow> hash \<Rightarrow> string \<Rightarrow> string list \<Rightarrow> int \<Rightarrow> int \<Rightarrow> int \<times> int" where
  "compared_latencies X p h1 h2 target auths now w =
     (case (known_latency X p h1 target now w, known_latency X p h2 target now w) of
        (Some a, Some b) \<Rightarrow> (a, b)
      | _ \<Rightarrow> let ls = known_both X p h1 h2 auths now w in
              if i64 (int (length ls)) = 0 then (0, 0)
              else (average (map fst ls), average (map snd ls)))"

lemma average_comparable_spec:
  assumes "average_comparable_authority_latencies X h1 h2 ds now w s = (r, s')"
  shows "same_nodes (fst s) (fst s')"
    and "tables_ok (fst s) \<Longrightarrow> r = (let ls = known_both X (fst s) h1 h2 ds now w in
      if i64 (int (length ls)) = 0 then None else Some (average (map fst ls), average (map snd ls)))"
proof -
  obtain a b n s1 where c: "comparable_sums X h1 h2 ds now w s (0, 0, 0) = ((a, b, n), s1)"
    by (metis prod.exhaust)
  note sp = comparable_sums_spec [OF c]
  have "known_latency X (fst s) h d now w = None" if "\<not> has_table (fst s) h" for h d
    using that by (auto simp: known_latency_def has_table_def split: option.splits)
  then have none: "known_both X (fst s) h1 h2 ds now w = []"
    if "\<not> has_table (fst s) h1 \<or> \<not> has_table (fst s) h2"
    using that by (auto simp: known_both_def List.map_filter_def filter_empty_conv
        split: option.splits)
  show "same_nodes (fst s) (fst s')"
    using assms c sp by (auto simp: average_comparable_authority_latencies_def split: if_splits)
  show "r = (let ls = known_both X (fst s) h1 h2 ds now w in
      if i64 (int (length ls)) = 0 then None else Some (average (map fst ls), average (map snd ls)))"
    if "tables_ok (fst s)"
    using assms c sp that none
    by (auto simp: average_comparable_authority_latencies_def average_def Let_def split: if_splits)
qed

lemma compare_latencies_spec:
  assumes "compare_latencies X h1 h2 target ds w s = (r, s')"
  shows "same_nodes (fst s) (fst s')"
    and "tables_ok (fst s) \<Longrightarrow>
      r = compared_latencies X (fst s) h1 h2 target ds (fst (time_now (snd s))) w"
proof -
  obtain now ev where ev: "time_now (snd s) = (now, ev)" by (rule prod.exhaust)
  obtain l1 s1 where l1: "lookup_recent_domain_latency X h1 target now w (fst s, ev) = (l1, s1)"
    by (rule prod.exhaust)
  obtain l2 s2 where l2: "lookup_recent_domain_latency X h2 target now w s1 = (l2, s2)"
    by (rule prod.exhaust)
  obtain q s3 where q: "average_comparable_authority_latencies X h1 h2 ds now w s2 = (q, s3)"
    by (rule prod.exhaust)
  note sp1 = lookup_recent_spec [OF l1] and sp2 = lookup_recent_spec [OF l2]
    and sp3 = average_comparable_spec [OF q]
  have same: "same_nodes (fst s) (fst s1)" "same_nodes (fst s) (fst s2)"
      "same_nodes (fst s) (fst s3)"
    using sp1(1) sp2(1) sp3(1) by (auto intro: same_nodes_trans)
  with assms ev l1 l2 q show "same_nodes (fst s) (fst s')"
    by (auto simp: compare_latencies_def split: if_splits option.splits)
  assume ok: "tables_ok (fst s)"
  from ok same have ok': "tables_ok (fst s1)" "tables_ok (fst s2)"
    by (auto intro: same_nodes_tables_ok)
  have none: "known_latency X (fst s) h d now w = None" if "\<not> has_table (fst s) h" for h d
    using that by (auto simp: known_latency_def has_table_def split: option.splits)
  have none2: "known_both X (fst s) h1 h2 ds now w = []"
    if "\<not> has_table (fst s) h1 \<or> \<not> has_table (fst s) h2"
    using that none by (auto simp: known_both_def List.map_filter_def filter_empty_conv
        split: option.splits)
  from sp1(2) sp2(2) [OF ok'(1)] sp3(2) [OF ok'(2)] ok same
  have r: "l1 = known_latency X (fst s) h1 target now w" "l2 = known_latency X (fst s) h2 target now w"
    "q = (let ls = known_both X (fst s) h1 h2 ds now w in
      if i64 (int (length ls)) = 0 then None else Some (average (map fst ls), average (map snd ls)))"
    by (simp_all add: known_latency_same known_same)
  show "r = compared_latencies X (fst s) h1 h2 target ds (fst (time_now (snd s))) w"
  proof (cases "has_table (fst s) h1 \<and> has_table (fst s) h2")
    case True
    with assms ev l1 l2 q r show ?thesis
      by (auto simp: compare_latencies_def compared_latencies_def Let_def split: option.splits if_splits)
  next
    case False
    with assms ev none none2 show ?thesis
      by (auto simp: compare_latencies_def compared_latencies_def split: option.splits)
  qed
qed

section \<open>What is routed to\<close>

lemma retry_pick_in_view:
  "view_ok v \<Longrightarrow> view_contains v h1 \<Longrightarrow> retry_pick n v h1 ev = (h, ev') \<Longrightarrow> view_contains v h"
proof (induction n arbitrary: ev)
  case (Suc n)
  obtain r e where r: "random_pick v ev = (r, e)" by (rule prod.exhaust)
  from random_pick_in_view [OF Suc.prems(1) r] r Suc show ?case
    by (auto split: option.splits if_splits)
qed simp

text \<open>
  A routed node is a member of the view; routing fails exactly when the view is empty; and the
  pool is left alone but for access times.
\<close>

lemma random_route_spec:
  assumes ok: "view_ok (view plat)" and run: "random_route X plat stats target auths w s = (r, s')"
  shows "same_nodes (fst s) (fst s')"
    and "(\<exists>h. r = Inr h \<and> view_contains (view plat) h \<and> view_size (view plat) \<noteq> 0)
      \<or> (r = Inl No_Available_Nodes \<and> view_size (view plat) = 0)"
proof -
  let ?v = "view plat"
  obtain p1 ev1 where p1: "random_pick ?v (snd s) = (p1, ev1)" by (rule prod.exhaust)
  note q1 = random_pick_in_view [OF ok p1]
  obtain p2 ev2 where p2: "random_pick ?v ev1 = (p2, ev2)" by (rule prod.exhaust)
  note q2 = random_pick_in_view [OF ok p2]
  show "same_nodes (fst s) (fst s')"
    using run p1 p2
    by (auto simp: random_route_def Let_def split: if_splits option.splits prod.splits
        dest: compare_latencies_spec(1))
  show "(\<exists>h. r = Inr h \<and> view_contains ?v h \<and> view_size ?v \<noteq> 0)
      \<or> (r = Inl No_Available_Nodes \<and> view_size ?v = 0)"
  proof (cases "view_size ?v = 0")
    case True
    with run show ?thesis by (simp add: random_route_def)
  next
    case False
    with q1 q2 obtain h1 h2 where h: "p1 = Some h1" "p2 = Some h2"
      "view_contains ?v h1" "view_contains ?v h2" by auto
    with run p1 p2 False show ?thesis
      by (auto simp: random_route_def Let_def split: if_splits prod.splits
          dest: retry_pick_in_view [OF ok])
  qed
qed

lemma view_size_two:
  assumes "view_ok v" "view_contains v a" "view_contains v b" "a \<noteq> b"
  shows "view_size v \<noteq> 0 \<and> view_size v \<noteq> 1"
proof -
  have f: "finite {h. view_contains v h}"
    using rv.elems_contains [OF assms(1)] by (metis List.finite_set)
  have "card {a, b} \<le> card {h. view_contains v h}"
    by (rule card_mono [OF f]) (use assms in auto)
  with assms(4) show ?thesis by (simp add: rv.count_card [OF assms(1)])
qed

lemma random_route_two:
  assumes ok: "view_ok (view plat)" "tables_ok (fst s)"
    and p: "random_pick (view plat) (snd s) = (Some h1, ev1)"
      "random_pick (view plat) ev1 = (Some h2, ev2)" and ne: "h1 \<noteq> h2"
    and lat: "compared_latencies X (fst s) h1 h2 target auths (fst (time_now ev2)) w = (a, b)"
  shows "fst (random_route X plat stats target auths w s) =
     Inr (if calculate_score h1 a plat stats (fst s) < calculate_score h2 b plat stats (fst s)
          then h1 else h2)"
proof -
  from random_pick_in_view [OF ok(1) p(1)] random_pick_in_view [OF ok(1) p(2)]
  have "view_size (view plat) \<noteq> 0 \<and> view_size (view plat) \<noteq> 1"
    using view_size_two [OF ok(1), of h1 h2] ne by simp
  moreover obtain r s' where r: "compare_latencies X h1 h2 target auths w (fst s, ev2) = (r, s')"
    by (rule prod.exhaust)
  note sp = compare_latencies_spec [OF r]
  have "r = (a, b)" using sp(2) lat ok(2) by simp
  ultimately show ?thesis
    using p ne r same_nodes_score [OF sp(1)]
    by (simp add: random_route_def Let_def eq_commute [of h2 h1])
qed

section \<open>What a rotation chooses\<close>

definition on_ip :: "node_table \<Rightarrow> addr \<Rightarrow> hash \<Rightarrow> bool" where
  "on_ip p ip h = (case m_load p h of None \<Rightarrow> False | Some e \<Rightarrow> get_egress_ip e = ip)"

definition rotation_latency ::
  "external \<Rightarrow> node_table \<Rightarrow> hash \<Rightarrow> string \<Rightarrow> string list \<Rightarrow> int \<Rightarrow> int \<Rightarrow> int option" where
  "rotation_latency X p h target auths now w =
     (case known_latency X p h target now w of
        Some l \<Rightarrow> Some l
      | None \<Rightarrow> recent_average (known_all X p h auths now w))"

lemma on_ip_same: "same_nodes p p' \<Longrightarrow> on_ip p' ip h = on_ip p ip h"
  using same_nodes_load [of p p' h]
  by (auto simp: on_ip_def same_entry_simps split: option.splits)

lemma rotation_latency_same:
  "same_nodes p p' \<Longrightarrow> tables_ok p \<Longrightarrow>
     rotation_latency X p' h target auths now w = rotation_latency X p h target auths now w"
  by (simp add: rotation_latency_def known_latency_same known_same cong: option.case_cong)

text \<open>A clock that stands still, as in one burst of requests, is not moved by the reads.\<close>

lemma time_now_still: "clock ev = [t] \<Longrightarrow> time_now ev = (t, ev)"
  by (simp add: time_now.simps)

lemma lookup_recent_still:
  "clock (snd s) = [t] \<Longrightarrow> snd (snd (lookup_recent_domain_latency X h d now w s)) = snd s"
  by (auto simp: lookup_recent_domain_latency_def Let_def time_now_still split: option.splits prod.splits)

lemma authority_sum_still:
  "clock (snd s) = [t] \<Longrightarrow> snd (snd (authority_sum X h ds now w s acc)) = snd s"
proof (induction ds arbitrary: s acc)
  case (Cons d ds)
  obtain a n where acc: "acc = (a, n)" by (rule prod.exhaust)
  obtain l s1 where l: "lookup_recent_domain_latency X h d now w s = (l, s1)" by (rule prod.exhaust)
  have "snd s1 = snd s" using lookup_recent_still [OF Cons.prems, of X h d now w] l by simp
  with Cons show ?case by (cases l) (auto simp: acc l)
qed (cases acc, simp)

lemma same_ip_candidate_latency_spec:
  assumes "same_ip_candidate_latency X h target auths w s = (r, s')"
  shows "same_nodes (fst s) (fst s')"
    and "clock (snd s) = [t] \<Longrightarrow> tables_ok (fst s) \<Longrightarrow>
      r = rotation_latency X (fst s) h target auths t w \<and> snd s' = snd s"
proof -
  obtain now ev where ev: "time_now (snd s) = (now, ev)" by (rule prod.exhaust)
  obtain l s1 where l: "lookup_recent_domain_latency X h target now w (fst s, ev) = (l, s1)"
    by (rule prod.exhaust)
  obtain q s2 where q: "average_recent_authority_latency X h auths now w s1 = (q, s2)"
    by (rule prod.exhaust)
  note sp1 = lookup_recent_spec [OF l] and sp2 = average_recent_spec [OF q]
  show "same_nodes (fst s) (fst s')"
    using assms ev l q sp1(1) same_nodes_trans [OF sp1(1)] sp2(1)
    by (auto simp: same_ip_candidate_latency_def split: option.splits)
  assume t: "clock (snd s) = [t]" and ok: "tables_ok (fst s)"
  have now: "now = t" "ev = snd s" using ev time_now_still [OF t] by simp_all
  have s1: "snd s1 = snd s" using lookup_recent_still [of "(fst s, ev)" t X h target now w] t l now
    by simp
  have s2: "snd s2 = snd s"
    using q authority_sum_still [of s1 t X h auths now w "(0, 0)"] t s1
    by (auto simp: average_recent_authority_latency_def split: if_splits prod.splits)
  have "known_all X (fst s1) h auths t w = known_all X (fst s) h auths t w"
    using known_same(1) [OF sp1(1)] ok by simp
  with assms ev l q sp1 sp2(2) same_nodes_tables_ok [OF sp1(1)] ok now s1 s2
  show "r = rotation_latency X (fst s) h target auths t w \<and> snd s' = snd s"
    by (auto simp: same_ip_candidate_latency_def rotation_latency_def split: option.splits)
qed

lemma rotation_loop_spec:
  assumes "rotation_loop X ip target auths w hs (best, bl, fb) s = ((best', bl', fb'), s')"
  shows "same_nodes (fst s) (fst s')
    \<and> (best' = best \<or> best' \<in> set hs \<and> on_ip (fst s) ip best')
    \<and> (fb' = fb \<or> fb' \<in> set hs \<and> on_ip (fst s) ip fb')
    \<and> (zero_hash \<notin> set hs \<longrightarrow> fb' = (if fb \<noteq> zero_hash then fb else
         case filter (on_ip (fst s) ip) hs of [] \<Rightarrow> zero_hash | h # _ \<Rightarrow> h))"
  using assms
proof (induction hs arbitrary: s best bl fb)
  case (Cons h hs)
  show ?case
  proof (cases "on_ip (fst s) ip h")
    case False
    then have "rotation_loop X ip target auths w hs (best, bl, fb) s = ((best', bl', fb'), s')"
      using Cons.prems by (auto simp: on_ip_def split: option.splits)
    from Cons.IH [OF this] False show ?thesis by auto
  next
    case True
    obtain l s1 where l: "same_ip_candidate_latency X h target auths w s = (l, s1)"
      by (rule prod.exhaust)
    note sp = same_ip_candidate_latency_spec(1) [OF l]
    let ?fb = "if fb = zero_hash then h else fb"
    obtain b1 l1 where b1: "b1 \<in> {best, h}"
      and run: "rotation_loop X ip target auths w hs (b1, l1, ?fb) s1 = ((best', bl', fb'), s')"
      using Cons.prems True l
      by (cases "m_load (fst s) h"; cases l) (auto simp: on_ip_def Let_def split: if_splits)
    from Cons.IH [OF run] same_nodes_trans [OF sp] on_ip_same [OF sp] b1 True show ?thesis
      by auto
  qed
qed auto

lemma rotation_loop_best:
  assumes "rotation_loop X ip target auths w hs (best, bl, fb) s = ((best', bl', fb'), s')"
    and "clock (snd s) = [t]" "tables_ok (fst s)"
  defines "L \<equiv> \<lambda>h. if on_ip (fst s) ip h then rotation_latency X (fst s) h target auths t w else None"
  shows "((best', bl') = (best, bl) \<or> best' \<in> set hs \<and> L best' = Some bl' \<and> bl' < bl)
    \<and> bl' \<le> bl \<and> (\<forall>h\<in>set hs. \<forall>l. L h = Some l \<longrightarrow> bl' \<le> l)"
  using assms(1-3) unfolding L_def
proof (induction hs arbitrary: s best bl fb)
  case (Cons h hs)
  show ?case
  proof (cases "on_ip (fst s) ip h")
    case False
    then have "rotation_loop X ip target auths w hs (best, bl, fb) s = ((best', bl', fb'), s')"
      using Cons.prems by (auto simp: on_ip_def split: option.splits)
    from Cons.IH [OF this Cons.prems(2,3)] False show ?thesis by auto
  next
    case True
    obtain l s1 where l: "same_ip_candidate_latency X h target auths w s = (l, s1)"
      by (rule prod.exhaust)
    note sp = same_ip_candidate_latency_spec [OF l]
    from sp(2) [OF Cons.prems(2,3)] Cons.prems(2)
    have lv: "l = rotation_latency X (fst s) h target auths t w" and ck: "clock (snd s1) = [t]"
      by simp_all
    have ok: "tables_ok (fst s1)" by (rule same_nodes_tables_ok [OF sp(1) Cons.prems(3)])
    define b1 where "b1 = (case l of Some x \<Rightarrow> if x < bl then h else best | None \<Rightarrow> best)"
    define l1 where "l1 = (case l of Some x \<Rightarrow> if x < bl then x else bl | None \<Rightarrow> bl)"
    have run: "rotation_loop X ip target auths w hs
        (b1, l1, if fb = zero_hash then h else fb) s1 = ((best', bl', fb'), s')"
      using Cons.prems(1) True l
      by (cases "m_load (fst s) h"; cases l) (auto simp: on_ip_def Let_def b1_def l1_def split: if_splits)
    from Cons.IH [OF run ck ok] on_ip_same [OF sp(1)] True lv
      rotation_latency_same [OF sp(1) Cons.prems(3)]
    show ?thesis
      by (auto simp: b1_def l1_def split: option.splits if_splits)
  qed
qed auto

lemma choose_rotation_sound:
  assumes "choose_same_ip_rotation_candidate X plat ip target auths w s = (r, s')"
  shows "same_nodes (fst s) (fst s')"
    and "r = Some h \<Longrightarrow> h \<in> set (view_range (view plat)) \<and> on_ip (fst s) ip h \<and> h \<noteq> zero_hash"
    and "r = None \<Longrightarrow> zero_hash \<notin> set (view_range (view plat)) \<Longrightarrow>
      filter (on_ip (fst s) ip) (view_range (view plat)) = []"
proof -
  let ?hs = "view_range (view plat)"
  obtain b bl fb s1 where run: "rotation_loop X ip target auths w ?hs
      (zero_hash, max_i64, zero_hash) s = ((b, bl, fb), s1)" by (metis prod.exhaust)
  note sp = rotation_loop_spec [OF run]
  show "same_nodes (fst s) (fst s')"
    using assms run sp by (auto simp: choose_same_ip_rotation_candidate_def split: if_splits)
  show "h \<in> set ?hs \<and> on_ip (fst s) ip h \<and> h \<noteq> zero_hash" if "r = Some h"
    using assms run sp that
    by (auto simp: choose_same_ip_rotation_candidate_def split: if_splits)
  show "filter (on_ip (fst s) ip) ?hs = []" if r: "r = None" and z: "zero_hash \<notin> set ?hs"
  proof (cases "filter (on_ip (fst s) ip) ?hs")
    case (Cons x xs)
    then have "x \<in> set (filter (on_ip (fst s) ip) ?hs)" by simp
    then have "x \<in> set ?hs" by simp
    with z have "x \<noteq> zero_hash" by auto
    moreover have "fb = x" using sp z Cons by simp
    ultimately show ?thesis
      using assms run r by (auto simp: choose_same_ip_rotation_candidate_def split: if_splits)
  qed
qed

section \<open>Properties\<close>

text \<open>
  Power of two choices: when the two draws name different nodes, the node routed to is the
  one with the lower policy score (the second on a tie). Under \<open>PREFER_IDLE_IP\<close>, and whenever
  no comparable latency is known, that is the one whose egress address carries fewer leases;
  under \<open>PREFER_LOW_LATENCY\<close> with known latencies the faster one. The latencies compared are
  those of one and the same domain, or averages over the same authority domains.
\<close>

lemma two_choices_policy:
  assumes "view_ok (view plat)" "tables_ok (fst s)"
    and "random_pick (view plat) (snd s) = (Some h1, ev1)"
    and "random_pick (view plat) ev1 = (Some h2, ev2)" and "h1 \<noteq> h2"
    and "compared_latencies X (fst s) h1 h2 target auths (fst (time_now ev2)) w = (a, b)"
    and "\<bar>a\<bar> < 2 ^ 53" "\<bar>b\<bar> < 2 ^ 53"
    and "\<bar>lease_count_of stats (fst s) h1\<bar> < 2 ^ 53" "\<bar>lease_count_of stats (fst s) h2\<bar> < 2 ^ 53"
  shows "let n1 = lease_count_of stats (fst s) h1; n2 = lease_count_of stats (fst s) h2;
             r = fst (random_route X plat stats target auths w s) in
     (r = Inr h1 \<or> r = Inr h2)
     \<and> (alloc_policy plat = policy_prefer_idle_ip \<or> (a \<le> 0 \<and> b \<le> 0) \<longrightarrow>
          r = Inr (if n1 < n2 then h1 else h2))
     \<and> (alloc_policy plat = policy_prefer_low_latency \<and> 0 < a \<and> 0 < b \<longrightarrow>
          r = Inr (if a < b then h1 else h2))"
  using assms(7-10)
  by (simp only: random_route_two [OF assms(1-6)])
    (auto simp: Let_def calculate_score_def f64_of_int_exact policy_prefer_idle_ip_def
      policy_prefer_low_latency_def)

text \<open>
  Reading latencies is transparent: comparing two nodes gives the latencies of the target
  domain if both nodes have a recent one, else the averages over exactly those authority domains
  both have recent statistics for, else nothing for either; and it alters no statistics, only
  access times.
\<close>

lemma compare_latencies_reference:
  assumes "tables_ok (fst s)"
  shows "fst (compare_latencies X h1 h2 target auths w s)
         = compared_latencies X (fst s) h1 h2 target auths (fst (time_now (snd s))) w
     \<and> same_nodes (fst s) (fst (snd (compare_latencies X h1 h2 target auths w s)))"
  using compare_latencies_spec [of X h1 h2 target auths w s
      "fst (compare_latencies X h1 h2 target auths w s)"
      "snd (compare_latencies X h1 h2 target auths w s)"] assms
  by simp

text \<open>
  The same-address rotation finds a replacement whenever there is one: if some routable node
  has the egress address, a routable node with that address is chosen; and when the clock does
  not move during the scan, the chosen node has the lowest known latency among them (any node
  qualifies if none has one).
\<close>

lemma rotation_choice:
  assumes "clock (snd s) = [t]" "tables_ok (fst s)" "zero_hash \<notin> set (view_range (view plat))"
    and "h \<in> set (view_range (view plat))" "on_ip (fst s) ip h"
  shows "\<exists>c. fst (choose_same_ip_rotation_candidate X plat ip target auths w s) = Some c
     \<and> c \<in> set (view_range (view plat)) \<and> on_ip (fst s) ip c
     \<and> (\<forall>l. rotation_latency X (fst s) h target auths t w = Some l \<longrightarrow> l < max_i64 \<longrightarrow>
         (\<exists>m. rotation_latency X (fst s) c target auths t w = Some m \<and> m \<le> l))"
proof -
  let ?hs = "view_range (view plat)"
  obtain b bl fb s1 where run: "rotation_loop X ip target auths w ?hs
      (zero_hash, max_i64, zero_hash) s = ((b, bl, fb), s1)" by (metis prod.exhaust)
  note best = rotation_loop_best [OF run assms(1,2)]
  obtain r s' where r: "choose_same_ip_rotation_candidate X plat ip target auths w s = (r, s')"
    by (rule prod.exhaust)
  have "h \<in> set (filter (on_ip (fst s) ip) ?hs)" using assms(4,5) by simp
  then have "filter (on_ip (fst s) ip) ?hs \<noteq> []" by (metis length_pos_if_in_set list.size(3) less_irrefl)
  with choose_rotation_sound(3) [OF r _ assms(3)] obtain c where c: "r = Some c" by fastforce
  note sound = choose_rotation_sound(2) [OF r c]
  have "\<exists>m. rotation_latency X (fst s) c target auths t w = Some m \<and> m \<le> l"
    if l: "rotation_latency X (fst s) h target auths t w = Some l" "l < max_i64" for l
  proof -
    from best assms(4,5) l(1) have le: "bl \<le> l" by auto
    with l(2) best have b: "b \<in> set ?hs" "on_ip (fst s) ip b"
      "rotation_latency X (fst s) b target auths t w = Some bl"
      by (auto split: if_splits)
    with assms(3) have "b \<noteq> zero_hash" by auto
    with r run c have "c = b" by (simp add: choose_same_ip_rotation_candidate_def)
    with b le show ?thesis by blast
  qed
  with r c sound show ?thesis by auto
qed

text \<open>Two nodes on one address, measured for the domain \<open>b\<close>; the second one is faster.\<close>

definition table_with :: "int \<Rightarrow> latency_table" where
  "table_with l =
     \<lparr>authorities = [], regular = [mk_slot 99 ''b'' \<lparr>ewma = l, last_updated = 9\<rparr> 9]\<rparr>"

definition entry_with :: "hash \<Rightarrow> int \<Rightarrow> node_entry" where
  "entry_with h l = (new_node_entry h ''{}'' 0 1)
     \<lparr>subscription_ids := [''s''], egress_ip := Some (V4 1), has_outbound := True,
      latency_tab := Some (table_with l)\<rparr>"

definition sample_nodes :: node_table where
  "sample_nodes = [(replicate 16 1, entry_with (replicate 16 1) 700),
     (replicate 16 2, entry_with (replicate 16 2) 300)]"

definition two_node_platform :: platform where
  "two_node_platform = (new_platform ''p'' ''n'' [] [])
     \<lparr>alloc_policy := policy_prefer_low_latency, view := sample_view\<rparr>"

definition sample_env :: env where
  "sample_env = \<lparr>draws = [0, 1], clock = [10]\<rparr>"

lemma sample_picks:
  "random_pick sample_view sample_env = (Some (replicate 16 1), \<lparr>draws = [1], clock = [10]\<rparr>)"
  "random_pick sample_view \<lparr>draws = [1], clock = [10]\<rparr>
     = (Some (replicate 16 2), \<lparr>draws = [], clock = [10]\<rparr>)"
  "view_range sample_view = [replicate 16 1, replicate 16 2]"
  by code_simp+

lemma sample_latency:
  "known_latency plain_external sample_nodes (replicate 16 1) ''b'' 10 100 = Some 700"
  "known_latency plain_external sample_nodes (replicate 16 2) ''b'' 10 100 = Some 300"
  by (simp_all add: known_latency_def sample_nodes_def entry_with_def table_with_def
      domain_key_plain table_map_def is_recent_def time_sub_def max_i64_def min_i64_def numeral_eq_Suc)

lemma sample_tables_ok: "tables_ok sample_nodes"
  by (auto simp: tables_ok_def sample_nodes_def entry_with_def table_with_def table_ok_def
      split: if_splits)

end
