(* ===== verification/Net_Domain.thy ===== *)
theory Net_Domain
  imports Go_Std
begin

text \<open>
  \<open>internal/netutil/domain.go\<close>: the domain a request target is accounted under. \<open>net.SplitHostPort\<close>
  is spelled out from Go's library; URL parsing and the public suffix list come in through the
  record of external functions.
\<close>

definition index_byte :: "char \<Rightarrow> string \<Rightarrow> nat option" where
  "index_byte c s = find_index (\<lambda>d. d = c) s"

definition last_index_byte :: "char \<Rightarrow> string \<Rightarrow> nat option" where
  "last_index_byte c s =
     (case index_byte c (rev s) of None \<Rightarrow> None | Some i \<Rightarrow> Some (length s - 1 - i))"

text \<open>The host and port of \<open>net.SplitHostPort\<close>, \<open>None\<close> for its errors.\<close>

definition split_host_port :: "string \<Rightarrow> (string \<times> string) option" where
  "split_host_port hostport =
     (case last_index_byte CHR '':'' hostport of
        None \<Rightarrow> None
      | Some i \<Rightarrow>
          let bracketed = (hd hostport = CHR ''['');
              split = (if bracketed
                then (case index_byte CHR '']'' hostport of
                        None \<Rightarrow> None
                      | Some e \<Rightarrow>
                          if e + 1 = length hostport then None
                          else if e + 1 = i
                          then Some (take (e - 1) (drop 1 hostport), 1, e + 1)
                          else None)
                else (let host = take i hostport in
                      if index_byte CHR '':'' host \<noteq> None then None else Some (host, 0, 0)))
          in case split of
               None \<Rightarrow> None
             | Some (host, j, k) \<Rightarrow>
                 if index_byte CHR ''['' (drop j hostport) \<noteq> None then None
                 else if index_byte CHR '']'' (drop k hostport) \<noteq> None then None
                 else Some (host, drop (i + 1) hostport))"

fun contains_scheme :: "string \<Rightarrow> bool" where
  "contains_scheme [] = False"
| "contains_scheme (c # cs) = (drop_prefix ''://'' (c # cs) \<noteq> None \<or> contains_scheme cs)"

definition extract_domain :: "external \<Rightarrow> string \<Rightarrow> string" where
  "extract_domain X target =
     (let target = (if contains_scheme target \<or> drop_prefix ''//'' target \<noteq> None
                    then (case url_host X target of
                            Some h \<Rightarrow> if h \<noteq> [] then h else target
                          | None \<Rightarrow> target)
                    else target);
          host = (case split_host_port target of
                    Some (h, _) \<Rightarrow> h
                  | None \<Rightarrow>
                      if target \<noteq> [] \<and> hd target = CHR ''['' \<and> last target = CHR '']''
                      then take (length target - 2) (drop 1 target) else target)
      in case etld_plus_one X host of Some d \<Rightarrow> d | None \<Rightarrow> host)"

section \<open>Splitting a host and a port\<close>

lemma find_index_first: "\<forall>x\<in>set xs. \<not> P x \<Longrightarrow> P y \<Longrightarrow> find_index P (xs @ y # ys) = Some (length xs)"
  by (induction xs) auto

lemma index_byte_None [simp]: "index_byte c s = None \<longleftrightarrow> c \<notin> set s"
  by (auto simp: index_byte_def find_index_None)

lemma last_index_byte_at:
  assumes "c \<notin> set t"
  shows "last_index_byte c (s @ c # t) = Some (length s)"
proof -
  have "index_byte c (rev t @ c # rev s) = Some (length t)"
    using assms find_index_first [of "rev t" "\<lambda>d. d = c" c "rev s"] by (auto simp: index_byte_def)
  then show ?thesis by (simp add: last_index_byte_def)
qed

lemma index_byte_at: "c \<notin> set s \<Longrightarrow> index_byte c (s @ c # t) = Some (length s)"
  using find_index_first [of s "\<lambda>d. d = c" c t] by (auto simp: index_byte_def)

lemma split_host_port_plain:
  assumes "set h \<inter> {CHR '':'', CHR ''['', CHR '']''} = {}"
    and "set p \<inter> {CHR '':'', CHR ''['', CHR '']''} = {}"
  shows "split_host_port (h @ '':'' @ p) = Some (h, p)"
proof -
  have "hd (h @ CHR '':'' # p) \<noteq> CHR ''[''" using assms(1) by (cases h) auto
  with assms last_index_byte_at [of "CHR '':''" p h] show ?thesis
    by (auto simp: split_host_port_def Let_def)
qed

lemma split_host_port_bracketed:
  assumes "set h \<inter> {CHR ''['', CHR '']''} = {}"
    and "set p \<inter> {CHR '':'', CHR ''['', CHR '']''} = {}"
  shows "split_host_port (''['' @ h @ '']:'' @ p) = Some (h, p)"
proof -
  let ?s = "''['' @ h @ '']:'' @ p"
  have "last_index_byte CHR '':'' ?s = Some (length h + 2)"
    using last_index_byte_at [of "CHR '':''" p "''['' @ h @ '']''"] assms by simp
  moreover have "index_byte CHR '']'' ?s = Some (length h + 1)"
    using index_byte_at [of "CHR '']''" "''['' @ h" "'':'' @ p"] assms by simp
  ultimately show ?thesis
    using assms by (auto simp: split_host_port_def Let_def)
qed

section \<open>Properties\<close>

lemma no_scheme:
  assumes "CHR ''/'' \<notin> set s"
  shows "\<not> contains_scheme s" "drop_prefix ''//'' s = None"
proof -
  have slash: "drop_prefix (p @ CHR ''/'' # q) t = None" if "CHR ''/'' \<notin> set t" for p q t
    using that
  proof (induction p arbitrary: t)
    case Nil
    then show ?case by (cases t) auto
  next
    case (Cons a p)
    then show ?case by (cases t) auto
  qed
  show "drop_prefix ''//'' s = None" using slash [OF assms, of "[]" "''/''"] by simp
  show "\<not> contains_scheme s"
    using assms
  proof (induction s)
    case (Cons c s)
    with slash [of "c # s" "'':''" "''/''"] show ?case by simp
  qed simp
qed

lemma extract_domain_split:
  assumes "CHR ''/'' \<notin> set t" "split_host_port t = Some (h, p)"
  shows "extract_domain X t = (case etld_plus_one X h of Some d \<Rightarrow> d | None \<Rightarrow> h)"
  using no_scheme [OF assms(1)] assms(2) by (simp add: extract_domain_def)

text \<open>
  The port never decides the domain: a host name or IPv4 address is accounted the same with
  and without a port, and an IPv6 address in brackets the same with and without a port, namely as
  the address without its brackets.
\<close>

lemma extract_domain_ignores_port:
  assumes "set h \<inter> {CHR ''/'', CHR ''['', CHR '']''} = {}"
    and "set p \<inter> {CHR ''/'', CHR '':'', CHR ''['', CHR '']''} = {}"
  shows "(CHR '':'' \<notin> set h \<longrightarrow> extract_domain X (h @ '':'' @ p) = extract_domain X h)
     \<and> extract_domain X (''['' @ h @ '']:'' @ p) = extract_domain X (''['' @ h @ '']'')
     \<and> extract_domain X (''['' @ h @ '']'') = (case etld_plus_one X h of Some d \<Rightarrow> d | None \<Rightarrow> h)"
proof (intro conjI impI)
  have bare: "split_host_port (''['' @ h @ '']'') = None"
  proof (cases "last_index_byte CHR '':'' (''['' @ h @ '']'')")
    case (Some i)
    have "index_byte CHR '']'' (''['' @ h @ '']'') = Some (length h + 1)"
      using index_byte_at [of "CHR '']''" "''['' @ h" "[]"] assms(1) by auto
    with Some show ?thesis by (simp add: split_host_port_def Let_def)
  qed (simp add: split_host_port_def)
  have b: "extract_domain X (''['' @ h @ '']'') = (case etld_plus_one X h of Some d \<Rightarrow> d | None \<Rightarrow> h)"
    using no_scheme [of "''['' @ h @ '']''"] bare assms(1)
    by (simp add: extract_domain_def Let_def split: option.split)
  then show "extract_domain X (''['' @ h @ '']'') = (case etld_plus_one X h of Some d \<Rightarrow> d | None \<Rightarrow> h)" .
  have "split_host_port (''['' @ h @ '']:'' @ p) = Some (h, p)"
    by (rule split_host_port_bracketed) (use assms in auto)
  moreover have "CHR ''/'' \<notin> set (''['' @ h @ '']:'' @ p)" using assms by auto
  ultimately show "extract_domain X (''['' @ h @ '']:'' @ p) = extract_domain X (''['' @ h @ '']'')"
    unfolding b by (rule extract_domain_split [rotated])
  assume c: "CHR '':'' \<notin> set h"
  have "split_host_port (h @ '':'' @ p) = Some (h, p)"
    by (rule split_host_port_plain) (use assms c in auto)
  moreover have "CHR ''/'' \<notin> set (h @ '':'' @ p)" using assms by auto
  ultimately have "extract_domain X (h @ '':'' @ p) = (case etld_plus_one X h of Some d \<Rightarrow> d | None \<Rightarrow> h)"
    by (rule extract_domain_split [rotated])
  moreover have "split_host_port h = None"
    using c by (simp add: split_host_port_def last_index_byte_def index_byte_None [THEN iffD2])
  moreover have "h = [] \<or> hd h \<noteq> CHR ''[''" using assms(1) by (cases h) auto
  moreover have "CHR ''/'' \<notin> set h" using assms(1) by auto
  ultimately show "extract_domain X (h @ '':'' @ p) = extract_domain X h"
    using no_scheme [of h] by (auto simp: extract_domain_def Let_def split: option.split)
qed

end
