(* ===== verification/Subscription.thy ===== *)
theory Subscription
  imports Node_Hash Go_Std
begin

text \<open>
  \<open>internal/subscription/subscription.go\<close>: a subscription's settings, its managed nodes (which
  nodes it holds, under which tags, and which of them were evicted) and the hash difference that a
  refresh applies. The lemmas show that the difference partitions the hashes of both maps, and
  that the configuration version guards the refresh inputs.
\<close>

section \<open>Managed nodes\<close>

text \<open>
  \<open>ManagedNodes\<close> wraps a concurrent map; its methods also accept a nil receiver, which no caller
  has: the constructor installs an empty map and every later one is installed by a swap.
\<close>

record managed_node =
  tags :: "string list"
  evicted :: bool

type_synonym managed_nodes = "(hash, managed_node) amap"

definition new_managed_nodes :: managed_nodes where
  "new_managed_nodes = []"

definition clone_tags :: "string list \<Rightarrow> string list" where
  "clone_tags ts = (if ts = [] then [] else ts)"

definition managed_size :: "managed_nodes \<Rightarrow> nat" where
  "managed_size mn = length mn"

definition load_node :: "managed_nodes \<Rightarrow> hash \<Rightarrow> managed_node option" where
  "load_node mn h = m_load mn h"

definition store_node :: "hash \<Rightarrow> managed_node \<Rightarrow> managed_nodes \<Rightarrow> managed_nodes" where
  "store_node h n mn = m_store h \<lparr>tags = clone_tags (tags n), evicted = evicted n\<rparr> mn"

definition delete_node :: "hash \<Rightarrow> managed_nodes \<Rightarrow> managed_nodes" where
  "delete_node h mn = m_delete h mn"

definition range_managed :: "managed_nodes \<Rightarrow> (hash \<times> managed_node) list" where
  "range_managed mn = mn"

lemma clone_tags_id [simp]: "clone_tags ts = ts"
  by (simp add: clone_tags_def)

interpretation mn: map_store load_node store_node delete_node range_managed m_ok
  by unfold_locales
    (simp_all add: load_node_def store_node_def delete_node_def range_managed_def store_simps
      fun_eq_iff, simp add: m_ok_def)

section \<open>The subscription\<close>

definition source_type_remote :: string where
  "source_type_remote = ''remote''"

definition source_type_local :: string where
  "source_type_local = ''local''"

definition normalize_source_type :: "string \<Rightarrow> string" where
  "normalize_source_type s = (if s = source_type_local then source_type_local else source_type_remote)"

definition default_evict_delay_ns :: int where
  "default_evict_delay_ns = 259200000000000"

definition update_mode_replace :: bool where
  "update_mode_replace = False"

record subscription =
  sub_id :: string
  sub_url :: string
  source_type :: string
  user_agent :: string
  sub_content :: string
  update_interval_ns :: int
  sub_name :: string
  sub_enabled :: bool
  ephemeral :: bool
  incremental_alive :: bool
  evict_delay_ns :: int
  sub_created_at_ns :: int
  sub_updated_at_ns :: int
  last_checked_ns :: int
  last_updated_ns :: int
  sub_last_error :: string
  attempt_seq :: int
  last_applied_seq :: int
  managed :: managed_nodes
  config_version :: int

definition new_subscription :: "string \<Rightarrow> string \<Rightarrow> string \<Rightarrow> bool \<Rightarrow> bool \<Rightarrow> subscription" where
  "new_subscription sid name url enabled eph =
     \<lparr>sub_id = sid, sub_url = url, source_type = source_type_remote, user_agent = [],
      sub_content = [], update_interval_ns = 0, sub_name = name, sub_enabled = enabled,
      ephemeral = eph, incremental_alive = update_mode_replace,
      evict_delay_ns = default_evict_delay_ns, sub_created_at_ns = 0, sub_updated_at_ns = 0,
      last_checked_ns = 0, last_updated_ns = 0, sub_last_error = [], attempt_seq = 0,
      last_applied_seq = 0, managed = new_managed_nodes, config_version = 1\<rparr>"

definition set_sub_last_error :: "string \<Rightarrow> subscription \<Rightarrow> subscription" where
  "set_sub_last_error err s = s\<lparr>sub_last_error := err\<rparr>"

definition next_attempt_seq :: "subscription \<Rightarrow> subscription \<times> int" where
  "next_attempt_seq s = (let n = i64 (attempt_seq s + 1) in (s\<lparr>attempt_seq := n\<rparr>, n))"

definition mark_applied_attempt :: "int \<Rightarrow> subscription \<Rightarrow> subscription" where
  "mark_applied_attempt n s = s\<lparr>last_applied_seq := n\<rparr>"

definition get_source_type :: "subscription \<Rightarrow> string" where
  "get_source_type s = normalize_source_type (source_type s)"

definition set_user_agent :: "string \<Rightarrow> subscription \<Rightarrow> subscription" where
  "set_user_agent v s = s\<lparr>user_agent := v\<rparr>"

definition set_fetch_config :: "string \<Rightarrow> int \<Rightarrow> subscription \<Rightarrow> subscription" where
  "set_fetch_config url interval s =
     (let changed = (sub_url s \<noteq> url \<or> update_interval_ns s \<noteq> interval);
          s' = s\<lparr>sub_url := url, update_interval_ns := interval\<rparr>
      in if changed then s'\<lparr>config_version := i64 (config_version s' + 1)\<rparr> else s')"

definition set_source_type :: "string \<Rightarrow> subscription \<Rightarrow> subscription" where
  "set_source_type t s =
     (let t = normalize_source_type t in
      if source_type s \<noteq> t
      then s\<lparr>source_type := t, config_version := i64 (config_version s + 1)\<rparr> else s)"

definition set_content :: "string \<Rightarrow> subscription \<Rightarrow> subscription" where
  "set_content c s =
     (if sub_content s \<noteq> c
      then s\<lparr>sub_content := c, config_version := i64 (config_version s + 1)\<rparr> else s)"

definition set_name :: "string \<Rightarrow> subscription \<Rightarrow> subscription" where
  "set_name v s = s\<lparr>sub_name := v\<rparr>"

definition set_enabled :: "bool \<Rightarrow> subscription \<Rightarrow> subscription" where
  "set_enabled v s = s\<lparr>sub_enabled := v\<rparr>"

definition set_ephemeral :: "bool \<Rightarrow> subscription \<Rightarrow> subscription" where
  "set_ephemeral v s = s\<lparr>ephemeral := v\<rparr>"

definition set_incremental_alive :: "bool \<Rightarrow> subscription \<Rightarrow> subscription" where
  "set_incremental_alive v s = s\<lparr>incremental_alive := v\<rparr>"

definition set_evict_delay_ns :: "int \<Rightarrow> subscription \<Rightarrow> subscription" where
  "set_evict_delay_ns v s = s\<lparr>evict_delay_ns := v\<rparr>"

definition swap_managed_nodes :: "managed_nodes \<Rightarrow> subscription \<Rightarrow> subscription" where
  "swap_managed_nodes m s = s\<lparr>managed := m\<rparr>"

section \<open>The hash difference\<close>

definition diff_hashes :: "managed_nodes \<Rightarrow> managed_nodes \<Rightarrow> hash list \<times> hash list \<times> hash list" where
  "diff_hashes old_map new_map =
     (let hs = map fst (range_managed new_map);
          kept = filter (\<lambda>h. load_node old_map h \<noteq> None) hs;
          added = filter (\<lambda>h. load_node old_map h = None) hs;
          removed = filter (\<lambda>h. load_node new_map h = None) (map fst (range_managed old_map))
      in (added, kept, removed))"

lemma diff_hashes_sets:
  assumes "diff_hashes old new = (added, kept, removed)"
  shows "set added = dom (load_node new) - dom (load_node old)"
    "set kept = dom (load_node new) \<inter> dom (load_node old)"
    "set removed = dom (load_node old) - dom (load_node new)"
proof -
  have d: "fst ` set m = dom (load_node m)" for m :: managed_nodes
    by (simp add: load_node_def [abs_def] dom_map_of_conv_image_fst)
  show "set added = dom (load_node new) - dom (load_node old)"
    "set kept = dom (load_node new) \<inter> dom (load_node old)"
    "set removed = dom (load_node old) - dom (load_node new)"
    using assms d [of new] d [of old]
    by (auto simp: diff_hashes_def range_managed_def Let_def dom_def)
qed

lemma diff_hashes_distinct:
  assumes "m_ok old" "m_ok new" "diff_hashes old new = (added, kept, removed)"
  shows "distinct (added @ kept @ removed)"
  using assms diff_hashes_sets [OF assms(3)]
  by (auto simp: diff_hashes_def range_managed_def Let_def m_ok_def)

section \<open>Properties\<close>

text \<open>
  A refresh touches each hash once: the added, kept and removed hashes of \<open>DiffHashes\<close> are
  pairwise disjoint and free of repetitions, added and kept together are the new nodes, kept and
  removed together the old ones.
\<close>

lemma diff_hashes_partition:
  assumes "m_ok old" "m_ok new" "diff_hashes old new = (added, kept, removed)"
  shows "distinct (added @ kept @ removed)
     \<and> set added \<union> set kept = {h. load_node new h \<noteq> None}
     \<and> set kept \<union> set removed = {h. load_node old h \<noteq> None}"
  using diff_hashes_distinct [OF assms] diff_hashes_sets [OF assms(3)] by (auto simp: dom_def)

definition sample_managed :: "nat list \<Rightarrow> managed_nodes" where
  "sample_managed ns = map (\<lambda>n. (replicate 16 (of_nat n), \<lparr>tags = [''t''], evicted = False\<rparr>)) ns"

text \<open>The settings a running system changes through the API.\<close>

datatype sub_op =
    Set_Fetch_Config string int | Set_Source_Type string | Set_Content string
  | Set_User_Agent string | Set_Name string | Set_Enabled bool | Set_Ephemeral bool
  | Set_Incremental bool | Set_Evict_Delay int

fun sub_step :: "sub_op \<Rightarrow> subscription \<Rightarrow> subscription" where
  "sub_step (Set_Fetch_Config u i) s = set_fetch_config u i s"
| "sub_step (Set_Source_Type t) s = set_source_type t s"
| "sub_step (Set_Content c) s = set_content c s"
| "sub_step (Set_User_Agent v) s = set_user_agent v s"
| "sub_step (Set_Name v) s = set_name v s"
| "sub_step (Set_Enabled v) s = set_enabled v s"
| "sub_step (Set_Ephemeral v) s = set_ephemeral v s"
| "sub_step (Set_Incremental v) s = set_incremental_alive v s"
| "sub_step (Set_Evict_Delay v) s = set_evict_delay_ns v s"

definition refresh_inputs :: "subscription \<Rightarrow> string \<times> int \<times> string \<times> string" where
  "refresh_inputs s = (sub_url s, update_interval_ns s, source_type s, sub_content s)"

lemma sub_step_version:
  "(config_version (sub_step op s) = config_version s \<and> refresh_inputs (sub_step op s) = refresh_inputs s)
   \<or> config_version (sub_step op s) = i64 (config_version s + 1)"
  by (cases op)
    (auto simp: set_fetch_config_def set_source_type_def set_content_def set_user_agent_def
      set_name_def set_enabled_def set_ephemeral_def set_incremental_alive_def set_evict_delay_ns_def
      refresh_inputs_def Let_def)

lemma run_version:
  "\<exists>k \<le> length ops. config_version (fold sub_step ops s) =
       (if k = 0 then config_version s else i64 (config_version s + int k))
     \<and> (k = 0 \<longrightarrow> refresh_inputs (fold sub_step ops s) = refresh_inputs s)"
proof (induction ops arbitrary: s)
  case (Cons op ops)
  obtain k where k: "k \<le> length ops" "config_version (fold sub_step ops (sub_step op s)) =
       (if k = 0 then config_version (sub_step op s) else i64 (config_version (sub_step op s) + int k))"
    "k = 0 \<Longrightarrow> refresh_inputs (fold sub_step ops (sub_step op s)) = refresh_inputs (sub_step op s)"
    using Cons.IH [of "sub_step op s"] by blast
  from sub_step_version [of op s] show ?case
  proof
    assume "config_version (sub_step op s) = config_version s
      \<and> refresh_inputs (sub_step op s) = refresh_inputs s"
    with k show ?case by (intro exI [of _ k]) simp
  next
    assume "config_version (sub_step op s) = i64 (config_version s + 1)"
    with k show ?case by (intro exI [of _ "Suc k"]) (simp add: i64_simps ac_simps)
  qed
qed simp

lemma i64_add_fix:
  assumes "i64 (v + int k) = v" "k < 2 ^ 64"
  shows "k = 0"
proof -
  have "i64 (v + int k) = i64 v"
    using assms(1) i64_idem [of "v + int k"] by simp
  then have "take_bit 64 (v + int k) = take_bit 64 v"
    by (simp add: i64_def signed_take_bit_eq_iff_take_bit_eq)
  then have "(v + int k) mod 2 ^ 64 = v mod 2 ^ 64" by (simp add: take_bit_eq_mod)
  then have "(2 :: int) ^ 64 dvd int k" by (simp add: mod_eq_dvd_iff)
  with assms(2) show ?thesis
    by (metis int_dvd_int_iff nat_dvd_not_less not_gr0 of_nat_numeral of_nat_power)
qed

text \<open>
  The configuration version guards the refresh inputs: if, after any number of setting changes
  (fewer than $2^{64}$), the version is what it was before, then URL, interval, source type and
  content are what they were. A refresh that compares versions never applies content fetched
  for other settings.
\<close>

lemma config_version_guard:
  assumes "config_version (fold sub_step ops s) = config_version s" "length ops < 2 ^ 64"
  shows "refresh_inputs (fold sub_step ops s) = refresh_inputs s"
proof -
  from run_version [of ops s] obtain k where k: "k \<le> length ops"
    "config_version (fold sub_step ops s) =
       (if k = 0 then config_version s else i64 (config_version s + int k))"
    "k = 0 \<longrightarrow> refresh_inputs (fold sub_step ops s) = refresh_inputs s"
    by blast
  have "k = 0"
    using i64_add_fix [of "config_version s" k] k(1,2) assms by (auto split: if_splits)
  with k(3) show ?thesis by simp
qed

end
