(* ===== verification/Node_Pool.thy ===== *)
theory Node_Pool
  imports Platform Subscription Net_Domain
begin

text \<open>
  \<open>internal/topology/pool.go\<close>: the pool of all nodes, the registry of platforms by id and by name,
  and the operations that keep the platforms' routable views up to date: reference counting by
  subscription, the circuit breaker, latency and egress records. The lemmas show that every
  operation leaves every registered view equal to the set of nodes the platform's filter accepts.
\<close>

section \<open>State\<close>

text \<open>
  The configuration, fixed at construction. The callbacks are not parameters here: each call of
  one is an entry of the log.
\<close>

record pool_config =
  has_sub_lookup :: bool
  geo_lookup :: "(addr \<Rightarrow> string) option"
  max_latency_entries :: int
  max_consecutive_failures :: int
  decay_window_cfg :: "int option"
  authorities_cfg :: "string list option"

type_synonym sub_store = "(string, subscription) amap"

datatype pool_event =
    Node_Added hash
  | Node_Removed hash node_entry
  | Sub_Node_Changed string hash bool
  | Node_Dynamic_Changed hash
  | Node_Latency_Changed hash string

text \<open>
  Platforms are objects that both indexes point to and that operations update in place; the code
  compares the pointers. A reference is a position in the list of all platform objects.
\<close>

type_synonym plat_ref = nat

record node_pool =
  pool_nodes :: node_table
  plat_heap :: "platform list"
  by_id :: "(string, plat_ref) amap"
  by_name :: "(string, plat_ref) amap"
  pool_log :: "pool_event list"

definition new_global_node_pool :: node_pool where
  "new_global_node_pool =
     \<lparr>pool_nodes = [], plat_heap = [], by_id = [], by_name = [], pool_log = []\<rparr>"

text \<open>Allocation of a platform object by a caller of the registry.\<close>

definition alloc_platform :: "platform \<Rightarrow> node_pool \<Rightarrow> node_pool \<times> plat_ref" where
  "alloc_platform plat p = (p\<lparr>plat_heap := plat_heap p @ [plat]\<rparr>, length (plat_heap p))"

definition deref :: "node_pool \<Rightarrow> plat_ref \<Rightarrow> platform" where
  "deref p r = plat_heap p ! r"

definition log_event :: "pool_event \<Rightarrow> node_pool \<Rightarrow> node_pool" where
  "log_event ev p = p\<lparr>pool_log := pool_log p @ [ev]\<rparr>"

section \<open>Subscriptions as the pool sees them\<close>

definition make_sub_lookup :: "pool_config \<Rightarrow> sub_store \<Rightarrow> sub_lookup" where
  "make_sub_lookup cfg subs = (\<lambda>sid h.
     if \<not> has_sub_lookup cfg then Some ([], True, [])
     else case m_load subs sid of
       None \<Rightarrow> None
     | Some sub \<Rightarrow>
         (case load_node (managed sub) h of
            None \<Rightarrow> None
          | Some m \<Rightarrow> if evicted m then None else Some (sub_name sub, sub_enabled sub, tags m)))"

section \<open>Notification\<close>

text \<open>
  \<open>notifyAllPlatformsDirty\<close> and \<open>RebuildAllPlatforms\<close> run one goroutine per platform and wait for
  all of them; each updates only its own platform, so the order does not matter.
\<close>

definition update_platforms :: "(platform \<Rightarrow> platform) \<Rightarrow> node_pool \<Rightarrow> node_pool" where
  "update_platforms f p =
     p\<lparr>plat_heap := fold (\<lambda>ir hp. hp[snd ir := f (hp ! snd ir)]) (by_id p) (plat_heap p)\<rparr>"

definition notify_all_platforms_dirty ::
  "pool_config \<Rightarrow> sub_store \<Rightarrow> hash \<Rightarrow> node_pool \<Rightarrow> node_pool" where
  "notify_all_platforms_dirty cfg subs h p =
     (if by_id p = [] then p
      else update_platforms
        (notify_dirty h (pool_nodes p) (Some (make_sub_lookup cfg subs)) (geo_lookup cfg)) p)"

definition rebuild_all_platforms :: "pool_config \<Rightarrow> sub_store \<Rightarrow> node_pool \<Rightarrow> node_pool" where
  "rebuild_all_platforms cfg subs p =
     (if by_id p = [] then p
      else update_platforms
        (full_rebuild (pool_nodes p) (Some (make_sub_lookup cfg subs)) (geo_lookup cfg)) p)"

definition rebuild_platform :: "pool_config \<Rightarrow> sub_store \<Rightarrow> plat_ref \<Rightarrow> node_pool \<Rightarrow> node_pool" where
  "rebuild_platform cfg subs r p =
     p\<lparr>plat_heap := (plat_heap p)[r := full_rebuild (pool_nodes p)
         (Some (make_sub_lookup cfg subs)) (geo_lookup cfg) (deref p r)]\<rparr>"

section \<open>Nodes and their subscription references\<close>

text \<open>The load-or-create half of the \<open>Compute\<close> callback of \<open>AddNodeFromSub\<close>.\<close>

definition load_or_create ::
  "pool_config \<Rightarrow> hash \<Rightarrow> string \<Rightarrow> node_pool \<times> env \<Rightarrow> node_entry \<times> bool \<times> env" where
  "load_or_create cfg h raw s =
     (case m_load (pool_nodes (fst s)) h of
        Some e \<Rightarrow> (e, False, snd s)
      | None \<Rightarrow>
          let (created, ev) = time_now (snd s);
              e = new_node_entry h raw created (max_latency_entries cfg)
          in (e\<lparr>circuit_open_since := created\<rparr>, True, ev))"

definition add_node_from_sub ::
  "pool_config \<Rightarrow> sub_store \<Rightarrow> hash \<Rightarrow> string \<Rightarrow> string \<Rightarrow> node_pool \<times> env \<Rightarrow> node_pool \<times> env" where
  "add_node_from_sub cfg subs h raw sid s =
     (let (entry, is_new, ev) = load_or_create cfg h raw s;
          p1 = (fst s)\<lparr>pool_nodes := m_store h (add_subscription_id sid entry) (pool_nodes (fst s))\<rparr>;
          p2 = (if is_new then log_event (Node_Added h) p1 else p1);
          p3 = log_event (Sub_Node_Changed sid h True) p2
      in (notify_all_platforms_dirty cfg subs h p3, ev))"

definition remove_node_from_sub ::
  "pool_config \<Rightarrow> sub_store \<Rightarrow> hash \<Rightarrow> string \<Rightarrow> node_pool \<Rightarrow> node_pool" where
  "remove_node_from_sub cfg subs h sid p =
     (let (p1, deleted) = (case m_load (pool_nodes p) h of
            None \<Rightarrow> (p, None)
          | Some e \<Rightarrow>
              let (e', empty) = remove_subscription_id sid e in
              if empty then (p\<lparr>pool_nodes := m_delete h (pool_nodes p)\<rparr>, Some e')
              else (p\<lparr>pool_nodes := m_store h e' (pool_nodes p)\<rparr>, None));
          p2 = log_event (Sub_Node_Changed sid h False) p1;
          p3 = (case deleted of None \<Rightarrow> p2 | Some e' \<Rightarrow> log_event (Node_Removed h e') p2)
      in notify_all_platforms_dirty cfg subs h p3)"

definition get_entry :: "node_pool \<Rightarrow> hash \<Rightarrow> node_entry option" where
  "get_entry p h = m_load (pool_nodes p) h"

definition pool_size :: "node_pool \<Rightarrow> nat" where
  "pool_size p = length (pool_nodes p)"

definition load_node_from_bootstrap :: "node_entry \<Rightarrow> node_pool \<Rightarrow> node_pool" where
  "load_node_from_bootstrap e p = p\<lparr>pool_nodes := m_store (node_hash e) e (pool_nodes p)\<rparr>"

section \<open>The platform registry\<close>

datatype registry_error = Platform_Not_Registered | Platform_Name_Conflict

definition register_platform :: "plat_ref \<Rightarrow> node_pool \<Rightarrow> node_pool" where
  "register_platform r p =
     (let plat = deref p r in
      if m_load (by_id p) (plat_id plat) \<noteq> None then p
      else let p1 = p\<lparr>by_id := m_store (plat_id plat) r (by_id p)\<rparr>
           in if plat_name plat \<noteq> [] then p1\<lparr>by_name := m_store (plat_name plat) r (by_name p1)\<rparr>
              else p1)"

definition unregister_platform :: "string \<Rightarrow> node_pool \<Rightarrow> node_pool" where
  "unregister_platform pid p =
     (case m_load (by_id p) pid of
        None \<Rightarrow> p
      | Some r \<Rightarrow>
          let p1 = p\<lparr>by_id := m_delete pid (by_id p)\<rparr>; name = plat_name (deref p r)
          in if name \<noteq> [] then
               (case m_load (by_name p1) name of
                  Some current \<Rightarrow>
                    if current = r then p1\<lparr>by_name := m_delete name (by_name p1)\<rparr> else p1
                | None \<Rightarrow> p1)
             else p1)"

definition replace_platform ::
  "pool_config \<Rightarrow> sub_store \<Rightarrow> plat_ref \<Rightarrow> node_pool \<Rightarrow> node_pool \<times> registry_error option" where
  "replace_platform cfg subs r p =
     (let next_id = plat_id (deref p r); next_name = plat_name (deref p r) in
      if next_id = [] then (p, Some Platform_Not_Registered)
      else let p = rebuild_platform cfg subs r p in
        case m_load (by_id p) next_id of
          None \<Rightarrow> (p, Some Platform_Not_Registered)
        | Some current \<Rightarrow>
            if next_name \<noteq> [] \<and> m_load (by_name p) next_name \<notin> {None, Some current}
            then (p, Some Platform_Name_Conflict)
            else let cur_name = plat_name (deref p current);
                     p1 = p\<lparr>by_id := m_store next_id r (by_id p)\<rparr>;
                     p2 = (if cur_name \<noteq> [] \<and> m_load (by_name p1) cur_name = Some current
                           then p1\<lparr>by_name := m_delete cur_name (by_name p1)\<rparr> else p1);
                     p3 = (if next_name \<noteq> [] then p2\<lparr>by_name := m_store next_name r (by_name p2)\<rparr>
                           else p2)
                 in (p3, None))"

definition get_platform :: "node_pool \<Rightarrow> string \<Rightarrow> platform option" where
  "get_platform p pid = map_option (deref p) (m_load (by_id p) pid)"

definition get_platform_by_name :: "node_pool \<Rightarrow> string \<Rightarrow> platform option" where
  "get_platform_by_name p name = map_option (deref p) (m_load (by_name p) name)"

definition range_platforms :: "node_pool \<Rightarrow> platform list" where
  "range_platforms p = map (\<lambda>ir. deref p (snd ir)) (by_id p)"

section \<open>Display tags and enablement\<close>

text \<open>The best holder so far: creation time, subscription id, its name and its smallest tag.\<close>

type_synonym tag_choice = "(int \<times> string \<times> string \<times> string) option"

definition smallest_tag :: "string list \<Rightarrow> string" where
  "smallest_tag ts = foldl (\<lambda>best t. if str_less t best then t else best) (hd ts) (tl ts)"

fun pick_holder ::
  "sub_store \<Rightarrow> hash \<Rightarrow> bool \<Rightarrow> string list \<Rightarrow> tag_choice \<Rightarrow> tag_choice" where
  "pick_holder subs h enabled_only [] best = best"
| "pick_holder subs h enabled_only (sid # sids) best =
     (case m_load subs sid of
        None \<Rightarrow> pick_holder subs h enabled_only sids best
      | Some sub \<Rightarrow>
          if enabled_only \<and> \<not> sub_enabled sub then pick_holder subs h enabled_only sids best
          else case load_node (managed sub) h of
            None \<Rightarrow> pick_holder subs h enabled_only sids best
          | Some m \<Rightarrow>
              if evicted m \<or> tags m = [] then pick_holder subs h enabled_only sids best
              else let better = (case best of
                         None \<Rightarrow> True
                       | Some (created, bid, _, _) \<Rightarrow>
                           sub_created_at_ns sub < created
                           \<or> sub_created_at_ns sub = created \<and> str_less sid bid)
                   in pick_holder subs h enabled_only sids
                        (if better
                         then Some (sub_created_at_ns sub, sid, sub_name sub, smallest_tag (tags m))
                         else best))"

definition pick_tag :: "sub_store \<Rightarrow> hash \<Rightarrow> string list \<Rightarrow> bool \<Rightarrow> string option" where
  "pick_tag subs h sids enabled_only =
     (case pick_holder subs h enabled_only sids None of
        None \<Rightarrow> None
      | Some (_, _, name, tag) \<Rightarrow> if name = [] \<or> tag = [] then None else Some (name @ ''/'' @ tag))"

definition resolve_node_display_tag ::
  "pool_config \<Rightarrow> sub_store \<Rightarrow> node_pool \<Rightarrow> hash \<Rightarrow> string" where
  "resolve_node_display_tag cfg subs p h =
     (if \<not> has_sub_lookup cfg then []
      else case get_entry p h of
        None \<Rightarrow> []
      | Some e \<Rightarrow>
          if subscription_ids e = [] then []
          else case pick_tag subs h (subscription_ids e) True of
            Some t \<Rightarrow> t
          | None \<Rightarrow> (case pick_tag subs h (subscription_ids e) False of Some t \<Rightarrow> t | None \<Rightarrow> []))"

definition is_node_disabled :: "pool_config \<Rightarrow> sub_store \<Rightarrow> node_pool \<Rightarrow> hash \<Rightarrow> bool" where
  "is_node_disabled cfg subs p h =
     (case get_entry p h of
        None \<Rightarrow> True
      | Some e \<Rightarrow> is_disabled_by_subscriptions e (Some (make_sub_lookup cfg subs)))"

definition healthy_and_enabled :: "pool_config \<Rightarrow> sub_store \<Rightarrow> node_entry option \<Rightarrow> bool" where
  "healthy_and_enabled cfg subs e =
     (case e of
        None \<Rightarrow> False
      | Some e \<Rightarrow> \<not> is_disabled_by_subscriptions e (Some (make_sub_lookup cfg subs)) \<and> is_healthy e)"

section \<open>Health\<close>

definition store_entry :: "hash \<Rightarrow> node_entry \<Rightarrow> node_pool \<Rightarrow> node_pool" where
  "store_entry h e p = p\<lparr>pool_nodes := m_store h e (pool_nodes p)\<rparr>"

definition notify_node_dirty :: "pool_config \<Rightarrow> sub_store \<Rightarrow> hash \<Rightarrow> node_pool \<Rightarrow> node_pool" where
  "notify_node_dirty cfg subs h p = notify_all_platforms_dirty cfg subs h p"

definition record_result ::
  "pool_config \<Rightarrow> sub_store \<Rightarrow> hash \<Rightarrow> bool \<Rightarrow> node_pool \<times> env \<Rightarrow> node_pool \<times> env" where
  "record_result cfg subs h success s =
     (let (p, ev) = s in
      case m_load (pool_nodes p) h of
        None \<Rightarrow> (p, ev)
      | Some e \<Rightarrow>
          let (e', dynamic_changed, circuit_changed, ev') =
            (if success
             then (e\<lparr>failure_count := 0, circuit_open_since := 0\<rparr>,
                   failure_count e \<noteq> 0 \<or> circuit_open_since e \<noteq> 0,
                   circuit_open_since e \<noteq> 0, ev)
             else let new_count = i32 (failure_count e + 1);
                      e1 = e\<lparr>failure_count := new_count\<rparr>;
                      limit = max_consecutive_failures cfg
                  in if limit > 0 \<and> new_count \<ge> limit
                     then let (now, ev1) = time_now ev in
                       if circuit_open_since e1 = 0
                       then (e1\<lparr>circuit_open_since := now\<rparr>, True, True, ev1)
                       else (e1, True, False, ev1)
                     else (e1, True, False, ev));
              p1 = store_entry h e' p;
              p2 = (if circuit_changed then notify_all_platforms_dirty cfg subs h p1 else p1);
              p3 = (if dynamic_changed then log_event (Node_Dynamic_Changed h) p2 else p2)
          in (p3, ev'))"

definition passive_disabled_for :: "node_pool \<Rightarrow> string \<Rightarrow> bool" where
  "passive_disabled_for p pid =
     (if pid = [] then False
      else case get_platform p pid of
        None \<Rightarrow> False
      | Some plat \<Rightarrow> passive_circuit_breaker_disabled plat)"

definition record_passive_result ::
  "pool_config \<Rightarrow> sub_store \<Rightarrow> string \<Rightarrow> hash \<Rightarrow> bool \<Rightarrow> node_pool \<times> env \<Rightarrow> node_pool \<times> env" where
  "record_passive_result cfg subs pid h success s =
     (if success \<or> \<not> passive_disabled_for (fst s) pid then record_result cfg subs h success s else s)"

section \<open>Latency and egress records\<close>

definition is_authority_domain :: "external \<Rightarrow> pool_config \<Rightarrow> string \<Rightarrow> bool" where
  "is_authority_domain X cfg domain =
     (if domain = [] then False
      else case authorities_cfg cfg of
        None \<Rightarrow> False
      | Some auths \<Rightarrow> list_ex (\<lambda>a. equal_fold (uni_fold X) (trim_space a) domain) auths)"

definition effective_decay_window :: "pool_config \<Rightarrow> int" where
  "effective_decay_window cfg =
     (let w = (case decay_window_cfg cfg of None \<Rightarrow> 0 | Some w \<Rightarrow> w)
      in if w \<le> 0 then 30000000000 else w)"

text \<open>The second half of \<open>RecordLatency\<close>: a sample goes into the table, platforms hear of a first one.\<close>

definition write_latency_sample ::
  "external \<Rightarrow> pool_config \<Rightarrow> sub_store \<Rightarrow> hash \<Rightarrow> string \<Rightarrow> bool \<Rightarrow> int \<Rightarrow> node_entry \<Rightarrow> latency_table
     \<Rightarrow> node_pool \<times> env \<Rightarrow> node_pool \<times> env" where
  "write_latency_sample X cfg subs h domain is_auth l e t s =
     (let (p, ev) = s;
          (now, ev') = time_now ev;
          (t', was_empty, dropped) =
            update_classified X domain l (effective_decay_window cfg) is_auth now t;
          p1 = store_entry h (e\<lparr>latency_tab := Some t'\<rparr>) p;
          p2 = (if was_empty then notify_all_platforms_dirty cfg subs h p1 else p1);
          p3 = log_event (Node_Latency_Changed h domain) p2
      in (case dropped of
            None \<Rightarrow> p3
          | Some d \<Rightarrow> log_event (Node_Latency_Changed h d) p3, ev'))"

definition record_latency ::
  "external \<Rightarrow> pool_config \<Rightarrow> sub_store \<Rightarrow> hash \<Rightarrow> string \<Rightarrow> int option \<Rightarrow> node_pool \<times> env
     \<Rightarrow> node_pool \<times> env" where
  "record_latency X cfg subs h raw_target latency s =
     (let (p, ev) = s in
      case m_load (pool_nodes p) h of
        None \<Rightarrow> (p, ev)
      | Some e \<Rightarrow>
          let domain = extract_domain X raw_target;
              is_auth = is_authority_domain X cfg domain;
              (now, ev1) = time_now ev;
              e1 = e\<lparr>last_latency_probe_attempt := now\<rparr>;
              e2 = (if is_auth then e1\<lparr>last_authority_latency_probe_attempt := now\<rparr> else e1);
              p1 = log_event (Node_Dynamic_Changed h) (store_entry h e2 p)
          in case (latency, latency_tab e2) of
               (Some l, Some t) \<Rightarrow>
                 if l \<le> 0 then (p1, ev1)
                 else write_latency_sample X cfg subs h domain is_auth l e2 t (p1, ev1)
             | _ \<Rightarrow> (p1, ev1))"

text \<open>
  The entry after an egress probe, and whether address and region changed. An explicit location
  sets the region; a new address without one clears it; otherwise it stays.
\<close>

definition egress_probe ::
  "external \<Rightarrow> int \<Rightarrow> addr option \<Rightarrow> string option \<Rightarrow> node_entry \<Rightarrow> node_entry \<times> bool \<times> bool" where
  "egress_probe X now ip loc e =
     (let e0 = e\<lparr>last_egress_update_attempt := now\<rparr>;
          old_ip = get_egress_ip e0;
          old_region = get_egress_region e0;
          (e1, ip_changed) = (case ip of
              None \<Rightarrow> (e0, False)
            | Some a \<Rightarrow>
                let e' = e0\<lparr>last_egress_update := now\<rparr>
                in if old_ip \<noteq> a then (set_egress_ip a e', True) else (e', False));
          (e2, region_changed) = (case loc of
              Some l \<Rightarrow> let e' = set_egress_region X l e1
                        in (e', old_region \<noteq> get_egress_region e')
            | None \<Rightarrow>
                if ip = None then (e1, False)
                else if \<not> ip_changed then (e1, False)
                else if old_region \<noteq> [] then (set_egress_region X [] e1, True)
                else (e1, False))
      in (e2, ip_changed, region_changed))"

definition update_node_egress_ip ::
  "external \<Rightarrow> pool_config \<Rightarrow> sub_store \<Rightarrow> hash \<Rightarrow> addr option \<Rightarrow> string option \<Rightarrow> node_pool \<times> env
     \<Rightarrow> node_pool \<times> env" where
  "update_node_egress_ip X cfg subs h ip loc s =
     (let (p, ev) = s in
      case m_load (pool_nodes p) h of
        None \<Rightarrow> (p, ev)
      | Some e \<Rightarrow>
          let (now, ev1) = time_now ev;
              (e', ip_changed, region_changed) = egress_probe X now ip loc e;
              p1 = store_entry h e' p;
              p2 = (if ip_changed \<or> region_changed then notify_all_platforms_dirty cfg subs h p1
                    else p1)
          in (log_event (Node_Dynamic_Changed h) p2, ev1))"

section \<open>Invariants\<close>

definition registry_ok :: "node_pool \<Rightarrow> bool" where
  "registry_ok p \<longleftrightarrow> m_ok (by_id p) \<and> m_ok (by_name p)
     \<and> (\<forall>i r. m_load (by_id p) i = Some r \<longrightarrow> r < length (plat_heap p) \<and> plat_id (deref p r) = i)
     \<and> (\<forall>n r. m_load (by_name p) n = Some r \<longrightarrow>
           n \<noteq> [] \<and> plat_name (deref p r) = n \<and> m_load (by_id p) (plat_id (deref p r)) = Some r)"

definition entry_ok :: "hash \<Rightarrow> node_entry \<Rightarrow> bool" where
  "entry_ok h e \<longleftrightarrow> node_hash e = h \<and> distinct (subscription_ids e) \<and> raw_options e \<noteq> []
     \<and> (\<forall>t. latency_tab e = Some t \<longrightarrow> table_ok t \<and> regular t \<noteq> [])"

definition entries_ok :: "node_table \<Rightarrow> bool" where
  "entries_ok ns \<longleftrightarrow> m_ok ns \<and> (\<forall>h e. m_load ns h = Some e \<longrightarrow> entry_ok h e)"

definition registered :: "node_pool \<Rightarrow> plat_ref \<Rightarrow> bool" where
  "registered p r \<longleftrightarrow> (\<exists>i. m_load (by_id p) i = Some r)"

text \<open>
  Coherence of all views, and coherence but for a set of nodes: while an operation works through
  the nodes it changed, those it has not yet re-evaluated may disagree.
\<close>

definition views_ok_but :: "pool_config \<Rightarrow> sub_store \<Rightarrow> hash set \<Rightarrow> node_pool \<Rightarrow> bool" where
  "views_ok_but cfg subs H p \<longleftrightarrow> (\<forall>r. registered p r \<longrightarrow> view_ok (view (deref p r))
     \<and> (\<forall>h. h \<notin> H \<longrightarrow> (view_contains (view (deref p r)) h \<longleftrightarrow>
          routable (pool_nodes p) (Some (make_sub_lookup cfg subs)) (geo_lookup cfg) (deref p r) h)))"

definition views_ok :: "pool_config \<Rightarrow> sub_store \<Rightarrow> node_pool \<Rightarrow> bool" where
  "views_ok cfg subs p \<longleftrightarrow> (\<forall>r. registered p r \<longrightarrow>
     view_coherent (pool_nodes p) (Some (make_sub_lookup cfg subs)) (geo_lookup cfg) (deref p r))"

definition heap_ok :: "node_pool \<Rightarrow> bool" where
  "heap_ok p \<longleftrightarrow> (\<forall>r < length (plat_heap p). view_ok (view (deref p r)))"

definition pool_ok :: "pool_config \<Rightarrow> sub_store \<Rightarrow> node_pool \<Rightarrow> bool" where
  "pool_ok cfg subs p \<longleftrightarrow> registry_ok p \<and> entries_ok (pool_nodes p) \<and> views_ok cfg subs p"

definition pool_ok_but :: "pool_config \<Rightarrow> sub_store \<Rightarrow> hash set \<Rightarrow> node_pool \<Rightarrow> bool" where
  "pool_ok_but cfg subs H p \<longleftrightarrow> registry_ok p \<and> entries_ok (pool_nodes p) \<and> views_ok_but cfg subs H p"

lemma views_ok_empty: "views_ok cfg subs p = views_ok_but cfg subs {} p"
  by (simp add: views_ok_def views_ok_but_def view_coherent_def)

lemma pool_ok_empty: "pool_ok cfg subs p = pool_ok_but cfg subs {} p"
  by (simp add: pool_ok_def pool_ok_but_def views_ok_empty)

lemma log_event_simps [simp]:
  "pool_nodes (log_event x p) = pool_nodes p" "plat_heap (log_event x p) = plat_heap p"
  "by_id (log_event x p) = by_id p" "by_name (log_event x p) = by_name p"
  "deref (log_event x p) = deref p" "registry_ok (log_event x p) = registry_ok p"
  "registered (log_event x p) = registered p" "views_ok cfg subs (log_event x p) = views_ok cfg subs p"
  "pool_ok cfg subs (log_event x p) = pool_ok cfg subs p"
  by (simp_all add: log_event_def deref_def [abs_def] registry_ok_def views_ok_def
      registered_def [abs_def] pool_ok_def)

lemma nodes_update_simps [simp]:
  "deref (p\<lparr>pool_nodes := ns\<rparr>) = deref p"
  "registry_ok (p\<lparr>pool_nodes := ns\<rparr>) = registry_ok p"
  "registered (p\<lparr>pool_nodes := ns\<rparr>) = registered p"
  by (simp_all add: deref_def [abs_def] registry_ok_def registered_def [abs_def])

lemma registered_lt: "registry_ok p \<Longrightarrow> registered p r \<Longrightarrow> r < length (plat_heap p)"
  by (auto simp: registry_ok_def registered_def)

lemma registered_once:
  assumes "registry_ok p"
  shows "distinct (map snd (by_id p))" "set (map snd (by_id p)) = {r. registered p r}"
proof -
  have ok: "m_ok (by_id p)" and ids: "\<And>i r. (i, r) \<in> set (by_id p) \<Longrightarrow> plat_id (deref p r) = i"
    using assms by (auto simp: registry_ok_def m_ok_mem)
  have "inj_on snd (set (by_id p))"
    by (rule inj_on_inverseI [of _ "\<lambda>r. (plat_id (deref p r), r)"]) (auto dest: ids)
  then show "distinct (map snd (by_id p))"
    using ok by (auto simp: m_ok_def distinct_map)
  show "set (map snd (by_id p)) = {r. registered p r}"
    by (force simp: registered_def m_ok_mem [OF ok, symmetric])
qed

lemma registry_id:
  assumes "registry_ok p" "m_load (by_id p) i = Some r"
  shows "r < length (plat_heap p)" "plat_id (deref p r) = i" "registered p r"
  using assms by (auto simp: registry_ok_def registered_def)

lemma registry_name:
  assumes "registry_ok p" "m_load (by_name p) n = Some r"
  shows "n \<noteq> []" "plat_name (deref p r) = n" "m_load (by_id p) (plat_id (deref p r)) = Some r"
    "r < length (plat_heap p)"
  using assms unfolding registry_ok_def by metis+

text \<open>A pass over the platforms updates each registered object once and no other.\<close>

lemma fold_heap_update:
  "distinct (map snd irs) \<Longrightarrow>
   length (fold (\<lambda>ir hp. hp[snd ir := f (hp ! snd ir)]) irs hp) = length hp
   \<and> (r < length hp \<longrightarrow> fold (\<lambda>ir hp. hp[snd ir := f (hp ! snd ir)]) irs hp ! r
        = (if r \<in> set (map snd irs) then f (hp ! r) else hp ! r))"
proof (induction irs arbitrary: hp)
  case (Cons ir irs)
  show ?case
  proof (cases "r = snd ir")
    case True
    with Cons.IH [of "hp[snd ir := f (hp ! snd ir)]"] Cons.prems show ?thesis by simp
  next
    case False
    with Cons.IH [of "hp[snd ir := f (hp ! snd ir)]"] Cons.prems show ?thesis by simp
  qed
qed simp

lemma update_platforms_deref:
  assumes "registry_ok p" "r < length (plat_heap p)"
  shows "deref (update_platforms f p) r = (if registered p r then f (deref p r) else deref p r)"
  using fold_heap_update [OF registered_once(1) [OF assms(1)], of f "plat_heap p" r] assms(2)
    registered_once(2) [OF assms(1)]
  by (simp add: update_platforms_def deref_def)

lemma update_platforms_simps [simp]:
  "pool_nodes (update_platforms f p) = pool_nodes p" "by_id (update_platforms f p) = by_id p"
  "by_name (update_platforms f p) = by_name p" "registered (update_platforms f p) = registered p"
  "pool_log (update_platforms f p) = pool_log p"
  by (simp_all add: update_platforms_def registered_def [abs_def])

lemma update_platforms_length:
  "registry_ok p \<Longrightarrow> length (plat_heap (update_platforms f p)) = length (plat_heap p)"
  using fold_heap_update [OF registered_once(1), THEN conjunct1] by (simp add: update_platforms_def)

lemma update_platforms_registry:
  assumes "registry_ok p" and f: "\<And>q. \<exists>v. f q = q\<lparr>view := v\<rparr>"
  shows "registry_ok (update_platforms f p)"
proof -
  have same: "plat_id (deref (update_platforms f p) r) = plat_id (deref p r)
      \<and> plat_name (deref (update_platforms f p) r) = plat_name (deref p r)"
    if "registered p r" for r
    using update_platforms_deref [OF assms(1) registered_lt [OF assms(1) that], of f] f [of "deref p r"]
      that by auto
  with assms(1) show ?thesis
    unfolding registry_ok_def update_platforms_simps update_platforms_length [OF assms(1)]
    by (metis registered_def)
qed

section \<open>Notification restores coherence\<close>

lemma registered_upd [simp]: "registered (p\<lparr>plat_heap := hp\<rparr>) = registered p"
  by (simp add: registered_def [abs_def])

lemma notify_dirty_view: "\<exists>v. notify_dirty h ns lk geo q = q\<lparr>view := v\<rparr>"
  by (rule notify_dirty_only_view)

lemma notify_all_simps [simp]:
  "pool_nodes (notify_all_platforms_dirty cfg subs h p) = pool_nodes p"
  "by_id (notify_all_platforms_dirty cfg subs h p) = by_id p"
  "by_name (notify_all_platforms_dirty cfg subs h p) = by_name p"
  "registered (notify_all_platforms_dirty cfg subs h p) = registered p"
  "pool_log (notify_all_platforms_dirty cfg subs h p) = pool_log p"
  by (simp_all add: notify_all_platforms_dirty_def)

lemma notify_all_registry:
  "registry_ok p \<Longrightarrow> registry_ok (notify_all_platforms_dirty cfg subs h p)"
  using update_platforms_registry [OF _ notify_dirty_view]
  by (simp add: notify_all_platforms_dirty_def)

lemma notify_all_deref:
  assumes "registry_ok p" "registered p r"
  shows "deref (notify_all_platforms_dirty cfg subs h p) r
       = notify_dirty h (pool_nodes p) (Some (make_sub_lookup cfg subs)) (geo_lookup cfg) (deref p r)"
proof -
  have "by_id p \<noteq> []" using assms(2) by (auto simp: registered_def)
  with update_platforms_deref [OF assms(1) registered_lt [OF assms]] assms(2) show ?thesis
    by (simp add: notify_all_platforms_dirty_def)
qed

text \<open>Re-evaluating one node takes it off the set of nodes that may disagree.\<close>

lemma notify_all_but:
  assumes "registry_ok p" "views_ok_but cfg subs H p0" "registered p = registered p0" "deref p = deref p0"
    and "\<And>g q. g \<noteq> h \<Longrightarrow> g \<notin> H \<Longrightarrow>
      routable (pool_nodes p) (Some (make_sub_lookup cfg subs')) (geo_lookup cfg) q g
      = routable (pool_nodes p0) (Some (make_sub_lookup cfg subs)) (geo_lookup cfg) q g"
  shows "views_ok_but cfg subs' (H - {h}) (notify_all_platforms_dirty cfg subs' h p)"
  unfolding views_ok_but_def
proof (intro allI impI)
  fix r assume "registered (notify_all_platforms_dirty cfg subs' h p) r"
  then have r: "registered p r" by simp
  let ?lk = "Some (make_sub_lookup cfg subs')" and ?geo = "geo_lookup cfg"
  have d: "deref (notify_all_platforms_dirty cfg subs' h p) r
      = notify_dirty h (pool_nodes p) ?lk ?geo (deref p r)"
    by (rule notify_all_deref [OF assms(1) r])
  obtain v where v: "notify_dirty h (pool_nodes p) ?lk ?geo (deref p r) = (deref p r)\<lparr>view := v\<rparr>"
    using notify_dirty_only_view by blast
  from r assms(2-4) have ok: "view_ok (view (deref p r))"
    and c: "\<And>g. g \<notin> H \<Longrightarrow> view_contains (view (deref p r)) g \<longleftrightarrow>
      routable (pool_nodes p0) (Some (make_sub_lookup cfg subs)) ?geo (deref p r) g"
    by (auto simp: views_ok_but_def)
  from notify_dirty_contains [OF ok, of h "pool_nodes p" ?lk ?geo] v
  have nd: "view_ok v" "\<And>g. view_contains v g \<longleftrightarrow>
      (if g = h then routable (pool_nodes p) ?lk ?geo (deref p r) h
       else view_contains (view (deref p r)) g)" by simp_all
  have "view_contains v g \<longleftrightarrow> routable (pool_nodes p) ?lk ?geo (deref p r) g" if "g \<notin> H - {h}" for g
    using that nd(2) [of g] c [of g] assms(5) [of g "deref p r"] by auto
  with nd(1) show "view_ok (view (deref (notify_all_platforms_dirty cfg subs' h p) r))
      \<and> (\<forall>g. g \<notin> H - {h} \<longrightarrow>
          (view_contains (view (deref (notify_all_platforms_dirty cfg subs' h p) r)) g \<longleftrightarrow>
           routable (pool_nodes (notify_all_platforms_dirty cfg subs' h p)) ?lk ?geo
             (deref (notify_all_platforms_dirty cfg subs' h p) r) g))"
    by (simp add: d v)
qed

text \<open>A step that changes the entry of one node and then notifies.\<close>

lemma notify_after_change_but:
  assumes "pool_ok_but cfg subs H p" "entries_ok ns"
    and "\<And>g. g \<noteq> h \<Longrightarrow> m_load ns g = m_load (pool_nodes p) g"
    and q: "pool_nodes q = ns" "registry_ok q" "registered q = registered p" "deref q = deref p"
  shows "pool_ok_but cfg subs (H - {h}) (notify_all_platforms_dirty cfg subs h q)"
  unfolding pool_ok_but_def
proof (intro conjI)
  show "registry_ok (notify_all_platforms_dirty cfg subs h q)" by (rule notify_all_registry [OF q(2)])
  show "entries_ok (pool_nodes (notify_all_platforms_dirty cfg subs h q))" using assms(2) q(1) by simp
  show "views_ok_but cfg subs (H - {h}) (notify_all_platforms_dirty cfg subs h q)"
    by (rule notify_all_but [OF q(2) _ q(3,4)])
      (use assms(1,3) q(1) in \<open>auto simp: pool_ok_but_def routable_def\<close>)
qed

lemma notify_after_change:
  assumes "pool_ok cfg subs p" "entries_ok ns" "\<And>g. g \<noteq> h \<Longrightarrow> m_load ns g = m_load (pool_nodes p) g"
    and q: "pool_nodes q = ns" "registry_ok q" "registered q = registered p" "deref q = deref p"
  shows "pool_ok cfg subs (notify_all_platforms_dirty cfg subs h q)"
  using notify_after_change_but [OF assms(1) [unfolded pool_ok_empty] assms(2-7)]
  by (simp add: pool_ok_empty)

text \<open>A step that changes the entry of a node in no fact that routing depends on.\<close>

lemma quiet_change:
  assumes "pool_ok cfg subs p" "m_load (pool_nodes p) h = Some e"
    and "routing_facts e' = routing_facts e" "entry_ok h e'"
  shows "pool_ok cfg subs (store_entry h e' p)"
proof -
  let ?ns = "m_store h e' (pool_nodes p)"
  have "routable ?ns lk geo q g = routable (pool_nodes p) lk geo q g" for lk geo q g
    by (rule routable_cong)
      (use assms(2,3) in \<open>auto simp: store_simps option.rel_refl\<close>)
  moreover have "entries_ok ?ns"
    using assms(1,4) by (auto simp: pool_ok_def entries_ok_def store_simps)
  ultimately show ?thesis
    using assms(1)
    by (auto simp: pool_ok_def store_entry_def views_ok_def intro: view_coherent_same)
qed

lemma store_entry_simps [simp]:
  "pool_nodes (store_entry h e p) = m_store h e (pool_nodes p)"
  "deref (store_entry h e p) = deref p" "registry_ok (store_entry h e p) = registry_ok p"
  "registered (store_entry h e p) = registered p"
  by (simp_all add: store_entry_def)

lemma entries_store:
  "entries_ok ns \<Longrightarrow> entry_ok h e \<Longrightarrow> entries_ok (m_store h e ns)"
  by (auto simp: entries_ok_def store_simps)

lemma entries_delete: "entries_ok ns \<Longrightarrow> entries_ok (m_delete h ns)"
  by (auto simp: entries_ok_def store_simps)

lemma pool_ok_entry:
  "pool_ok cfg subs p \<Longrightarrow> m_load (pool_nodes p) h = Some e \<Longrightarrow> entry_ok h e"
  by (simp add: pool_ok_def entries_ok_def)

lemma notify_after_store:
  assumes "pool_ok cfg subs p" "entry_ok h e"
  shows "pool_ok cfg subs (notify_all_platforms_dirty cfg subs h (store_entry h e p))"
  by (rule notify_after_change [OF assms(1), of "m_store h e (pool_nodes p)"])
    (use assms in \<open>auto simp: pool_ok_def store_simps entries_store\<close>)

section \<open>Every operation keeps the invariant\<close>

lemma entry_ok_upd [simp]:
  "entry_ok h (e\<lparr>failure_count := a\<rparr>) = entry_ok h e"
  "entry_ok h (e\<lparr>circuit_open_since := b\<rparr>) = entry_ok h e"
  "entry_ok h (e\<lparr>last_latency_probe_attempt := c\<rparr>) = entry_ok h e"
  "entry_ok h (e\<lparr>last_authority_latency_probe_attempt := d\<rparr>) = entry_ok h e"
  "entry_ok h (e\<lparr>last_egress_update_attempt := f\<rparr>) = entry_ok h e"
  "entry_ok h (e\<lparr>last_egress_update := g\<rparr>) = entry_ok h e"
  "entry_ok h (e\<lparr>egress_ip := i\<rparr>) = entry_ok h e"
  "entry_ok h (e\<lparr>egress_region := j\<rparr>) = entry_ok h e"
  "entry_ok h (e\<lparr>has_outbound := k\<rparr>) = entry_ok h e"
  by (simp_all add: entry_ok_def)

lemma new_entry_ok: "raw \<noteq> [] \<Longrightarrow> entry_ok h (new_node_entry h raw now n)"
  using new_table_inv [of n]
  by (auto simp: entry_ok_def new_node_entry_def latency_inv_def)

lemma load_or_create_ok:
  assumes "entries_ok (pool_nodes p)" "raw \<noteq> []" "load_or_create cfg h raw (p, ev) = (e, n, ev')"
  shows "entry_ok h e"
proof (cases "m_load (pool_nodes p) h")
  case None
  obtain created ev2 where "time_now ev = (created, ev2)" by (rule prod.exhaust)
  with assms(3) None have "e = (new_node_entry h raw created (max_latency_entries cfg))
      \<lparr>circuit_open_since := created\<rparr>" by (simp add: load_or_create_def)
  then show ?thesis by (simp add: new_entry_ok assms(2))
next
  case (Some e0)
  with assms(1,3) show ?thesis by (auto simp: load_or_create_def entries_ok_def)
qed

lemma add_node_from_sub_but:
  assumes "pool_ok_but cfg subs H p" "raw \<noteq> []"
  shows "pool_ok_but cfg subs (H - {h}) (fst (add_node_from_sub cfg subs h raw sid (p, ev)))"
proof -
  obtain e n ev' where e: "load_or_create cfg h raw (p, ev) = (e, n, ev')" by (metis prod.exhaust)
  have en: "entries_ok (pool_nodes p)" using assms(1) by (simp add: pool_ok_but_def)
  have ok: "entry_ok h (add_subscription_id sid e)"
    using load_or_create_ok [OF en assms(2) e] by (simp add: entry_ok_def add_subscription_id_def)
  let ?ns = "m_store h (add_subscription_id sid e) (pool_nodes p)"
  have "pool_ok_but cfg subs (H - {h}) (notify_all_platforms_dirty cfg subs h
      (log_event (Sub_Node_Changed sid h True)
        (if n then log_event (Node_Added h) (p\<lparr>pool_nodes := ?ns\<rparr>) else p\<lparr>pool_nodes := ?ns\<rparr>)))"
    by (rule notify_after_change_but [OF assms(1), of ?ns])
      (use assms ok in \<open>auto simp: pool_ok_but_def entries_store store_simps\<close>)
  with e show ?thesis by (simp add: add_node_from_sub_def Let_def)
qed

lemma remove_node_from_sub_but:
  assumes "pool_ok_but cfg subs H p"
  shows "pool_ok_but cfg subs (H - {h}) (remove_node_from_sub cfg subs h sid p)"
proof (cases "m_load (pool_nodes p) h")
  case None
  have "pool_ok_but cfg subs (H - {h}) (notify_all_platforms_dirty cfg subs h
      (log_event (Sub_Node_Changed sid h False) p))"
    by (rule notify_after_change_but [OF assms, of "pool_nodes p"])
      (use assms in \<open>auto simp: pool_ok_but_def\<close>)
  with None show ?thesis by (simp add: remove_node_from_sub_def)
next
  case (Some e)
  obtain e' empty where r: "remove_subscription_id sid e = (e', empty)" by (rule prod.exhaust)
  have "entry_ok h e'"
    using r assms Some
    by (auto simp: remove_subscription_id_def Let_def pool_ok_but_def entries_ok_def entry_ok_def)
  define ns where "ns = (if empty then m_delete h (pool_nodes p) else m_store h e' (pool_nodes p))"
  define q where "q = log_event (Sub_Node_Changed sid h False) (p\<lparr>pool_nodes := ns\<rparr>)"
  have "pool_ok_but cfg subs (H - {h}) (notify_all_platforms_dirty cfg subs h
      (if empty then log_event (Node_Removed h e') q else q))"
    by (rule notify_after_change_but [OF assms, of ns])
      (use assms \<open>entry_ok h e'\<close> in
        \<open>auto simp: q_def ns_def pool_ok_but_def entries_store entries_delete store_simps\<close>)
  with Some r show ?thesis
    by (cases empty) (auto simp: remove_node_from_sub_def q_def ns_def)
qed

lemma add_node_from_sub_ok:
  "pool_ok cfg subs p \<Longrightarrow> raw \<noteq> [] \<Longrightarrow>
     pool_ok cfg subs (fst (add_node_from_sub cfg subs h raw sid (p, ev)))"
  using add_node_from_sub_but [of cfg subs "{}"] by (simp add: pool_ok_empty)

lemma remove_node_from_sub_ok:
  "pool_ok cfg subs p \<Longrightarrow> pool_ok cfg subs (remove_node_from_sub cfg subs h sid p)"
  using remove_node_from_sub_but [of cfg subs "{}"] by (simp add: pool_ok_empty)

lemma record_result_ok:
  assumes "pool_ok cfg subs p"
  shows "pool_ok cfg subs (fst (record_result cfg subs h success (p, ev)))"
proof (cases "m_load (pool_nodes p) h")
  case None
  with assms show ?thesis by (simp add: record_result_def)
next
  case (Some e)
  note ok = pool_ok_entry [OF assms Some]
  note quiet = quiet_change [OF assms Some]
  have loud: "pool_ok cfg subs (notify_all_platforms_dirty cfg subs h (store_entry h e' p))"
    if "entry_ok h e'" for e' by (rule notify_after_store [OF assms that])
  show ?thesis
  proof (cases success)
    case True
    have "pool_ok cfg subs (store_entry h (e\<lparr>failure_count := 0, circuit_open_since := 0\<rparr>) p)"
      if "circuit_open_since e = 0"
      by (rule quiet) (use that ok in \<open>auto simp: routing_facts_def get_egress_ip_def
        get_egress_region_def has_latency_def\<close>)
    with True Some ok loud show ?thesis by (auto simp: record_result_def Let_def)
  next
    case False
    have "pool_ok cfg subs (store_entry h (e\<lparr>failure_count := n\<rparr>) p)" for n
      by (rule quiet) (use ok in \<open>auto simp: routing_facts_def get_egress_ip_def
        get_egress_region_def has_latency_def\<close>)
    with False Some ok loud show ?thesis
      by (auto simp: record_result_def Let_def split: prod.splits)
  qed
qed

lemma record_passive_result_ok:
  "pool_ok cfg subs p \<Longrightarrow> pool_ok cfg subs (fst (record_passive_result cfg subs pid h success (p, ev)))"
  by (simp add: record_passive_result_def record_result_ok)

lemma write_latency_sample_ok:
  assumes "pool_ok cfg subs p" "m_load (pool_nodes p) h = Some e" "latency_tab e = Some t"
  shows "pool_ok cfg subs (fst (write_latency_sample X cfg subs h d auth l e t (p, ev)))"
proof -
  note ok = pool_ok_entry [OF assms(1,2)]
  obtain now ev' where now: "time_now ev = (now, ev')" by (rule prod.exhaust)
  obtain t' was dropped where u: "update_classified X d l (effective_decay_window cfg) auth now t
      = (t', was, dropped)" by (metis prod_cases3)
  from ok assms(3) have t: "table_ok t" "regular t \<noteq> []" by (auto simp: entry_ok_def)
  note sp = update_classified_spec [OF t u]
  let ?e = "e\<lparr>latency_tab := Some t'\<rparr>"
  have e: "entry_ok h ?e" using ok sp t by (auto simp: entry_ok_def)
  have loud: "pool_ok cfg subs (notify_all_platforms_dirty cfg subs h (store_entry h ?e p))"
    by (rule notify_after_store [OF assms(1) e])
  have quiet: "pool_ok cfg subs (store_entry h ?e p)" if "\<not> was"
  proof (rule quiet_change [OF assms(1,2) _ e])
    from that sp have "0 < total_size t" by simp
    moreover have "0 < total_size t'" by (rule update_classified_pos [OF t u])
    ultimately show "routing_facts ?e = routing_facts e"
      using assms(3) by (simp add: routing_facts_def has_latency_def get_egress_ip_def
          get_egress_region_def)
  qed
  from now u loud quiet show ?thesis
    by (cases was; cases dropped) (auto simp: write_latency_sample_def)
qed

text \<open>The entry after a latency attempt, and the rest of the handler in terms of it.\<close>

definition attempted :: "external \<Rightarrow> pool_config \<Rightarrow> string \<Rightarrow> int \<Rightarrow> node_entry \<Rightarrow> node_entry" where
  "attempted X cfg domain now e = (let e1 = e\<lparr>last_latency_probe_attempt := now\<rparr> in
     if is_authority_domain X cfg domain then e1\<lparr>last_authority_latency_probe_attempt := now\<rparr> else e1)"

lemma attempted_facts:
  "entry_ok h (attempted X cfg d now e) = entry_ok h e"
  "routing_facts (attempted X cfg d now e) = routing_facts e"
  "subscription_ids (attempted X cfg d now e) = subscription_ids e"
  "latency_tab (attempted X cfg d now e) = latency_tab e"
  by (simp_all add: attempted_def Let_def routing_facts_def get_egress_ip_def
      get_egress_region_def has_latency_def)

lemma record_latency_eq:
  fixes X cfg target
  assumes "m_load (pool_nodes p) h = Some e" "time_now ev = (now, ev1)"
  defines "e2 \<equiv> attempted X cfg (extract_domain X target) now e"
  defines "p1 \<equiv> log_event (Node_Dynamic_Changed h) (store_entry h e2 p)"
  shows "record_latency X cfg subs h target lat (p, ev) = (case (lat, latency_tab e) of
      (Some l, Some t) \<Rightarrow> if l \<le> 0 then (p1, ev1)
         else write_latency_sample X cfg subs h (extract_domain X target)
           (is_authority_domain X cfg (extract_domain X target)) l e2 t (p1, ev1)
    | _ \<Rightarrow> (p1, ev1))"
  by (cases "is_authority_domain X cfg (extract_domain X target)"; cases lat; cases "latency_tab e")
    (simp_all add: record_latency_def p1_def e2_def attempted_def assms(1,2) Let_def)

lemma record_latency_ok:
  assumes "pool_ok cfg subs p"
  shows "pool_ok cfg subs (fst (record_latency X cfg subs h target lat (p, ev)))"
proof (cases "m_load (pool_nodes p) h")
  case None
  with assms show ?thesis by (simp add: record_latency_def)
next
  case (Some e)
  obtain now ev1 where now: "time_now ev = (now, ev1)" by (rule prod.exhaust)
  let ?e2 = "attempted X cfg (extract_domain X target) now e"
  let ?p1 = "log_event (Node_Dynamic_Changed h) (store_entry h ?e2 p)"
  have p1: "pool_ok cfg subs ?p1" "m_load (pool_nodes ?p1) h = Some ?e2"
    using quiet_change [OF assms Some attempted_facts(2)] pool_ok_entry [OF assms Some]
    by (simp_all add: store_simps attempted_facts(1))
  with write_latency_sample_ok [OF p1] show ?thesis
    by (cases lat; cases "latency_tab e") (auto simp: record_latency_eq [OF Some now] attempted_facts(4))
qed

lemma set_egress_region_ok [simp]: "entry_ok h (set_egress_region X l e) = entry_ok h e"
  by (simp add: set_egress_region_def Let_def)

lemma set_egress_ip_ok [simp]: "entry_ok h (set_egress_ip a e) = entry_ok h e"
  by (simp add: set_egress_ip_def)

lemma routing_facts_egress:
  "routing_facts e' = routing_facts e \<longleftrightarrow> get_egress_ip e' = get_egress_ip e
     \<and> get_egress_region e' = get_egress_region e"
  if "\<exists>u v w x. e' = e\<lparr>last_egress_update_attempt := u, last_egress_update := v, egress_ip := w,
      egress_region := x\<rparr>"
  using that by (auto simp: routing_facts_def has_latency_def)

lemma egress_probe_shape:
  assumes "egress_probe X now ip loc e = (e', ipc, rc)"
  shows "\<exists>u v w x. e' = e\<lparr>last_egress_update_attempt := u, last_egress_update := v, egress_ip := w,
      egress_region := x\<rparr>"
proof -
  have reg: "\<exists>x. set_egress_region X l q = q\<lparr>egress_region := x\<rparr>" for l q
    by (auto simp: set_egress_region_def Let_def)
  define e1 where "e1 = fst (case ip of None \<Rightarrow> (e\<lparr>last_egress_update_attempt := now\<rparr>, False)
    | Some a \<Rightarrow> let q = e\<lparr>last_egress_update_attempt := now, last_egress_update := now\<rparr>
        in if get_egress_ip e \<noteq> a then (set_egress_ip a q, True) else (q, False))"
  have e1: "\<exists>u v w. e1 = e\<lparr>last_egress_update_attempt := u, last_egress_update := v, egress_ip := w\<rparr>"
  proof (cases ip)
    case None
    then show ?thesis
      by (intro exI [of _ now] exI [of _ "last_egress_update e"] exI [of _ "egress_ip e"])
        (simp add: e1_def)
  next
    case (Some a)
    then show ?thesis
      by (intro exI [of _ now] exI [of _ now]
          exI [of _ "if get_egress_ip e \<noteq> a then Some a else egress_ip e"])
        (simp add: e1_def Let_def set_egress_ip_def)
  qed
  have "e' = e1 \<or> (\<exists>l. e' = set_egress_region X l e1)"
    using assms
    by (cases ip; cases loc)
      (auto simp: egress_probe_def e1_def Let_def get_egress_ip_def split: if_splits)
  with e1 reg show ?thesis
  proof (elim disjE exE)
    fix u v w l
    assume "e1 = e\<lparr>last_egress_update_attempt := u, last_egress_update := v, egress_ip := w\<rparr>" "e' = e1"
    then show ?thesis
      by (intro exI [of _ u] exI [of _ v] exI [of _ w] exI [of _ "egress_region e"]) simp
  next
    fix u v w l
    assume a: "e1 = e\<lparr>last_egress_update_attempt := u, last_egress_update := v, egress_ip := w\<rparr>"
      "e' = set_egress_region X l e1"
    from reg [of l e1] obtain x where "e' = e1\<lparr>egress_region := x\<rparr>" using a(2) by auto
    with a(1) show ?thesis
      by (intro exI [of _ u] exI [of _ v] exI [of _ w] exI [of _ x]) simp
  qed
qed

lemma egress_simps [simp]:
  "get_egress_ip (e\<lparr>last_egress_update_attempt := t\<rparr>) = get_egress_ip e"
  "get_egress_ip (e\<lparr>last_egress_update := t\<rparr>) = get_egress_ip e"
  "get_egress_ip (set_egress_ip a e) = a"
  "get_egress_ip (set_egress_region X l e) = get_egress_ip e"
  "get_egress_region (e\<lparr>last_egress_update_attempt := t\<rparr>) = get_egress_region e"
  "get_egress_region (e\<lparr>last_egress_update := t\<rparr>) = get_egress_region e"
  "get_egress_region (set_egress_ip a e) = get_egress_region e"
  "get_egress_region (set_egress_region X [] e) = []"
  by (simp_all add: get_egress_ip_def get_egress_region_def set_egress_ip_def set_egress_region_def
      to_lower_def ascii_def Let_def)

lemma egress_probe_changes:
  assumes "egress_probe X now ip loc e = (e', ipc, rc)"
  shows "ipc = (get_egress_ip e' \<noteq> get_egress_ip e)"
    and "rc = (get_egress_region e' \<noteq> get_egress_region e)"
proof -
  have "ipc = (get_egress_ip e' \<noteq> get_egress_ip e) \<and> rc = (get_egress_region e' \<noteq> get_egress_region e)"
  proof (cases ip)
    case None
    with assms show ?thesis by (cases loc) (auto simp: egress_probe_def Let_def)
  next
    case (Some a)
    with assms show ?thesis
      by (cases loc; cases "get_egress_ip e = a"; cases "get_egress_region e = []")
        (auto simp: egress_probe_def Let_def)
  qed
  then show "ipc = (get_egress_ip e' \<noteq> get_egress_ip e)"
    "rc = (get_egress_region e' \<noteq> get_egress_region e)" by blast+
qed

lemma egress_probe_spec:
  assumes "egress_probe X now ip loc e = (e', ipc, rc)"
  shows "entry_ok h e' = entry_ok h e"
    and "\<not> ipc \<Longrightarrow> \<not> rc \<Longrightarrow> routing_facts e' = routing_facts e"
proof -
  note shape = egress_probe_shape [OF assms]
  from shape show "entry_ok h e' = entry_ok h e" by (auto simp: entry_ok_def)
  show "\<not> ipc \<Longrightarrow> \<not> rc \<Longrightarrow> routing_facts e' = routing_facts e"
    using egress_probe_changes [OF assms] routing_facts_egress [OF shape] by simp
qed

lemma update_node_egress_ip_ok:
  assumes "pool_ok cfg subs p"
  shows "pool_ok cfg subs (fst (update_node_egress_ip X cfg subs h ip loc (p, ev)))"
proof (cases "m_load (pool_nodes p) h")
  case None
  with assms show ?thesis by (simp add: update_node_egress_ip_def)
next
  case (Some e)
  obtain now ev1 where now: "time_now ev = (now, ev1)" by (rule prod.exhaust)
  obtain e' ipc rc where pr: "egress_probe X now ip loc e = (e', ipc, rc)" by (metis prod.exhaust)
  note sp = egress_probe_spec [OF pr]
  have ok: "entry_ok h e'" using sp(1) pool_ok_entry [OF assms Some] by simp
  show ?thesis
  proof (cases "ipc \<or> rc")
    case True
    with Some now pr notify_after_store [OF assms ok] show ?thesis
      by (simp add: update_node_egress_ip_def)
  next
    case False
    with Some now pr quiet_change [OF assms Some sp(2) ok] show ?thesis
      by (simp add: update_node_egress_ip_def)
  qed
qed

lemma notify_node_dirty_ok:
  assumes "pool_ok cfg subs p" "m_load (pool_nodes p) h = Some e"
  shows "pool_ok cfg subs (notify_node_dirty cfg subs h (store_entry h (e\<lparr>has_outbound := b\<rparr>) p))"
  unfolding notify_node_dirty_def
  by (rule notify_after_store [OF assms(1)]) (use pool_ok_entry [OF assms] in simp)

section \<open>The registry operations\<close>

lemma rebuild_all_views:
  assumes "registry_ok p" "entries_ok (pool_nodes p)"
    and "\<And>r. registered p r \<Longrightarrow> view_ok (view (deref p r))"
  shows "pool_ok cfg subs (rebuild_all_platforms cfg subs p)"
proof (cases "by_id p = []")
  case True
  with assms show ?thesis
    by (simp add: rebuild_all_platforms_def pool_ok_def views_ok_def registered_def)
next
  case False
  let ?f = "full_rebuild (pool_nodes p) (Some (make_sub_lookup cfg subs)) (geo_lookup cfg)"
  have "registry_ok (update_platforms ?f p)"
    by (rule update_platforms_registry [OF assms(1) full_rebuild_only_view])
  moreover have "views_ok cfg subs (update_platforms ?f p)"
    unfolding views_ok_def
  proof (intro allI impI)
    fix r assume "registered (update_platforms ?f p) r"
    then have r: "registered p r" by simp
    have "view_coherent (pool_nodes p) (Some (make_sub_lookup cfg subs)) (geo_lookup cfg)
        (?f (deref p r))"
      by (rule full_rebuild_coherent [OF _ assms(3) [OF r]]) (use assms(2) in \<open>simp add: entries_ok_def\<close>)
    then show "view_coherent (pool_nodes (update_platforms ?f p)) (Some (make_sub_lookup cfg subs))
        (geo_lookup cfg) (deref (update_platforms ?f p) r)"
      using update_platforms_deref [OF assms(1) registered_lt [OF assms(1) r], of ?f] r by simp
  qed
  ultimately show ?thesis using False assms(2) by (simp add: rebuild_all_platforms_def pool_ok_def)
qed

lemma rebuild_all_simps [simp]:
  "pool_nodes (rebuild_all_platforms cfg subs p) = pool_nodes p"
  "by_id (rebuild_all_platforms cfg subs p) = by_id p"
  "by_name (rebuild_all_platforms cfg subs p) = by_name p"
  "pool_log (rebuild_all_platforms cfg subs p) = pool_log p"
  by (simp_all add: rebuild_all_platforms_def)

lemma pool_ok_views: "pool_ok cfg subs p \<Longrightarrow> registered p r \<Longrightarrow> view_ok (view (deref p r))"
  by (auto simp: pool_ok_def views_ok_def view_coherent_def)

lemma alloc_platform_simps:
  assumes "alloc_platform plat p = (p', r)"
  shows "r = length (plat_heap p)" "plat_heap p' = plat_heap p @ [plat]" "deref p' r = plat"
    "s < length (plat_heap p) \<Longrightarrow> deref p' s = deref p s" "by_id p' = by_id p"
    "by_name p' = by_name p" "pool_nodes p' = pool_nodes p" "pool_log p' = pool_log p"
  using assms by (auto simp: alloc_platform_def deref_def nth_append)

lemma alloc_platform_ok:
  assumes "pool_ok cfg subs p" "alloc_platform plat p = (p', r)"
  shows "pool_ok cfg subs p'" "\<not> registered p' r" "r < length (plat_heap p')" "deref p' r = plat"
proof -
  note a = alloc_platform_simps [OF assms(2)]
  have reg: "registry_ok p" using assms(1) by (simp add: pool_ok_def)
  have lt: "s < length (plat_heap p)" if "registered p s" for s using registered_lt [OF reg that] .
  have same: "registered p' = registered p" by (simp add: registered_def [abs_def] a)
  have "registry_ok p'"
    unfolding registry_ok_def
  proof (intro conjI allI impI)
    show "m_ok (by_id p')" "m_ok (by_name p')" using reg by (simp_all add: a registry_ok_def)
  next
    fix i s assume "m_load (by_id p') i = Some s"
    then have "m_load (by_id p) i = Some s" by (simp add: a)
    with reg have "s < length (plat_heap p)" "plat_id (deref p s) = i"
      by (simp_all add: registry_ok_def)
    with a(2,4) show "s < length (plat_heap p')" "plat_id (deref p' s) = i" by simp_all
  next
    fix n s assume "m_load (by_name p') n = Some s"
    then have "m_load (by_name p) n = Some s" by (simp add: a)
    note n = registry_name [OF reg this]
    with a(4,5) show "n \<noteq> []" "plat_name (deref p' s) = n"
      "m_load (by_id p') (plat_id (deref p' s)) = Some s" by simp_all
  qed
  then show "pool_ok cfg subs p'"
    using assms(1) a lt by (auto simp: pool_ok_def views_ok_def same)
  show "\<not> registered p' r" using lt a(1) by (auto simp: same)
  show "r < length (plat_heap p')" "deref p' r = plat" using a by simp_all
qed

lemma rebuild_platform_simps [simp]:
  "pool_nodes (rebuild_platform cfg subs r p) = pool_nodes p"
  "by_id (rebuild_platform cfg subs r p) = by_id p"
  "by_name (rebuild_platform cfg subs r p) = by_name p"
  "registered (rebuild_platform cfg subs r p) = registered p"
  "length (plat_heap (rebuild_platform cfg subs r p)) = length (plat_heap p)"
  "pool_log (rebuild_platform cfg subs r p) = pool_log p"
  by (simp_all add: rebuild_platform_def)

lemma rebuild_platform_deref:
  assumes "r < length (plat_heap p)"
  shows "deref (rebuild_platform cfg subs r p) s = (if s = r then full_rebuild (pool_nodes p)
      (Some (make_sub_lookup cfg subs)) (geo_lookup cfg) (deref p r) else deref p s)"
  using assms by (simp add: rebuild_platform_def deref_def nth_list_update)

lemma rebuild_platform_names:
  assumes "r < length (plat_heap p)"
  shows "plat_id (deref (rebuild_platform cfg subs r p) s) = plat_id (deref p s)"
    "plat_name (deref (rebuild_platform cfg subs r p) s) = plat_name (deref p s)"
  using rebuild_platform_deref [OF assms, of cfg subs s]
    full_rebuild_only_view [of "pool_nodes p" "Some (make_sub_lookup cfg subs)" "geo_lookup cfg" "deref p r"]
  by auto

lemma rebuild_platform_ok:
  assumes "pool_ok cfg subs p" "r < length (plat_heap p)" "view_ok (view (deref p r))"
  defines "p' \<equiv> rebuild_platform cfg subs r p"
  shows "pool_ok cfg subs p'"
    and "view_coherent (pool_nodes p') (Some (make_sub_lookup cfg subs)) (geo_lookup cfg) (deref p' r)"
proof -
  have coh: "view_coherent (pool_nodes p) (Some (make_sub_lookup cfg subs)) (geo_lookup cfg)
      (full_rebuild (pool_nodes p) (Some (make_sub_lookup cfg subs)) (geo_lookup cfg) (deref p r))"
    by (rule full_rebuild_coherent [OF _ assms(3)]) (use assms(1) in \<open>simp add: pool_ok_def entries_ok_def\<close>)
  then show "view_coherent (pool_nodes p') (Some (make_sub_lookup cfg subs)) (geo_lookup cfg) (deref p' r)"
    by (simp add: p'_def rebuild_platform_deref [OF assms(2)])
  have "registry_ok p'"
    using assms(1) by (simp add: pool_ok_def registry_ok_def p'_def rebuild_platform_names [OF assms(2)])
  moreover have "views_ok cfg subs p'"
    using assms(1) coh
    by (auto simp: views_ok_def p'_def rebuild_platform_deref [OF assms(2)] pool_ok_def)
  ultimately show "pool_ok cfg subs p'" using assms(1) by (simp add: pool_ok_def p'_def)
qed

text \<open>
  The four facts that say a registry is well formed, and the registry after the operations.
\<close>

lemma pool_okI:
  assumes "entries_ok (pool_nodes p)" "m_ok (by_id p)" "m_ok (by_name p)"
    and "\<And>i r. m_load (by_id p) i = Some r \<Longrightarrow> r < length (plat_heap p) \<and> plat_id (deref p r) = i
      \<and> view_coherent (pool_nodes p) (Some (make_sub_lookup cfg subs)) (geo_lookup cfg) (deref p r)"
    and "\<And>n r. m_load (by_name p) n = Some r \<Longrightarrow>
      n \<noteq> [] \<and> plat_name (deref p r) = n \<and> m_load (by_id p) (plat_id (deref p r)) = Some r"
  shows "pool_ok cfg subs p"
  using assms by (auto simp: pool_ok_def registry_ok_def views_ok_def registered_def)

lemma pool_okD:
  assumes "pool_ok cfg subs p"
  shows "entries_ok (pool_nodes p)" "m_ok (by_id p)" "m_ok (by_name p)" "registry_ok p"
    and "m_load (by_id p) i = Some r \<Longrightarrow> r < length (plat_heap p) \<and> plat_id (deref p r) = i
      \<and> view_coherent (pool_nodes p) (Some (make_sub_lookup cfg subs)) (geo_lookup cfg) (deref p r)"
    and "m_load (by_name p) n = Some s \<Longrightarrow>
      n \<noteq> [] \<and> plat_name (deref p s) = n \<and> m_load (by_id p) (plat_id (deref p s)) = Some s"
  using assms unfolding pool_ok_def registry_ok_def views_ok_def registered_def by metis+

lemma index_upd_simps [simp]:
  "deref (p\<lparr>by_id := x\<rparr>) = deref p" "deref (p\<lparr>by_name := y\<rparr>) = deref p"
  by (simp_all add: deref_def [abs_def])

lemma register_platform_ok:
  assumes "pool_ok cfg subs p" "r < length (plat_heap p)"
    and "view_coherent (pool_nodes p) (Some (make_sub_lookup cfg subs)) (geo_lookup cfg) (deref p r)"
  shows "pool_ok cfg subs (register_platform r p)"
proof (cases "m_load (by_id p) (plat_id (deref p r)) = None")
  case False
  then show ?thesis using assms(1) by (simp add: register_platform_def Let_def)
next
  case True
  note d = pool_okD [OF assms(1)]
  have "\<And>n s. m_load (by_name p) n = Some s \<Longrightarrow> plat_id (deref p s) \<noteq> plat_id (deref p r)"
    using True d(6) by fastforce
  with True d assms(2,3) show ?thesis
    by (intro pool_okI)
      (auto simp: register_platform_def Let_def store_simps split: if_splits)
qed

lemma unregister_platform_ok:
  assumes "pool_ok cfg subs p"
  shows "pool_ok cfg subs (unregister_platform i p)"
proof (cases "m_load (by_id p) i")
  case None
  with assms show ?thesis by (simp add: unregister_platform_def)
next
  case (Some r)
  note d = pool_okD [OF assms]
  have r: "plat_id (deref p r) = i" using d(5) [OF Some] by simp
  define n where "n = plat_name (deref p r)"
  define names where "names = (if n \<noteq> [] \<and> m_load (by_name p) n = Some r
    then m_delete n (by_name p) else by_name p)"
  have un: "unregister_platform i p = p\<lparr>by_id := m_delete i (by_id p), by_name := names\<rparr>"
    using Some by (auto simp: unregister_platform_def names_def n_def Let_def split: option.splits)
  have names: "m_load (by_name p) m = Some s" if "m_load names m = Some s" for m s
    using that by (auto simp: names_def store_simps split: if_splits)
  have nm: "s \<noteq> r" if m: "m_load names m = Some s" for m s
  proof
    assume "s = r"
    with registry_name [OF d(4) names [OF m]] have "m = n" "n \<noteq> []" by (simp_all add: n_def)
    with m names [OF m] \<open>s = r\<close> show False by (simp add: names_def store_simps)
  qed
  show ?thesis
    unfolding un
  proof (rule pool_okI)
    show "entries_ok (pool_nodes (p\<lparr>by_id := m_delete i (by_id p), by_name := names\<rparr>))"
      "m_ok (by_id (p\<lparr>by_id := m_delete i (by_id p), by_name := names\<rparr>))"
      "m_ok (by_name (p\<lparr>by_id := m_delete i (by_id p), by_name := names\<rparr>))"
      using d(1-3) by (simp_all add: names_def)
  next
    fix j s assume "m_load (by_id (p\<lparr>by_id := m_delete i (by_id p), by_name := names\<rparr>)) j = Some s"
    then have "m_load (by_id p) j = Some s" by (simp add: store_simps split: if_splits)
    from d(5) [OF this]
    show "s < length (plat_heap (p\<lparr>by_id := m_delete i (by_id p), by_name := names\<rparr>))
      \<and> plat_id (deref (p\<lparr>by_id := m_delete i (by_id p), by_name := names\<rparr>) s) = j
      \<and> view_coherent (pool_nodes (p\<lparr>by_id := m_delete i (by_id p), by_name := names\<rparr>))
          (Some (make_sub_lookup cfg subs)) (geo_lookup cfg)
          (deref (p\<lparr>by_id := m_delete i (by_id p), by_name := names\<rparr>) s)" by simp
  next
    fix m s assume "m_load (by_name (p\<lparr>by_id := m_delete i (by_id p), by_name := names\<rparr>)) m = Some s"
    then have s: "m_load names m = Some s" by simp
    have "plat_id (deref p s) \<noteq> i"
    proof
      assume "plat_id (deref p s) = i"
      with d(6) [OF names [OF s]] Some have "s = r" by simp
      with nm [OF s] show False by simp
    qed
    with d(6) [OF names [OF s]]
    show "m \<noteq> [] \<and> plat_name (deref (p\<lparr>by_id := m_delete i (by_id p), by_name := names\<rparr>) s) = m
      \<and> m_load (by_id (p\<lparr>by_id := m_delete i (by_id p), by_name := names\<rparr>))
          (plat_id (deref (p\<lparr>by_id := m_delete i (by_id p), by_name := names\<rparr>) s)) = Some s"
      by (simp add: store_simps)
  qed
qed

text \<open>The registry after a successful replacement.\<close>

definition replaced_names :: "node_pool \<Rightarrow> plat_ref \<Rightarrow> plat_ref \<Rightarrow> (string, plat_ref) amap" where
  "replaced_names p current r =
     (let cur = plat_name (deref p current); next = plat_name (deref p r);
          names = (if cur \<noteq> [] \<and> m_load (by_name p) cur = Some current
                   then m_delete cur (by_name p) else by_name p)
      in if next \<noteq> [] then m_store next r names else names)"

lemma replace_platform_cases:
  assumes "r < length (plat_heap p)" "replace_platform cfg subs r p = (q, err)"
  defines "p' \<equiv> rebuild_platform cfg subs r p"
  shows "(err \<noteq> None \<and> (q = p \<or> q = p'))
    \<or> (\<exists>current. err = None \<and> plat_id (deref p r) \<noteq> []
         \<and> m_load (by_id p) (plat_id (deref p r)) = Some current
         \<and> (plat_name (deref p r) = [] \<or> m_load (by_name p) (plat_name (deref p r)) \<in> {None, Some current})
         \<and> q = p'\<lparr>by_id := m_store (plat_id (deref p r)) r (by_id p),
                   by_name := replaced_names p' current r\<rparr>)"
  using assms(2) rebuild_platform_names [OF assms(1), of cfg subs]
  by (auto simp: replace_platform_def replaced_names_def p'_def Let_def split: option.splits if_splits)

lemma replaced_names_ok:
  assumes "pool_ok cfg subs p" "m_load (by_id p) (plat_id (deref p r)) = Some current"
    and "m_load (replaced_names p current r) n = Some s"
  shows "n \<noteq> [] \<and> plat_name (deref p s) = n
    \<and> (s = r \<or> plat_id (deref p s) \<noteq> plat_id (deref p r) \<and> m_load (by_id p) (plat_id (deref p s)) = Some s)"
proof (cases "n = plat_name (deref p r) \<and> n \<noteq> []")
  case True
  with assms(3) show ?thesis by (auto simp: replaced_names_def Let_def store_simps)
next
  case False
  note reg = pool_okD(4) [OF assms(1)]
  have old: "m_load (by_name p) n = Some s"
    and kept: "\<not> (n = plat_name (deref p current) \<and> m_load (by_name p) n = Some current)"
    using assms(3) False registry_name(1) [OF reg]
    by (auto simp: replaced_names_def Let_def store_simps split: if_splits)
  note nm = registry_name [OF reg old]
  have "plat_id (deref p s) \<noteq> plat_id (deref p r)"
  proof
    assume "plat_id (deref p s) = plat_id (deref p r)"
    with nm(3) assms(2) have "s = current" by simp
    with nm(2) old kept show False by simp
  qed
  with nm show ?thesis by simp
qed

lemma replaced_names_m_ok: "m_ok (by_name p) \<Longrightarrow> m_ok (replaced_names p current r)"
  by (simp add: replaced_names_def Let_def)

lemma replace_platform_ok:
  assumes "pool_ok cfg subs p" "r < length (plat_heap p)" "view_ok (view (deref p r))"
    and "replace_platform cfg subs r p = (q, err)"
  shows "pool_ok cfg subs q"
proof -
  define p' where "p' = rebuild_platform cfg subs r p"
  note p' = rebuild_platform_ok [OF assms(1-3), folded p'_def]
  have ids: "plat_id (deref p' s) = plat_id (deref p s)" "plat_name (deref p' s) = plat_name (deref p s)"
    "by_id p' = by_id p" for s
    by (simp_all add: p'_def rebuild_platform_names [OF assms(2)])
  from replace_platform_cases [OF assms(2,4), folded p'_def]
  consider "q = p" | "q = p'"
    | current where "m_load (by_id p) (plat_id (deref p r)) = Some current"
      "q = p'\<lparr>by_id := m_store (plat_id (deref p r)) r (by_id p),
         by_name := replaced_names p' current r\<rparr>" by blast
  then show ?thesis
  proof cases
    case (3 current)
    note c = 3(1) and q = 3(2)
    note d = pool_okD [OF p'(1)]
    note nm = replaced_names_ok [OF p'(1), of r current]
    show ?thesis
    proof (rule pool_okI)
      show "entries_ok (pool_nodes q)" "m_ok (by_id q)" "m_ok (by_name q)"
        using d(1-3) by (simp_all add: q ids replaced_names_m_ok)
    next
      fix j s assume "m_load (by_id q) j = Some s"
      then have "j = plat_id (deref p r) \<and> s = r \<or> m_load (by_id p') j = Some s"
        by (auto simp: q ids store_simps split: if_splits)
      with d(5) p'(2) assms(2)
      show "s < length (plat_heap q) \<and> plat_id (deref q s) = j
        \<and> view_coherent (pool_nodes q) (Some (make_sub_lookup cfg subs)) (geo_lookup cfg) (deref q s)"
        by (auto simp: q ids) (simp_all add: p'_def)
    next
      fix n s assume "m_load (by_name q) n = Some s"
      then have "m_load (replaced_names p' current r) n = Some s" by (simp add: q)
      from nm [OF _ this] c
      show "n \<noteq> [] \<and> plat_name (deref q s) = n \<and> m_load (by_id q) (plat_id (deref q s)) = Some s"
        by (auto simp: q ids store_simps)
    qed
  qed (use assms(1) p'(1) in simp_all)
qed

section \<open>Runs of the pool\<close>

text \<open>
  Everything that reaches the pool at run time: the subscription side, the health side, and the
  platform side as the control plane drives it (a new platform is rebuilt and then registered, a
  changed one replaces the old object). \<open>Outbound_Changed\<close> is the outbound manager storing or
  clearing an outbound and notifying.
\<close>

datatype pool_op =
    Add_Node hash string string
  | Remove_Node hash string
  | Probe_Result hash bool
  | Passive_Result string hash bool
  | Latency_Sample hash string "int option"
  | Egress_Sample hash "addr option" "string option"
  | Outbound_Changed hash bool
  | Create_Platform platform
  | Change_Platform platform
  | Drop_Platform string
  | Rebuild_Views

text \<open>The refresh only adds nodes whose outbound options are known.\<close>

fun pool_op_ok :: "pool_op \<Rightarrow> bool" where
  "pool_op_ok (Add_Node h raw sid) \<longleftrightarrow> raw \<noteq> []"
| "pool_op_ok (Create_Platform plat) \<longleftrightarrow> view_ok (view plat)"
| "pool_op_ok (Change_Platform plat) \<longleftrightarrow> view_ok (view plat)"
| "pool_op_ok _ \<longleftrightarrow> True"

fun pool_step ::
  "external \<Rightarrow> pool_config \<Rightarrow> sub_store \<Rightarrow> pool_op \<Rightarrow> node_pool \<times> env \<Rightarrow> node_pool \<times> env" where
  "pool_step X cfg subs (Add_Node h raw sid) s = add_node_from_sub cfg subs h raw sid s"
| "pool_step X cfg subs (Remove_Node h sid) s = (remove_node_from_sub cfg subs h sid (fst s), snd s)"
| "pool_step X cfg subs (Probe_Result h ok) s = record_result cfg subs h ok s"
| "pool_step X cfg subs (Passive_Result pid h ok) s = record_passive_result cfg subs pid h ok s"
| "pool_step X cfg subs (Latency_Sample h target l) s = record_latency X cfg subs h target l s"
| "pool_step X cfg subs (Egress_Sample h ip loc) s = update_node_egress_ip X cfg subs h ip loc s"
| "pool_step X cfg subs (Outbound_Changed h b) s =
     ((case m_load (pool_nodes (fst s)) h of
         None \<Rightarrow> fst s
       | Some e \<Rightarrow> notify_node_dirty cfg subs h (store_entry h (e\<lparr>has_outbound := b\<rparr>) (fst s))), snd s)"
| "pool_step X cfg subs (Create_Platform plat) s =
     (let (p, r) = alloc_platform plat (fst s)
      in (register_platform r (rebuild_platform cfg subs r p), snd s))"
| "pool_step X cfg subs (Change_Platform plat) s =
     (let (p, r) = alloc_platform plat (fst s) in (fst (replace_platform cfg subs r p), snd s))"
| "pool_step X cfg subs (Drop_Platform pid) s = (unregister_platform pid (fst s), snd s)"
| "pool_step X cfg subs Rebuild_Views s = (rebuild_all_platforms cfg subs (fst s), snd s)"

lemma create_platform_ok:
  assumes "pool_ok cfg subs p" "view_ok (view plat)" "alloc_platform plat p = (p', r)"
  shows "pool_ok cfg subs (register_platform r (rebuild_platform cfg subs r p'))"
proof -
  note a = alloc_platform_ok [OF assms(1,3)]
  have v: "view_ok (view (deref p' r))" using a(4) assms(2) by simp
  note r = rebuild_platform_ok [OF a(1,3) v]
  show ?thesis by (rule register_platform_ok [OF r(1) _ r(2)]) (simp add: a(3))
qed

lemma change_platform_ok:
  assumes "pool_ok cfg subs p" "view_ok (view plat)" "alloc_platform plat p = (p', r)"
  shows "pool_ok cfg subs (fst (replace_platform cfg subs r p'))"
proof -
  note a = alloc_platform_ok [OF assms(1,3)]
  have v: "view_ok (view (deref p' r))" using a(4) assms(2) by simp
  show ?thesis
    by (rule replace_platform_ok [OF a(1,3) v, of _ "snd (replace_platform cfg subs r p')"]) simp
qed

interpretation pm: invariant_machine "pool_step X cfg subs" pool_op_ok "\<lambda>s. pool_ok cfg subs (fst s)"
  for X cfg subs
proof
  fix s :: "node_pool \<times> env" and op
  assume "pool_ok cfg subs (fst s)" "pool_op_ok op"
  obtain p ev where s: "s = (p, ev)" by (rule prod.exhaust)
  have ok: "pool_ok cfg subs p" using \<open>pool_ok cfg subs (fst s)\<close> by (simp add: s)
  show "pool_ok cfg subs (fst (pool_step X cfg subs op s))"
  proof (cases op)
    case (Add_Node h raw sid)
    with add_node_from_sub_ok [OF ok] \<open>pool_op_ok op\<close> show ?thesis by (simp add: s)
  next
    case (Outbound_Changed h b)
    with ok show ?thesis by (auto simp: s split: option.split intro: notify_node_dirty_ok)
  next
    case (Create_Platform plat)
    with create_platform_ok [OF ok] \<open>pool_op_ok op\<close> show ?thesis
      by (simp add: s split: prod.split)
  next
    case (Change_Platform plat)
    with change_platform_ok [OF ok] \<open>pool_op_ok op\<close> show ?thesis
      by (simp add: s split: prod.split)
  next
    case Rebuild_Views
    with ok rebuild_all_views [of p cfg subs] pool_ok_views [OF ok] show ?thesis
      by (simp add: s pool_ok_def)
  qed (simp_all add: s ok remove_node_from_sub_ok record_result_ok
      record_passive_result_ok record_latency_ok update_node_egress_ip_ok unregister_platform_ok)
qed

lemma new_pool_ok: "pool_ok cfg subs new_global_node_pool"
  by (simp add: pool_ok_def registry_ok_def entries_ok_def views_ok_def registered_def
      new_global_node_pool_def)

section \<open>References\<close>

definition node_refs :: "node_pool \<Rightarrow> hash \<rightharpoonup> string list" where
  "node_refs p h = map_option subscription_ids (m_load (pool_nodes p) h)"

lemma node_refs_simps [simp]:
  "node_refs (log_event x p) = node_refs p"
  "node_refs (notify_all_platforms_dirty cfg subs h p) = node_refs p"
  "node_refs (rebuild_platform cfg subs r p) = node_refs p"
  "node_refs (rebuild_all_platforms cfg subs p) = node_refs p"
  by (simp_all add: node_refs_def [abs_def])

lemma node_refs_store:
  "m_load (pool_nodes p) h = Some e \<Longrightarrow> subscription_ids e' = subscription_ids e
     \<Longrightarrow> node_refs (store_entry h e' p) = node_refs p"
  by (auto simp: node_refs_def fun_eq_iff store_simps)

lemma record_result_refs: "node_refs (fst (record_result cfg subs h ok (p, ev))) = node_refs p"
  by (auto simp: record_result_def Let_def node_refs_store split: option.splits prod.splits)

lemma write_latency_sample_refs:
  "m_load (pool_nodes p) h = Some e \<Longrightarrow>
     node_refs (fst (write_latency_sample X cfg subs h d a l e t (p, ev))) = node_refs p"
  by (auto simp: write_latency_sample_def Let_def node_refs_store split: option.splits prod.splits)

lemma record_latency_refs: "node_refs (fst (record_latency X cfg subs h target lat (p, ev))) = node_refs p"
proof (cases "m_load (pool_nodes p) h")
  case None
  then show ?thesis by (simp add: record_latency_def)
next
  case (Some e)
  obtain now ev1 where now: "time_now ev = (now, ev1)" by (rule prod.exhaust)
  let ?e2 = "attempted X cfg (extract_domain X target) now e"
  let ?p1 = "log_event (Node_Dynamic_Changed h) (store_entry h ?e2 p)"
  have p1: "node_refs ?p1 = node_refs p" "m_load (pool_nodes ?p1) h = Some ?e2"
    by (simp_all add: store_simps node_refs_store [OF Some] attempted_facts(3))
  with write_latency_sample_refs [OF p1(2)] show ?thesis
    by (cases lat; cases "latency_tab e") (auto simp: record_latency_eq [OF Some now])
qed

lemma update_node_egress_ip_refs:
  "node_refs (fst (update_node_egress_ip X cfg subs h ip loc (p, ev))) = node_refs p"
proof (cases "m_load (pool_nodes p) h")
  case None
  then show ?thesis by (simp add: update_node_egress_ip_def)
next
  case (Some e)
  obtain now ev1 where now: "time_now ev = (now, ev1)" by (rule prod.exhaust)
  obtain e' ipc rc where pr: "egress_probe X now ip loc e = (e', ipc, rc)" by (metis prod.exhaust)
  have "subscription_ids e' = subscription_ids e" using egress_probe_shape [OF pr] by auto
  with Some now pr node_refs_store [OF Some this] show ?thesis
    by (simp add: update_node_egress_ip_def Let_def)
qed

lemma registry_refs:
  "node_refs (register_platform r p) = node_refs p"
  "node_refs (unregister_platform i p) = node_refs p"
  "node_refs (fst (replace_platform cfg subs r p)) = node_refs p"
  by (auto simp: node_refs_def [abs_def] register_platform_def unregister_platform_def
      replace_platform_def Let_def split: option.splits)

lemma add_node_from_sub_refs:
  "node_refs (fst (add_node_from_sub cfg subs h raw sid (p, ev)))
   = (node_refs p)(h \<mapsto> (let ss = (case node_refs p h of None \<Rightarrow> [] | Some ss \<Rightarrow> ss)
       in if sid \<in> set ss then ss else ss @ [sid]))"
proof -
  obtain e n ev' where e: "load_or_create cfg h raw (p, ev) = (e, n, ev')" by (metis prod.exhaust)
  have "subscription_ids e = (case node_refs p h of None \<Rightarrow> [] | Some ss \<Rightarrow> ss)"
    using e by (auto simp: load_or_create_def node_refs_def new_node_entry_def Let_def
        split: option.splits prod.splits)
  with e show ?thesis
    by (auto simp: add_node_from_sub_def node_refs_def Let_def fun_eq_iff store_simps
        add_subscription_id_def)
qed

lemma remove_node_from_sub_refs:
  "node_refs (remove_node_from_sub cfg subs h sid p)
   = (case node_refs p h of
        None \<Rightarrow> node_refs p
      | Some ss \<Rightarrow> (node_refs p)(h := (if remove1 sid ss = [] then None else Some (remove1 sid ss))))"
  by (auto simp: remove_node_from_sub_def node_refs_def remove_subscription_id_def Let_def
      fun_eq_iff store_simps split: option.splits)

text \<open>The pairs of node and subscription, as a set, and what an operation does to it.\<close>

definition refs_of :: "(hash \<rightharpoonup> string list) \<Rightarrow> (hash \<times> string) set" where
  "refs_of f = {(h, s). \<exists>ss. f h = Some ss \<and> s \<in> set ss}"

fun ref_step :: "pool_op \<Rightarrow> (hash \<times> string) set \<Rightarrow> (hash \<times> string) set" where
  "ref_step (Add_Node h raw sid) R = insert (h, sid) R"
| "ref_step (Remove_Node h sid) R = R - {(h, sid)}"
| "ref_step _ R = R"

definition refs_ok :: "(hash \<rightharpoonup> string list) \<Rightarrow> bool" where
  "refs_ok f \<longleftrightarrow> (\<forall>h ss. f h = Some ss \<longrightarrow> ss \<noteq> [] \<and> distinct ss)"

lemma refs_of_add:
  "refs_ok f \<Longrightarrow> refs_of (f(h \<mapsto> (let ss = (case f h of None \<Rightarrow> [] | Some ss \<Rightarrow> ss)
       in if sid \<in> set ss then ss else ss @ [sid]))) = insert (h, sid) (refs_of f)
     \<and> refs_ok (f(h \<mapsto> (let ss = (case f h of None \<Rightarrow> [] | Some ss \<Rightarrow> ss)
       in if sid \<in> set ss then ss else ss @ [sid])))"
  by (cases "f h") (auto simp: refs_of_def refs_ok_def Let_def split: if_splits)

lemma refs_of_upd:
  "refs_of (f(h := w)) = {gs \<in> refs_of f. fst gs \<noteq> h}
     \<union> (case w of None \<Rightarrow> {} | Some ss \<Rightarrow> {h} \<times> set ss)"
  by (auto simp: refs_of_def split: option.splits if_splits)

lemma refs_of_remove:
  fixes h sid
  assumes "refs_ok f"
  defines "g \<equiv> (case f h of None \<Rightarrow> f
    | Some ss \<Rightarrow> f(h := (if remove1 sid ss = [] then None else Some (remove1 sid ss))))"
  shows "refs_of g = refs_of f - {(h, sid)} \<and> refs_ok g"
proof (cases "f h")
  case None
  with assms show ?thesis by (auto simp: refs_of_def g_def)
next
  case (Some ss)
  with assms(1) have d: "distinct ss" by (simp add: refs_ok_def)
  have g: "g = f(h := (if remove1 sid ss = [] then None else Some (remove1 sid ss)))"
    using Some by (simp add: g_def)
  have m: "set (remove1 sid ss) = set ss - {sid}" using d by simp
  have "refs_of f = {gs \<in> refs_of f. fst gs \<noteq> h} \<union> {h} \<times> set ss"
    using Some by (auto simp: refs_of_def)
  moreover have "refs_of g = {gs \<in> refs_of f. fst gs \<noteq> h} \<union> {h} \<times> (set ss - {sid})"
    unfolding g refs_of_upd m [symmetric] by (cases "remove1 sid ss = []") simp_all
  ultimately have "refs_of g = refs_of f - {(h, sid)}" by auto
  moreover have "refs_ok g" using assms(1) d unfolding g refs_ok_def by (simp add: distinct_remove1)
  ultimately show ?thesis ..
qed

lemma pool_step_refs:
  assumes "refs_ok (node_refs (fst s))"
  shows "refs_of (node_refs (fst (pool_step X cfg subs op s))) = ref_step op (refs_of (node_refs (fst s)))
    \<and> refs_ok (node_refs (fst (pool_step X cfg subs op s)))"
proof -
  obtain p ev where s: "s = (p, ev)" by (rule prod.exhaust)
  have ok: "refs_ok (node_refs p)" using assms by (simp add: s)
  show ?thesis
  proof (cases op)
    case (Add_Node h raw sid)
    with refs_of_add [OF ok] show ?thesis by (simp add: s add_node_from_sub_refs)
  next
    case (Remove_Node h sid)
    with refs_of_remove [OF ok] show ?thesis by (simp add: s remove_node_from_sub_refs)
  next
    case (Outbound_Changed h b)
    with ok show ?thesis
      by (auto simp: s notify_node_dirty_def node_refs_store split: option.split)
  next
    case (Create_Platform plat)
    with ok show ?thesis by (simp add: s registry_refs alloc_platform_def) (simp add: node_refs_def [abs_def])
  next
    case (Change_Platform plat)
    with ok show ?thesis by (simp add: s registry_refs alloc_platform_def) (simp add: node_refs_def [abs_def])
  qed (use ok in \<open>simp_all add: s record_result_refs record_passive_result_def record_latency_refs
      update_node_egress_ip_refs registry_refs\<close>)
qed

section \<open>The circuit breaker\<close>

definition clock_ok :: "env \<Rightarrow> bool" where
  "clock_ok ev \<longleftrightarrow> clock ev \<noteq> [] \<and> 0 \<notin> set (clock ev)"

lemma time_now_clock_ok:
  assumes "clock_ok ev" "time_now ev = (t, ev')"
  shows "t \<noteq> 0" "clock_ok ev'"
  using assms by (auto simp: clock_ok_def time_now.simps split: list.splits)

lemma record_result_entry:
  assumes "m_load (pool_nodes p) h = Some e" "clock_ok ev"
    and "record_result cfg subs h ok (p, ev) = (p', ev')"
  shows "clock_ok ev' \<and> (\<exists>e'. m_load (pool_nodes p') h = Some e'
    \<and> failure_count e' = (if ok then 0 else i32 (failure_count e + 1))
    \<and> (is_circuit_open e' \<longleftrightarrow> \<not> ok \<and> (is_circuit_open e
          \<or> max_consecutive_failures cfg > 0 \<and> i32 (failure_count e + 1) \<ge> max_consecutive_failures cfg)))"
proof -
  obtain now ev1 where now: "time_now ev = (now, ev1)" by (rule prod.exhaust)
  note ck = time_now_clock_ok [OF assms(2) now]
  show ?thesis
    using assms now ck
    by (cases ok; cases "circuit_open_since e = 0")
      (auto simp: record_result_def Let_def store_simps is_circuit_open_def split: if_splits)
qed

definition trailing_failures :: "bool list \<Rightarrow> nat" where
  "trailing_failures oks = length (takeWhile Not (rev oks))"

lemma trailing_failures_simps [simp]:
  "trailing_failures [] = 0"
  "trailing_failures (oks @ [ok]) = (if ok then 0 else Suc (trailing_failures oks))"
  by (simp_all add: trailing_failures_def)

lemma trailing_failures_le: "trailing_failures oks \<le> length oks"
  by (metis length_rev length_takeWhile_le trailing_failures_def)

lemma i32_id: "- 2147483648 \<le> k \<Longrightarrow> k < 2147483648 \<Longrightarrow> i32 k = k"
  by (simp add: i32_def signed_take_bit_int_eq_self_iff)

section \<open>Which holder names a node\<close>

text \<open>Holders are ordered by creation time, then by the bytes of their id.\<close>

datatype holder_key = Holder_Key int string

instantiation holder_key :: linorder
begin

fun less_holder_key :: "holder_key \<Rightarrow> holder_key \<Rightarrow> bool" where
  "less_holder_key (Holder_Key c s) (Holder_Key d t) \<longleftrightarrow> c < d \<or> c = d \<and> str_less s t"

definition less_eq_holder_key :: "holder_key \<Rightarrow> holder_key \<Rightarrow> bool" where
  "less_eq_holder_key a b \<longleftrightarrow> a < b \<or> (a = b)"

instance
proof
  fix a b c :: holder_key
  show irr: "(a < b) = (a \<le> b \<and> \<not> b \<le> a)"
    by (cases a; cases b) (auto simp: less_eq_holder_key_def dest: str_less_trans)
  show "a \<le> a" by (simp add: less_eq_holder_key_def)
  show "a \<le> b \<Longrightarrow> b \<le> c \<Longrightarrow> a \<le> c"
    by (cases a; cases b; cases c) (auto simp: less_eq_holder_key_def dest: str_less_trans)
  show "a \<le> b \<Longrightarrow> b \<le> a \<Longrightarrow> a = b"
    by (cases a; cases b) (auto simp: less_eq_holder_key_def dest: str_less_trans)
  show "a \<le> b \<or> b \<le> a"
    by (cases a; cases b) (use str_less_linear in \<open>auto simp: less_eq_holder_key_def\<close>)
qed

end

lemma smallest_tag_spec:
  assumes "ts \<noteq> []"
  shows "smallest_tag ts \<in> set ts" "\<forall>t\<in>set ts. \<not> str_less t (smallest_tag ts)"
proof -
  have "foldl (\<lambda>best t. if str_less t best then t else best) b us \<in> insert b (set us)
    \<and> (\<forall>t\<in>insert b (set us). \<not> str_less t (foldl (\<lambda>best t. if str_less t best then t else best) b us))"
    for b us
  proof (induction us arbitrary: b)
    case (Cons u us)
    show ?case
    proof (cases "str_less u b")
      case True
      with Cons.IH [of u] show ?thesis
        by (auto dest: str_less_trans [of b] str_less_trans [OF True])
    next
      case False
      with Cons.IH [of b] str_less_linear [of u b] show ?thesis
        by (auto dest: str_less_trans)
    qed
  qed simp
  from this [of "hd ts" "tl ts"] assms
  show "smallest_tag ts \<in> set ts" "\<forall>t\<in>set ts. \<not> str_less t (smallest_tag ts)"
    by (cases ts; simp add: smallest_tag_def)+
qed

text \<open>The subscriptions that hold a node under a tag, of all or of the enabled ones.\<close>

definition holder_of :: "sub_store \<Rightarrow> hash \<Rightarrow> bool \<Rightarrow> string \<Rightarrow> (subscription \<times> string list) option" where
  "holder_of subs h enabled_only sid =
     (case m_load subs sid of
        None \<Rightarrow> None
      | Some sub \<Rightarrow>
          if enabled_only \<and> \<not> sub_enabled sub then None
          else case load_node (managed sub) h of
            None \<Rightarrow> None
          | Some m \<Rightarrow> if evicted m \<or> tags m = [] then None else Some (sub, tags m))"

definition key_of :: "sub_store \<Rightarrow> string \<Rightarrow> holder_key" where
  "key_of subs sid = Holder_Key (sub_created_at_ns (the (m_load subs sid))) sid"

definition choice_of :: "sub_store \<Rightarrow> hash \<Rightarrow> bool \<Rightarrow> string \<Rightarrow> int \<times> string \<times> string \<times> string" where
  "choice_of subs h eo sid = (case the (holder_of subs h eo sid) of (sub, ts) \<Rightarrow>
     (sub_created_at_ns sub, sid, sub_name sub, smallest_tag ts))"

lemma pick_holder_step:
  "pick_holder subs h eo (sid # sids) best = pick_holder subs h eo sids
     (case holder_of subs h eo sid of
        None \<Rightarrow> best
      | Some _ \<Rightarrow> (case best of
            None \<Rightarrow> Some (choice_of subs h eo sid)
          | Some (c, b, _, _) \<Rightarrow>
              if key_of subs sid < Holder_Key c b then Some (choice_of subs h eo sid) else best))"
  by (auto simp: holder_of_def choice_of_def key_of_def Let_def split: option.splits)

lemma choice_of_key:
  "holder_of subs h eo sid \<noteq> None \<Longrightarrow> choice_of subs h eo sid = (c, b, n, t) \<Longrightarrow>
     Holder_Key c b = key_of subs sid \<and> b = sid"
  by (auto simp: holder_of_def choice_of_def key_of_def split: option.splits if_splits)

lemma pick_holder_min:
  assumes "best = (if A = {} then None else Some (choice_of subs h eo b))"
    and "A \<noteq> {} \<Longrightarrow> b \<in> A \<and> holder_of subs h eo b \<noteq> None \<and> (\<forall>s\<in>A. key_of subs b \<le> key_of subs s)"
  defines "B \<equiv> \<lambda>sids. A \<union> {s \<in> set sids. holder_of subs h eo s \<noteq> None}"
  shows "if B sids = {} then pick_holder subs h eo sids best = None
    else \<exists>b\<in>B sids. pick_holder subs h eo sids best = Some (choice_of subs h eo b)
      \<and> (\<forall>s\<in>B sids. key_of subs b \<le> key_of subs s)"
  using assms(1,2) unfolding B_def
proof (induction sids arbitrary: A b best)
  case Nil
  then show ?case by auto
next
  case (Cons sid sids)
  show ?case
  proof (cases "holder_of subs h eo sid = None")
    case True
    then have set: "{s \<in> set (sid # sids). holder_of subs h eo s \<noteq> None}
        = {s \<in> set sids. holder_of subs h eo s \<noteq> None}" by auto
    have step: "pick_holder subs h eo (sid # sids) best = pick_holder subs h eo sids best"
      unfolding pick_holder_step using True by simp
    show ?thesis unfolding set step by (rule Cons.IH) (use Cons.prems in auto)
  next
    case False
    define b' where "b' = (if A = {} \<or> key_of subs sid < key_of subs b then sid else b)"
    have set: "A \<union> {s \<in> set (sid # sids). holder_of subs h eo s \<noteq> None}
        = insert sid A \<union> {s \<in> set sids. holder_of subs h eo s \<noteq> None}" using False by auto
    have step: "pick_holder subs h eo (sid # sids) best
        = pick_holder subs h eo sids (Some (choice_of subs h eo b'))"
    proof (cases "A = {}")
      case True
      with Cons.prems(1) False show ?thesis unfolding pick_holder_step by (auto simp: b'_def)
    next
      case nonempty: False
      obtain c d n t where ch: "choice_of subs h eo b = (c, d, n, t)" by (metis prod_cases4)
      with choice_of_key Cons.prems(2) nonempty have "Holder_Key c d = key_of subs b" by blast
      with Cons.prems(1) False nonempty ch show ?thesis
        unfolding pick_holder_step by (auto simp: b'_def)
    qed
    have "b' \<in> insert sid A \<and> holder_of subs h eo b' \<noteq> None
      \<and> (\<forall>s\<in>insert sid A. key_of subs b' \<le> key_of subs s)"
    proof (cases "A = {}")
      case True
      with False show ?thesis by (simp add: b'_def)
    next
      case nonempty: False
      with Cons.prems(2) False show ?thesis
        by (auto simp: b'_def not_less dest: less_imp_le intro: order_trans)
    qed
    from Cons.IH [of "Some (choice_of subs h eo b')" "insert sid A" b', OF _ this]
    show ?thesis unfolding set step by simp
  qed
qed

lemma pick_holder_best:
  "if (\<forall>s\<in>set sids. holder_of subs h eo s = None) then pick_holder subs h eo sids None = None
   else \<exists>b\<in>set sids. holder_of subs h eo b \<noteq> None
      \<and> pick_holder subs h eo sids None = Some (choice_of subs h eo b)
      \<and> (\<forall>s\<in>set sids. holder_of subs h eo s \<noteq> None \<longrightarrow> key_of subs b \<le> key_of subs s)"
  using pick_holder_min [of None "{}" subs h eo undefined sids] by (auto split: if_splits)

section \<open>Properties\<close>


text \<open>
  C2. A node lives exactly as long as some subscription holds it: after any run from a new pool,
  the references of the nodes are the set that additions insert into and removals delete from,
  repeated ones having no effect, and a node is in the pool if and only if it has a reference.
\<close>

theorem pool_refines_references:
  "let p = fst (fold (pool_step X cfg subs) ops (new_global_node_pool, ev));
       R = fold ref_step ops {} in
     refs_of (node_refs p) = R \<and> {h. get_entry p h \<noteq> None} = fst ` R"
proof -
  have run: "refs_of (node_refs (fst (fold (pool_step X cfg subs) ops s)))
        = fold ref_step ops (refs_of (node_refs (fst s)))
      \<and> refs_ok (node_refs (fst (fold (pool_step X cfg subs) ops s)))"
    if "refs_ok (node_refs (fst s))" for s
    using that
  proof (induction ops arbitrary: s)
    case (Cons op ops)
    from pool_step_refs [OF Cons.prems, of X cfg subs op] Cons.IH show ?case by simp
  qed simp
  have "node_refs new_global_node_pool = (\<lambda>_. None)"
    by (simp add: node_refs_def [abs_def] new_global_node_pool_def)
  then have n: "refs_ok (node_refs (fst (new_global_node_pool, ev)))"
    "refs_of (node_refs (fst (new_global_node_pool, ev))) = {}"
    by (simp_all add: refs_ok_def refs_of_def)
  let ?p = "fst (fold (pool_step X cfg subs) ops (new_global_node_pool, ev))"
  from run [OF n(1)] n(2)
  have r: "refs_of (node_refs ?p) = fold ref_step ops {}" "refs_ok (node_refs ?p)" by simp_all
  have "fst ` refs_of f = {h. f h \<noteq> None}" if "refs_ok f" for f
  proof -
    have "h \<in> fst ` refs_of f" if "f h = Some ss" for h ss
    proof -
      from that \<open>refs_ok f\<close> obtain s ss' where "ss = s # ss'" by (cases ss) (auto simp: refs_ok_def)
      with that have "(h, s) \<in> refs_of f" by (simp add: refs_of_def)
      then show ?thesis by force
    qed
    then show ?thesis by (auto simp: refs_of_def)
  qed
  from this [OF r(2)] have "{h. get_entry ?p h \<noteq> None} = fst ` refs_of (node_refs ?p)"
    by (simp add: node_refs_def get_entry_def)
  with r(1) show ?thesis by (simp only: Let_def simp_thms)
qed

text \<open>
  C3. The circuit breaker: starting from a closed circuit with no failures, after any sequence of
  results the circuit of the node is open exactly if the limit is positive and at least that many
  of the last results in a row were failures; the counter is the length of that run, and one
  success closes the circuit again.
\<close>

theorem circuit_breaker_trace:
  assumes "m_load (pool_nodes p) h = Some e" "failure_count e = 0" "circuit_open_since e = 0"
    and "clock_ok ev" "length oks < 2 ^ 31"
  shows "\<exists>e'. m_load (pool_nodes (fst (fold (record_result cfg subs h) oks (p, ev)))) h = Some e'
     \<and> failure_count e' = int (trailing_failures oks)
     \<and> (is_circuit_open e' \<longleftrightarrow> 0 < max_consecutive_failures cfg
          \<and> max_consecutive_failures cfg \<le> int (trailing_failures oks))"
proof -
  have "clock_ok (snd (fold (record_result cfg subs h) oks (p, ev)))
    \<and> (\<exists>e'. m_load (pool_nodes (fst (fold (record_result cfg subs h) oks (p, ev)))) h = Some e'
     \<and> failure_count e' = int (trailing_failures oks)
     \<and> (is_circuit_open e' \<longleftrightarrow> 0 < max_consecutive_failures cfg
          \<and> max_consecutive_failures cfg \<le> int (trailing_failures oks)))"
    using assms(5)
  proof (induction oks rule: rev_induct)
    case Nil
    show ?case using assms(1-4) by (simp add: is_circuit_open_def)
  next
    case (snoc ok oks)
    obtain q ev1 where q: "fold (record_result cfg subs h) oks (p, ev) = (q, ev1)" by (rule prod.exhaust)
    from snoc q obtain e1 where e1: "m_load (pool_nodes q) h = Some e1" "clock_ok ev1"
      "failure_count e1 = int (trailing_failures oks)"
      "is_circuit_open e1 \<longleftrightarrow> 0 < max_consecutive_failures cfg
          \<and> max_consecutive_failures cfg \<le> int (trailing_failures oks)" by auto
    obtain q' ev2 where q': "record_result cfg subs h ok (q, ev1) = (q', ev2)" by (rule prod.exhaust)
    have "i32 (failure_count e1 + 1) = int (trailing_failures oks) + 1"
      using e1(3) snoc.prems trailing_failures_le [of oks] by (simp add: i32_id)
    with record_result_entry [OF e1(1,2) q'] e1 q q' show ?case by auto
  qed
  then show ?thesis by blast
qed

text \<open>
  C4. Replacing a platform is all or nothing: it succeeds exactly when the id is registered and
  the new name is free or already its own; on success the id and the new name lead to the new
  object, every other id and the names of other platforms are as before, and a name that was
  given up no longer leads anywhere; on failure neither index changes.
\<close>

theorem replace_platform_atomic:
  assumes "pool_ok cfg subs p" "r < length (plat_heap p)" "\<not> registered p r"
    and "replace_platform cfg subs r p = (q, err)"
  defines "pid \<equiv> plat_id (deref p r)" and "name \<equiv> plat_name (deref p r)"
  shows "(err = None \<longleftrightarrow> pid \<noteq> [] \<and> (\<exists>current. m_load (by_id p) pid = Some current
            \<and> (name = [] \<or> m_load (by_name p) name \<in> {None, Some current})))
     \<and> (err \<noteq> None \<longrightarrow> by_id q = by_id p \<and> by_name q = by_name p)
     \<and> (err = None \<longrightarrow> m_load (by_id q) = (m_load (by_id p))(pid \<mapsto> r)
          \<and> (\<forall>n. m_load (by_name q) n =
               (if n = name \<and> n \<noteq> [] then Some r
                else if m_load (by_name p) n = m_load (by_id p) pid then None
                else m_load (by_name p) n)))"
proof -
  note d = pool_okD [OF assms(1)]
  have "m_load (by_name q) n = (if n = name \<and> n \<noteq> [] then Some r
      else if m_load (by_name p) n = Some current then None else m_load (by_name p) n)"
    if q: "by_name q = replaced_names (rebuild_platform cfg subs r p) current r"
      and cur: "m_load (by_id p) pid = Some current" for current n
  proof -
    have "m_load (by_name p) n = Some current \<Longrightarrow>
        n = plat_name (deref p current) \<and> n \<noteq> []" for n
      using registry_name(1,2) [OF d(4)] by auto
    then show ?thesis
      unfolding q by (auto simp: replaced_names_def Let_def store_simps name_def
        rebuild_platform_names [OF assms(2)])
  qed
  with replace_platform_cases [OF assms(2,4), folded pid_def name_def] assms(4)
  show ?thesis
    by (auto simp: replace_platform_def Let_def store_simps pid_def name_def
      rebuild_platform_names [OF assms(2)] split: option.splits if_splits)
qed

text \<open>
  The display tag of a node in the request log: among the subscriptions that hold the node
  under a tag (the enabled ones if there are any, else all of them) the one created first decides,
  the smaller id on a tie, and of its tags the smallest, as \<open>name/tag\<close>.
\<close>

lemma display_tag_choice:
  assumes "has_sub_lookup cfg" "get_entry p h = Some e"
    and "eo = (\<exists>s\<in>set (subscription_ids e). holder_of subs h True s \<noteq> None)"
    and "sid \<in> set (subscription_ids e)" "holder_of subs h eo sid = Some (sub, ts)"
    and "\<forall>s\<in>set (subscription_ids e). holder_of subs h eo s \<noteq> None \<longrightarrow> key_of subs sid \<le> key_of subs s"
    and "t \<in> set ts" "\<forall>u\<in>set ts. \<not> str_less u t" "sub_name sub \<noteq> []" "t \<noteq> []"
  shows "resolve_node_display_tag cfg subs p h = sub_name sub @ ''/'' @ t"
proof -
  let ?sids = "subscription_ids e"
  have "ts \<noteq> []" using assms(7) by auto
  then have t: "smallest_tag ts = t"
    using smallest_tag_spec assms(7,8) str_less_linear [of t "smallest_tag ts"] by blast
  have none: "pick_tag subs h ?sids True = None" if "\<not> eo"
  proof -
    have "\<forall>s\<in>set ?sids. holder_of subs h True s = None" using that assms(3) by blast
    with pick_holder_best [of ?sids subs h True] have "pick_holder subs h True ?sids None = None"
      by presburger
    then show ?thesis by (simp add: pick_tag_def)
  qed
  obtain b where b: "b \<in> set ?sids" "holder_of subs h eo b \<noteq> None"
      "pick_holder subs h eo ?sids None = Some (choice_of subs h eo b)"
      "\<forall>s\<in>set ?sids. holder_of subs h eo s \<noteq> None \<longrightarrow> key_of subs b \<le> key_of subs s"
    using pick_holder_best [of ?sids subs h eo] assms(4,5) by (auto split: if_splits)
  with assms(4-6) have "key_of subs b = key_of subs sid" by (auto intro: antisym)
  then have "b = sid" by (simp add: key_of_def)
  with b(3) assms(5) t have "pick_tag subs h ?sids eo = Some (sub_name sub @ ''/'' @ t)"
    using assms(9,10) by (simp add: pick_tag_def choice_of_def)
  then show ?thesis
    using assms(1,2,4) none by (cases eo) (auto simp: resolve_node_display_tag_def)
qed

text \<open>
  Egress metadata: an attempt without address and location changes neither; a new address
  without a location clears the region, the same address keeps it; an explicit location always
  sets it. Routing is notified exactly when address or region changed.
\<close>

lemma egress_region_rules:
  "let (e', ip_changed, region_changed) = egress_probe X now ip loc e in
     get_egress_ip e' = (case ip of None \<Rightarrow> get_egress_ip e | Some a \<Rightarrow> a)
     \<and> get_egress_region e' = (case loc of
          Some l \<Rightarrow> to_lower (uni_lower X) (trim_space l)
        | None \<Rightarrow> if ip \<in> {None, Some (get_egress_ip e)} then get_egress_region e else [])
     \<and> ip_changed = (get_egress_ip e' \<noteq> get_egress_ip e)
     \<and> region_changed = (get_egress_region e' \<noteq> get_egress_region e)"
proof -
  obtain e' ipc rc where pr: "egress_probe X now ip loc e = (e', ipc, rc)" by (metis prod.exhaust)
  have set: "get_egress_region (set_egress_region X l q) = to_lower (uni_lower X) (trim_space l)" for l q
    by (simp add: set_egress_region_def get_egress_region_def Let_def)
  have "get_egress_ip e' = (case ip of None \<Rightarrow> get_egress_ip e | Some a \<Rightarrow> a)
    \<and> get_egress_region e' = (case loc of
          Some l \<Rightarrow> to_lower (uni_lower X) (trim_space l)
        | None \<Rightarrow> if ip \<in> {None, Some (get_egress_ip e)} then get_egress_region e else [])"
  proof (cases ip)
    case None
    with pr show ?thesis by (cases loc) (auto simp: egress_probe_def Let_def set)
  next
    case (Some a)
    with pr show ?thesis
      by (cases loc; cases "get_egress_ip e = a"; cases "get_egress_region e = []")
        (auto simp: egress_probe_def Let_def set)
  qed
  with egress_probe_changes [OF pr] show ?thesis by (simp add: pr)
qed

section \<open>Witnesses\<close>

definition sample_config :: pool_config where
  "sample_config = \<lparr>has_sub_lookup = True, geo_lookup = None, max_latency_entries = 2,
     max_consecutive_failures = 2, decay_window_cfg = None, authorities_cfg = None\<rparr>"

definition sample_sub :: subscription where
  "sample_sub = (new_subscription ''s'' ''sub'' ''u'' True False)
     \<lparr>managed := [(replicate 16 1, \<lparr>tags = [''b'', ''a''], evicted = False\<rparr>)]\<rparr>"

definition sample_store :: sub_store where
  "sample_store = [(''s'', sample_sub)]"

definition sample_pool :: node_pool where
  "sample_pool = new_global_node_pool
     \<lparr>pool_nodes := [(replicate 16 1, sample_entry)], plat_heap := [sample_platform, sample_platform],
      by_id := [(''p'', 0)], by_name := [(''n'', 0)]\<rparr>"

definition all_ops :: "pool_op list" where
  "all_ops = [Create_Platform sample_platform, Add_Node (replicate 16 1) ''{}'' ''s'',
     Probe_Result (replicate 16 1) True, Outbound_Changed (replicate 16 1) True,
     Egress_Sample (replicate 16 1) (Some (V4 1)) None,
     Latency_Sample (replicate 16 1) ''b'' (Some 5)]"

theorem circuit_breaker_trace_witness:
  "\<exists>e'. m_load (pool_nodes (fst (fold (record_result sample_config sample_store (replicate 16 1))
      [True, False, False] (sample_pool, \<lparr>draws = [], clock = [5]\<rparr>)))) (replicate 16 1) = Some e'
     \<and> is_circuit_open e'"
proof -
  have "m_load (pool_nodes sample_pool) (replicate 16 1) = Some sample_entry"
    by (simp add: sample_pool_def)
  from circuit_breaker_trace [OF this, of "\<lparr>draws = [], clock = [5]\<rparr>" "[True, False, False]"
      sample_config sample_store]
  show ?thesis
    by (auto simp: sample_entry_def new_node_entry_def clock_ok_def trailing_failures_def
        sample_config_def)
qed

definition sample_run :: "node_pool \<times> env" where
  "sample_run = fold (pool_step plain_external sample_config sample_store) all_ops
     (new_global_node_pool, \<lparr>draws = [], clock = [5]\<rparr>)"

lemma sample_run_values:
  "map_option (\<lambda>plat. view_contains (view plat) (replicate 16 1)) (get_platform (fst sample_run) ''p'')
     = Some True"
  "m_load (by_id (fst sample_run)) ''p'' = Some 0" "m_load (by_name (fst sample_run)) ''m'' = None"
  "length (plat_heap (fst sample_run)) = 1"
  by code_simp+

lemma all_ops_ok: "list_all pool_op_ok all_ops"
  by (simp add: all_ops_def sample_platform_def new_platform_def new_platform_with_tag_filter_def
      new_view_ok)

lemma sample_run_ok: "pool_ok sample_config sample_store (fst sample_run)"
  unfolding sample_run_def by (rule pm.run_inv [OF _ all_ops_ok]) (simp add: new_pool_ok)


theorem replace_platform_atomic_witness:
  "\<exists>p r q. alloc_platform (new_platform ''p'' ''m'' [] []) (fst sample_run) = (p, r)
     \<and> replace_platform sample_config sample_store r p = (q, None)
     \<and> m_load (by_id q) ''p'' = Some r \<and> m_load (by_name q) ''m'' = Some r"
proof -
  obtain p r where a: "alloc_platform (new_platform ''p'' ''m'' [] []) (fst sample_run) = (p, r)"
    by (rule prod.exhaust)
  obtain q err where q: "replace_platform sample_config sample_store r p = (q, err)" by (rule prod.exhaust)
  note ok = alloc_platform_ok [OF sample_run_ok a] and idx = alloc_platform_simps [OF a]
  have pl: "plat_id (deref p r) = ''p''" "plat_name (deref p r) = ''m''"
    by (simp_all add: ok(4) new_platform_def new_platform_with_tag_filter_def)
  have "m_load (by_id p) ''p'' = Some 0" "m_load (by_name p) ''m'' = None"
    using idx(5,6) sample_run_values(2,3) by simp_all
  with replace_platform_atomic [OF ok(1,3,2) q] pl a q show ?thesis by auto
qed

end
