(* ===== verification/Sub_Scheduler.thy ===== *)
theory Sub_Scheduler
  imports Node_Pool
begin

text \<open>
  \<open>internal/topology/subscription_scheduler.go\<close>, \<open>subscription_manager.go\<close>,
  \<open>subscription_cleanup.go\<close> and \<open>ephemeral_cleaner.go\<close>, with the two operations of
  \<open>internal/service/control_plane_subscription.go\<close> that drive them (deletion and cleanup): how a
  refresh of a subscription changes its managed nodes and the pool. Fetching and parsing happen
  outside the subscription's lock, so a refresh is two steps, and anything may happen in between.
\<close>

section \<open>State\<close>

datatype topo_event =
  Sub_Updated string | Node_Evicted string hash | Node_Reenabled hash | Node_Marked string hash

text \<open>
  The subscriptions of the manager, and the objects that left it but that a running refresh still
  holds. Subscription ids are fresh UUIDs, so an id stands for one object. The callbacks of the
  scheduler and the cleaner are a log.
\<close>

record topology =
  tp_pool :: node_pool
  tp_subs :: sub_store
  tp_orphans :: sub_store
  tp_env :: env
  tp_log :: "topo_event list"

definition sub_mgr_get :: "string \<Rightarrow> sub_store \<Rightarrow> subscription option" where
  "sub_mgr_get sid subs = m_load subs sid"

definition sub_mgr_register :: "subscription \<Rightarrow> sub_store \<Rightarrow> sub_store" where
  "sub_mgr_register s subs = m_store (sub_id s) s subs"

definition sub_mgr_unregister :: "string \<Rightarrow> sub_store \<Rightarrow> sub_store" where
  "sub_mgr_unregister sid subs = m_delete sid subs"

definition sub_object :: "string \<Rightarrow> topology \<Rightarrow> subscription option" where
  "sub_object sid t = (case sub_mgr_get sid (tp_subs t) of
     Some s \<Rightarrow> Some s | None \<Rightarrow> m_load (tp_orphans t) sid)"

definition set_object :: "string \<Rightarrow> subscription \<Rightarrow> topology \<Rightarrow> topology" where
  "set_object sid s t = (case sub_mgr_get sid (tp_subs t) of
     Some _ \<Rightarrow> t\<lparr>tp_subs := m_store sid s (tp_subs t)\<rparr>
   | None \<Rightarrow> t\<lparr>tp_orphans := m_store sid s (tp_orphans t)\<rparr>)"

definition topo_emit :: "topo_event \<Rightarrow> topology \<Rightarrow> topology" where
  "topo_emit ev t = t\<lparr>tp_log := tp_log t @ [ev]\<rparr>"

definition topo_now :: "topology \<Rightarrow> int \<times> topology" where
  "topo_now t = (let (now, ev) = time_now (tp_env t) in (now, t\<lparr>tp_env := ev\<rparr>))"

text \<open>The pool operations as the topology runs them: with the subscriptions of the moment.\<close>

definition topo_add :: "pool_config \<Rightarrow> hash \<Rightarrow> string \<Rightarrow> string \<Rightarrow> topology \<Rightarrow> topology" where
  "topo_add cfg h raw sid t =
     (let (p, ev) = add_node_from_sub cfg (tp_subs t) h raw sid (tp_pool t, tp_env t)
      in t\<lparr>tp_pool := p, tp_env := ev\<rparr>)"

definition topo_remove :: "pool_config \<Rightarrow> string \<Rightarrow> hash \<Rightarrow> topology \<Rightarrow> topology" where
  "topo_remove cfg sid h t = t\<lparr>tp_pool := remove_node_from_sub cfg (tp_subs t) h sid (tp_pool t)\<rparr>"

section \<open>A refresh\<close>

text \<open>What the attempt reads before it fetches.\<close>

record refresh_attempt =
  ra_seq :: int
  ra_url :: string
  ra_source_type :: string
  ra_user_agent :: string
  ra_content :: string
  ra_version :: int

definition begin_refresh :: "string \<Rightarrow> topology \<Rightarrow> refresh_attempt option \<times> topology" where
  "begin_refresh sid t =
     (case sub_object sid t of
        None \<Rightarrow> (None, t)
      | Some sub \<Rightarrow>
          let (_, t1) = topo_now t;
              (sub', seq) = next_attempt_seq sub
          in (Some \<lparr>ra_seq = seq, ra_url = sub_url sub', ra_source_type = get_source_type sub',
                ra_user_agent = user_agent sub', ra_content = sub_content sub',
                ra_version = config_version sub'\<rparr>, set_object sid sub' t1))"

text \<open>
  The fetcher (URL and user agent to error or body) and the parser (body to error or nodes) are
  the two parameters; the parser is a component of its own.
\<close>

record parsed_node =
  pn_tag :: string
  pn_raw :: string

type_synonym fetcher = "string \<Rightarrow> string \<Rightarrow> string + string"
type_synonym sub_parser = "string \<Rightarrow> string + parsed_node list"

definition refresh_body :: "fetcher \<Rightarrow> refresh_attempt \<Rightarrow> string + string" where
  "refresh_body fetch att =
     (if ra_source_type att = source_type_local then Inr (ra_content att)
      else fetch (ra_url att) (ra_user_agent att))"

fun build_refreshed ::
  "external \<Rightarrow> parsed_node list \<Rightarrow> managed_nodes \<times> (hash, string) amap
     \<Rightarrow> managed_nodes \<times> (hash, string) amap" where
  "build_refreshed X [] acc = acc"
| "build_refreshed X (n # ns) (refreshed, raws) =
     (let h = hash_from_raw_options X (pn_raw n);
          existing = (case load_node refreshed h of
            None \<Rightarrow> \<lparr>tags = [], evicted = False\<rparr> | Some m \<Rightarrow> m);
          refreshed' = store_node h (existing\<lparr>tags := tags existing @ [pn_tag n]\<rparr>) refreshed;
          raws' = (if m_load raws h = None then m_store h (pn_raw n) raws else raws)
      in build_refreshed X ns (refreshed', raws'))"

definition should_remove_unhealthy :: "node_entry \<Rightarrow> bool" where
  "should_remove_unhealthy e \<longleftrightarrow> is_circuit_open e \<or> \<not> has_outbound e \<and> last_error e \<noteq> []"

text \<open>With \<open>IncrementalAliveNodes\<close>, evicted nodes and nodes that are still healthy are kept.\<close>

definition keep_old_node :: "node_pool \<Rightarrow> hash \<times> managed_node \<Rightarrow> managed_nodes \<Rightarrow> managed_nodes" where
  "keep_old_node p hm merged =
     (if evicted (snd hm) then store_node (fst hm) (snd hm) merged
      else case get_entry p (fst hm) of
        Some e \<Rightarrow> if \<not> should_remove_unhealthy e then store_node (fst hm) (snd hm) merged else merged
      | None \<Rightarrow> merged)"

definition merge_managed ::
  "node_pool \<Rightarrow> subscription \<Rightarrow> managed_nodes \<Rightarrow> managed_nodes" where
  "merge_managed p sub refreshed =
     (if incremental_alive sub
      then fold (\<lambda>hm. store_node (fst hm) (snd hm)) (range_managed refreshed)
             (fold (keep_old_node p) (range_managed (managed sub)) new_managed_nodes)
      else refreshed)"

definition inherit_evicted :: "hash \<times> managed_node \<Rightarrow> managed_nodes \<Rightarrow> managed_nodes" where
  "inherit_evicted hm merged =
     (if \<not> evicted (snd hm) then merged
      else case load_node merged (fst hm) of
        None \<Rightarrow> merged
      | Some n \<Rightarrow> store_node (fst hm) (n\<lparr>evicted := True\<rparr>) merged)"

definition next_managed :: "node_pool \<Rightarrow> subscription \<Rightarrow> managed_nodes \<Rightarrow> managed_nodes" where
  "next_managed p sub refreshed =
     fold inherit_evicted (range_managed (managed sub)) (merge_managed p sub refreshed)"

text \<open>The body of the loops over the added and the kept hashes.\<close>

definition apply_node ::
  "pool_config \<Rightarrow> string \<Rightarrow> managed_nodes \<Rightarrow> (hash, string) amap \<Rightarrow> hash \<Rightarrow> topology \<Rightarrow> topology" where
  "apply_node cfg sid merged raws h t =
     (if (case load_node merged h of None \<Rightarrow> False | Some m \<Rightarrow> evicted m) then t
      else let raw = (case m_load raws h of None \<Rightarrow> [] | Some r \<Rightarrow> r);
               raw = (if raw = [] then (case get_entry (tp_pool t) h of
                        None \<Rightarrow> raw | Some e \<Rightarrow> raw_options e) else raw)
           in if raw = [] then t else topo_add cfg h raw sid t)"

definition stale_attempt :: "refresh_attempt \<Rightarrow> subscription \<Rightarrow> bool" where
  "stale_attempt att sub \<longleftrightarrow> config_version sub \<noteq> ra_version att \<or> last_applied_seq sub > ra_seq att"

definition apply_refresh ::
  "pool_config \<Rightarrow> string \<Rightarrow> refresh_attempt \<Rightarrow> managed_nodes \<times> (hash, string) amap \<Rightarrow> subscription
     \<Rightarrow> topology \<Rightarrow> topology" where
  "apply_refresh cfg sid att refreshed sub t =
     (let merged = next_managed (tp_pool t) sub (fst refreshed);
          (added, kept, removed) = diff_hashes (managed sub) merged;
          t1 = set_object sid (swap_managed_nodes merged sub) t;
          t2 = fold (apply_node cfg sid merged (snd refreshed)) added t1;
          t3 = fold (apply_node cfg sid merged (snd refreshed)) kept t2;
          t4 = fold (topo_remove cfg sid) removed t3;
          (now, t5) = topo_now t4
      in set_object sid (set_sub_last_error [] (mark_applied_attempt (ra_seq att)
           ((swap_managed_nodes merged sub)\<lparr>last_checked_ns := now, last_updated_ns := now\<rparr>))) t5)"

definition handle_update_failure ::
  "string \<Rightarrow> refresh_attempt \<Rightarrow> string \<Rightarrow> topology \<Rightarrow> topology" where
  "handle_update_failure sid att err t =
     (case sub_object sid t of
        None \<Rightarrow> t
      | Some sub \<Rightarrow>
          if stale_attempt att sub then t
          else let (now, t1) = topo_now t
               in topo_emit (Sub_Updated sid)
                    (set_object sid (set_sub_last_error err (sub\<lparr>last_checked_ns := now\<rparr>)) t1))"

definition finish_refresh ::
  "external \<Rightarrow> pool_config \<Rightarrow> fetcher \<Rightarrow> sub_parser \<Rightarrow> string \<Rightarrow> refresh_attempt \<Rightarrow> topology \<Rightarrow> topology" where
  "finish_refresh X cfg fetch parse sid att t =
     (case refresh_body fetch att of
        Inl err \<Rightarrow> handle_update_failure sid att err t
      | Inr body \<Rightarrow>
     (case parse body of
        Inl err \<Rightarrow> handle_update_failure sid att err t
      | Inr parsed \<Rightarrow>
          let refreshed = build_refreshed X parsed (new_managed_nodes, []) in
          (case sub_object sid t of
             None \<Rightarrow> t
           | Some sub \<Rightarrow>
               if stale_attempt att sub then t
               else topo_emit (Sub_Updated sid) (apply_refresh cfg sid att refreshed sub t))))"

definition update_subscription ::
  "external \<Rightarrow> pool_config \<Rightarrow> fetcher \<Rightarrow> sub_parser \<Rightarrow> string \<Rightarrow> topology \<Rightarrow> topology" where
  "update_subscription X cfg fetch parse sid t =
     (case begin_refresh sid t of
        (None, t1) \<Rightarrow> t1
      | (Some att, t1) \<Rightarrow> finish_refresh X cfg fetch parse sid att t1)"

section \<open>Which subscriptions are refreshed\<close>

definition scheduler_lookahead :: int where
  "scheduler_lookahead = 15000000000"

definition sub_due :: "int \<Rightarrow> subscription \<Rightarrow> bool" where
  "sub_due now s \<longleftrightarrow> sub_enabled s
     \<and> i64 (i64 (last_checked_ns s + update_interval_ns s) - scheduler_lookahead) \<le> now"

text \<open>
  \<open>runUpdatesWithWorkerLimit\<close> starts the refreshes in order until the stop signal; \<open>started\<close> is how
  many it started. They run concurrently; the runs below interleave their two steps freely.
\<close>

definition run_updates ::
  "external \<Rightarrow> pool_config \<Rightarrow> fetcher \<Rightarrow> sub_parser \<Rightarrow> nat \<Rightarrow> string list \<Rightarrow> topology \<Rightarrow> topology" where
  "run_updates X cfg fetch parse started sids t =
     fold (update_subscription X cfg fetch parse) (take started sids) t"

definition scheduler_tick ::
  "external \<Rightarrow> pool_config \<Rightarrow> fetcher \<Rightarrow> sub_parser \<Rightarrow> nat \<Rightarrow> topology \<Rightarrow> topology" where
  "scheduler_tick X cfg fetch parse started t =
     (let (now, t1) = topo_now t
      in run_updates X cfg fetch parse started
           (map fst (filter (\<lambda>ks. sub_due now (snd ks)) (tp_subs t1))) t1)"

definition force_refresh_all ::
  "external \<Rightarrow> pool_config \<Rightarrow> fetcher \<Rightarrow> sub_parser \<Rightarrow> nat \<Rightarrow> topology \<Rightarrow> topology" where
  "force_refresh_all X cfg fetch parse started t =
     run_updates X cfg fetch parse started (map fst (filter (\<lambda>ks. sub_enabled (snd ks)) (tp_subs t))) t"

section \<open>Enabling and renaming\<close>

definition live_managed :: "subscription \<Rightarrow> hash list" where
  "live_managed s = map fst (filter (\<lambda>hm. \<not> evicted (snd hm)) (range_managed (managed s)))"

definition set_subscription_enabled :: "pool_config \<Rightarrow> string \<Rightarrow> bool \<Rightarrow> topology \<Rightarrow> topology" where
  "set_subscription_enabled cfg sid b t =
     (case sub_object sid t of
        None \<Rightarrow> t
      | Some sub \<Rightarrow>
          let candidates = (if \<not> sub_enabled sub \<and> b then live_managed sub else []);
              was_disabled = filter (is_node_disabled cfg (tp_subs t) (tp_pool t)) candidates;
              t1 = set_object sid (set_enabled b sub) t;
              t2 = t1\<lparr>tp_pool := rebuild_all_platforms cfg (tp_subs t1) (tp_pool t1)\<rparr>;
              back = filter (\<lambda>h. \<not> is_node_disabled cfg (tp_subs t2) (tp_pool t2) h) was_disabled
          in topo_emit (Sub_Updated sid) (fold (\<lambda>h. topo_emit (Node_Reenabled h)) back t2))"

definition readd_node :: "pool_config \<Rightarrow> string \<Rightarrow> hash \<Rightarrow> topology \<Rightarrow> topology" where
  "readd_node cfg sid h t = (case get_entry (tp_pool t) h of
     None \<Rightarrow> t | Some e \<Rightarrow> topo_add cfg h (raw_options e) sid t)"

definition rename_subscription :: "pool_config \<Rightarrow> string \<Rightarrow> string \<Rightarrow> topology \<Rightarrow> topology" where
  "rename_subscription cfg sid name t =
     (case sub_object sid t of
        None \<Rightarrow> t
      | Some sub \<Rightarrow> fold (readd_node cfg sid) (live_managed sub) (set_object sid (set_name name sub) t))"

section \<open>Eviction\<close>

text \<open>
  The cleanup looks twice; \<open>between\<close> is what happens to the pool between the two scans.
\<close>

definition removable :: "(node_entry \<Rightarrow> bool) \<Rightarrow> node_pool \<Rightarrow> hash \<Rightarrow> bool" where
  "removable should p h = (case get_entry p h of None \<Rightarrow> False | Some e \<Rightarrow> should e)"

definition evict_marked :: "hash list \<Rightarrow> managed_nodes \<Rightarrow> managed_nodes" where
  "evict_marked hs mn = fold (\<lambda>hm. store_node (fst hm)
     (if fst hm \<in> set hs then (snd hm)\<lparr>evicted := True\<rparr> else snd hm)) (range_managed mn) new_managed_nodes"

definition cleanup_subscription_nodes ::
  "pool_config \<Rightarrow> string \<Rightarrow> (node_entry \<Rightarrow> bool) \<Rightarrow> (node_pool \<Rightarrow> node_pool) \<Rightarrow> topology
     \<Rightarrow> hash list \<times> topology" where
  "cleanup_subscription_nodes cfg sid should between t =
     (case sub_object sid t of
        None \<Rightarrow> ([], t)
      | Some sub \<Rightarrow>
          let candidates = filter (removable should (tp_pool t)) (live_managed sub) in
          if candidates = [] then ([], t)
          else let t1 = t\<lparr>tp_pool := between (tp_pool t)\<rparr>;
                   confirmed = filter (removable should (tp_pool t1)) candidates
               in if confirmed = [] then ([], t1)
                  else (confirmed, fold (topo_remove cfg sid) confirmed
                    (set_object sid (swap_managed_nodes (evict_marked confirmed (managed sub)) sub) t1)))"

definition should_evict_entry :: "int \<Rightarrow> int \<Rightarrow> node_entry \<Rightarrow> bool" where
  "should_evict_entry now delay e \<longleftrightarrow> \<not> has_outbound e \<and> last_error e \<noteq> []
     \<or> circuit_open_since e > 0 \<and> i64 (now - circuit_open_since e) > delay"

definition sweep_one_subscription ::
  "pool_config \<Rightarrow> (node_pool \<Rightarrow> node_pool) \<Rightarrow> int \<Rightarrow> string \<Rightarrow> topology \<Rightarrow> topology" where
  "sweep_one_subscription cfg between now sid t =
     (case sub_object sid t of
        None \<Rightarrow> t
      | Some sub \<Rightarrow>
          let (hs, t1) = cleanup_subscription_nodes cfg sid (should_evict_entry now (evict_delay_ns sub))
                between t
          in fold (\<lambda>h. topo_emit (Node_Evicted sid h)) hs t1)"

definition ephemeral_sweep :: "pool_config \<Rightarrow> (node_pool \<Rightarrow> node_pool) \<Rightarrow> topology \<Rightarrow> topology" where
  "ephemeral_sweep cfg between t =
     (let (now, t1) = topo_now t
      in fold (sweep_one_subscription cfg between now)
           (map fst (filter (\<lambda>ks. ephemeral (snd ks)) (tp_subs t1))) t1)"

section \<open>The control plane\<close>

datatype sub_service_error = Sub_Not_Found | Delete_Sub_Failed

text \<open>\<open>stored\<close> is the answer of the persistence engine to the deletion of the subscription.\<close>

definition delete_subscription ::
  "pool_config \<Rightarrow> sub_service_error option \<Rightarrow> string \<Rightarrow> topology \<Rightarrow> sub_service_error option \<times> topology" where
  "delete_subscription cfg stored sid t =
     (case sub_mgr_get sid (tp_subs t) of
        None \<Rightarrow> (Some Sub_Not_Found, t)
      | Some sub \<Rightarrow>
          (case stored of
             Some err \<Rightarrow> (Some err, t)
           | None \<Rightarrow>
               let t1 = fold (topo_remove cfg sid) (map fst (range_managed (managed sub))) t
               in (None, t1\<lparr>tp_subs := sub_mgr_unregister sid (tp_subs t1),
                     tp_orphans := m_store sid sub (tp_orphans t1)\<rparr>)))"

definition cleanup_circuit_open_nodes ::
  "pool_config \<Rightarrow> (node_pool \<Rightarrow> node_pool) \<Rightarrow> string \<Rightarrow> topology
     \<Rightarrow> (sub_service_error + nat) \<times> topology" where
  "cleanup_circuit_open_nodes cfg between sid t =
     (case sub_mgr_get sid (tp_subs t) of
        None \<Rightarrow> (Inl Sub_Not_Found, t)
      | Some sub \<Rightarrow>
          let (hs, t1) = cleanup_subscription_nodes cfg sid should_remove_unhealthy between t
          in (Inr (length hs), fold (\<lambda>h. topo_emit (Node_Marked sid h)) hs t1))"

text \<open>
  The settings of a subscription, after validation: creation builds an object that nothing holds
  yet; a change is written into the object, then renamed, then enabled or disabled.
\<close>

record sub_settings =
  ss_name :: string
  ss_url :: string
  ss_user_agent :: string
  ss_content :: string
  ss_interval_ns :: int
  ss_enabled :: bool
  ss_ephemeral :: bool
  ss_incremental :: bool
  ss_evict_delay_ns :: int

definition build_subscription :: "string \<Rightarrow> string \<Rightarrow> sub_settings \<Rightarrow> int \<Rightarrow> subscription" where
  "build_subscription sid srctype ss now =
     (set_evict_delay_ns (ss_evict_delay_ns ss) (set_incremental_alive (ss_incremental ss)
       (set_content (ss_content ss) (set_user_agent (ss_user_agent ss) (set_source_type srctype
         (set_fetch_config (ss_url ss) (ss_interval_ns ss)
           (new_subscription sid (ss_name ss) (ss_url ss) (ss_enabled ss) (ss_ephemeral ss))))))))
     \<lparr>sub_created_at_ns := now, sub_updated_at_ns := now\<rparr>"

definition create_subscription :: "string \<Rightarrow> string \<Rightarrow> sub_settings \<Rightarrow> topology \<Rightarrow> topology" where
  "create_subscription sid srctype ss t =
     (let (now, t1) = topo_now t
      in t1\<lparr>tp_subs := sub_mgr_register (build_subscription sid srctype ss now) (tp_subs t1)\<rparr>)"

definition write_settings :: "sub_settings \<Rightarrow> int \<Rightarrow> subscription \<Rightarrow> subscription" where
  "write_settings ss now sub =
     (set_evict_delay_ns (ss_evict_delay_ns ss) (set_incremental_alive (ss_incremental ss)
       (set_ephemeral (ss_ephemeral ss) (set_user_agent (ss_user_agent ss) (set_content (ss_content ss)
         (set_fetch_config (ss_url ss) (ss_interval_ns ss) sub))))))\<lparr>sub_updated_at_ns := now\<rparr>"

definition apply_settings :: "pool_config \<Rightarrow> string \<Rightarrow> sub_settings \<Rightarrow> topology \<Rightarrow> topology" where
  "apply_settings cfg sid ss t =
     (case sub_object sid t of
        None \<Rightarrow> t
      | Some sub \<Rightarrow>
          let (now, t1) = topo_now t;
              t2 = set_object sid (write_settings ss now sub) t1;
              t3 = (if ss_name ss \<noteq> sub_name sub then rename_subscription cfg sid (ss_name ss) t2 else t2)
          in if ss_enabled ss \<noteq> sub_enabled sub then set_subscription_enabled cfg sid (ss_enabled ss) t3
             else t3)"

section \<open>What routing sees of the subscriptions\<close>

lemma match_subs_cong:
  "(\<And>s. s \<in> set ids \<Longrightarrow> lk s h = lk' s h) \<Longrightarrow> match_subs f lk h ids acc = match_subs f lk' h ids acc"
proof (induction ids arbitrary: acc)
  case (Cons i ids)
  then show ?case by (cases acc) (auto split: option.split)
qed simp

lemma has_enabled_cong:
  "(\<And>s. s \<in> set ids \<Longrightarrow> lk s h = lk' s h) \<Longrightarrow> has_enabled_loop lk h ids = has_enabled_loop lk' h ids"
  by (induction ids) (auto split: option.split bool.split)

lemma evaluate_node_lookup:
  assumes "\<And>s. s \<in> set (subscription_ids e) \<Longrightarrow> lk s (node_hash e) = lk' s (node_hash e)"
  shows "evaluate_node q e (Some lk) geo = evaluate_node q e (Some lk') geo"
  using match_subs_cong [of "subscription_ids e" lk "node_hash e" lk'] assms
    has_enabled_cong [of "subscription_ids e" lk "node_hash e" lk']
  by (simp add: evaluate_node_def is_disabled_by_subscriptions_def has_enabled_subscription_def
      match_tag_filter_def)

lemma routable_lookup:
  assumes "entries_ok ns" "\<And>e s. m_load ns h = Some e \<Longrightarrow> s \<in> set (subscription_ids e) \<Longrightarrow> lk s h = lk' s h"
  shows "routable ns (Some lk) geo q h = routable ns (Some lk') geo q h"
proof (cases "m_load ns h")
  case (Some e)
  with assms(1) have "node_hash e = h" by (auto simp: entries_ok_def entry_ok_def)
  with evaluate_node_lookup [of e lk lk' q geo] Some assms(2) show ?thesis by (simp add: routable_def)
qed (simp add: routable_def)

text \<open>The nodes of the pool that a change of the subscriptions shows in another light.\<close>

definition reseen :: "pool_config \<Rightarrow> sub_store \<Rightarrow> sub_store \<Rightarrow> node_table \<Rightarrow> hash set" where
  "reseen cfg subs subs' ns =
     {h. \<exists>e s. m_load ns h = Some e \<and> s \<in> set (subscription_ids e)
        \<and> make_sub_lookup cfg subs s h \<noteq> make_sub_lookup cfg subs' s h}"

lemma change_subs:
  assumes "pool_ok cfg subs p"
  shows "pool_ok_but cfg subs' (reseen cfg subs subs' (pool_nodes p)) p"
proof -
  have en: "entries_ok (pool_nodes p)" using assms by (simp add: pool_ok_def)
  have same: "routable (pool_nodes p) (Some (make_sub_lookup cfg subs')) geo q h
      = routable (pool_nodes p) (Some (make_sub_lookup cfg subs)) geo q h"
    if "h \<notin> reseen cfg subs subs' (pool_nodes p)" for h q geo
    by (rule routable_lookup [OF en]) (use that in \<open>auto simp: reseen_def\<close>)
  have "view_ok (view (deref p r)) \<and> (\<forall>h. view_contains (view (deref p r)) h \<longleftrightarrow>
      routable (pool_nodes p) (Some (make_sub_lookup cfg subs)) (geo_lookup cfg) (deref p r) h)"
    if "registered p r" for r
    using assms that by (simp add: pool_ok_def views_ok_def view_coherent_def)
  then have "views_ok_but cfg subs' (reseen cfg subs subs' (pool_nodes p)) p"
    by (simp add: views_ok_but_def same)
  with assms show ?thesis by (simp add: pool_ok_def pool_ok_but_def)
qed

lemma change_subs_unseen:
  "pool_ok cfg subs p \<Longrightarrow> (\<And>s h. make_sub_lookup cfg subs' s h = make_sub_lookup cfg subs s h)
     \<Longrightarrow> pool_ok cfg subs' p"
  using change_subs [of cfg subs p subs'] by (simp add: pool_ok_empty reseen_def)

lemma pool_ok_but_mono: "pool_ok_but cfg subs H p \<Longrightarrow> H \<subseteq> H' \<Longrightarrow> pool_ok_but cfg subs H' p"
  unfolding pool_ok_but_def views_ok_but_def by blast

text \<open>Rewriting one subscription changes the lookup of its own nodes only.\<close>

lemma lookup_store:
  "make_sub_lookup cfg (m_store sid sub subs) s h =
     (if s = sid then make_sub_lookup cfg [(sid, sub)] s h else make_sub_lookup cfg subs s h)"
  by (simp add: make_sub_lookup_def store_simps)

lemma lookup_store_same:
  assumes "m_load subs sid = Some sub0" "sub_name sub = sub_name sub0" "sub_enabled sub = sub_enabled sub0"
    and "managed sub = managed sub0"
  shows "make_sub_lookup cfg (m_store sid sub subs) s h = make_sub_lookup cfg subs s h"
  using assms by (auto simp: make_sub_lookup_def store_simps split: option.split)

section \<open>Invariants of the topology\<close>

text \<open>
  The views agree with the pool and the subscriptions, and the pool holds a node for a subscription
  exactly as long as the subscription lists it as managed and not evicted; that goes for the
  registered subscriptions only, and every reference is to an object that existed.
\<close>

definition listed :: "sub_store \<Rightarrow> (hash \<times> string) set" where
  "listed subs = {(h, sid). \<exists>s m. m_load subs sid = Some s \<and> load_node (managed s) h = Some m \<and> \<not> evicted m}"

definition pool_refs :: "node_pool \<Rightarrow> (hash \<times> string) set" where
  "pool_refs p = refs_of (node_refs p)"

definition topo_ok :: "pool_config \<Rightarrow> topology \<Rightarrow> bool" where
  "topo_ok cfg t \<longleftrightarrow> pool_ok cfg (tp_subs t) (tp_pool t) \<and> refs_ok (node_refs (tp_pool t))
     \<and> (\<forall>h sid. (h, sid) \<in> pool_refs (tp_pool t) \<longrightarrow> sub_object sid t \<noteq> None)
     \<and> (\<forall>sid s. sub_object sid t = Some s \<longrightarrow> m_ok (managed s))"

definition held :: "node_pool \<Rightarrow> sub_store \<Rightarrow> (hash \<times> string) set" where
  "held p subs = {(h, s) \<in> pool_refs p. m_load subs s \<noteq> None}"

definition topo_agrees :: "topology \<Rightarrow> bool" where
  "topo_agrees t \<longleftrightarrow> held (tp_pool t) (tp_subs t) = listed (tp_subs t)"

lemma agrees_registered:
  "topo_agrees t \<Longrightarrow> m_load (tp_subs t) sid = Some sub \<Longrightarrow>
     (h, sid) \<in> pool_refs (tp_pool t) \<longleftrightarrow> (\<exists>m. load_node (managed sub) h = Some m \<and> \<not> evicted m)"
  unfolding topo_agrees_def by (drule eqset_imp_iff [of _ _ "(h, sid)"]) (simp add: held_def listed_def)

lemma held_store: "m_load subs sid \<noteq> None \<Longrightarrow> held p (m_store sid sub subs) = held p subs"
  by (auto simp: held_def store_simps)

lemma listed_store:
  "listed (m_store sid sub subs) = {(h, s) \<in> listed subs. s \<noteq> sid}
     \<union> {(h, s). s = sid \<and> (\<exists>m. load_node (managed sub) h = Some m \<and> \<not> evicted m)}"
  by (auto simp: listed_def store_simps split: if_splits)

lemma listed_delete: "listed (m_delete sid subs) = {(h, s) \<in> listed subs. s \<noteq> sid}"
  by (auto simp: listed_def store_simps split: if_splits)

lemma live_managed_set:
  assumes "m_ok (managed s)"
  shows "set (live_managed s) = {h. \<exists>m. load_node (managed s) h = Some m \<and> \<not> evicted m}"
  using assms by (auto simp: live_managed_def range_managed_def load_node_def m_ok_mem [symmetric] image_iff)

text \<open>Objects and registrations.\<close>

lemma object_registered: "m_load (tp_subs t) sid = Some s \<Longrightarrow> sub_object sid t = Some s"
  by (simp add: sub_object_def sub_mgr_get_def)

lemma set_object_simps [simp]:
  "tp_pool (set_object sid s t) = tp_pool t" "tp_env (set_object sid s t) = tp_env t"
  "tp_log (set_object sid s t) = tp_log t"
  by (simp_all add: set_object_def split: option.split)

lemma set_object_subs:
  "tp_subs (set_object sid s t) =
     (if m_load (tp_subs t) sid = None then tp_subs t else m_store sid s (tp_subs t))"
  by (simp add: set_object_def sub_mgr_get_def split: option.split)

lemma sub_object_set [simp]:
  "sub_object q (set_object sid s t) = (if q = sid then Some s else sub_object q t)"
  by (auto simp: sub_object_def set_object_def sub_mgr_get_def store_simps split: option.split)

lemma sub_object_upd [simp]:
  "sub_object q (t\<lparr>tp_pool := p\<rparr>) = sub_object q t" "sub_object q (t\<lparr>tp_env := ev\<rparr>) = sub_object q t"
  "sub_object q (topo_emit e t) = sub_object q t"
  by (simp_all add: sub_object_def topo_emit_def split: option.split)

lemma topo_emit_fields [simp]:
  "tp_pool (topo_emit e t) = tp_pool t" "tp_subs (topo_emit e t) = tp_subs t"
  "tp_env (topo_emit e t) = tp_env t" "tp_orphans (topo_emit e t) = tp_orphans t"
  by (simp_all add: topo_emit_def)

lemma topo_emit_simps [simp]:
  "topo_ok cfg (topo_emit e t) = topo_ok cfg t" "topo_agrees (topo_emit e t) = topo_agrees t"
  by (simp_all add: topo_ok_def topo_agrees_def)

lemma topo_env_simps [simp]:
  "topo_ok cfg (t\<lparr>tp_env := ev\<rparr>) = topo_ok cfg t" "topo_agrees (t\<lparr>tp_env := ev\<rparr>) = topo_agrees t"
  by (simp_all add: topo_ok_def topo_agrees_def)

lemma fold_emit_simps [simp]:
  "topo_ok cfg (fold (\<lambda>h. topo_emit (f h)) hs t) = topo_ok cfg t"
  "topo_agrees (fold (\<lambda>h. topo_emit (f h)) hs t) = topo_agrees t"
  by (induction hs arbitrary: t) simp_all

text \<open>Writing back an object without changing what routing sees of it.\<close>

lemma set_object_quiet:
  assumes "topo_ok cfg t" "sub_object sid t = Some sub0" "sub_name sub = sub_name sub0"
    and "sub_enabled sub = sub_enabled sub0" "managed sub = managed sub0"
  shows "topo_ok cfg (set_object sid sub t)" "topo_agrees (set_object sid sub t) = topo_agrees t"
proof -
  have reg: "sub0 = s" if "m_load (tp_subs t) sid = Some s" for s
    using assms(2) object_registered [OF that] by simp
  show "topo_ok cfg (set_object sid sub t)"
  proof (cases "m_load (tp_subs t) sid")
    case None
    with assms show ?thesis by (auto simp: topo_ok_def set_object_subs)
  next
    case (Some s)
    have "pool_ok cfg (m_store sid sub (tp_subs t)) (tp_pool t)"
      using change_subs_unseen [OF _ lookup_store_same [OF Some]] assms reg [OF Some]
      by (simp add: topo_ok_def)
    with Some assms show ?thesis by (auto simp: topo_ok_def set_object_subs)
  qed
  show "topo_agrees (set_object sid sub t) = topo_agrees t"
  proof (cases "m_load (tp_subs t) sid")
    case None
    then show ?thesis by (simp add: topo_agrees_def set_object_subs)
  next
    case (Some s)
    with reg [OF Some] assms(5) have "listed (m_store sid sub (tp_subs t)) = listed (tp_subs t)"
      by (auto simp: listed_store) (auto simp: listed_def)
    with Some show ?thesis by (simp add: topo_agrees_def set_object_subs held_store)
  qed
qed

section \<open>What a refresh computes\<close>

text \<open>The refreshed map: every hash with all its tags in order, nothing evicted.\<close>

definition tags_for :: "external \<Rightarrow> parsed_node list \<Rightarrow> hash \<Rightarrow> string list" where
  "tags_for X ns h = map pn_tag (filter (\<lambda>n. hash_from_raw_options X (pn_raw n) = h) ns)"

lemma build_refreshed_spec:
  assumes "build_refreshed X ns (mn, raws) = (mn', raws')" "m_ok mn"
  shows "m_ok mn'
    \<and> load_node mn' h = (case load_node mn h of
        Some m \<Rightarrow> Some (m\<lparr>tags := tags m @ tags_for X ns h\<rparr>)
      | None \<Rightarrow> if tags_for X ns h = [] then None else Some \<lparr>tags = tags_for X ns h, evicted = False\<rparr>)
    \<and> (\<forall>r. m_load raws' h = Some r \<longrightarrow> m_load raws h = Some r \<or> r \<in> pn_raw ` set ns)
    \<and> (m_load raws' h = None \<longrightarrow> m_load raws h = None \<and> tags_for X ns h = [])"
  using assms
proof (induction ns arbitrary: mn raws)
  case Nil
  then show ?case by (auto simp: tags_for_def split: option.split)
next
  case (Cons n ns)
  let ?h = "hash_from_raw_options X (pn_raw n)"
  define old where "old = (case load_node mn ?h of None \<Rightarrow> \<lparr>tags = [], evicted = False\<rparr> | Some m \<Rightarrow> m)"
  define mn1 where "mn1 = store_node ?h (old\<lparr>tags := tags old @ [pn_tag n]\<rparr>) mn"
  define raws1 where "raws1 = (if m_load raws ?h = None then m_store ?h (pn_raw n) raws else raws)"
  have run: "build_refreshed X ns (mn1, raws1) = (mn', raws')"
    using Cons.prems(1) by (simp add: Let_def mn1_def raws1_def old_def)
  have ok: "m_ok mn1" using Cons.prems(2) by (simp add: mn1_def mn.ok_put)
  have l: "load_node mn1 h = (if h = ?h then Some (old\<lparr>tags := tags old @ [pn_tag n]\<rparr>) else load_node mn h)"
    by (simp add: mn1_def mn.get_put)
  have t: "tags_for X (n # ns) h = (if h = ?h then [pn_tag n] else []) @ tags_for X ns h"
    by (simp add: tags_for_def)
  have r: "m_load raws1 h = (if h = ?h \<and> m_load raws h = None then Some (pn_raw n) else m_load raws h)"
    by (auto simp: raws1_def store_simps)
  from Cons.IH [OF run ok] show ?case
    unfolding l t r by (auto simp: old_def split: option.splits if_splits)
qed

lemma fold_store_managed:
  "distinct (map fst kvs) \<Longrightarrow> load_node (fold (\<lambda>hm. store_node (fst hm) (snd hm)) kvs acc) h
     = (case map_of kvs h of Some m \<Rightarrow> Some m | None \<Rightarrow> load_node acc h)"
  by (simp add: mn.get_fold_put map_add_def)

definition kept_old :: "node_pool \<Rightarrow> hash \<Rightarrow> managed_node \<Rightarrow> bool" where
  "kept_old p h m \<longleftrightarrow> evicted m \<or> (\<exists>e. get_entry p h = Some e \<and> \<not> should_remove_unhealthy e)"

lemma keep_old_node_eq:
  "keep_old_node p hm mn = (if kept_old p (fst hm) (snd hm) then store_node (fst hm) (snd hm) mn else mn)"
  by (auto simp: keep_old_node_def kept_old_def split: option.split)

lemma fold_keep_old:
  "distinct (map fst kvs) \<Longrightarrow> load_node (fold (keep_old_node p) kvs acc) h
     = (case map_of kvs h of Some m \<Rightarrow> if kept_old p h m then Some m else load_node acc h
        | None \<Rightarrow> load_node acc h)"
proof (induction kvs arbitrary: acc)
  case (Cons kv kvs)
  then have "map_of kvs (fst kv) = None" by (simp add: map_of_eq_None_iff)
  with Cons show ?case
    by (cases kv) (auto simp: keep_old_node_eq mn.get_put split: option.split)
qed simp

lemma fold_keep_ok: "m_ok acc \<Longrightarrow> m_ok (fold (keep_old_node p) kvs acc)"
  by (induction kvs arbitrary: acc) (auto simp: keep_old_node_eq mn.ok_put)

lemma fold_store_ok: "m_ok acc \<Longrightarrow> m_ok (fold (\<lambda>hm. store_node (fst hm) (f hm)) kvs acc)"
  by (induction kvs arbitrary: acc) (auto simp: mn.ok_put)

lemma inherit_evicted_load:
  "load_node (inherit_evicted hm mn) h = (if h = fst hm \<and> evicted (snd hm)
     then map_option (\<lambda>n. n\<lparr>evicted := True\<rparr>) (load_node mn h) else load_node mn h)"
  by (auto simp: inherit_evicted_def mn.get_put split: option.split)

lemma fold_inherit_load:
  "load_node (fold inherit_evicted kvs mn) h = (if \<exists>m. (h, m) \<in> set kvs \<and> evicted m
     then map_option (\<lambda>n. n\<lparr>evicted := True\<rparr>) (load_node mn h) else load_node mn h)"
proof (induction kvs arbitrary: mn)
  case (Cons kv kvs)
  obtain k m where kv: "kv = (k, m)" by (rule prod.exhaust)
  have "map_option (\<lambda>n. n\<lparr>evicted := True\<rparr>) (map_option (\<lambda>n. n\<lparr>evicted := True\<rparr>) x)
      = map_option (\<lambda>n. n\<lparr>evicted := True\<rparr>) x" for x :: "managed_node option"
    by (cases x) simp_all
  with Cons.IH [of "inherit_evicted kv mn"] show ?case
    by (auto simp: kv inherit_evicted_load)
qed simp

lemma fold_inherit_ok: "m_ok mn \<Longrightarrow> m_ok (fold inherit_evicted kvs mn)"
  by (induction kvs arbitrary: mn) (auto simp: inherit_evicted_def mn.ok_put split: option.split)

definition was_evicted :: "subscription \<Rightarrow> hash \<Rightarrow> bool" where
  "was_evicted sub h \<longleftrightarrow> (\<exists>m. load_node (managed sub) h = Some m \<and> evicted m)"

lemma executable_guards [code]:
  "was_evicted sub h = (case load_node (managed sub) h of None \<Rightarrow> False | Some m \<Rightarrow> evicted m)"
  "kept_old p h m = (evicted m \<or> (case get_entry p h of None \<Rightarrow> False | Some e \<Rightarrow> \<not> should_remove_unhealthy e))"
  by (auto simp: was_evicted_def kept_old_def split: option.split)

lemma next_managed_spec:
  assumes "m_ok (managed sub)" "m_ok refreshed"
  shows "m_ok (next_managed p sub refreshed)"
    and "load_node (next_managed p sub refreshed) h = (case load_node refreshed h of
        Some m \<Rightarrow> Some (m\<lparr>evicted := evicted m \<or> was_evicted sub h\<rparr>)
      | None \<Rightarrow> if \<not> incremental_alive sub then None
          else (case load_node (managed sub) h of
            None \<Rightarrow> None | Some m \<Rightarrow> if kept_old p h m then Some m else None))"
proof -
  have d: "distinct (map fst (range_managed mn))" "map_of (range_managed mn) = load_node mn"
    if "m_ok mn" for mn
    using that mn.items_get [of mn] mn.items_once [of mn] by simp_all
  have ok0: "m_ok new_managed_nodes" "load_node new_managed_nodes h = None" for h
    by (simp_all add: new_managed_nodes_def load_node_def)
  have ev: "(\<exists>m. (h, m) \<in> set (range_managed (managed sub)) \<and> evicted m) \<longleftrightarrow> was_evicted sub h" for h
    using assms(1) by (auto simp: was_evicted_def range_managed_def load_node_def m_ok_mem)
  show "m_ok (next_managed p sub refreshed)"
    by (auto simp: next_managed_def merge_managed_def assms(2) ok0
        intro!: fold_inherit_ok fold_store_ok fold_keep_ok)
  have merged: "load_node (merge_managed p sub refreshed) h = (case load_node refreshed h of
        Some m \<Rightarrow> Some m
      | None \<Rightarrow> if \<not> incremental_alive sub then None
          else (case load_node (managed sub) h of
            None \<Rightarrow> None | Some m \<Rightarrow> if kept_old p h m then Some m else None))"
    by (simp add: merge_managed_def fold_store_managed fold_keep_old d assms ok0 split: option.split)
  show "load_node (next_managed p sub refreshed) h = (case load_node refreshed h of
        Some m \<Rightarrow> Some (m\<lparr>evicted := evicted m \<or> was_evicted sub h\<rparr>)
      | None \<Rightarrow> if \<not> incremental_alive sub then None
          else (case load_node (managed sub) h of
            None \<Rightarrow> None | Some m \<Rightarrow> if kept_old p h m then Some m else None))"
    unfolding next_managed_def fold_inherit_load ev merged
    by (auto simp: was_evicted_def split: option.splits)
qed

section \<open>Working through the changed nodes\<close>

text \<open>A state in the middle of an operation: which nodes may disagree, and the references so far.\<close>

definition working :: "pool_config \<Rightarrow> hash set \<Rightarrow> (hash \<times> string) set \<Rightarrow> topology \<Rightarrow> bool" where
  "working cfg H R t \<longleftrightarrow> pool_ok_but cfg (tp_subs t) H (tp_pool t)
     \<and> refs_ok (node_refs (tp_pool t)) \<and> pool_refs (tp_pool t) = R"

definition same_subs :: "topology \<Rightarrow> topology \<Rightarrow> bool" where
  "same_subs t t' \<longleftrightarrow> tp_subs t' = tp_subs t \<and> tp_orphans t' = tp_orphans t"

lemma same_subs_refl [simp]: "same_subs t t"
  by (simp add: same_subs_def)

lemma same_subs_trans: "same_subs a b \<Longrightarrow> same_subs b c \<Longrightarrow> same_subs a c"
  by (simp add: same_subs_def)

lemma topo_add_working:
  assumes "working cfg H R t" "raw \<noteq> []"
  shows "working cfg (H - {h}) (insert (h, sid) R) (topo_add cfg h raw sid t)
    \<and> same_subs t (topo_add cfg h raw sid t)"
proof -
  obtain p ev where a: "add_node_from_sub cfg (tp_subs t) h raw sid (tp_pool t, tp_env t) = (p, ev)"
    by (rule prod.exhaust)
  have refs: "refs_ok (node_refs (tp_pool t))" using assms(1) by (simp add: working_def)
  from add_node_from_sub_but [of cfg "tp_subs t" H "tp_pool t" raw h sid "tp_env t"] assms
    refs_of_add [OF refs, of h sid] add_node_from_sub_refs [of cfg "tp_subs t" h raw sid "tp_pool t" "tp_env t"]
  show ?thesis by (simp add: topo_add_def a working_def pool_refs_def same_subs_def)
qed

lemma topo_remove_working:
  assumes "working cfg H R t"
  shows "working cfg (H - {h}) (R - {(h, sid)}) (topo_remove cfg sid h t)
    \<and> same_subs t (topo_remove cfg sid h t)"
proof -
  have refs: "refs_ok (node_refs (tp_pool t))" using assms(1) by (simp add: working_def)
  from remove_node_from_sub_but [of cfg "tp_subs t" H "tp_pool t" h sid] assms
    refs_of_remove [OF refs, of h sid] remove_node_from_sub_refs [of cfg "tp_subs t" h sid "tp_pool t"]
  show ?thesis by (simp add: topo_remove_def working_def pool_refs_def same_subs_def)
qed

lemma fold_remove_working:
  assumes "working cfg H R t"
  shows "working cfg (H - set hs) (R - set hs \<times> {sid}) (fold (topo_remove cfg sid) hs t)
    \<and> same_subs t (fold (topo_remove cfg sid) hs t)"
  using assms
proof (induction hs arbitrary: H R t)
  case (Cons h hs)
  note s = topo_remove_working [OF Cons.prems, of h sid]
  have "H - {h} - set hs = H - set (h # hs)"
    "R - {(h, sid)} - set hs \<times> {sid} = R - set (h # hs) \<times> {sid}" by auto
  with Cons.IH [OF conjunct1 [OF s]] s same_subs_trans show ?case by fastforce
qed simp

text \<open>A node is in the pool exactly if some subscription holds it.\<close>

lemma node_present:
  "refs_ok (node_refs p) \<Longrightarrow> m_load (pool_nodes p) h \<noteq> None \<longleftrightarrow> (\<exists>s. (h, s) \<in> pool_refs p)"
  by (fastforce simp: pool_refs_def refs_of_def node_refs_def refs_ok_def neq_Nil_conv)

definition skipped :: "managed_nodes \<Rightarrow> hash \<Rightarrow> bool" where
  "skipped merged h \<longleftrightarrow> (\<exists>m. load_node merged h = Some m \<and> evicted m)"

definition has_raw :: "(hash, string) amap \<Rightarrow> hash \<Rightarrow> bool" where
  "has_raw raws h \<longleftrightarrow> (\<exists>r. m_load raws h = Some r \<and> r \<noteq> [])"

lemma apply_node_working:
  assumes w: "working cfg H R t" and h: "h \<in> H \<Longrightarrow> \<not> skipped merged h \<and> (\<exists>s. (h, s) \<in> R)"
  shows "\<exists>Y. Y \<subseteq> {(h, sid)} \<and> working cfg (H - {h}) (R \<union> Y) (apply_node cfg sid merged raws h t)
    \<and> (skipped merged h \<longrightarrow> Y = {}) \<and> (\<not> skipped merged h \<longrightarrow> has_raw raws h \<longrightarrow> Y = {(h, sid)})
    \<and> same_subs t (apply_node cfg sid merged raws h t)"
proof -
  have sk: "(case load_node merged h of None \<Rightarrow> False | Some m \<Rightarrow> evicted m) = skipped merged h"
    by (auto simp: skipped_def split: option.split)
  define raw0 where "raw0 = (case m_load raws h of None \<Rightarrow> [] | Some r \<Rightarrow> r)"
  define raw where "raw = (if raw0 = [] then (case get_entry (tp_pool t) h of
      None \<Rightarrow> raw0 | Some e \<Rightarrow> raw_options e) else raw0)"
  have run: "apply_node cfg sid merged raws h t =
      (if skipped merged h then t else if raw = [] then t else topo_add cfg h raw sid t)"
    by (simp only: apply_node_def sk raw_def raw0_def Let_def)
  show ?thesis
  proof (cases "skipped merged h \<or> raw = []")
    case True
    have "h \<notin> H"
    proof
      assume "h \<in> H"
      with h w have "m_load (pool_nodes (tp_pool t)) h \<noteq> None" "\<not> skipped merged h"
        using node_present [of "tp_pool t" h] by (auto simp: working_def)
      moreover from this w have "\<exists>e. get_entry (tp_pool t) h = Some e \<and> raw_options e \<noteq> []"
        by (auto simp: working_def pool_ok_but_def entries_ok_def entry_ok_def get_entry_def)
      ultimately show False using True by (auto simp: raw_def split: if_splits)
    qed
    then have "H - {h} = H" by simp
    moreover have "\<not> skipped merged h \<Longrightarrow> \<not> has_raw raws h"
      using True by (auto simp: raw_def raw0_def has_raw_def split: if_splits option.splits)
    ultimately show ?thesis using w True run by (intro exI [of _ "{}"]) auto
  next
    case False
    with run topo_add_working [OF w, of raw h sid] show ?thesis
      by (intro exI [of _ "{(h, sid)}"]) simp
  qed
qed

lemma fold_apply_working:
  assumes "working cfg H R t" "\<And>h. h \<in> H \<Longrightarrow> h \<in> set hs \<Longrightarrow> \<not> skipped merged h"
    and "\<And>h. h \<in> H \<Longrightarrow> \<exists>s. (h, s) \<in> R"
  shows "\<exists>R'. working cfg (H - set hs) R' (fold (apply_node cfg sid merged raws) hs t)
    \<and> R \<subseteq> R' \<and> R' \<subseteq> R \<union> {(h, s). s = sid \<and> h \<in> set hs \<and> \<not> skipped merged h}
    \<and> (\<forall>h\<in>set hs. \<not> skipped merged h \<longrightarrow> has_raw raws h \<longrightarrow> (h, sid) \<in> R')
    \<and> same_subs t (fold (apply_node cfg sid merged raws) hs t)"
  using assms
proof (induction hs arbitrary: H R t)
  case (Cons h hs)
  let ?t = "apply_node cfg sid merged raws h t"
  have "\<exists>Y. Y \<subseteq> {(h, sid)} \<and> working cfg (H - {h}) (R \<union> Y) ?t
    \<and> (skipped merged h \<longrightarrow> Y = {}) \<and> (\<not> skipped merged h \<longrightarrow> has_raw raws h \<longrightarrow> Y = {(h, sid)})
    \<and> same_subs t ?t"
    by (rule apply_node_working [OF Cons.prems(1)]) (use Cons.prems(2,3) in auto)
  then obtain Y where Y: "Y \<subseteq> {(h, sid)}" "working cfg (H - {h}) (R \<union> Y) ?t"
    "skipped merged h \<longrightarrow> Y = {}" "\<not> skipped merged h \<longrightarrow> has_raw raws h \<longrightarrow> Y = {(h, sid)}"
    "same_subs t ?t" by blast
  have "\<exists>R'. working cfg (H - {h} - set hs) R' (fold (apply_node cfg sid merged raws) hs ?t)
    \<and> R \<union> Y \<subseteq> R' \<and> R' \<subseteq> R \<union> Y \<union> {(h, s). s = sid \<and> h \<in> set hs \<and> \<not> skipped merged h}
    \<and> (\<forall>h\<in>set hs. \<not> skipped merged h \<longrightarrow> has_raw raws h \<longrightarrow> (h, sid) \<in> R')
    \<and> same_subs ?t (fold (apply_node cfg sid merged raws) hs ?t)"
    by (rule Cons.IH [OF Y(2)]) (use Cons.prems(2,3) in auto)
  then obtain R' where R': "working cfg (H - {h} - set hs) R' (fold (apply_node cfg sid merged raws) hs ?t)"
    "R \<union> Y \<subseteq> R'" "R' \<subseteq> R \<union> Y \<union> {(h, s). s = sid \<and> h \<in> set hs \<and> \<not> skipped merged h}"
    "\<forall>h\<in>set hs. \<not> skipped merged h \<longrightarrow> has_raw raws h \<longrightarrow> (h, sid) \<in> R'"
    "same_subs ?t (fold (apply_node cfg sid merged raws) hs ?t)" by blast
  have "H - {h} - set hs = H - set (h # hs)" by auto
  with R' Y same_subs_trans [OF Y(5) R'(5)] show ?case
    by (intro exI [of _ R']) auto
qed auto

section \<open>Every operation keeps the invariants\<close>

lemma topo_okI:
  "working cfg {} R t \<Longrightarrow> (\<And>h s. (h, s) \<in> R \<Longrightarrow> sub_object s t \<noteq> None)
     \<Longrightarrow> (\<And>sid s. sub_object sid t = Some s \<Longrightarrow> m_ok (managed s)) \<Longrightarrow> topo_ok cfg t"
  by (simp add: topo_ok_def working_def pool_ok_empty)

lemma topo_ok_working:
  "topo_ok cfg t \<Longrightarrow> working cfg {} (pool_refs (tp_pool t)) t"
  by (simp add: topo_ok_def working_def pool_ok_empty)

text \<open>Installing a new version of a subscription, before the pool is told.\<close>

lemma install_working:
  assumes "topo_ok cfg t" "sub_object sid t = Some sub0"
  shows "working cfg (reseen cfg (tp_subs t) (tp_subs (set_object sid sub t)) (pool_nodes (tp_pool t)))
      (pool_refs (tp_pool t)) (set_object sid sub t)"
  using assms change_subs [of cfg "tp_subs t" "tp_pool t"]
  by (simp add: topo_ok_def working_def)

definition sub_lookup_of :: "subscription \<Rightarrow> hash \<Rightarrow> (string \<times> bool \<times> string list) option" where
  "sub_lookup_of sub h = (case load_node (managed sub) h of
     None \<Rightarrow> None | Some m \<Rightarrow> if evicted m then None else Some (sub_name sub, sub_enabled sub, tags m))"

lemma reseen_install:
  assumes "sub_object sid t = Some sub0"
    and "h \<in> reseen cfg (tp_subs t) (tp_subs (set_object sid sub t)) ns"
  shows "sub_lookup_of sub h \<noteq> sub_lookup_of sub0 h" "m_load ns h \<noteq> None"
    "m_load (tp_subs t) sid = Some sub0"
proof -
  have reg: "m_load (tp_subs t) sid \<noteq> None"
    using assms(2) by (cases "m_load (tp_subs t) sid") (auto simp: reseen_def set_object_subs)
  then show r: "m_load (tp_subs t) sid = Some sub0"
    using assms(1) by (auto simp: sub_object_def sub_mgr_get_def)
  show "m_load ns h \<noteq> None" using assms(2) by (auto simp: reseen_def)
  from assms(2) reg obtain s where
    "make_sub_lookup cfg (tp_subs t) s h \<noteq> make_sub_lookup cfg (m_store sid sub (tp_subs t)) s h"
    by (auto simp: reseen_def set_object_subs)
  then show "sub_lookup_of sub h \<noteq> sub_lookup_of sub0 h"
    using r by (auto simp: make_sub_lookup_def sub_lookup_of_def store_simps split: if_splits)
qed

lemma same_subs_object: "same_subs t t' \<Longrightarrow> sub_object sid t' = sub_object sid t"
  by (simp add: same_subs_def sub_object_def split: option.split)

text \<open>A refresh, when the parser gave every node its outbound options.\<close>

definition refreshed_ok :: "managed_nodes \<times> (hash, string) amap \<Rightarrow> bool" where
  "refreshed_ok r \<longleftrightarrow> m_ok (fst r)
     \<and> (\<forall>h m. load_node (fst r) h = Some m \<longrightarrow> \<not> evicted m \<and> has_raw (snd r) h)"

lemma build_refreshed_ok:
  assumes "\<And>n. n \<in> set ns \<Longrightarrow> pn_raw n \<noteq> []"
  shows "refreshed_ok (build_refreshed X ns (new_managed_nodes, []))"
proof -
  obtain mn raws where b: "build_refreshed X ns (new_managed_nodes, []) = (mn, raws)" by (rule prod.exhaust)
  have new: "m_ok new_managed_nodes" "load_node new_managed_nodes h = None" for h
    by (simp_all add: new_managed_nodes_def load_node_def)
  have "\<not> evicted m \<and> has_raw raws h" if m: "load_node mn h = Some m" for h m
  proof -
    note s = build_refreshed_spec [OF b new(1), of h, unfolded new]
    from s m have "\<not> evicted m" "tags_for X ns h \<noteq> []" by (auto split: if_splits)
    with s assms show ?thesis by (cases "m_load raws h") (auto simp: has_raw_def)
  qed
  with build_refreshed_spec [OF b new(1)] b show ?thesis by (auto simp: refreshed_ok_def)
qed

lemma apply_refresh_spec:
  assumes ok: "topo_ok cfg t" and sub: "sub_object sid t = Some sub" and r: "refreshed_ok refreshed"
    and t': "t' = apply_refresh cfg sid att refreshed sub t"
    and merged: "merged = next_managed (tp_pool t) sub (fst refreshed)"
  shows "topo_ok cfg t'"
    and "sub_object sid t' = Some (sub\<lparr>managed := merged, last_checked_ns := last_checked_ns (the (sub_object sid t')),
        last_updated_ns := last_checked_ns (the (sub_object sid t')), last_applied_seq := ra_seq att,
        sub_last_error := []\<rparr>)"
    and "\<exists>R. pool_refs (tp_pool t') = R - (dom (load_node (managed sub)) - dom (load_node merged)) \<times> {sid}
        \<and> pool_refs (tp_pool t) \<subseteq> R
        \<and> R \<subseteq> pool_refs (tp_pool t) \<union> {(h, s). s = sid \<and> (\<exists>m. load_node merged h = Some m \<and> \<not> evicted m)}
        \<and> (\<forall>h m. load_node merged h = Some m \<longrightarrow> \<not> evicted m \<longrightarrow> has_raw (snd refreshed) h \<longrightarrow> (h, sid) \<in> R)"
    and "tp_subs t' = (if m_load (tp_subs t) sid = None then tp_subs t
           else m_store sid (the (sub_object sid t')) (tp_subs t))"
proof -
  have mo: "m_ok (managed sub)" using ok sub by (simp add: topo_ok_def)
  have mm: "m_ok merged" using next_managed_spec(1) [OF mo] r by (simp add: merged refreshed_ok_def)
  obtain added kept removed where d: "diff_hashes (managed sub) merged = (added, kept, removed)"
    by (metis prod.exhaust)
  note ds = diff_hashes_sets [OF d]
  let ?sub1 = "swap_managed_nodes merged sub"
  define t1 where "t1 = set_object sid ?sub1 t"
  define t2 where "t2 = fold (apply_node cfg sid merged (snd refreshed)) added t1"
  define t3 where "t3 = fold (apply_node cfg sid merged (snd refreshed)) kept t2"
  define t4 where "t4 = fold (topo_remove cfg sid) removed t3"
  obtain now ev where now: "time_now (tp_env t4) = (now, ev)" by (rule prod.exhaust)
  let ?fin = "?sub1\<lparr>last_checked_ns := now, last_updated_ns := now, last_applied_seq := ra_seq att,
      sub_last_error := []\<rparr>"
  have t'4: "t' = set_object sid ?fin (t4\<lparr>tp_env := ev\<rparr>)"
    using now by (simp add: t' apply_refresh_def merged [symmetric] d topo_now_def Let_def set_sub_last_error_def
        mark_applied_attempt_def swap_managed_nodes_def t4_def t3_def t2_def t1_def)
  define H where "H = reseen cfg (tp_subs t) (tp_subs t1) (pool_nodes (tp_pool t))"
  have w1: "working cfg H (pool_refs (tp_pool t)) t1"
    using install_working [OF ok sub, of ?sub1] by (simp add: H_def t1_def)
  have hh: "\<not> skipped merged h \<and> (\<exists>s. (h, s) \<in> pool_refs (tp_pool t)) \<and> h \<in> set added \<union> set kept \<union> set removed"
    if "h \<in> H" for h
  proof -
    from reseen_install [OF sub, of h cfg ?sub1 "pool_nodes (tp_pool t)"] that
    have diff: "sub_lookup_of ?sub1 h \<noteq> sub_lookup_of sub h" and m: "m_load (pool_nodes (tp_pool t)) h \<noteq> None"
      by (auto simp: H_def t1_def)
    have "\<not> skipped merged h"
    proof
      assume "skipped merged h"
      then have "was_evicted sub h"
        using next_managed_spec(2) [OF mo, of "fst refreshed" "tp_pool t" h] r
        by (auto simp: merged skipped_def refreshed_ok_def was_evicted_def split: option.splits if_splits)
      with \<open>skipped merged h\<close> diff show False
        by (auto simp: sub_lookup_of_def skipped_def was_evicted_def swap_managed_nodes_def)
    qed
    moreover have "h \<in> dom (load_node merged) \<union> dom (load_node (managed sub))"
      using diff by (auto simp: sub_lookup_of_def swap_managed_nodes_def split: option.splits)
    moreover have "\<exists>s. (h, s) \<in> pool_refs (tp_pool t)"
      using m node_present [of "tp_pool t" h] ok by (simp add: topo_ok_def)
    ultimately show ?thesis using ds by auto
  qed
  obtain R2 where R2: "working cfg (H - set added) R2 t2" "pool_refs (tp_pool t) \<subseteq> R2"
    "R2 \<subseteq> pool_refs (tp_pool t) \<union> {(h, s). s = sid \<and> h \<in> set added \<and> \<not> skipped merged h}"
    "\<forall>h\<in>set added. \<not> skipped merged h \<longrightarrow> has_raw (snd refreshed) h \<longrightarrow> (h, sid) \<in> R2" "same_subs t1 t2"
    using fold_apply_working [OF w1, of added merged sid "snd refreshed"] hh by (auto simp: t2_def)
  obtain R3 where R3: "working cfg (H - set added - set kept) R3 t3" "R2 \<subseteq> R3"
    "R3 \<subseteq> R2 \<union> {(h, s). s = sid \<and> h \<in> set kept \<and> \<not> skipped merged h}"
    "\<forall>h\<in>set kept. \<not> skipped merged h \<longrightarrow> has_raw (snd refreshed) h \<longrightarrow> (h, sid) \<in> R3" "same_subs t2 t3"
  proof -
    have "\<exists>R3. working cfg (H - set added - set kept) R3 t3 \<and> R2 \<subseteq> R3
        \<and> R3 \<subseteq> R2 \<union> {(h, s). s = sid \<and> h \<in> set kept \<and> \<not> skipped merged h}
        \<and> (\<forall>h\<in>set kept. \<not> skipped merged h \<longrightarrow> has_raw (snd refreshed) h \<longrightarrow> (h, sid) \<in> R3)
        \<and> same_subs t2 t3"
      unfolding t3_def by (rule fold_apply_working [OF R2(1)]) (use hh R2(2) in blast)+
    with that show thesis by blast
  qed
  have w4: "working cfg (H - set added - set kept - set removed) (R3 - set removed \<times> {sid}) t4"
    "same_subs t3 t4"
    using fold_remove_working [OF R3(1), of removed sid] by (simp_all add: t4_def)
  have "H - set added - set kept - set removed = {}" using hh by auto
  with w4(1) have w4': "working cfg {} (R3 - set removed \<times> {sid}) t4" by simp
  have ss: "same_subs t1 t4" using R2(5) R3(5) w4(2) same_subs_trans by blast
  have ok4: "topo_ok cfg t4"
  proof (rule topo_okI [OF w4'])
    fix q s assume "sub_object q t4 = Some s"
    with same_subs_object [OF ss] mm ok show "m_ok (managed s)"
      by (auto simp: t1_def topo_ok_def swap_managed_nodes_def split: if_splits)
  next
    fix h s assume "(h, s) \<in> R3 - set removed \<times> {sid}"
    then have "s = sid \<or> (h, s) \<in> pool_refs (tp_pool t)" using R2(3) R3(3) by blast
    with ok have "s = sid \<or> sub_object s t \<noteq> None" by (auto simp: topo_ok_def)
    with same_subs_object [OF ss, of s] show "sub_object s t4 \<noteq> None" by (auto simp: t1_def)
  qed
  have obj4: "sub_object sid (t4\<lparr>tp_env := ev\<rparr>) = Some ?sub1"
    using same_subs_object [OF ss, of sid] by (simp add: t1_def)
  show "topo_ok cfg t'"
    unfolding t'4 by (rule set_object_quiet(1) [OF _ obj4]) (use ok4 in simp_all)
  have fin: "sub_object sid t' = Some ?fin" by (simp add: t'4)
  show "sub_object sid t' = Some (sub\<lparr>managed := merged, last_checked_ns := last_checked_ns (the (sub_object sid t')),
        last_updated_ns := last_checked_ns (the (sub_object sid t')), last_applied_seq := ra_seq att,
        sub_last_error := []\<rparr>)"
    unfolding fin by (simp add: swap_managed_nodes_def)
  have refs: "pool_refs (tp_pool t') = R3 - set removed \<times> {sid}"
    using w4' by (simp add: t'4 working_def)
  show "\<exists>R. pool_refs (tp_pool t') = R - (dom (load_node (managed sub)) - dom (load_node merged)) \<times> {sid}
        \<and> pool_refs (tp_pool t) \<subseteq> R
        \<and> R \<subseteq> pool_refs (tp_pool t) \<union> {(h, s). s = sid \<and> (\<exists>m. load_node merged h = Some m \<and> \<not> evicted m)}
        \<and> (\<forall>h m. load_node merged h = Some m \<longrightarrow> \<not> evicted m \<longrightarrow> has_raw (snd refreshed) h \<longrightarrow> (h, sid) \<in> R)"
  proof (intro exI [of _ R3] conjI)
    show "pool_refs (tp_pool t') = R3 - (dom (load_node (managed sub)) - dom (load_node merged)) \<times> {sid}"
      using refs ds(3) by simp
    show "pool_refs (tp_pool t) \<subseteq> R3" using R2(2) R3(2) by blast
    show "R3 \<subseteq> pool_refs (tp_pool t) \<union> {(h, s). s = sid \<and> (\<exists>m. load_node merged h = Some m \<and> \<not> evicted m)}"
    proof
      fix x assume "x \<in> R3"
      moreover have "\<exists>m. load_node merged h = Some m \<and> \<not> evicted m"
        if "h \<in> set added \<union> set kept" "\<not> skipped merged h" for h
        using that ds by (auto simp: skipped_def)
      ultimately show "x \<in> pool_refs (tp_pool t)
          \<union> {(h, s). s = sid \<and> (\<exists>m. load_node merged h = Some m \<and> \<not> evicted m)}"
        using R2(3) R3(3) by blast
    qed
    show "\<forall>h m. load_node merged h = Some m \<longrightarrow> \<not> evicted m \<longrightarrow> has_raw (snd refreshed) h \<longrightarrow> (h, sid) \<in> R3"
    proof (intro allI impI)
      fix h m assume m: "load_node merged h = Some m" "\<not> evicted m" "has_raw (snd refreshed) h"
      then have "h \<in> set added \<union> set kept" "\<not> skipped merged h" using ds by (auto simp: skipped_def)
      with m(3) R2(4) R3(2,4) show "(h, sid) \<in> R3" by blast
    qed
  qed
  show "tp_subs t' = (if m_load (tp_subs t) sid = None then tp_subs t
           else m_store sid (the (sub_object sid t')) (tp_subs t))"
    using ss unfolding fin by (simp add: t'4 set_object_subs same_subs_def t1_def store_simps)
qed

lemma apply_refresh_agrees:
  assumes ok: "topo_ok cfg t" "topo_agrees t" and sub: "sub_object sid t = Some sub"
    and r: "refreshed_ok refreshed"
  shows "topo_agrees (apply_refresh cfg sid att refreshed sub t)"
proof -
  let ?t' = "apply_refresh cfg sid att refreshed sub t"
  define merged where "merged = next_managed (tp_pool t) sub (fst refreshed)"
  note spec = apply_refresh_spec [OF ok(1) sub r refl [of ?t'] merged_def]
  from spec(3) obtain R where R: "pool_refs (tp_pool ?t') = R - (dom (load_node (managed sub)) - dom (load_node merged)) \<times> {sid}"
    "pool_refs (tp_pool t) \<subseteq> R"
    "R \<subseteq> pool_refs (tp_pool t) \<union> {(h, s). s = sid \<and> (\<exists>m. load_node merged h = Some m \<and> \<not> evicted m)}"
    "\<forall>h m. load_node merged h = Some m \<longrightarrow> \<not> evicted m \<longrightarrow> has_raw (snd refreshed) h \<longrightarrow> (h, sid) \<in> R"
    by blast
  show ?thesis
  proof (cases "m_load (tp_subs t) sid")
    case None
    then have "held (tp_pool ?t') (tp_subs t) = held (tp_pool t) (tp_subs t)"
      using R by (auto simp: held_def)
    with None ok(2) spec(4) show ?thesis by (simp add: topo_agrees_def)
  next
    case (Some sub0)
    then have s0: "m_load (tp_subs t) sid = Some sub" using sub object_registered by fastforce
    have mo: "m_ok (managed sub)" using ok(1) sub by (simp add: topo_ok_def)
    have mrg: "(h, sid) \<in> R \<and> h \<in> dom (load_node merged)
        \<longleftrightarrow> (\<exists>m. load_node merged h = Some m \<and> \<not> evicted m)" for h
    proof -
      have old: "(h, sid) \<in> pool_refs (tp_pool t) \<longleftrightarrow> (\<exists>m. load_node (managed sub) h = Some m \<and> \<not> evicted m)"
        by (rule agrees_registered [OF ok(2) s0])
      note nm = next_managed_spec(2) [OF mo, of "fst refreshed" "tp_pool t" h, folded merged_def]
      show ?thesis
      proof
        assume l: "(h, sid) \<in> R \<and> h \<in> dom (load_node merged)"
        show "\<exists>m. load_node merged h = Some m \<and> \<not> evicted m"
        proof (cases "(h, sid) \<in> pool_refs (tp_pool t)")
          case True
          with old obtain m where "load_node (managed sub) h = Some m" "\<not> evicted m" by blast
          with nm l r show ?thesis
            by (auto simp: refreshed_ok_def was_evicted_def split: option.splits if_splits)
        qed (use l R(3) in blast)
      next
        assume "\<exists>m. load_node merged h = Some m \<and> \<not> evicted m"
        then obtain m where m: "load_node merged h = Some m" "\<not> evicted m" by blast
        show "(h, sid) \<in> R \<and> h \<in> dom (load_node merged)"
        proof (cases "load_node (fst refreshed) h")
          case None
          with nm m r have "load_node (managed sub) h = Some m" by (auto simp: refreshed_ok_def split: option.splits if_splits)
          with old m R(2) show ?thesis by auto
        next
          case (Some m')
          with r have "has_raw (snd refreshed) h" by (auto simp: refreshed_ok_def)
          with m R(4) show ?thesis by auto
        qed
      qed
    qed
    obtain S where S: "sub_object sid ?t' = Some S" "managed S = merged"
      using spec(2) by (auto dest: arg_cong [of _ _ "map_option managed"])
    have subs': "tp_subs ?t' = m_store sid S (tp_subs t)" using spec(4) s0 S(1) by simp
    have "held (tp_pool ?t') (tp_subs ?t') = {(h, s) \<in> held (tp_pool t) (tp_subs t). s \<noteq> sid}
        \<union> {(h, s). s = sid \<and> (h, sid) \<in> R \<and> \<not> (h \<in> dom (load_node (managed sub)) \<and> h \<notin> dom (load_node merged))}"
      using R s0 unfolding subs' by (auto simp: held_def store_simps)
    moreover have "(h, sid) \<in> R \<Longrightarrow> h \<in> dom (load_node (managed sub)) \<or> h \<in> dom (load_node merged)" for h
      using R(3) agrees_registered [OF ok(2) s0] by blast
    ultimately have "held (tp_pool ?t') (tp_subs ?t') = {(h, s) \<in> held (tp_pool t) (tp_subs t). s \<noteq> sid}
        \<union> {(h, s). s = sid \<and> (\<exists>m. load_node merged h = Some m \<and> \<not> evicted m)}"
      using mrg by blast
    with ok(2) S(2) show ?thesis
      unfolding topo_agrees_def subs' by (simp add: listed_store)
  qed
qed

text \<open>Both invariants at once.\<close>

definition topo_inv :: "pool_config \<Rightarrow> topology \<Rightarrow> bool" where
  "topo_inv cfg t \<longleftrightarrow> topo_ok cfg t \<and> topo_agrees t"

lemma topo_inv_simps [simp]:
  "topo_inv cfg (topo_emit e t) = topo_inv cfg t"
  "topo_inv cfg (t\<lparr>tp_env := ev\<rparr>) = topo_inv cfg t"
  "topo_inv cfg (fold (\<lambda>h. topo_emit (f h)) hs t) = topo_inv cfg t"
  by (simp_all add: topo_inv_def)

lemma topo_inv_quiet:
  "topo_inv cfg t \<Longrightarrow> sub_object sid t = Some sub0 \<Longrightarrow> sub_name sub = sub_name sub0
     \<Longrightarrow> sub_enabled sub = sub_enabled sub0 \<Longrightarrow> managed sub = managed sub0
     \<Longrightarrow> topo_inv cfg (set_object sid sub t)"
  using set_object_quiet [of cfg t sid sub0 sub] by (simp add: topo_inv_def)

lemma begin_refresh_inv:
  "topo_inv cfg t \<Longrightarrow> topo_inv cfg (snd (begin_refresh sid t))"
  by (auto simp: begin_refresh_def topo_now_def next_attempt_seq_def Let_def
      split: option.split prod.split intro!: topo_inv_quiet)

lemma handle_update_failure_inv:
  "topo_inv cfg t \<Longrightarrow> topo_inv cfg (handle_update_failure sid att err t)"
  by (auto simp: handle_update_failure_def topo_now_def set_sub_last_error_def Let_def
      split: option.split prod.split intro!: topo_inv_quiet)

definition parse_ok :: "sub_parser \<Rightarrow> bool" where
  "parse_ok parse \<longleftrightarrow> (\<forall>body ns n. parse body = Inr ns \<longrightarrow> n \<in> set ns \<longrightarrow> pn_raw n \<noteq> [])"

lemma finish_refresh_inv:
  assumes "topo_inv cfg t" "parse_ok parse"
  shows "topo_inv cfg (finish_refresh X cfg fetch parse sid att t)"
proof -
  have r: "refreshed_ok (build_refreshed X ns (new_managed_nodes, []))" if "parse body = Inr ns" for body ns
    using assms(2) that by (intro build_refreshed_ok) (auto simp: parse_ok_def)
  have "topo_inv cfg (apply_refresh cfg sid att (build_refreshed X ns (new_managed_nodes, [])) sub t)"
    if "parse body = Inr ns" "sub_object sid t = Some sub" for body ns sub
    using assms(1) that(2) r [OF that(1)] apply_refresh_spec(1) apply_refresh_agrees
    by (simp add: topo_inv_def)
  then show ?thesis
    using assms(1) handle_update_failure_inv [OF assms(1)]
    by (auto simp: finish_refresh_def Let_def split: sum.split option.split)
qed

text \<open>Nodes are taken out: the subscription is rewritten, then the pool is told.\<close>

lemma topo_ok_after:
  assumes "topo_ok cfg t" "sub_object sid t = Some sub0" "m_ok (managed sub)"
    and "working cfg {} R t'" "same_subs (set_object sid sub t) t'"
    and "R \<subseteq> pool_refs (tp_pool t) \<union> UNIV \<times> {sid}"
  shows "topo_ok cfg t'"
proof (rule topo_okI [OF assms(4)])
  note obj = same_subs_object [OF assms(5)]
  fix h s assume "(h, s) \<in> R"
  with assms(6) have "s = sid \<or> (h, s) \<in> pool_refs (tp_pool t)" by auto
  with assms(1) show "sub_object s t' \<noteq> None" by (auto simp: obj topo_ok_def)
next
  note obj = same_subs_object [OF assms(5)]
  fix q s assume "sub_object q t' = Some s"
  with assms(1,3) show "m_ok (managed s)" by (auto simp: obj topo_ok_def split: if_splits)
qed

lemma agrees_after:
  assumes "topo_agrees t" "sub_object sid t = Some sub0" "same_subs (set_object sid sub t) t'"
    and "pool_refs (tp_pool t') = {(h, s) \<in> pool_refs (tp_pool t). s \<noteq> sid} \<union> {(h, s). s = sid \<and> P h}"
    and "m_load (tp_subs t) sid \<noteq> None \<Longrightarrow> Collect P = {h. \<exists>m. load_node (managed sub) h = Some m \<and> \<not> evicted m}"
  shows "topo_agrees t'"
proof (cases "m_load (tp_subs t) sid")
  case None
  with assms(3) have "tp_subs t' = tp_subs t" by (simp add: same_subs_def set_object_subs)
  moreover have "held (tp_pool t') (tp_subs t) = held (tp_pool t) (tp_subs t)"
    using None assms(4) by (auto simp: held_def)
  ultimately show ?thesis using assms(1) by (simp add: topo_agrees_def)
next
  case (Some s)
  with assms(3) have subs': "tp_subs t' = m_store sid sub (tp_subs t)" by (simp add: same_subs_def set_object_subs)
  have "held (tp_pool t') (tp_subs t') = {(h, s) \<in> held (tp_pool t) (tp_subs t). s \<noteq> sid} \<union> Collect P \<times> {sid}"
    using assms(4) Some by (auto simp: subs' held_def store_simps)
  with assms(1,5) Some show ?thesis
    by (auto simp: topo_agrees_def subs' listed_store)
qed

text \<open>The two-scan cleanup. Between the scans the health of nodes may change, not their membership.\<close>

definition quiet_between :: "(node_pool \<Rightarrow> node_pool) \<Rightarrow> pool_config \<Rightarrow> sub_store \<Rightarrow> bool" where
  "quiet_between f cfg subs \<longleftrightarrow>
     (\<forall>p. pool_ok cfg subs p \<longrightarrow> pool_ok cfg subs (f p) \<and> node_refs (f p) = node_refs p)"

lemma topo_inv_quiet_between:
  assumes "topo_inv cfg t" "quiet_between f cfg (tp_subs t)"
  shows "topo_inv cfg (t\<lparr>tp_pool := f (tp_pool t)\<rparr>)"
  using assms by (simp add: topo_inv_def topo_ok_def topo_agrees_def quiet_between_def pool_refs_def held_def)

lemma evict_marked_load:
  assumes "m_ok mn"
  shows "m_ok (evict_marked hs mn)"
    and "load_node (evict_marked hs mn) h = map_option (\<lambda>m. if h \<in> set hs then m\<lparr>evicted := True\<rparr> else m) (load_node mn h)"
proof -
  let ?f = "\<lambda>hm. (fst hm, if fst hm \<in> set hs then (snd hm)\<lparr>evicted := True\<rparr> else snd hm)"
  have e: "evict_marked hs mn = fold (\<lambda>hm. store_node (fst hm) (snd hm)) (map ?f (range_managed mn)) new_managed_nodes"
    by (simp add: evict_marked_def fold_map o_def)
  have d: "distinct (map fst (map ?f (range_managed mn)))"
    using assms by (simp add: range_managed_def m_ok_def o_def)
  have m: "map_of (map ?f xs) h = map_option (\<lambda>m. if h \<in> set hs then m\<lparr>evicted := True\<rparr> else m) (map_of xs h)"
    for xs :: managed_nodes
    by (induction xs) auto
  have "load_node new_managed_nodes h = None" by (simp add: new_managed_nodes_def load_node_def)
  with fold_store_managed [OF d, of new_managed_nodes h] show
    "load_node (evict_marked hs mn) h = map_option (\<lambda>m. if h \<in> set hs then m\<lparr>evicted := True\<rparr> else m) (load_node mn h)"
    unfolding e m by (simp add: range_managed_def load_node_def split: option.split)
  show "m_ok (evict_marked hs mn)"
    unfolding evict_marked_def by (rule fold_store_ok) (simp add: new_managed_nodes_def)
qed

lemma evict_same: "m = m\<lparr>evicted := True\<rparr> \<longleftrightarrow> evicted m"
  by (cases m) auto

lemma evict_nodes_inv:
  assumes "topo_inv cfg t" "sub_object sid t = Some sub"
    and "t' = fold (topo_remove cfg sid) hs
               (set_object sid (swap_managed_nodes (evict_marked hs (managed sub)) sub) t)"
  shows "topo_inv cfg t'"
    and "pool_refs (tp_pool t') = pool_refs (tp_pool t) - set hs \<times> {sid}"
    and "sub_object sid t' = Some (sub\<lparr>managed := evict_marked hs (managed sub)\<rparr>)"
proof -
  let ?sub1 = "swap_managed_nodes (evict_marked hs (managed sub)) sub"
  let ?H = "reseen cfg (tp_subs t) (tp_subs (set_object sid ?sub1 t)) (pool_nodes (tp_pool t))"
  have ok: "topo_ok cfg t" "topo_agrees t" using assms(1) by (simp_all add: topo_inv_def)
  have mo: "m_ok (managed sub)" using ok(1) assms(2) by (simp add: topo_ok_def)
  note w = fold_remove_working [OF install_working [OF ok(1) assms(2), of ?sub1], of hs sid, folded assms(3)]
  have "h \<in> set hs" if "h \<in> ?H" for h
    using reseen_install(1) [OF assms(2) that]
    by (auto simp: sub_lookup_of_def swap_managed_nodes_def evict_marked_load(2) [OF mo] split: option.splits if_splits)
  then have "?H - set hs = {}" by blast
  with w have w': "working cfg {} (pool_refs (tp_pool t) - set hs \<times> {sid}) t'"
    and ss: "same_subs (set_object sid ?sub1 t) t'" by simp_all
  show refs: "pool_refs (tp_pool t') = pool_refs (tp_pool t) - set hs \<times> {sid}"
    using w' by (simp add: working_def)
  show "sub_object sid t' = Some (sub\<lparr>managed := evict_marked hs (managed sub)\<rparr>)"
    by (simp add: same_subs_object [OF ss] swap_managed_nodes_def)
  have "topo_ok cfg t'"
    by (rule topo_ok_after [OF ok(1) assms(2) _ w' ss])
      (auto simp: swap_managed_nodes_def evict_marked_load(1) [OF mo])
  moreover have "topo_agrees t'"
  proof (rule agrees_after [OF ok(2) assms(2) ss])
    show "pool_refs (tp_pool t') = {(h, s) \<in> pool_refs (tp_pool t). s \<noteq> sid}
        \<union> {(h, s). s = sid \<and> (h, sid) \<in> pool_refs (tp_pool t) \<and> h \<notin> set hs}"
      unfolding refs by auto
    assume "m_load (tp_subs t) sid \<noteq> None"
    then have reg: "m_load (tp_subs t) sid = Some sub" using assms(2) object_registered by fastforce
    show "Collect (\<lambda>h. (h, sid) \<in> pool_refs (tp_pool t) \<and> h \<notin> set hs)
        = {h. \<exists>m. load_node (managed ?sub1) h = Some m \<and> \<not> evicted m}"
      by (auto simp: agrees_registered [OF ok(2) reg] swap_managed_nodes_def evict_marked_load(2) [OF mo] evict_same
          split: if_splits)
  qed
  ultimately show "topo_inv cfg t'" by (simp add: topo_inv_def)
qed

lemma cleanup_spec:
  assumes "topo_inv cfg t" "sub_object sid t = Some sub" "quiet_between between cfg (tp_subs t)"
    and "cleanup_subscription_nodes cfg sid should between t = (hs, t')"
  shows "topo_inv cfg t'"
    and "set hs = {h. \<exists>m. load_node (managed sub) h = Some m \<and> \<not> evicted m
           \<and> removable should (tp_pool t) h \<and> removable should (between (tp_pool t)) h}"
    and "pool_refs (tp_pool t') = pool_refs (tp_pool t) - set hs \<times> {sid}"
    and "\<exists>sub'. sub_object sid t' = Some sub' \<and> (\<forall>h. load_node (managed sub') h
           = map_option (\<lambda>m. if h \<in> set hs then m\<lparr>evicted := True\<rparr> else m) (load_node (managed sub) h))"
proof -
  let ?t1 = "t\<lparr>tp_pool := between (tp_pool t)\<rparr>"
  have mo: "m_ok (managed sub)" using assms(1,2) by (simp add: topo_inv_def topo_ok_def)
  have inv1: "topo_inv cfg ?t1" by (rule topo_inv_quiet_between [OF assms(1,3)])
  have refs1: "pool_refs (between (tp_pool t)) = pool_refs (tp_pool t)"
    using assms(1,3) by (simp add: quiet_between_def topo_inv_def topo_ok_def pool_refs_def)
  define cand where "cand = filter (removable should (tp_pool t)) (live_managed sub)"
  define conf where "conf = filter (removable should (between (tp_pool t))) cand"
  have hs: "set conf = {h. \<exists>m. load_node (managed sub) h = Some m \<and> \<not> evicted m
           \<and> removable should (tp_pool t) h \<and> removable should (between (tp_pool t)) h}"
    by (auto simp: conf_def cand_def live_managed_set [OF mo])
  have res: "hs = conf \<and> t' = (if cand = [] then t else if conf = [] then ?t1
      else fold (topo_remove cfg sid) conf
        (set_object sid (swap_managed_nodes (evict_marked conf (managed sub)) sub) ?t1))"
    using assms(2,4) by (auto simp: cleanup_subscription_nodes_def Let_def cand_def [symmetric] conf_def
        split: if_splits)
  have obj1: "sub_object sid ?t1 = Some sub" using assms(2) by simp
  note ev = evict_nodes_inv [OF inv1 obj1 refl, of conf]
  show "set hs = {h. \<exists>m. load_node (managed sub) h = Some m \<and> \<not> evicted m
           \<and> removable should (tp_pool t) h \<and> removable should (between (tp_pool t)) h}"
    using res hs by simp
  show "topo_inv cfg t'" using res assms(1) inv1 ev(1) by auto
  show "pool_refs (tp_pool t') = pool_refs (tp_pool t) - set hs \<times> {sid}"
    using res refs1 ev(2) by (auto simp: conf_def)
  show "\<exists>sub'. sub_object sid t' = Some sub' \<and> (\<forall>h. load_node (managed sub') h
           = map_option (\<lambda>m. if h \<in> set hs then m\<lparr>evicted := True\<rparr> else m) (load_node (managed sub) h))"
  proof (cases "conf = []")
    case True
    with res obj1 assms(2) have "hs = []" "sub_object sid t' = Some sub" by (auto split: if_splits)
    then show ?thesis by (simp add: option.map_ident)
  next
    case False
    with res have "hs = conf" "sub_object sid t' = Some (sub\<lparr>managed := evict_marked conf (managed sub)\<rparr>)"
      using ev(3) by (auto simp: conf_def)
    then show ?thesis using evict_marked_load(2) [OF mo, of conf] by simp
  qed
qed

text \<open>Enabling, renaming, deletion.\<close>

lemma set_enabled_inv:
  assumes "topo_inv cfg t"
  shows "topo_inv cfg (set_subscription_enabled cfg sid b t)"
proof (cases "sub_object sid t")
  case None
  with assms show ?thesis by (simp add: set_subscription_enabled_def)
next
  case (Some sub)
  have ok: "topo_ok cfg t" "topo_agrees t" using assms by (simp_all add: topo_inv_def)
  define t1 where "t1 = set_object sid (set_enabled b sub) t"
  define t2 where "t2 = t1\<lparr>tp_pool := rebuild_all_platforms cfg (tp_subs t1) (tp_pool t1)\<rparr>"
  have "pool_ok cfg (tp_subs t1) (tp_pool t2)"
    using ok(1) rebuild_all_views [of "tp_pool t" cfg "tp_subs t1"] pool_ok_views [of cfg "tp_subs t" "tp_pool t"]
    by (simp add: t2_def t1_def topo_ok_def pool_ok_def)
  then have w: "working cfg {} (pool_refs (tp_pool t)) t2"
    using ok(1) by (simp add: working_def t2_def t1_def topo_ok_def pool_refs_def pool_ok_empty)
  have ss: "same_subs (set_object sid (set_enabled b sub) t) t2"
    by (simp add: same_subs_def t2_def t1_def)
  have mo: "m_ok (managed sub)" using ok(1) Some by (simp add: topo_ok_def)
  have "topo_ok cfg t2"
    by (rule topo_ok_after [OF ok(1) Some _ w ss]) (simp_all add: set_enabled_def mo)
  moreover have "topo_agrees t2"
  proof (rule agrees_after [OF ok(2) Some ss])
    show "pool_refs (tp_pool t2) = {(h, s) \<in> pool_refs (tp_pool t). s \<noteq> sid}
        \<union> {(h, s). s = sid \<and> (h, sid) \<in> pool_refs (tp_pool t)}"
      by (auto simp: t2_def t1_def pool_refs_def)
    assume "m_load (tp_subs t) sid \<noteq> None"
    then have "m_load (tp_subs t) sid = Some sub" using Some object_registered by fastforce
    then show "{h. (h, sid) \<in> pool_refs (tp_pool t)}
        = {h. \<exists>m. load_node (managed (set_enabled b sub)) h = Some m \<and> \<not> evicted m}"
      by (simp add: agrees_registered [OF ok(2)] set_enabled_def)
  qed
  ultimately show ?thesis
    by (simp add: set_subscription_enabled_def Some Let_def t1_def [symmetric] t2_def [symmetric] topo_inv_def)
qed

text \<open>Adding a node again is what the loop of a refresh does without new outbound options.\<close>

lemma readd_eq:
  assumes "working cfg H R t"
  shows "readd_node cfg sid h t = apply_node cfg sid [] [] h t"
  using assms
  by (auto simp: readd_node_def apply_node_def load_node_def working_def pool_ok_but_def entries_ok_def
      entry_ok_def get_entry_def split: option.split)

lemma fold_readd_eq:
  assumes "working cfg H R t" "\<And>h. h \<in> H \<Longrightarrow> \<exists>s. (h, s) \<in> R"
  shows "fold (readd_node cfg sid) hs t = fold (apply_node cfg sid [] []) hs t"
  using assms
proof (induction hs arbitrary: H R t)
  case (Cons h hs)
  have "\<not> skipped [] h" by (simp add: skipped_def load_node_def)
  with apply_node_working [OF Cons.prems(1), of h "[]" sid "[]"] Cons.prems(2) obtain Y where
    "working cfg (H - {h}) (R \<union> Y) (apply_node cfg sid [] [] h t)" by auto
  have "fold (readd_node cfg sid) hs (apply_node cfg sid [] [] h t)
      = fold (apply_node cfg sid [] []) hs (apply_node cfg sid [] [] h t)"
    by (rule Cons.IH [OF \<open>working cfg (H - {h}) (R \<union> Y) _\<close>]) (use Cons.prems(2) in blast)
  with readd_eq [OF Cons.prems(1)] show ?case by simp
qed simp

lemma rename_inv:
  assumes "topo_inv cfg t"
  shows "topo_inv cfg (rename_subscription cfg sid name t)"
proof (cases "sub_object sid t")
  case None
  with assms show ?thesis by (simp add: rename_subscription_def)
next
  case (Some sub)
  have ok: "topo_ok cfg t" "topo_agrees t" using assms by (simp_all add: topo_inv_def)
  have mo: "m_ok (managed sub)" using ok(1) Some by (simp add: topo_ok_def)
  let ?sub1 = "set_name name sub"
  let ?t1 = "set_object sid ?sub1 t"
  let ?t' = "fold (readd_node cfg sid) (live_managed sub) ?t1"
  define H where "H = reseen cfg (tp_subs t) (tp_subs ?t1) (pool_nodes (tp_pool t))"
  have w: "working cfg H (pool_refs (tp_pool t)) ?t1"
    using install_working [OF ok(1) Some] by (simp add: H_def)
  have live: "h \<in> set (live_managed sub)" if "h \<in> H" for h
    using reseen_install(1) [OF Some that [unfolded H_def]]
    by (auto simp: sub_lookup_of_def set_name_def live_managed_set [OF mo] split: option.splits if_splits)
  have refs: "\<exists>s. (h, s) \<in> pool_refs (tp_pool t)" if "h \<in> H" for h
    using reseen_install(2) [OF Some that [unfolded H_def]] node_present [of "tp_pool t" h] ok(1)
    by (simp add: topo_ok_def)
  have eq: "?t' = fold (apply_node cfg sid [] []) (live_managed sub) ?t1"
    by (rule fold_readd_eq [OF w]) (use refs in auto)
  have "\<exists>R'. working cfg (H - set (live_managed sub)) R' ?t' \<and> pool_refs (tp_pool t) \<subseteq> R'
      \<and> R' \<subseteq> pool_refs (tp_pool t) \<union> {(h, s). s = sid \<and> h \<in> set (live_managed sub) \<and> \<not> skipped [] h}
      \<and> (\<forall>h\<in>set (live_managed sub). \<not> skipped [] h \<longrightarrow> has_raw [] h \<longrightarrow> (h, sid) \<in> R') \<and> same_subs ?t1 ?t'"
    unfolding eq by (rule fold_apply_working [OF w]) (use refs in \<open>simp_all add: skipped_def load_node_def\<close>)
  then obtain R' where R': "working cfg (H - set (live_managed sub)) R' ?t'" "pool_refs (tp_pool t) \<subseteq> R'"
    "R' \<subseteq> pool_refs (tp_pool t) \<union> set (live_managed sub) \<times> {sid}" "same_subs ?t1 ?t'" by auto
  have "H - set (live_managed sub) = {}" using live by blast
  with R'(1) have w': "working cfg {} R' ?t'" by simp
  have "topo_ok cfg ?t'"
    by (rule topo_ok_after [OF ok(1) Some _ w' R'(4)]) (use mo R'(3) in \<open>auto simp: set_name_def\<close>)
  moreover have "topo_agrees ?t'"
  proof (rule agrees_after [OF ok(2) Some R'(4)])
    show "pool_refs (tp_pool ?t') = {(h, s) \<in> pool_refs (tp_pool t). s \<noteq> sid} \<union> {(h, s). s = sid \<and> (h, sid) \<in> R'}"
      using w' R'(2,3) by (auto simp: working_def)
    assume "m_load (tp_subs t) sid \<noteq> None"
    then have reg: "m_load (tp_subs t) sid = Some sub" using Some object_registered by fastforce
    show "{h. (h, sid) \<in> R'} = {h. \<exists>m. load_node (managed ?sub1) h = Some m \<and> \<not> evicted m}"
      using R'(2,3) agrees_registered [OF ok(2) reg] by (auto simp: set_name_def live_managed_set [OF mo])
  qed
  ultimately show ?thesis by (simp add: rename_subscription_def Some topo_inv_def)
qed

lemma delete_inv:
  assumes "topo_inv cfg t" "delete_subscription cfg stored sid t = (err, t')"
  shows "topo_inv cfg t'"
    and "m_load (tp_subs t) sid = Some sub \<Longrightarrow> stored = None \<Longrightarrow> err = None
       \<and> m_load (tp_subs t') sid = None \<and> sub_object sid t' = Some sub
       \<and> pool_refs (tp_pool t') = {(h, s) \<in> pool_refs (tp_pool t). s \<noteq> sid}"
proof -
  have ok: "topo_ok cfg t" "topo_agrees t" using assms by (simp_all add: topo_inv_def)
  have main: "topo_inv cfg t' \<and> m_load (tp_subs t') sid = None \<and> sub_object sid t' = Some sub
       \<and> pool_refs (tp_pool t') = {(h, s) \<in> pool_refs (tp_pool t). s \<noteq> sid}"
    if reg: "m_load (tp_subs t) sid = Some sub" and s: "stored = None" for sub
  proof -
    define hs where "hs = map fst (range_managed (managed sub))"
    define t1 where "t1 = fold (topo_remove cfg sid) hs t"
    have t': "t' = t1\<lparr>tp_subs := m_delete sid (tp_subs t1), tp_orphans := m_store sid sub (tp_orphans t1)\<rparr>"
      using assms(2) by (simp add: delete_subscription_def sub_mgr_get_def sub_mgr_unregister_def reg s
          t1_def hs_def Let_def)
    have w: "working cfg {} (pool_refs (tp_pool t) - set hs \<times> {sid}) t1" and ss: "same_subs t t1"
      using fold_remove_working [OF topo_ok_working [OF ok(1)], of hs sid] by (simp_all add: t1_def)
    have "h \<in> set hs" if "(h, sid) \<in> pool_refs (tp_pool t)" for h
      using that agrees_registered [OF ok(2) reg]
      by (force simp: hs_def range_managed_def load_node_def dest: map_of_SomeD)
    then have refs: "pool_refs (tp_pool t1) = {(h, s) \<in> pool_refs (tp_pool t). s \<noteq> sid}"
      using w by (auto simp: working_def)
    have rs: "reseen cfg (tp_subs t1) (tp_subs t') (pool_nodes (tp_pool t1)) = {}"
    proof -
      have False if "m_load (pool_nodes (tp_pool t1)) h = Some e" "s \<in> set (subscription_ids e)"
        "make_sub_lookup cfg (tp_subs t1) s h \<noteq> make_sub_lookup cfg (tp_subs t') s h" for h e s
      proof -
        have "s = sid" using that(3) by (auto simp: t' make_sub_lookup_def store_simps split: if_splits)
        moreover have "(h, s) \<in> pool_refs (tp_pool t1)" using that(1,2) by (simp add: pool_refs_def refs_of_def node_refs_def)
        ultimately show False by (simp add: refs)
      qed
      then show ?thesis by (auto simp: reseen_def)
    qed
    have "pool_ok cfg (tp_subs t1) (tp_pool t1)" using w by (simp add: working_def pool_ok_empty)
    from change_subs [OF this, of "tp_subs t'"] rs have "pool_ok cfg (tp_subs t') (tp_pool t1)"
      by (simp add: pool_ok_empty)
    moreover have obj: "sub_object q t' = sub_object q t" for q
      using ss reg by (auto simp: t' sub_object_def sub_mgr_get_def store_simps same_subs_def split: option.split)
    ultimately have "topo_ok cfg t'"
      using ok(1) w refs obj by (auto simp: topo_ok_def t' working_def)
    moreover have "held (tp_pool t') (tp_subs t') = {(h, s) \<in> held (tp_pool t) (tp_subs t). s \<noteq> sid}"
      using refs ss by (auto simp: t' held_def store_simps same_subs_def)
    then have "topo_agrees t'"
      using ok(2) ss by (simp add: topo_agrees_def t' listed_delete same_subs_def)
    ultimately show ?thesis
      using obj [of sid] object_registered [OF reg] refs by (simp add: topo_inv_def) (simp add: t' store_simps)
  qed
  show "topo_inv cfg t'"
  proof (cases "m_load (tp_subs t) sid = None \<or> stored \<noteq> None")
    case True
    with assms show ?thesis by (auto simp: delete_subscription_def sub_mgr_get_def split: option.splits)
  qed (use main in auto)
  show "m_load (tp_subs t) sid = Some sub \<Longrightarrow> stored = None \<Longrightarrow> err = None
       \<and> m_load (tp_subs t') sid = None \<and> sub_object sid t' = Some sub
       \<and> pool_refs (tp_pool t') = {(h, s) \<in> pool_refs (tp_pool t). s \<noteq> sid}"
    using main assms(2) by (auto simp: delete_subscription_def sub_mgr_get_def Let_def)
qed

text \<open>Creation and settings.\<close>

lemma build_subscription_facts:
  "sub_id (build_subscription sid srctype ss now) = sid"
  "managed (build_subscription sid srctype ss now) = new_managed_nodes"
  by (simp_all add: build_subscription_def set_evict_delay_ns_def set_incremental_alive_def set_content_def
      set_user_agent_def set_source_type_def set_fetch_config_def new_subscription_def Let_def)

lemma write_settings_facts:
  "sub_name (write_settings ss now sub) = sub_name sub"
  "sub_enabled (write_settings ss now sub) = sub_enabled sub"
  "managed (write_settings ss now sub) = managed sub"
  by (simp_all add: write_settings_def set_evict_delay_ns_def set_incremental_alive_def set_content_def
      set_ephemeral_def set_user_agent_def set_fetch_config_def Let_def)

lemma create_inv:
  assumes "topo_inv cfg t" "sub_object sid t = None"
  shows "topo_inv cfg (create_subscription sid srctype ss t)"
proof -
  obtain now ev where n: "time_now (tp_env t) = (now, ev)" by (rule prod.exhaust)
  let ?sub = "build_subscription sid srctype ss now"
  have ok: "topo_ok cfg t" "topo_agrees t" using assms by (simp_all add: topo_inv_def)
  have none: "m_load (tp_subs t) sid = None"
    using assms(2) by (simp add: sub_object_def sub_mgr_get_def split: option.splits)
  have fresh: "(h, sid) \<notin> pool_refs (tp_pool t)" for h using ok(1) assms(2) unfolding topo_ok_def by blast
  have new: "load_node new_managed_nodes h = None" for h by (simp add: new_managed_nodes_def load_node_def)
  have lk: "make_sub_lookup cfg (m_store sid ?sub (tp_subs t)) s h = make_sub_lookup cfg (tp_subs t) s h" for s h
    by (simp add: make_sub_lookup_def store_simps none build_subscription_facts new)
  have "pool_ok cfg (m_store sid ?sub (tp_subs t)) (tp_pool t)"
    by (rule change_subs_unseen [OF _ lk]) (use ok(1) in \<open>simp add: topo_ok_def\<close>)
  moreover have "held (tp_pool t) (m_store sid ?sub (tp_subs t)) = held (tp_pool t) (tp_subs t)"
    using fresh by (auto simp: held_def store_simps none)
  moreover have "listed (m_store sid ?sub (tp_subs t)) = listed (tp_subs t)"
    by (auto simp: listed_store build_subscription_facts new) (auto simp: listed_def none)
  moreover have t': "create_subscription sid srctype ss t
      = t\<lparr>tp_env := ev, tp_subs := m_store sid ?sub (tp_subs t)\<rparr>"
    by (simp add: create_subscription_def topo_now_def n sub_mgr_register_def build_subscription_facts)
  moreover have "sub_object q (create_subscription sid srctype ss t) = (if q = sid then Some ?sub else sub_object q t)" for q
    by (auto simp: t' sub_object_def sub_mgr_get_def store_simps split: option.split)
  moreover have "m_ok (managed ?sub)" by (simp add: build_subscription_facts new_managed_nodes_def)
  ultimately show ?thesis
    using ok by (auto simp: topo_inv_def topo_ok_def topo_agrees_def)
qed

lemma apply_settings_inv:
  assumes "topo_inv cfg t"
  shows "topo_inv cfg (apply_settings cfg sid ss t)"
proof (cases "sub_object sid t")
  case None
  with assms show ?thesis by (simp add: apply_settings_def)
next
  case (Some sub)
  obtain now ev where n: "time_now (tp_env t) = (now, ev)" by (rule prod.exhaust)
  have "topo_inv cfg (set_object sid (write_settings ss now sub) (t\<lparr>tp_env := ev\<rparr>))"
    by (rule topo_inv_quiet) (simp_all add: assms Some write_settings_facts)
  then show ?thesis
    by (simp add: apply_settings_def Some topo_now_def n Let_def rename_inv set_enabled_inv)
qed

section \<open>Reachable topologies\<close>

text \<open>
  Everything that happens to the pool and the subscriptions, in any order, with the refreshes that
  were started and have not come back. A refresh may come back after its subscription was deleted.
\<close>

definition new_topology :: "env \<Rightarrow> topology" where
  "new_topology ev = \<lparr>tp_pool = new_global_node_pool, tp_subs = [], tp_orphans = [], tp_env = ev, tp_log = []\<rparr>"

fun membership_op :: "pool_op \<Rightarrow> bool" where
  "membership_op (Add_Node h raw sid) = True"
| "membership_op (Remove_Node h sid) = True"
| "membership_op _ = False"

inductive reaches :: "external \<Rightarrow> pool_config \<Rightarrow> topology \<Rightarrow> (string \<times> refresh_attempt) list \<Rightarrow> bool"
  for X cfg where
  Start: "reaches X cfg (new_topology ev) []"
| Pool: "reaches X cfg t as \<Longrightarrow> pool_op_ok op \<Longrightarrow> \<not> membership_op op
    \<Longrightarrow> pool_step X cfg (tp_subs t) op (tp_pool t, tp_env t) = (p, ev)
    \<Longrightarrow> reaches X cfg (t\<lparr>tp_pool := p, tp_env := ev\<rparr>) as"
| Create: "reaches X cfg t as \<Longrightarrow> sub_object sid t = None
    \<Longrightarrow> reaches X cfg (create_subscription sid srctype ss t) as"
| Settings: "reaches X cfg t as \<Longrightarrow> reaches X cfg (apply_settings cfg sid ss t) as"
| Begin: "reaches X cfg t as \<Longrightarrow> begin_refresh sid t = (Some att, t')
    \<Longrightarrow> reaches X cfg t' ((sid, att) # as)"
| Finish: "reaches X cfg t as \<Longrightarrow> (sid, att) \<in> set as \<Longrightarrow> parse_ok parse
    \<Longrightarrow> reaches X cfg (finish_refresh X cfg fetch parse sid att t) (remove1 (sid, att) as)"
| Sweep: "reaches X cfg t as \<Longrightarrow> quiet_between between cfg (tp_subs t)
    \<Longrightarrow> reaches X cfg (sweep_one_subscription cfg between now sid t) as"
| Cleanup: "reaches X cfg t as \<Longrightarrow> quiet_between between cfg (tp_subs t)
    \<Longrightarrow> cleanup_circuit_open_nodes cfg between sid t = (res, t') \<Longrightarrow> reaches X cfg t' as"
| Delete: "reaches X cfg t as \<Longrightarrow> delete_subscription cfg stored sid t = (err, t') \<Longrightarrow> reaches X cfg t' as"

lemma pool_step_inv:
  assumes "topo_inv cfg t" "pool_op_ok op" "\<not> membership_op op"
    and "pool_step X cfg (tp_subs t) op (tp_pool t, tp_env t) = (p, ev)"
  shows "topo_inv cfg (t\<lparr>tp_pool := p, tp_env := ev\<rparr>)"
proof -
  have ok: "pool_ok cfg (tp_subs t) (tp_pool t)" "refs_ok (node_refs (tp_pool t))"
    using assms(1) by (simp_all add: topo_inv_def topo_ok_def)
  have "pool_ok cfg (tp_subs t) p"
    using pm.step_inv [of cfg "tp_subs t" "(tp_pool t, tp_env t)" op X] assms(2,4) ok(1) by simp
  moreover have "refs_ok (node_refs p) \<and> pool_refs p = pool_refs (tp_pool t)"
  proof -
    have "ref_step op R = R" for R using assms(3) by (cases op) simp_all
    with pool_step_refs [of "(tp_pool t, tp_env t)" X cfg "tp_subs t" op] assms(4) ok(2)
    show ?thesis by (simp add: pool_refs_def)
  qed
  ultimately show ?thesis
    using assms(1) by (simp add: topo_inv_def topo_ok_def topo_agrees_def held_def)
qed

lemma cleanup_inv:
  assumes "topo_inv cfg t" "quiet_between between cfg (tp_subs t)"
    and "cleanup_subscription_nodes cfg sid should between t = (hs, t')"
  shows "topo_inv cfg t'"
proof (cases "sub_object sid t")
  case None
  with assms show ?thesis by (simp add: cleanup_subscription_nodes_def)
next
  case (Some sub)
  from cleanup_spec(1) [OF assms(1) Some assms(2,3)] show ?thesis .
qed

lemma reaches_inv: "reaches X cfg t as \<Longrightarrow> topo_inv cfg t"
proof (induction rule: reaches.induct)
  case (Start ev)
  show ?case
    by (simp add: topo_inv_def topo_ok_def topo_agrees_def new_topology_def new_pool_ok)
      (auto simp: refs_ok_def node_refs_def new_global_node_pool_def pool_refs_def refs_of_def held_def
        listed_def sub_object_def sub_mgr_get_def)
next
  case (Pool t as op p ev)
  then show ?case by (intro pool_step_inv) simp_all
next
  case (Begin t as sid att t')
  with begin_refresh_inv [of cfg t sid] show ?case by simp
next
  case (Sweep t as between now sid)
  then show ?case
    by (auto simp: sweep_one_subscription_def split: option.split prod.split intro: cleanup_inv)
next
  case (Cleanup t as between sid res t')
  then show ?case
    by (auto simp: cleanup_circuit_open_nodes_def split: option.splits prod.splits intro: cleanup_inv)
next
  case (Delete t as stored sid err t')
  then show ?case by (blast intro: delete_inv(1))
qed (simp_all add: create_inv apply_settings_inv finish_refresh_inv)

section \<open>What one refresh does\<close>

definition refreshed_node :: "external \<Rightarrow> parsed_node list \<Rightarrow> node_pool \<Rightarrow> subscription \<Rightarrow> hash \<Rightarrow> managed_node option" where
  "refreshed_node X ns p sub h =
     (if tags_for X ns h \<noteq> [] then Some \<lparr>tags = tags_for X ns h, evicted = was_evicted sub h\<rparr>
      else if \<not> incremental_alive sub then None
      else (case load_node (managed sub) h of
        None \<Rightarrow> None | Some m \<Rightarrow> if kept_old p h m then Some m else None))"

lemma next_managed_refreshed:
  assumes "m_ok (managed sub)"
  shows "load_node (next_managed p sub (fst (build_refreshed X ns (new_managed_nodes, [])))) h
     = refreshed_node X ns p sub h"
proof -
  obtain mn raws where b: "build_refreshed X ns (new_managed_nodes, []) = (mn, raws)" by (rule prod.exhaust)
  have new: "m_ok new_managed_nodes" "load_node new_managed_nodes h = None" for h
    by (simp_all add: new_managed_nodes_def load_node_def)
  note s = build_refreshed_spec [OF b new(1), of h, unfolded new]
  from s next_managed_spec(2) [OF assms, of mn p h] show ?thesis
    by (simp add: b refreshed_node_def split: option.splits)
qed

lemma finish_refresh_applied:
  assumes "topo_inv cfg t" "parse_ok parse" "sub_object sid t = Some sub" "\<not> stale_attempt att sub"
    and "refresh_body fetch att = Inr body" "parse body = Inr ns"
  obtains sub' where "sub_object sid (finish_refresh X cfg fetch parse sid att t) = Some sub'"
    "\<And>h. load_node (managed sub') h = refreshed_node X ns (tp_pool t) sub h"
    "last_applied_seq sub' = ra_seq att" "sub_last_error sub' = []"
    "tp_subs (finish_refresh X cfg fetch parse sid att t) =
       (if m_load (tp_subs t) sid = None then tp_subs t else m_store sid sub' (tp_subs t))"
    "\<And>h s. s \<noteq> sid \<Longrightarrow> (h, s) \<in> pool_refs (tp_pool (finish_refresh X cfg fetch parse sid att t))
       \<longleftrightarrow> (h, s) \<in> pool_refs (tp_pool t)"
    "\<And>h. tags_for X ns h \<noteq> [] \<Longrightarrow> \<not> was_evicted sub h
       \<Longrightarrow> (h, sid) \<in> pool_refs (tp_pool (finish_refresh X cfg fetch parse sid att t))"
proof -
  define r where "r = build_refreshed X ns (new_managed_nodes, [])"
  define merged where "merged = next_managed (tp_pool t) sub (fst r)"
  let ?t' = "apply_refresh cfg sid att r sub t"
  have run: "finish_refresh X cfg fetch parse sid att t = topo_emit (Sub_Updated sid) ?t'"
    by (simp add: finish_refresh_def assms r_def)
  have r: "refreshed_ok r"
    unfolding r_def by (rule build_refreshed_ok) (use assms(2,6) in \<open>auto simp: parse_ok_def\<close>)
  have ok: "topo_ok cfg t" using assms(1) by (simp add: topo_inv_def)
  have mo: "m_ok (managed sub)" using ok assms(3) by (simp add: topo_ok_def)
  have merged: "load_node merged h = refreshed_node X ns (tp_pool t) sub h" for h
    unfolding merged_def r_def by (rule next_managed_refreshed [OF mo])
  note spec = apply_refresh_spec [OF ok assms(3) r refl [of ?t'] merged_def]
  obtain sub' where s: "sub_object sid ?t' = Some sub'" using spec(2) by blast
  have f: "managed sub' = merged" "last_applied_seq sub' = ra_seq att" "sub_last_error sub' = []"
    using spec(2) unfolding s by (auto dest: arg_cong [of _ _ managed] arg_cong [of _ _ last_applied_seq]
        arg_cong [of _ _ sub_last_error])
  obtain R where R: "pool_refs (tp_pool ?t') = R - (dom (load_node (managed sub)) - dom (load_node merged)) \<times> {sid}"
    "pool_refs (tp_pool t) \<subseteq> R"
    "R \<subseteq> pool_refs (tp_pool t) \<union> {(h, s). s = sid \<and> (\<exists>m. load_node merged h = Some m \<and> \<not> evicted m)}"
    "\<forall>h m. load_node merged h = Some m \<longrightarrow> \<not> evicted m \<longrightarrow> has_raw (snd r) h \<longrightarrow> (h, sid) \<in> R"
    using spec(3) by blast
  have raw: "has_raw (snd r) h" if "tags_for X ns h \<noteq> []" for h
  proof -
    obtain mn raws where b: "build_refreshed X ns (new_managed_nodes, []) = (mn, raws)" by (rule prod.exhaust)
    have new: "m_ok new_managed_nodes" "load_node new_managed_nodes h = None"
      by (simp_all add: new_managed_nodes_def load_node_def)
    from build_refreshed_spec [OF b new(1), of h, unfolded new] that
    have "load_node (fst r) h \<noteq> None" by (simp add: r_def b)
    with r show ?thesis by (auto simp: refreshed_ok_def)
  qed
  show thesis
  proof (rule that)
    show "sub_object sid (finish_refresh X cfg fetch parse sid att t) = Some sub'" by (simp add: run s)
    show "load_node (managed sub') h = refreshed_node X ns (tp_pool t) sub h" for h by (simp add: f merged)
    show "last_applied_seq sub' = ra_seq att" "sub_last_error sub' = []" by (fact f)+
    show "tp_subs (finish_refresh X cfg fetch parse sid att t) =
       (if m_load (tp_subs t) sid = None then tp_subs t else m_store sid sub' (tp_subs t))"
      using spec(4) s by (simp add: run)
    show "(h, s) \<in> pool_refs (tp_pool (finish_refresh X cfg fetch parse sid att t))
       \<longleftrightarrow> (h, s) \<in> pool_refs (tp_pool t)" if "s \<noteq> sid" for h s
      using R(1,2,3) that by (auto simp: run)
    show "(h, sid) \<in> pool_refs (tp_pool (finish_refresh X cfg fetch parse sid att t))"
      if "tags_for X ns h \<noteq> []" "\<not> was_evicted sub h" for h
    proof -
      have "load_node merged h = Some \<lparr>tags = tags_for X ns h, evicted = False\<rparr>"
        using that by (simp add: merged refreshed_node_def)
      with R(4) raw [OF that(1)] have "(h, sid) \<in> R" "h \<in> dom (load_node merged)" by auto
      with R(1) show ?thesis by (simp add: run)
    qed
  qed
qed

section \<open>Properties\<close>


text \<open>
  C35. The pool holds a node for a registered subscription exactly if the subscription lists it as
  managed and not evicted, in every reachable state; and a node is in the pool at all only if an
  object that exists or existed holds it.
\<close>

theorem references_follow_subscriptions:
  assumes "reaches X cfg t as" "m_load (tp_subs t) sid = Some sub"
  shows "((\<exists>e. get_entry (tp_pool t) h = Some e \<and> sid \<in> set (subscription_ids e))
         \<longleftrightarrow> (\<exists>m. load_node (managed sub) h = Some m \<and> \<not> evicted m))"
proof -
  have "topo_agrees t" using reaches_inv [OF assms(1)] by (simp add: topo_inv_def)
  from agrees_registered [OF this assms(2), of h] show ?thesis
    by (auto simp: pool_refs_def refs_of_def node_refs_def get_entry_def)
qed

text \<open>
  C36. A refresh that succeeds and is not stale leaves the registered subscription with exactly the
  parsed nodes under all their tags in order, evicted ones staying evicted, and with
  \<open>IncrementalAliveNodes\<close> also the old nodes that are evicted or still healthy; the applied
  sequence number never goes back, and no other subscription's references change.
\<close>

theorem refresh_installs_parsed:
  assumes "reaches X cfg t as" "parse_ok parse" "m_load (tp_subs t) sid = Some sub"
    and "\<not> stale_attempt att sub" "refresh_body fetch att = Inr body" "parse body = Inr ns"
    and "t' = finish_refresh X cfg fetch parse sid att t"
  shows "\<exists>sub'. m_load (tp_subs t') sid = Some sub'
     \<and> (\<forall>h. load_node (managed sub') h = refreshed_node X ns (tp_pool t) sub h)
     \<and> last_applied_seq sub \<le> last_applied_seq sub' \<and> sub_last_error sub' = []
     \<and> {(h, s) \<in> pool_refs (tp_pool t'). s \<noteq> sid} = {(h, s) \<in> pool_refs (tp_pool t). s \<noteq> sid}
     \<and> {h. (h, sid) \<in> pool_refs (tp_pool t')}
        = {h. \<exists>m. refreshed_node X ns (tp_pool t) sub h = Some m \<and> \<not> evicted m}"
proof -
  have inv: "topo_inv cfg t" by (rule reaches_inv [OF assms(1)])
  note obj = object_registered [OF assms(3)]
  obtain sub' where s: "\<And>h. load_node (managed sub') h = refreshed_node X ns (tp_pool t) sub h"
    "last_applied_seq sub' = ra_seq att" "sub_last_error sub' = []"
    "tp_subs t' = (if m_load (tp_subs t) sid = None then tp_subs t else m_store sid sub' (tp_subs t))"
    "\<And>h s. s \<noteq> sid \<Longrightarrow> (h, s) \<in> pool_refs (tp_pool t') \<longleftrightarrow> (h, s) \<in> pool_refs (tp_pool t)"
    using finish_refresh_applied [OF inv assms(2) obj assms(4-6), of X] unfolding assms(7) by metis
  have reg: "m_load (tp_subs t') sid = Some sub'" using s(4) assms(3) by (simp add: store_simps)
  have "topo_agrees t'"
    using finish_refresh_inv [OF inv assms(2)] by (simp add: assms(7) topo_inv_def)
  from agrees_registered [OF this reg] s reg assms(4) show ?thesis
    by (intro exI [of _ sub']) (auto simp: stale_attempt_def)
qed

text \<open>
  A refresh that is stale (the refresh inputs changed meanwhile, or a later attempt was already
  applied) changes nothing, whether it succeeded or failed; one that failed and is not stale only
  records the time of the check and the error.
\<close>

lemma refresh_failure_keeps_nodes:
  assumes "sub_object sid t = Some sub"
    and "stale_attempt att sub \<or> refresh_body fetch att = Inl err
       \<or> (\<exists>body. refresh_body fetch att = Inr body \<and> parse body = Inl err)"
    and "t' = finish_refresh X cfg fetch parse sid att t"
  shows "tp_pool t' = tp_pool t \<and> (stale_attempt att sub \<longrightarrow> t' = t)
     \<and> (\<not> stale_attempt att sub \<longrightarrow> (\<exists>now. sub_object sid t'
          = Some (sub\<lparr>last_checked_ns := now, sub_last_error := err\<rparr>)))"
proof (cases "stale_attempt att sub")
  case True
  then have "t' = t"
    using assms(1) by (simp add: assms(3) finish_refresh_def handle_update_failure_def Let_def split: sum.split)
  with True show ?thesis by simp
next
  case False
  with assms(2) have "t' = handle_update_failure sid att err t"
    by (auto simp: assms(3) finish_refresh_def)
  with False assms(1) show ?thesis
    by (auto simp: handle_update_failure_def topo_now_def set_sub_last_error_def Let_def split: prod.split)
qed

text \<open>
  The two-scan cleanup evicts exactly the nodes that qualify in both scans: a node that
  recovered between them is kept, the evicted ones stay listed as evicted, and their references,
  and no others, are gone from the pool.
\<close>

lemma cleanup_evicts_confirmed:
  assumes "reaches X cfg t as" "m_load (tp_subs t) sid = Some sub"
    and "quiet_between between cfg (tp_subs t)"
    and "cleanup_subscription_nodes cfg sid should between t = (hs, t')"
  shows "set hs = {h. \<exists>m. load_node (managed sub) h = Some m \<and> \<not> evicted m
           \<and> removable should (tp_pool t) h \<and> removable should (between (tp_pool t)) h}
     \<and> pool_refs (tp_pool t') = pool_refs (tp_pool t) - set hs \<times> {sid}
     \<and> (\<exists>sub'. sub_object sid t' = Some sub' \<and> (\<forall>h. load_node (managed sub') h
           = map_option (\<lambda>m. if h \<in> set hs then m\<lparr>evicted := True\<rparr> else m) (load_node (managed sub) h)))"
  using cleanup_spec(2-4) [OF reaches_inv [OF assms(1)] object_registered [OF assms(2)] assms(3,4)]
  by blast

text \<open>
  C38. A refresh in flight survives the deletion of its subscription: it is applied to the object
  that left the manager, and its nodes go back into the pool under an id that no subscription has,
  where the deletion no longer finds it.
\<close>

theorem deleted_subscription_revived:
  assumes "reaches X cfg t as" "parse_ok parse" "m_load (tp_subs t) sid = Some sub"
    and "\<not> stale_attempt att sub" "refresh_body fetch att = Inr body" "parse body = Inr ns"
    and "delete_subscription cfg None sid t = (err, t1)"
    and "t2 = finish_refresh X cfg fetch parse sid att t1"
    and "tags_for X ns h \<noteq> []" "\<not> was_evicted sub h"
  shows "err = None \<and> (h, sid) \<notin> pool_refs (tp_pool t1)
     \<and> fst (delete_subscription cfg None sid t2) = Some Sub_Not_Found \<and> (h, sid) \<in> pool_refs (tp_pool t2)"
proof -
  have inv: "topo_inv cfg t" by (rule reaches_inv [OF assms(1)])
  have del: "err = None" "m_load (tp_subs t1) sid = None" "sub_object sid t1 = Some sub"
    "pool_refs (tp_pool t1) = {(h, s) \<in> pool_refs (tp_pool t). s \<noteq> sid}"
    using delete_inv(2) [OF inv assms(7,3)] by simp_all
  have "tp_subs t2 = tp_subs t1" "(h, sid) \<in> pool_refs (tp_pool t2)"
    using finish_refresh_applied [OF delete_inv(1) [OF inv assms(7)] assms(2) del(3) assms(4-6), of X]
      assms(9,10) del(2) unfolding assms(8) by metis+
  with del show ?thesis by (simp add: delete_subscription_def sub_mgr_get_def)
qed

section \<open>Witnesses\<close>

lemma reaches_pool_ops:
  "reaches X cfg t as \<Longrightarrow> list_all (\<lambda>op. pool_op_ok op \<and> \<not> membership_op op) ops
     \<Longrightarrow> fold (pool_step X cfg (tp_subs t)) ops (tp_pool t, tp_env t) = (p, ev)
     \<Longrightarrow> reaches X cfg (t\<lparr>tp_pool := p, tp_env := ev\<rparr>) as"
proof (induction ops arbitrary: t)
  case (Cons op ops)
  obtain p1 ev1 where s: "pool_step X cfg (tp_subs t) op (tp_pool t, tp_env t) = (p1, ev1)" by (rule prod.exhaust)
  have "reaches X cfg (t\<lparr>tp_pool := p1, tp_env := ev1\<rparr>) as"
    using reaches.Pool [OF Cons.prems(1) _ _ s] Cons.prems(2) by simp
  from Cons.IH [OF this] Cons.prems(2,3) show ?case by (simp add: s)
next
  case Nil
  moreover have "t\<lparr>tp_pool := tp_pool t, tp_env := tp_env t\<rparr> = t" by (cases t) simp
  ultimately show ?case by auto
qed

definition sample_settings :: sub_settings where
  "sample_settings = \<lparr>ss_name = ''sub'', ss_url = ''u'', ss_user_agent = [], ss_content = [],
     ss_interval_ns = 300000000000, ss_enabled = True, ss_ephemeral = False, ss_incremental = False,
     ss_evict_delay_ns = 0\<rparr>"

definition sample_fetch :: fetcher where
  "sample_fetch = (\<lambda>u ua. if u = ''u'' then Inr u else Inl ''no route'')"

definition sample_parse :: sub_parser where
  "sample_parse = (\<lambda>b. Inr [\<lparr>pn_tag = ''t'', pn_raw = ''{}''\<rparr>])"

definition sample_hash :: hash where
  "sample_hash = hash_from_raw_options plain_external ''{}''"

definition topo_created :: topology where
  "topo_created = create_subscription ''s'' ''remote'' sample_settings (new_topology \<lparr>draws = [], clock = [5]\<rparr>)"

definition topo_started :: "refresh_attempt option \<times> topology" where
  "topo_started = begin_refresh ''s'' topo_created"

definition sample_attempt :: refresh_attempt where
  "sample_attempt = the (fst topo_started)"

definition topo_done :: topology where
  "topo_done = finish_refresh plain_external sample_config sample_fetch sample_parse ''s'' sample_attempt
     (snd topo_started)"

definition topo_routed :: topology where
  "topo_routed = (case fold (pool_step plain_external sample_config (tp_subs topo_done))
      [Create_Platform sample_platform, Probe_Result sample_hash True, Outbound_Changed sample_hash True,
       Egress_Sample sample_hash (Some (V4 1)) None, Latency_Sample sample_hash ''b'' (Some 5)]
      (tp_pool topo_done, tp_env topo_done) of (p, ev) \<Rightarrow> topo_done\<lparr>tp_pool := p, tp_env := ev\<rparr>)"

lemma sample_parse_ok: "parse_ok sample_parse"
  by (simp add: parse_ok_def sample_parse_def)

lemma created_reached: "reaches plain_external sample_config topo_created []"
  unfolding topo_created_def
  by (rule reaches.Create [OF reaches.Start]) (simp add: new_topology_def sub_object_def sub_mgr_get_def)

lemma started_values:
  "fst topo_started \<noteq> None"
  "map_option (\<lambda>s. stale_attempt sample_attempt s) (m_load (tp_subs (snd topo_started)) ''s'') = Some False"
  "map_option (\<lambda>s. was_evicted s sample_hash) (m_load (tp_subs (snd topo_started)) ''s'') = Some False"
  "refresh_body sample_fetch sample_attempt = Inr ''u''"
  "refresh_body (\<lambda>u ua. Inl ''e'') sample_attempt = Inl ''e''"
  "tags_for plain_external [\<lparr>pn_tag = ''t'', pn_raw = ''{}''\<rparr>] sample_hash = [''t'']"
  by code_simp+

lemma started_sub:
  obtains sub where "m_load (tp_subs (snd topo_started)) ''s'' = Some sub"
    "\<not> stale_attempt sample_attempt sub" "\<not> was_evicted sub sample_hash"
  using started_values(2,3) by auto

lemma started_reached: "reaches plain_external sample_config (snd topo_started) [(''s'', sample_attempt)]"
proof -
  have "topo_started = (Some sample_attempt, snd topo_started)"
    using started_values(1) by (auto simp: sample_attempt_def prod_eq_iff)
  from reaches.Begin [OF created_reached this [unfolded topo_started_def]]
  show ?thesis by (simp add: topo_started_def)
qed

lemma done_reached: "reaches plain_external sample_config topo_done []"
  using reaches.Finish [OF started_reached, of "''s''" sample_attempt sample_parse sample_fetch] sample_parse_ok
  by (simp add: topo_done_def)

lemma done_values:
  "map_option (\<lambda>s. load_node (managed s) sample_hash) (m_load (tp_subs topo_done) ''s'')
     = Some (Some \<lparr>tags = [''t''], evicted = False\<rparr>)"
  "get_entry (tp_pool topo_done) sample_hash \<noteq> None"
  by code_simp+

lemma done_sub:
  obtains sub where "m_load (tp_subs topo_done) ''s'' = Some sub"
    "load_node (managed sub) sample_hash = Some \<lparr>tags = [''t''], evicted = False\<rparr>"
  using done_values(1) by auto

lemma routed_reached: "reaches plain_external sample_config topo_routed []"
proof -
  have "list_all (\<lambda>op. pool_op_ok op \<and> \<not> membership_op op)
    [Create_Platform sample_platform, Probe_Result sample_hash True, Outbound_Changed sample_hash True,
     Egress_Sample sample_hash (Some (V4 1)) None, Latency_Sample sample_hash ''b'' (Some 5)]"
    by (simp add: sample_platform_def new_platform_def new_platform_with_tag_filter_def new_view_ok)
  from reaches_pool_ops [OF done_reached this] show ?thesis
    by (simp add: topo_routed_def split: prod.split)
qed

lemma routed_values:
  "map_option (\<lambda>plat. view_contains (view plat) sample_hash) (get_platform (tp_pool topo_routed) ''p'') = Some True"
  by code_simp


theorem references_follow_subscriptions_witness:
  "\<exists>e. get_entry (tp_pool topo_done) sample_hash = Some e \<and> ''s'' \<in> set (subscription_ids e)"
proof -
  obtain sub where "m_load (tp_subs topo_done) ''s'' = Some sub"
    "load_node (managed sub) sample_hash = Some \<lparr>tags = [''t''], evicted = False\<rparr>" by (rule done_sub)
  with references_follow_subscriptions [OF done_reached this(1), of sample_hash] show ?thesis by simp
qed

theorem refresh_installs_parsed_witness:
  "(sample_hash, ''s'') \<in> pool_refs (tp_pool topo_done)"
proof -
  obtain sub where sub: "m_load (tp_subs (snd topo_started)) ''s'' = Some sub"
    "\<not> stale_attempt sample_attempt sub" "\<not> was_evicted sub sample_hash" by (rule started_sub)
  have "sample_parse ''u'' = Inr [\<lparr>pn_tag = ''t'', pn_raw = ''{}''\<rparr>]" by (simp add: sample_parse_def)
  from refresh_installs_parsed [OF started_reached sample_parse_ok sub(1,2) started_values(4) this topo_done_def]
  show ?thesis using sub(3) started_values(6) by (auto simp: refreshed_node_def)
qed

theorem deleted_subscription_revived_witness:
  "(sample_hash, ''s'') \<in> pool_refs (tp_pool (finish_refresh plain_external sample_config sample_fetch
      sample_parse ''s'' sample_attempt
      (snd (delete_subscription sample_config None ''s'' (snd topo_started)))))"
proof -
  obtain sub where sub: "m_load (tp_subs (snd topo_started)) ''s'' = Some sub"
    "\<not> stale_attempt sample_attempt sub" "\<not> was_evicted sub sample_hash" by (rule started_sub)
  obtain err t1 where d: "delete_subscription sample_config None ''s'' (snd topo_started) = (err, t1)"
    by (rule prod.exhaust)
  have "sample_parse ''u'' = Inr [\<lparr>pn_tag = ''t'', pn_raw = ''{}''\<rparr>]" by (simp add: sample_parse_def)
  from deleted_subscription_revived [OF started_reached sample_parse_ok sub(1,2) started_values(4) this d refl]
  show ?thesis using sub(3) started_values(6) by (auto simp: d)
qed

end
