(* ===== verification/Router.thy ===== *)
theory Router
  imports Route_Select IP_Window Node_Pool
begin

text \<open>
  \<open>internal/routing/router.go\<close>, \<open>state.go\<close> and \<open>events.go\<close>: routing of requests with sticky leases
  and the events a listener sees; the administration of leases is in \<open>Lease_Admin\<close>. A request for an account runs
  inside the \<open>Compute\<close> callback of the lease map, so requests for one account are serialised, and
  the whole handler is one function of the platform's routing state.
\<close>

section \<open>State\<close>

datatype lease_event_type = Lease_Create | Lease_Touch | Lease_Replace | Lease_Remove | Lease_Expire

record lease_event =
  le_type :: lease_event_type
  le_platform :: string
  le_account :: string
  le_node :: hash
  le_egress :: addr
  le_created_at_ns :: int

text \<open>
  \<open>PlatformRoutingState\<close>: \<open>IPLoadStats\<close> is the counter table the lease table itself points to.
\<close>

record plat_state =
  ps_leases :: lease_table
  ps_window :: ip_window

definition new_platform_routing_state :: plat_state where
  "new_platform_routing_state = \<lparr>ps_leases = new_lease_table, ps_window = new_ip_window\<rparr>"

text \<open>
  \<open>RouterConfig\<close>: what the two configuration functions return at the time of the call, and the
  display tag resolver. The event listener is the log of the world.
\<close>

record router_config =
  rc_authorities :: "string list"
  rc_p2c_window :: int
  rc_tag_resolver :: "(node_pool \<Rightarrow> hash \<Rightarrow> string) option"

record route_result =
  rr_platform_id :: string
  rr_platform_name :: string
  rr_node :: hash
  rr_egress :: addr
  rr_tag :: string
  rr_created :: bool

definition mk_result :: "hash \<Rightarrow> addr \<Rightarrow> bool \<Rightarrow> route_result" where
  "mk_result h ip created = \<lparr>rr_platform_id = [], rr_platform_name = [], rr_node = h,
     rr_egress = ip, rr_tag = [], rr_created = created\<rparr>"

text \<open>What the handlers of one platform read and write.\<close>

record rctx =
  rx_nodes :: node_table
  rx_env :: env
  rx_leases :: lease_table
  rx_window :: ip_window
  rx_events :: "lease_event list"

definition rx_stats :: "rctx \<Rightarrow> ip_load_stats" where
  "rx_stats x = lt_stats (rx_leases x)"

definition emit_lease_event :: "lease_event \<Rightarrow> rctx \<Rightarrow> rctx" where
  "emit_lease_event ev x = x\<lparr>rx_events := rx_events x @ [ev]\<rparr>"

definition set_stats :: "ip_load_stats \<Rightarrow> rctx \<Rightarrow> rctx" where
  "set_stats s x = x\<lparr>rx_leases := (rx_leases x)\<lparr>lt_stats := s\<rparr>\<rparr>"

section \<open>Selection of a live node\<close>

text \<open>\<open>pickLiveRandomRoute\<close>: an \<open>Inr (h, None)\<close> is a picked node that vanished from the pool.\<close>

definition pick_live_random_route ::
  "external \<Rightarrow> router_config \<Rightarrow> platform \<Rightarrow> string \<Rightarrow> rctx
     \<Rightarrow> (route_error + hash \<times> node_entry option) \<times> rctx" where
  "pick_live_random_route X cfg plat domain x =
     (let (r, ns, ev) = random_route X plat (rx_stats x) domain (rc_authorities cfg)
            (rc_p2c_window cfg) (rx_nodes x, rx_env x);
          x' = x\<lparr>rx_nodes := ns, rx_env := ev\<rparr>
      in case r of
           Inl err \<Rightarrow> (Inl err, x')
         | Inr h \<Rightarrow> (Inr (h, m_load (rx_nodes x') h), x'))"

definition live_pick_attempts :: nat where
  "live_pick_attempts = 2"

fun live_pick_loop ::
  "nat \<Rightarrow> external \<Rightarrow> router_config \<Rightarrow> platform \<Rightarrow> string \<Rightarrow> hash \<Rightarrow> rctx
     \<Rightarrow> (route_error + hash \<times> node_entry) \<times> rctx" where
  "live_pick_loop 0 X cfg plat domain last_missing x =
     (Inl (if last_missing \<noteq> zero_hash then Node_Gone last_missing else No_Available_Nodes), x)"
| "live_pick_loop (Suc n) X cfg plat domain last_missing x =
     (case pick_live_random_route X cfg plat domain x of
        (Inl err, x') \<Rightarrow> (Inl err, x')
      | (Inr (h, Some e), x') \<Rightarrow> (Inr (h, e), x')
      | (Inr (h, None), x') \<Rightarrow> live_pick_loop n X cfg plat domain h x')"

definition select_live_random_route ::
  "external \<Rightarrow> router_config \<Rightarrow> platform \<Rightarrow> string \<Rightarrow> rctx
     \<Rightarrow> (route_error + hash \<times> node_entry) \<times> rctx" where
  "select_live_random_route X cfg plat domain x =
     live_pick_loop live_pick_attempts X cfg plat domain zero_hash x"

section \<open>The account quota on new leases\<close>

record ip_candidate =
  cand_ip :: addr
  cand_hash :: hash
  cand_entry :: node_entry
  cand_count :: int
  cand_load :: int

fun fallback_loop ::
  "node_table \<Rightarrow> ip_load_stats \<Rightarrow> (addr, int) amap \<Rightarrow> hash list \<Rightarrow> addr list \<Rightarrow> ip_candidate option
     \<Rightarrow> ip_candidate option" where
  "fallback_loop ns stats counts [] seen best = best"
| "fallback_loop ns stats counts (h # hs) seen best =
     (case m_load ns h of
        None \<Rightarrow> fallback_loop ns stats counts hs seen best
      | Some e \<Rightarrow>
          let ip = get_egress_ip e in
          if \<not> addr_valid ip \<or> ip \<in> set seen then fallback_loop ns stats counts hs seen best
          else let cand = \<lparr>cand_ip = ip, cand_hash = h, cand_entry = e,
                     cand_count = (case m_load counts ip of None \<Rightarrow> 0 | Some n \<Rightarrow> n),
                     cand_load = stats_get stats ip\<rparr>;
                   better = (case best of
                       None \<Rightarrow> True
                     | Some b \<Rightarrow> cand_count cand < cand_count b
                         \<or> cand_count cand = cand_count b \<and> cand_load cand < cand_load b)
               in fallback_loop ns stats counts hs (ip # seen) (if better then Some cand else best))"

definition fallback_quota_route ::
  "platform \<Rightarrow> string \<Rightarrow> int \<Rightarrow> int \<Rightarrow> int \<Rightarrow> rctx \<Rightarrow> (route_error + hash \<times> node_entry) \<times> rctx" where
  "fallback_quota_route plat account now window_ns mx x =
     (let (w, counts) = counts_by_ip now window_ns (rx_window x);
          x = x\<lparr>rx_window := w\<rparr>
      in case fallback_loop (rx_nodes x) (rx_stats x) counts (view_range (view plat)) [] None of
           None \<Rightarrow> (Inl No_Available_Nodes, x)
         | Some best \<Rightarrow>
             let (w', ok) = reserve_forced_fallback (cand_ip best) account now window_ns mx (rx_window x);
                 x = x\<lparr>rx_window := w'\<rparr>
             in if ok then (Inr (cand_hash best, cand_entry best), x)
                else (Inl No_Available_Nodes, x))"

definition quota_pick_attempts :: nat where
  "quota_pick_attempts = 8"

fun quota_pick_loop ::
  "nat \<Rightarrow> external \<Rightarrow> router_config \<Rightarrow> platform \<Rightarrow> string \<Rightarrow> string \<Rightarrow> int \<Rightarrow> int \<Rightarrow> int \<Rightarrow> rctx
     \<Rightarrow> (route_error + hash \<times> node_entry) \<times> rctx" where
  "quota_pick_loop 0 X cfg plat account domain now window_ns mx x =
     fallback_quota_route plat account now window_ns mx x"
| "quota_pick_loop (Suc n) X cfg plat account domain now window_ns mx x =
     (case pick_live_random_route X cfg plat domain x of
        (Inl err, x') \<Rightarrow> (Inl err, x')
      | (Inr (h, None), x') \<Rightarrow> quota_pick_loop n X cfg plat account domain now window_ns mx x'
      | (Inr (h, Some e), x') \<Rightarrow>
          let (w, ok) = reserve_if_eligible (get_egress_ip e) account now window_ns mx (rx_window x');
              x'' = x'\<lparr>rx_window := w\<rparr>
          in if ok then (Inr (h, e), x'')
             else quota_pick_loop n X cfg plat account domain now window_ns mx x'')"

definition select_route_for_lease ::
  "external \<Rightarrow> router_config \<Rightarrow> platform \<Rightarrow> string \<Rightarrow> string \<Rightarrow> int \<Rightarrow> rctx
     \<Rightarrow> (route_error + hash \<times> node_entry) \<times> rctx" where
  "select_route_for_lease X cfg plat account domain now x =
     (if \<not> ip_quota_enabled plat then select_live_random_route X cfg plat domain x
      else quota_pick_loop quota_pick_attempts X cfg plat account domain now
             (effective_ip_account_window_ns plat) (max_accounts_per_ip plat) x)"

section \<open>Sticky leases\<close>

datatype invalidation = Inval_None | Inval_Expire | Inval_Remove

datatype compute_op = Update_Op | Delete_Op | Cancel_Op

definition default_lease_ttl_ns :: int where
  "default_lease_ttl_ns = 86400000000000"

definition create_sticky_lease ::
  "external \<Rightarrow> router_config \<Rightarrow> platform \<Rightarrow> string \<Rightarrow> string \<Rightarrow> int \<Rightarrow> rctx
     \<Rightarrow> (route_error + lease \<times> route_result) \<times> rctx" where
  "create_sticky_lease X cfg plat account domain now x =
     (case select_route_for_lease X cfg plat account domain now x of
        (Inl err, x') \<Rightarrow> (Inl err, x')
      | (Inr (h, e), x') \<Rightarrow>
          let ttl = (if sticky_ttl_ns plat \<le> 0 then default_lease_ttl_ns else sticky_ttl_ns plat);
              l = \<lparr>l_node = h, l_egress = get_egress_ip e, l_created_at_ns = now,
                   l_expiry_ns = i64 (now + ttl), l_last_accessed_ns = now\<rparr>
          in (Inr (l, mk_result (l_node l) (l_egress l) True), x'))"

definition lease_event_of ::
  "lease_event_type \<Rightarrow> string \<Rightarrow> string \<Rightarrow> hash \<Rightarrow> addr \<Rightarrow> int \<Rightarrow> lease_event" where
  "lease_event_of ty pid account h ip created = \<lparr>le_type = ty, le_platform = pid,
     le_account = account, le_node = h, le_egress = ip, le_created_at_ns = created\<rparr>"

definition cleanup_previous_lease ::
  "string \<Rightarrow> string \<Rightarrow> lease option \<Rightarrow> invalidation \<Rightarrow> rctx \<Rightarrow> rctx" where
  "cleanup_previous_lease pid account previous inval x =
     (case previous of
        None \<Rightarrow> x
      | Some l \<Rightarrow>
          let x = set_stats (stats_dec (l_egress l) (rx_stats x)) x
          in case inval of
               Inval_Expire \<Rightarrow> emit_lease_event (lease_event_of Lease_Expire pid account (l_node l)
                 (l_egress l) (l_created_at_ns l)) x
             | Inval_Remove \<Rightarrow> emit_lease_event (lease_event_of Lease_Remove pid account (l_node l)
                 (l_egress l) (l_created_at_ns l)) x
             | Inval_None \<Rightarrow> x)"

definition abort_lease_create :: "lease option \<Rightarrow> compute_op" where
  "abort_lease_create previous = (case previous of None \<Rightarrow> Cancel_Op | Some _ \<Rightarrow> Delete_Op)"

text \<open>
  The decision of the callback: the operation on the lease map with its new lease, the result or
  error, and the state. The lease of \<open>Delete_Op\<close> and \<open>Cancel_Op\<close> is not used by the map.
\<close>

type_synonym sticky_decision = "(lease option \<times> compute_op) \<times> (route_error + route_result) \<times> rctx"

definition create_or_abort_sticky_lease ::
  "external \<Rightarrow> router_config \<Rightarrow> platform \<Rightarrow> string \<Rightarrow> string \<Rightarrow> int \<Rightarrow> lease option \<Rightarrow> invalidation
     \<Rightarrow> rctx \<Rightarrow> sticky_decision" where
  "create_or_abort_sticky_lease X cfg plat account domain now previous inval x =
     (case create_sticky_lease X cfg plat account domain now x of
        (Inl err, x') \<Rightarrow>
          ((previous, abort_lease_create previous), Inl err,
           cleanup_previous_lease (plat_id plat) account previous inval x')
      | (Inr (l, result), x') \<Rightarrow>
          let x1 = cleanup_previous_lease (plat_id plat) account previous inval x';
              x2 = set_stats (stats_inc (l_egress l) (rx_stats x1)) x1;
              x3 = emit_lease_event (lease_event_of Lease_Create (plat_id plat) account (l_node l)
                     (l_egress l) 0) x2
          in ((Some l, Update_Op), Inr result, x3))"

definition try_lease_hit ::
  "platform \<Rightarrow> string \<Rightarrow> lease \<Rightarrow> int \<Rightarrow> rctx \<Rightarrow> (lease \<times> route_result) option \<times> rctx" where
  "try_lease_hit plat account cur now x =
     (case m_load (rx_nodes x) (l_node cur) of
        None \<Rightarrow> (None, x)
      | Some e \<Rightarrow>
          if \<not> view_contains (view plat) (l_node cur) \<or> get_egress_ip e \<noteq> l_egress cur then (None, x)
          else let (w, ok) = (if ip_quota_enabled plat
                     then refresh_on_hit (get_egress_ip e) account now
                            (effective_ip_account_window_ns plat) (max_accounts_per_ip plat) (rx_window x)
                     else (rx_window x, True));
                   x1 = x\<lparr>rx_window := w\<rparr>
               in if \<not> ok then (None, x1)
                  else (Some (cur\<lparr>l_last_accessed_ns := now\<rparr>,
                              mk_result (l_node cur) (l_egress cur) False),
                        emit_lease_event (lease_event_of Lease_Touch (plat_id plat) account
                          (l_node cur) (l_egress cur) 0) x1))"

definition try_lease_same_ip_rotation ::
  "external \<Rightarrow> router_config \<Rightarrow> platform \<Rightarrow> string \<Rightarrow> lease \<Rightarrow> string \<Rightarrow> int \<Rightarrow> rctx
     \<Rightarrow> (lease \<times> route_result) option \<times> rctx" where
  "try_lease_same_ip_rotation X cfg plat account cur domain now x =
     (let (best, ns, ev) = choose_same_ip_rotation_candidate X plat (l_egress cur) domain
            (rc_authorities cfg) (rc_p2c_window cfg) (rx_nodes x, rx_env x);
          x = x\<lparr>rx_nodes := ns, rx_env := ev\<rparr>
      in case best of
           None \<Rightarrow> (None, x)
         | Some h \<Rightarrow>
             let (w, ok) = (if ip_quota_enabled plat
                   then refresh_on_hit (l_egress cur) account now
                          (effective_ip_account_window_ns plat) (max_accounts_per_ip plat) (rx_window x)
                   else (rx_window x, True));
                 x = x\<lparr>rx_window := w\<rparr>
             in if \<not> ok then (None, x)
                else (Some (cur\<lparr>l_node := h, l_last_accessed_ns := now\<rparr>,
                            mk_result h (l_egress cur) False),
                      emit_lease_event (lease_event_of Lease_Replace (plat_id plat) account h
                        (l_egress cur) 0) x))"

definition decide_sticky_lease ::
  "external \<Rightarrow> router_config \<Rightarrow> platform \<Rightarrow> string \<Rightarrow> string \<Rightarrow> int \<Rightarrow> lease option \<Rightarrow> rctx
     \<Rightarrow> sticky_decision" where
  "decide_sticky_lease X cfg plat account domain now current x =
     (case current of
        None \<Rightarrow> create_or_abort_sticky_lease X cfg plat account domain now None Inval_None x
      | Some cur \<Rightarrow>
          if is_expired cur now
          then create_or_abort_sticky_lease X cfg plat account domain now (Some cur) Inval_Expire x
          else case try_lease_hit plat account cur now x of
            (Some (l, result), x1) \<Rightarrow> ((Some l, Update_Op), Inr result, x1)
          | (None, x1) \<Rightarrow>
              (case try_lease_same_ip_rotation X cfg plat account cur domain now x1 of
                 (Some (l, result), x2) \<Rightarrow> ((Some l, Update_Op), Inr result, x2)
               | (None, x2) \<Rightarrow>
                   create_or_abort_sticky_lease X cfg plat account domain now (Some cur)
                     Inval_Remove x2))"

definition apply_compute :: "string \<Rightarrow> lease option \<times> compute_op \<Rightarrow> rctx \<Rightarrow> rctx" where
  "apply_compute account d x =
     (case d of
        (Some l, Update_Op) \<Rightarrow>
          x\<lparr>rx_leases := (rx_leases x)\<lparr>lt_leases := m_store account l (lt_leases (rx_leases x))\<rparr>\<rparr>
      | (_, Delete_Op) \<Rightarrow>
          x\<lparr>rx_leases := (rx_leases x)\<lparr>lt_leases := m_delete account (lt_leases (rx_leases x))\<rparr>\<rparr>
      | _ \<Rightarrow> x)"

definition route_sticky ::
  "external \<Rightarrow> router_config \<Rightarrow> platform \<Rightarrow> string \<Rightarrow> string \<Rightarrow> int \<Rightarrow> rctx
     \<Rightarrow> (route_error + route_result) \<times> rctx" where
  "route_sticky X cfg plat account domain now x =
     (let (d, r, x') = decide_sticky_lease X cfg plat account domain now
            (m_load (lt_leases (rx_leases x)) account) x
      in (r, apply_compute account d x'))"

definition route_random ::
  "external \<Rightarrow> router_config \<Rightarrow> platform \<Rightarrow> string \<Rightarrow> rctx \<Rightarrow> (route_error + route_result) \<times> rctx" where
  "route_random X cfg plat domain x =
     (case select_live_random_route X cfg plat domain x of
        (Inl err, x') \<Rightarrow> (Inl err, x')
      | (Inr (h, e), x') \<Rightarrow> (Inr (mk_result h (get_egress_ip e) False), x'))"

section \<open>The router in its world\<close>

text \<open>The pool the router accesses, the clock and generator, the states map and the event log.\<close>

record world =
  wd_pool :: node_pool
  wd_env :: env
  wd_states :: "(string, plat_state) amap"
  wd_events :: "lease_event list"

definition ensure_platform_state :: "string \<Rightarrow> world \<Rightarrow> world" where
  "ensure_platform_state pid w =
     (case m_load (wd_states w) pid of
        Some _ \<Rightarrow> w
      | None \<Rightarrow> w\<lparr>wd_states := m_store pid new_platform_routing_state (wd_states w)\<rparr>)"

definition state_of :: "world \<Rightarrow> string \<Rightarrow> plat_state" where
  "state_of w pid = (case m_load (wd_states w) pid of
     None \<Rightarrow> new_platform_routing_state | Some st \<Rightarrow> st)"

definition open_ctx :: "string \<Rightarrow> world \<Rightarrow> rctx" where
  "open_ctx pid w = \<lparr>rx_nodes = pool_nodes (wd_pool w), rx_env = wd_env w,
     rx_leases = ps_leases (state_of w pid), rx_window = ps_window (state_of w pid),
     rx_events = wd_events w\<rparr>"

definition close_ctx :: "string \<Rightarrow> rctx \<Rightarrow> world \<Rightarrow> world" where
  "close_ctx pid x w = w\<lparr>wd_pool := (wd_pool w)\<lparr>pool_nodes := rx_nodes x\<rparr>, wd_env := rx_env x,
     wd_states := m_store pid \<lparr>ps_leases = rx_leases x, ps_window = rx_window x\<rparr> (wd_states w),
     wd_events := rx_events x\<rparr>"

definition emit_world :: "lease_event \<Rightarrow> world \<Rightarrow> world" where
  "emit_world ev w = w\<lparr>wd_events := wd_events w @ [ev]\<rparr>"

definition put_state :: "string \<Rightarrow> plat_state \<Rightarrow> world \<Rightarrow> world" where
  "put_state pid st w = w\<lparr>wd_states := m_store pid st (wd_states w)\<rparr>"

definition resolve_platform :: "world \<Rightarrow> string \<Rightarrow> platform option" where
  "resolve_platform w name =
     (if name = [] then get_platform (wd_pool w) default_platform_id
      else get_platform_by_name (wd_pool w) name)"

definition with_platform_context :: "platform \<Rightarrow> route_result \<Rightarrow> route_result" where
  "with_platform_context plat r = r\<lparr>rr_platform_id := plat_id plat, rr_platform_name := plat_name plat\<rparr>"

definition route_request ::
  "external \<Rightarrow> router_config \<Rightarrow> string \<Rightarrow> string \<Rightarrow> string \<Rightarrow> world
     \<Rightarrow> (route_error + route_result) \<times> world" where
  "route_request X cfg name account target w =
     (case resolve_platform w name of
        None \<Rightarrow> (Inl Platform_Not_Found, w)
      | Some plat \<Rightarrow>
          let domain = extract_domain X target;
              pid = plat_id plat;
              w1 = ensure_platform_state pid w;
              (r, x) = (if account = [] then route_random X cfg plat domain (open_ctx pid w1)
                 else let (now, ev) = time_now (wd_env w1)
                      in route_sticky X cfg plat account domain now
                           (open_ctx pid (w1\<lparr>wd_env := ev\<rparr>)));
              w2 = close_ctx pid x w1
          in case r of
               Inl err \<Rightarrow> (Inl err, w2)
             | Inr result \<Rightarrow>
                 let result = with_platform_context plat result
                 in (Inr (case rc_tag_resolver cfg of
                        None \<Rightarrow> result
                      | Some f \<Rightarrow> result\<lparr>rr_tag := f (wd_pool w2) (rr_node result)\<rparr>), w2))"

section \<open>What a selection changes\<close>

text \<open>
  A selection leaves leases and events alone, keeps the nodes but for access times, and changes
  the window only under a quota, which it keeps.
\<close>

definition quota_bounded :: "platform \<Rightarrow> bool" where
  "quota_bounded plat \<longleftrightarrow> max_accounts_per_ip plat < max_i64"

definition keeps :: "platform \<Rightarrow> rctx \<Rightarrow> rctx \<Rightarrow> bool" where
  "keeps plat x x' \<longleftrightarrow> same_nodes (rx_nodes x) (rx_nodes x')
     \<and> (\<not> ip_quota_enabled plat \<longrightarrow> rx_window x' = rx_window x)
     \<and> (ip_quota_enabled plat \<longrightarrow> quota_bounded plat \<longrightarrow>
          quota_inv (max_accounts_per_ip plat) (rx_window x) \<longrightarrow>
          quota_inv (max_accounts_per_ip plat) (rx_window x'))"

definition selects :: "platform \<Rightarrow> rctx \<Rightarrow> rctx \<Rightarrow> bool" where
  "selects plat x x' \<longleftrightarrow>
     rx_leases x' = rx_leases x \<and> rx_events x' = rx_events x \<and> keeps plat x x'"

lemma keeps_refl [simp]: "keeps plat x x"
  by (simp add: keeps_def)

lemma selects_refl [simp]: "selects plat x x"
  by (simp add: selects_def)

lemma keeps_trans: "keeps plat a b \<Longrightarrow> keeps plat b c \<Longrightarrow> keeps plat a c"
  by (auto simp: keeps_def intro: same_nodes_trans)

lemma selects_trans: "selects plat a b \<Longrightarrow> selects plat b c \<Longrightarrow> selects plat a c"
  by (auto simp: selects_def intro: keeps_trans)

lemma keeps_upd [simp]:
  "keeps plat x (x'\<lparr>rx_leases := t\<rparr>) = keeps plat x x'"
  "keeps plat x (emit_lease_event ev x') = keeps plat x x'"
  "keeps plat x (set_stats s x') = keeps plat x x'"
  by (simp_all add: keeps_def emit_lease_event_def set_stats_def)

lemma selects_reads:
  "same_nodes (rx_nodes x) ns \<Longrightarrow> selects plat x (x\<lparr>rx_nodes := ns, rx_env := ev\<rparr>)"
  by (simp add: selects_def keeps_def)

lemma selects_window:
  assumes "ip_quota_enabled plat"
    and "\<And>mx. mx = max_accounts_per_ip plat \<Longrightarrow> 0 < mx \<Longrightarrow> mx < max_i64
           \<Longrightarrow> quota_inv mx (rx_window x) \<Longrightarrow> quota_inv mx w"
  shows "selects plat x (x\<lparr>rx_window := w\<rparr>)"
  using assms by (simp add: selects_def keeps_def ip_quota_enabled_def quota_bounded_def)

text \<open>A found node is in the view and in the pool.\<close>

definition found :: "platform \<Rightarrow> node_table \<Rightarrow> hash \<Rightarrow> node_entry \<Rightarrow> bool" where
  "found plat ns h e \<longleftrightarrow> view_contains (view plat) h \<and> m_load ns h = Some e"

lemma pick_live_spec:
  assumes "view_ok (view plat)" "pick_live_random_route X cfg plat domain x = (r, x')"
  shows "selects plat x x' \<and> rx_window x' = rx_window x
    \<and> (\<forall>h e. r = Inr (h, e) \<longrightarrow> view_contains (view plat) h \<and> e = m_load (rx_nodes x') h)"
proof -
  obtain q ns ev where q: "random_route X plat (rx_stats x) domain (rc_authorities cfg)
      (rc_p2c_window cfg) (rx_nodes x, rx_env x) = (q, ns, ev)" by (metis prod.exhaust)
  from random_route_spec [OF assms(1) q] assms(2) show ?thesis
    by (auto simp: pick_live_random_route_def q intro: selects_reads)
qed

lemma live_pick_loop_spec:
  assumes "view_ok (view plat)" "live_pick_loop n X cfg plat domain miss x = (r, x')"
  shows "selects plat x x' \<and> rx_window x' = rx_window x
    \<and> (\<forall>h e. r = Inr (h, e) \<longrightarrow> found plat (rx_nodes x') h e)"
  using assms(2)
proof (induction n arbitrary: miss x)
  case (Suc n)
  obtain q x1 where q: "pick_live_random_route X cfg plat domain x = (q, x1)"
    by (rule prod.exhaust)
  note sp = pick_live_spec [OF assms(1) q]
  show ?case
  proof (cases "\<exists>h. q = Inr (h, None)")
    case True
    with Suc.prems q obtain h where "live_pick_loop n X cfg plat domain h x1 = (r, x')" by auto
    from Suc.IH [OF this] sp selects_trans [of plat x x1 x'] show ?thesis by auto
  next
    case False
    with Suc.prems q sp show ?thesis
      by (auto simp: found_def split: sum.splits option.splits prod.splits)
  qed
qed auto

lemma select_live_spec:
  assumes "view_ok (view plat)" "select_live_random_route X cfg plat domain x = (r, x')"
  shows "selects plat x x' \<and> rx_window x' = rx_window x
    \<and> (\<forall>h e. r = Inr (h, e) \<longrightarrow> found plat (rx_nodes x') h e)"
  by (rule live_pick_loop_spec [OF assms [unfolded select_live_random_route_def]])

section \<open>The forced fallback\<close>

text \<open>The order in which the fallback prefers addresses.\<close>

definition lighter :: "ip_candidate \<Rightarrow> ip_candidate \<Rightarrow> bool" where
  "lighter a b \<longleftrightarrow> cand_count a < cand_count b \<or> cand_count a = cand_count b \<and> cand_load a < cand_load b"

definition candidate ::
  "node_table \<Rightarrow> ip_load_stats \<Rightarrow> (addr, int) amap \<Rightarrow> hash \<Rightarrow> ip_candidate option" where
  "candidate ns stats counts h = (case m_load ns h of
     None \<Rightarrow> None
   | Some e \<Rightarrow> if \<not> addr_valid (get_egress_ip e) then None
       else Some \<lparr>cand_ip = get_egress_ip e, cand_hash = h, cand_entry = e,
         cand_count = (case m_load counts (get_egress_ip e) of None \<Rightarrow> 0 | Some n \<Rightarrow> n),
         cand_load = stats_get stats (get_egress_ip e)\<rparr>)"

lemma candidate_facts:
  assumes "candidate ns stats counts h = Some c"
  shows "cand_hash c = h" "m_load ns h = Some (cand_entry c)" "addr_valid (cand_ip c)"
    "cand_ip c = get_egress_ip (cand_entry c)" "cand_load c = stats_get stats (cand_ip c)"
    "cand_count c = (case m_load counts (cand_ip c) of None \<Rightarrow> 0 | Some n \<Rightarrow> n)"
  using assms by (auto simp: candidate_def split: option.splits if_splits)

lemma candidate_same_ip:
  "candidate ns stats counts h = Some c \<Longrightarrow> candidate ns stats counts g = Some d
     \<Longrightarrow> cand_ip c = cand_ip d \<Longrightarrow> \<not> lighter c d"
  by (auto simp: candidate_def lighter_def split: option.splits if_splits)

definition lighter_opt :: "ip_candidate \<Rightarrow> ip_candidate option \<Rightarrow> ip_candidate" where
  "lighter_opt c best = (case best of None \<Rightarrow> c | Some b \<Rightarrow> if lighter c b then c else b)"

lemma fallback_loop_Cons:
  "fallback_loop ns stats counts (h # hs) seen best =
     (case candidate ns stats counts h of
        None \<Rightarrow> fallback_loop ns stats counts hs seen best
      | Some c \<Rightarrow>
          if cand_ip c \<in> set seen then fallback_loop ns stats counts hs seen best
          else fallback_loop ns stats counts hs (cand_ip c # seen) (Some (lighter_opt c best)))"
  by (auto simp: candidate_def lighter_opt_def lighter_def Let_def split: option.split)

lemma lighter_trans: "\<not> lighter a b \<Longrightarrow> \<not> lighter b c \<Longrightarrow> \<not> lighter a c"
  by (auto simp: lighter_def)

text \<open>
  The loop keeps the lightest candidate seen, and every address seen is represented by it.
\<close>

lemma fallback_loop_spec:
  assumes "fallback_loop ns stats counts hs seen best = r"
    and "\<forall>g c. candidate ns stats counts g = Some c \<longrightarrow> cand_ip c \<in> set seen \<longrightarrow>
           (\<exists>b. best = Some b \<and> \<not> lighter c b)"
    and "\<forall>b. best = Some b \<longrightarrow> candidate ns stats counts (cand_hash b) = Some b"
  shows "(\<forall>b. r = Some b \<longrightarrow> candidate ns stats counts (cand_hash b) = Some b
            \<and> (best = Some b \<or> cand_hash b \<in> set hs))
    \<and> (\<forall>h\<in>set hs. \<forall>c. candidate ns stats counts h = Some c \<longrightarrow> (\<exists>b. r = Some b \<and> \<not> lighter c b))
    \<and> (\<forall>b. best = Some b \<longrightarrow> (\<exists>b'. r = Some b' \<and> \<not> lighter b b'))"
  using assms
proof (induction hs arbitrary: seen best)
  case Nil
  then show ?case by (auto simp: lighter_def)
next
  case (Cons h hs)
  show ?case
  proof (cases "\<exists>c. candidate ns stats counts h = Some c \<and> cand_ip c \<notin> set seen")
    case False
    then have run: "fallback_loop ns stats counts hs seen best = r"
      using Cons.prems(1) by (auto simp: fallback_loop_Cons simp del: fallback_loop.simps(2) split: option.splits if_splits)
    note ih = Cons.IH [OF run Cons.prems(2,3)]
    have "\<exists>b. r = Some b \<and> \<not> lighter c b" if c: "candidate ns stats counts h = Some c" for c
      using False c Cons.prems(2) ih by (metis lighter_trans)
    with ih show ?thesis by auto
  next
    case True
    then obtain c where c: "candidate ns stats counts h = Some c" "cand_ip c \<notin> set seen" by blast
    let ?best = "lighter_opt c best"
    have run: "fallback_loop ns stats counts hs (cand_ip c # seen) (Some ?best) = r"
      using Cons.prems(1) c by (simp add: fallback_loop_Cons del: fallback_loop.simps(2))
    have le: "\<not> lighter c ?best" "\<forall>b. best = Some b \<longrightarrow> \<not> lighter b ?best"
      by (auto simp: lighter_opt_def lighter_def split: option.splits)
    have rep: "\<exists>b. Some ?best = Some b \<and> \<not> lighter d b"
      if d: "candidate ns stats counts g = Some d" "cand_ip d \<in> set (cand_ip c # seen)" for g d
    proof (cases "cand_ip d = cand_ip c")
      case True
      from lighter_trans [OF candidate_same_ip [OF d(1) c(1) True] le(1)] show ?thesis by simp
    next
      case False
      with d Cons.prems(2) obtain b where "best = Some b" "\<not> lighter d b" by auto
      with lighter_trans le(2) show ?thesis by blast
    qed
    have own: "candidate ns stats counts (cand_hash ?best) = Some ?best"
      and src: "?best = c \<or> best = Some ?best"
      using Cons.prems(3) c candidate_facts(1) [OF c(1)]
      by (auto simp: lighter_opt_def split: option.splits)
    have ih: "(\<forall>b. r = Some b \<longrightarrow> candidate ns stats counts (cand_hash b) = Some b
            \<and> (Some ?best = Some b \<or> cand_hash b \<in> set hs))
      \<and> (\<forall>h\<in>set hs. \<forall>c. candidate ns stats counts h = Some c \<longrightarrow> (\<exists>b. r = Some b \<and> \<not> lighter c b))
      \<and> (\<forall>b. Some ?best = Some b \<longrightarrow> (\<exists>b'. r = Some b' \<and> \<not> lighter b b'))"
      by (rule Cons.IH [OF run]) (use rep own in auto)
    then obtain b' where b': "r = Some b'" "\<not> lighter ?best b'" by blast
    from lighter_trans [OF _ b'(2)] le have "\<not> lighter c b'"
      "\<forall>b. best = Some b \<longrightarrow> \<not> lighter b b'" by blast+
    with ih b' c src candidate_facts(1) [OF c(1)] show ?thesis by auto
  qed
qed

lemma fallback_quota_spec:
  assumes "view_ok (view plat)" "ip_quota_enabled plat"
    and "fallback_quota_route plat account now win (max_accounts_per_ip plat) x = (r, x')"
  shows "selects plat x x' \<and> (\<forall>h e. r = Inr (h, e) \<longrightarrow> found plat (rx_nodes x') h e)"
proof -
  let ?mx = "max_accounts_per_ip plat" and ?hs = "view_range (view plat)"
  obtain w counts where w: "counts_by_ip now win (rx_window x) = (w, counts)" by (rule prod.exhaust)
  have s1: "selects plat x (x\<lparr>rx_window := w\<rparr>)"
    using w counts_loop_quota [of ?mx "rx_window x"]
    by (intro selects_window [OF assms(2)]) (auto simp: counts_by_ip_def split: prod.splits, metis fst_conv)
  let ?best = "fallback_loop (rx_nodes x) (rx_stats (x\<lparr>rx_window := w\<rparr>)) counts ?hs [] None"
  note sp = fallback_loop_spec [where ns = "rx_nodes x" and counts = counts and hs = ?hs
      and stats = "rx_stats (x\<lparr>rx_window := w\<rparr>)" and seen = "[]" and best = None, OF refl, simplified]
  show ?thesis
  proof (cases ?best)
    case None
    with assms(3) w s1 show ?thesis by (auto simp: fallback_quota_route_def)
  next
    case (Some b)
    obtain w' ok where f: "reserve_forced_fallback (cand_ip b) account now win ?mx w = (w', ok)"
      by (rule prod.exhaust)
    have s2: "selects plat (x\<lparr>rx_window := w\<rparr>) (x\<lparr>rx_window := w'\<rparr>)"
      using selects_window [OF assms(2), of "x\<lparr>rx_window := w\<rparr>" w']
        forced_quota [of ?mx w "cand_ip b" account now win] f by simp
    have b: "candidate (rx_nodes x) (rx_stats (x\<lparr>rx_window := w\<rparr>)) counts (cand_hash b) = Some b"
      "cand_hash b \<in> set ?hs" using sp Some by auto
    then have "found plat (rx_nodes x) (cand_hash b) (cand_entry b)"
      by (simp add: found_def candidate_facts(2) [OF b(1)] view_contains_range [OF assms(1)])
    with assms(3) w Some f selects_trans [OF s1 s2] show ?thesis
      by (auto simp: fallback_quota_route_def Let_def split: if_splits)
  qed
qed

lemma quota_pick_spec:
  assumes ok: "view_ok (view plat)" and q: "ip_quota_enabled plat"
    and "quota_pick_loop n X cfg plat account domain now win (max_accounts_per_ip plat) x = (r, x')"
  shows "selects plat x x' \<and> (\<forall>h e. r = Inr (h, e) \<longrightarrow> found plat (rx_nodes x') h e)"
  using assms(3)
proof (induction n arbitrary: x)
  case 0
  with fallback_quota_spec [OF ok q] show ?case by simp
next
  case (Suc n)
  obtain p x1 where p: "pick_live_random_route X cfg plat domain x = (p, x1)" by (rule prod.exhaust)
  note sp = pick_live_spec [OF ok p]
  show ?case
  proof (cases "\<exists>h e. p = Inr (h, Some e)")
    case True
    then obtain h e where he: "p = Inr (h, Some e)" by blast
    obtain w b where w: "reserve_if_eligible (get_egress_ip e) account now win
        (max_accounts_per_ip plat) (rx_window x1) = (w, b)" by (rule prod.exhaust)
    have s2: "selects plat x1 (x1\<lparr>rx_window := w\<rparr>)"
      using reserve_quota [of _ "rx_window x1" "get_egress_ip e" account now win] w
      by (intro selects_window [OF q]) (metis fst_conv)
    show ?thesis
    proof (cases b)
      case True
      with Suc.prems p he w sp selects_trans [OF _ s2] show ?thesis
        by (auto simp: found_def)
    next
      case False
      with Suc.prems p he w have "quota_pick_loop n X cfg plat account domain now win
        (max_accounts_per_ip plat) (x1\<lparr>rx_window := w\<rparr>) = (r, x')" by simp
      from Suc.IH [OF this] sp selects_trans [OF _ s2] selects_trans [of plat x] show ?thesis by blast
    qed
  next
    case False
    show ?thesis
    proof (cases p)
      case (Inl err)
      with Suc.prems p sp show ?thesis by auto
    next
      case (Inr he)
      with False obtain h where "p = Inr (h, None)" by (cases he; cases "snd he") auto
      with Suc.prems p have "quota_pick_loop n X cfg plat account domain now win
        (max_accounts_per_ip plat) x1 = (r, x')" by simp
      from Suc.IH [OF this] sp selects_trans [of plat x] show ?thesis by blast
    qed
  qed
qed

lemma select_route_spec:
  assumes "view_ok (view plat)" "select_route_for_lease X cfg plat account domain now x = (r, x')"
  shows "selects plat x x' \<and> (\<forall>h e. r = Inr (h, e) \<longrightarrow> found plat (rx_nodes x') h e)"
  using assms select_live_spec [OF assms(1)] quota_pick_spec [OF assms(1)]
  by (auto simp: select_route_for_lease_def split: if_splits; blast)


section \<open>What a request does to the lease of its account\<close>

text \<open>
  The contract of a sticky request, free of quotas, scores and windows: a step relation on the
  lease of the account, with the events and the result. A lease is touched, moved to another node
  on its address, replaced by a new one, or lost.
\<close>

definition retire_events :: "string \<Rightarrow> string \<Rightarrow> int \<Rightarrow> lease option \<Rightarrow> lease_event list" where
  "retire_events pid account now previous = (case previous of
     None \<Rightarrow> []
   | Some l \<Rightarrow> [lease_event_of (if is_expired l now then Lease_Expire else Lease_Remove)
       pid account (l_node l) (l_egress l) (l_created_at_ns l)])"

definition lease_ttl :: "platform \<Rightarrow> int" where
  "lease_ttl plat = (if sticky_ttl_ns plat \<le> 0 then default_lease_ttl_ns else sticky_ttl_ns plat)"

definition fresh_lease :: "platform \<Rightarrow> hash \<Rightarrow> addr \<Rightarrow> int \<Rightarrow> lease" where
  "fresh_lease plat h ip now = \<lparr>l_node = h, l_egress = ip, l_created_at_ns = now,
     l_expiry_ns = i64 (now + lease_ttl plat), l_last_accessed_ns = now\<rparr>"

inductive sticky_step ::
  "platform \<Rightarrow> string \<Rightarrow> int \<Rightarrow> node_table \<Rightarrow> lease option
     \<Rightarrow> lease option \<Rightarrow> lease_event list \<Rightarrow> route_error + route_result \<Rightarrow> bool"
  for plat :: platform and account :: string and now :: int and ns :: node_table where
  sticky_hit: "\<not> is_expired l now \<Longrightarrow> view_contains (view plat) (l_node l)
    \<Longrightarrow> on_ip ns (l_egress l) (l_node l)
    \<Longrightarrow> sticky_step plat account now ns (Some l) (Some (l\<lparr>l_last_accessed_ns := now\<rparr>))
          [lease_event_of Lease_Touch (plat_id plat) account (l_node l) (l_egress l) 0]
          (Inr (mk_result (l_node l) (l_egress l) False))"
| sticky_rotate: "\<not> is_expired l now \<Longrightarrow> view_contains (view plat) h \<Longrightarrow> on_ip ns (l_egress l) h
    \<Longrightarrow> sticky_step plat account now ns (Some l) (Some (l\<lparr>l_node := h, l_last_accessed_ns := now\<rparr>))
          [lease_event_of Lease_Replace (plat_id plat) account h (l_egress l) 0]
          (Inr (mk_result h (l_egress l) False))"
| sticky_create: "view_contains (view plat) h \<Longrightarrow> on_ip ns ip h
    \<Longrightarrow> sticky_step plat account now ns previous (Some (fresh_lease plat h ip now))
          (retire_events (plat_id plat) account now previous
            @ [lease_event_of Lease_Create (plat_id plat) account h ip 0])
          (Inr (mk_result h ip True))"
| sticky_fail: "sticky_step plat account now ns previous None
    (retire_events (plat_id plat) account now previous) (Inl err)"

inductive_cases sticky_okE: "sticky_step plat account now ns previous current evs (Inr r)"
inductive_cases sticky_stepE: "sticky_step plat account now ns previous current evs r"

lemma sticky_step_nodes:
  "sticky_step plat account now ns p c evs r \<Longrightarrow> same_nodes ns ns' \<or> same_nodes ns' ns
     \<Longrightarrow> sticky_step plat account now ns' p c evs r"
  by (induction rule: sticky_step.induct) (auto intro: sticky_step.intros simp: on_ip_same)

lemma found_on_ip: "found plat ns h e \<Longrightarrow> on_ip ns (get_egress_ip e) h"
  by (simp add: found_def on_ip_def)


definition retire_reason :: "int \<Rightarrow> lease option \<Rightarrow> invalidation" where
  "retire_reason now previous = (case previous of
     None \<Rightarrow> Inval_None | Some l \<Rightarrow> if is_expired l now then Inval_Expire else Inval_Remove)"

lemma cleanup_eq:
  "cleanup_previous_lease pid account previous (retire_reason now previous) x =
     x\<lparr>rx_leases := (rx_leases x)\<lparr>lt_stats := (case previous of None \<Rightarrow> lt_stats (rx_leases x)
          | Some l \<Rightarrow> stats_dec (l_egress l) (lt_stats (rx_leases x)))\<rparr>,
       rx_events := rx_events x @ retire_events pid account now previous\<rparr>"
  by (auto simp: cleanup_previous_lease_def retire_reason_def retire_events_def set_stats_def
      emit_lease_event_def rx_stats_def split: option.split)

text \<open>The lease table after a new lease, or after none was found.\<close>

definition settle :: "string \<Rightarrow> lease option \<Rightarrow> lease_table \<Rightarrow> lease_table" where
  "settle account current t = (case current of
     None \<Rightarrow> fst (delete_lease account t) | Some l \<Rightarrow> create_lease account l t)"

lemma create_lease_spec:
  assumes "view_ok (view plat)" "create_sticky_lease X cfg plat account domain now x = (r, x')"
  shows "selects plat x x' \<and> (\<forall>l res. r = Inr (l, res) \<longrightarrow>
    (\<exists>h ip. view_contains (view plat) h \<and> on_ip (rx_nodes x') ip h
       \<and> l = fresh_lease plat h ip now \<and> res = mk_result h ip True))"
proof -
  obtain q x1 where q: "select_route_for_lease X cfg plat account domain now x = (q, x1)"
    by (rule prod.exhaust)
  note sp = select_route_spec [OF assms(1) q]
  show ?thesis
  proof (cases q)
    case (Inl err)
    with q sp assms(2) show ?thesis by (auto simp: create_sticky_lease_def)
  next
    case (Inr he)
    obtain h e where he: "he = (h, e)" by (rule prod.exhaust)
    with sp Inr have f: "found plat (rx_nodes x1) h e" by blast
    have "view_contains (view plat) h" "on_ip (rx_nodes x1) (get_egress_ip e) h"
      using f found_on_ip [OF f] by (simp_all add: found_def)
    with assms(2) q sp Inr he show ?thesis
      by (auto simp: create_sticky_lease_def fresh_lease_def lease_ttl_def Let_def)
  qed
qed

lemma create_or_abort_spec:
  assumes ok: "view_ok (view plat)"
    and run: "create_or_abort_sticky_lease X cfg plat account domain now previous
        (retire_reason now previous) x = (d, r, x')"
    and prev: "previous = m_load (lt_leases (rx_leases x)) account"
  shows "keeps plat x x' \<and> (\<exists>current evs. sticky_step plat account now (rx_nodes x) previous current evs r
    \<and> rx_events x' = rx_events x @ evs
    \<and> rx_leases (apply_compute account d x') = settle account current (rx_leases x))"
proof -
  obtain q x1 where q: "create_sticky_lease X cfg plat account domain now x = (q, x1)"
    by (rule prod.exhaust)
  note sp = create_lease_spec [OF ok q]
  have t: "rx_leases x1 = rx_leases x" "rx_events x1 = rx_events x"
    and k: "keeps plat x x1" and same: "same_nodes (rx_nodes x) (rx_nodes x1)"
    using sp by (auto simp: selects_def keeps_def)
  show ?thesis
  proof (cases q)
    case (Inl err)
    then have "d = (previous, abort_lease_create previous)" "r = Inl err"
      "x' = cleanup_previous_lease (plat_id plat) account previous (retire_reason now previous) x1"
      using run q by (simp_all add: create_or_abort_sticky_lease_def)
    moreover have "keeps plat x (x1\<lparr>rx_leases := t, rx_events := es\<rparr>)" for t es
      using k by (simp add: keeps_def)
    ultimately show ?thesis
      using sticky_fail [of plat account now "rx_nodes x" previous err] t prev
      by (intro conjI exI [of _ None] exI [of _ "retire_events (plat_id plat) account now previous"])
        (auto simp: cleanup_eq apply_compute_def abort_lease_create_def settle_def
          delete_lease_def split: option.splits)
  next
    case (Inr lr)
    with sp obtain h ip where hip: "view_contains (view plat) h" "on_ip (rx_nodes x1) ip h"
      "lr = (fresh_lease plat h ip now, mk_result h ip True)" by (cases lr) auto
    let ?l = "fresh_lease plat h ip now"
    have l: "l_node ?l = h" "l_egress ?l = ip" by (simp_all add: fresh_lease_def)
    from run q Inr hip(3) have d: "d = (Some ?l, Update_Op)" "r = Inr (mk_result h ip True)"
      by (auto simp: create_or_abort_sticky_lease_def Let_def)
    have x': "x' = x1\<lparr>rx_leases := (rx_leases x)\<lparr>lt_stats := stats_inc ip
            (case previous of None \<Rightarrow> lt_stats (rx_leases x)
             | Some l \<Rightarrow> stats_dec (l_egress l) (lt_stats (rx_leases x)))\<rparr>,
        rx_events := rx_events x @ retire_events (plat_id plat) account now previous
          @ [lease_event_of Lease_Create (plat_id plat) account h ip 0]\<rparr>"
      using run q Inr hip(3) t l
      by (auto simp: create_or_abort_sticky_lease_def Let_def cleanup_eq set_stats_def
          emit_lease_event_def rx_stats_def cong: option.case_cong)
    have "on_ip (rx_nodes x) ip h" using hip(2) on_ip_same [OF same] by simp
    from sticky_create [OF hip(1) this, of account now previous] show ?thesis
      using k prev unfolding x' d
      by (intro conjI exI [of _ "Some ?l"] exI [of _ "retire_events (plat_id plat) account now previous
          @ [lease_event_of Lease_Create (plat_id plat) account h ip 0]"])
        (auto simp: apply_compute_def settle_def create_lease_def l keeps_def Let_def
          split: option.split)
  qed
qed

text \<open>An unexpired lease is touched, moved on its address, or left for a new one.\<close>

lemma refresh_selects:
  assumes "(if ip_quota_enabled plat
      then refresh_on_hit ip account now win (max_accounts_per_ip plat) (rx_window x)
      else (rx_window x, True)) = (w, ok)"
  shows "selects plat x (x\<lparr>rx_window := w\<rparr>)"
proof (cases "ip_quota_enabled plat")
  case True
  with assms refresh_quota [of _ "rx_window x" ip account now win] show ?thesis
    by (intro selects_window [OF True]) (metis fst_conv)
next
  case False
  with assms show ?thesis by (simp add: selects_def keeps_def)
qed

lemma try_hit_spec:
  assumes "try_lease_hit plat account cur now x = (q, x')" "\<not> is_expired cur now"
  shows "case q of None \<Rightarrow> selects plat x x'
    | Some (l, res) \<Rightarrow> keeps plat x x' \<and> rx_leases x' = rx_leases x \<and> l_egress l = l_egress cur
        \<and> (\<exists>evs. sticky_step plat account now (rx_nodes x) (Some cur) (Some l) evs (Inr res)
             \<and> rx_events x' = rx_events x @ evs)"
proof (cases "view_contains (view plat) (l_node cur) \<and> on_ip (rx_nodes x) (l_egress cur) (l_node cur)")
  case False
  with assms(1) show ?thesis
    by (auto simp: try_lease_hit_def on_ip_def split: option.splits if_splits)
next
  case True
  then obtain e where e: "m_load (rx_nodes x) (l_node cur) = Some e" "get_egress_ip e = l_egress cur"
    by (auto simp: on_ip_def split: option.splits)
  obtain w ok where w: "(if ip_quota_enabled plat then refresh_on_hit (l_egress cur) account now
      (effective_ip_account_window_ns plat) (max_accounts_per_ip plat) (rx_window x)
      else (rx_window x, True)) = (w, ok)" by (rule prod.exhaust)
  note s = refresh_selects [OF w]
  have run: "try_lease_hit plat account cur now x =
      (if \<not> ok then (None, x\<lparr>rx_window := w\<rparr>)
       else (Some (cur\<lparr>l_last_accessed_ns := now\<rparr>, mk_result (l_node cur) (l_egress cur) False),
         emit_lease_event (lease_event_of Lease_Touch (plat_id plat) account (l_node cur) (l_egress cur) 0)
           (x\<lparr>rx_window := w\<rparr>)))"
    using True by (simp only: try_lease_hit_def e option.case Let_def w prod.case) simp
  show ?thesis
    using assms run s sticky_hit [OF assms(2), of plat "rx_nodes x" account] True
    by (auto simp: selects_def emit_lease_event_def keeps_def split: if_splits)
qed

lemma try_rotation_spec:
  assumes "view_ok (view plat)"
    and "try_lease_same_ip_rotation X cfg plat account cur domain now x = (q, x')"
    and "\<not> is_expired cur now"
  shows "case q of None \<Rightarrow> selects plat x x'
    | Some (l, res) \<Rightarrow> keeps plat x x' \<and> rx_leases x' = rx_leases x \<and> l_egress l = l_egress cur
        \<and> (\<exists>evs. sticky_step plat account now (rx_nodes x) (Some cur) (Some l) evs (Inr res)
             \<and> rx_events x' = rx_events x @ evs)"
proof -
  obtain b ns ev where b: "choose_same_ip_rotation_candidate X plat (l_egress cur) domain
      (rc_authorities cfg) (rc_p2c_window cfg) (rx_nodes x, rx_env x) = (b, ns, ev)"
    by (metis prod.exhaust)
  note sp = choose_rotation_sound [OF b, simplified]
  let ?x = "x\<lparr>rx_nodes := ns, rx_env := ev\<rparr>"
  have s1: "selects plat x ?x" by (rule selects_reads [OF sp(1)])
  show ?thesis
  proof (cases b)
    case None
    with assms(2) b s1 show ?thesis by (auto simp: try_lease_same_ip_rotation_def)
  next
    case (Some h)
    obtain w ok where w: "(if ip_quota_enabled plat then refresh_on_hit (l_egress cur) account now
        (effective_ip_account_window_ns plat) (max_accounts_per_ip plat) (rx_window ?x)
        else (rx_window ?x, True)) = (w, ok)" by (rule prod.exhaust)
    note s2 = selects_trans [OF s1 refresh_selects [OF w]]
    have h: "view_contains (view plat) h" "on_ip (rx_nodes x) (l_egress cur) h"
      using sp(2) [OF Some] by (simp_all add: view_contains_range [OF assms(1)])
    have "try_lease_same_ip_rotation X cfg plat account cur domain now x =
      (if \<not> ok then (None, ?x\<lparr>rx_window := w\<rparr>)
       else (Some (cur\<lparr>l_node := h, l_last_accessed_ns := now\<rparr>, mk_result h (l_egress cur) False),
         emit_lease_event (lease_event_of Lease_Replace (plat_id plat) account h (l_egress cur) 0)
           (?x\<lparr>rx_window := w\<rparr>)))"
      by (simp only: try_lease_same_ip_rotation_def b Some option.case Let_def w prod.case)
    with assms(2) s2 sticky_rotate [OF assms(3) h, of account] show ?thesis
      by (auto simp: selects_def emit_lease_event_def keeps_def split: if_splits)
  qed
qed

text \<open>
  The lease table after a request: it is settled on the new lease, or the lease of the account is
  overwritten by one on the same address.
\<close>

definition lease_moved :: "string \<Rightarrow> lease option \<Rightarrow> lease_table \<Rightarrow> lease_table \<Rightarrow> bool" where
  "lease_moved account current t t' \<longleftrightarrow> t' = settle account current t
     \<or> (\<exists>l cur. current = Some l \<and> m_load (lt_leases t) account = Some cur
          \<and> l_egress l = l_egress cur \<and> t' = t\<lparr>lt_leases := m_store account l (lt_leases t)\<rparr>)"

lemma lease_moved_lookup:
  "lease_moved account current t t' \<Longrightarrow>
     m_load (lt_leases t') = (m_load (lt_leases t))(account := current)"
  by (auto simp: lease_moved_def settle_def create_lease_def delete_lease_def Let_def store_simps
      fun_eq_iff split: option.splits)

lemma lease_moved_inv: "lease_inv t \<Longrightarrow> lease_moved account current t t' \<Longrightarrow> lease_inv t'"
  using ls.match_same_ip [of "m_load (lt_leases t)" "lt_stats t" account]
  by (auto simp: lease_moved_def settle_def create_lease_inv delete_lease_inv split: option.splits)
    (auto simp: lease_inv_def store_simps finite_dom_map_of fun_upd_def)

lemma route_sticky_step:
  assumes ok: "view_ok (view plat)" and run: "route_sticky X cfg plat account domain now x = (r, x')"
  shows "keeps plat x x' \<and> (\<exists>current evs. sticky_step plat account now (rx_nodes x)
      (m_load (lt_leases (rx_leases x)) account) current evs r
    \<and> rx_events x' = rx_events x @ evs
    \<and> lease_moved account current (rx_leases x) (rx_leases x'))"
proof -
  let ?p = "m_load (lt_leases (rx_leases x)) account"
  obtain d x1 where dec: "decide_sticky_lease X cfg plat account domain now ?p x = (d, r, x1)"
    and x': "x' = apply_compute account d x1"
    using run by (auto simp: route_sticky_def split: prod.splits)
  have apply_keeps: "keeps plat x (apply_compute account d x1) = keeps plat x x1" 
    "rx_events (apply_compute account d x1) = rx_events x1"
    by (auto simp: apply_compute_def split: prod.splits option.splits compute_op.splits)
  have create: ?thesis
    if "selects plat x y"
      "create_or_abort_sticky_lease X cfg plat account domain now ?p (retire_reason now ?p) y = (d, r, x1)"
    for y
  proof -
    from that(1) have y: "rx_leases y = rx_leases x" "rx_events y = rx_events x" "keeps plat x y"
      "same_nodes (rx_nodes x) (rx_nodes y)" by (auto simp: selects_def keeps_def)
    from create_or_abort_spec [OF ok that(2)] y(1) obtain current evs where
      c: "keeps plat y x1" "sticky_step plat account now (rx_nodes y) ?p current evs r"
        "rx_events x1 = rx_events y @ evs"
        "rx_leases (apply_compute account d x1) = settle account current (rx_leases x)" by auto
    from sticky_step_nodes [OF c(2)] y(4) have
      "sticky_step plat account now (rx_nodes x) ?p current evs r" by blast
    with c keeps_trans [OF y(3)] y(2) show ?thesis
      unfolding x' apply_keeps lease_moved_def by auto
  qed
  show ?thesis
  proof (cases ?p)
    case None
    with dec create [of x] show ?thesis by (simp add: decide_sticky_lease_def retire_reason_def)
  next
    case (Some cur)
    have moved: ?thesis
      if a: "keeps plat y x1" "selects plat x y" "rx_leases x1 = rx_leases y" "l_egress l = l_egress cur"
        "sticky_step plat account now (rx_nodes y) (Some cur) (Some l) evs (Inr res)"
        "rx_events x1 = rx_events y @ evs" "d = (Some l, Update_Op)" "r = Inr res" for y l evs res
    proof -
      from a(2) have y: "rx_leases y = rx_leases x" "rx_events y = rx_events x" "keeps plat x y"
        "same_nodes (rx_nodes x) (rx_nodes y)" by (auto simp: selects_def keeps_def)
      from sticky_step_nodes [OF a(5)] y(4) have
        "sticky_step plat account now (rx_nodes x) (Some cur) (Some l) evs r" using a(8) by blast
      moreover have "lease_moved account (Some l) (rx_leases x) (rx_leases x')"
        using a(3,4,7) y(1) Some unfolding x' by (auto simp: lease_moved_def apply_compute_def)
      ultimately show ?thesis
        using a(1,6) y Some keeps_trans [OF y(3)] apply_keeps unfolding x' by auto
    qed
    obtain q1 y1 where q1: "try_lease_hit plat account cur now x = (q1, y1)" by (rule prod.exhaust)
    obtain q2 y2 where q2: "try_lease_same_ip_rotation X cfg plat account cur domain now y1 = (q2, y2)"
      by (rule prod.exhaust)
    show ?thesis
    proof (cases "is_expired cur now")
      case True
      with Some dec create [of x] show ?thesis by (simp add: decide_sticky_lease_def retire_reason_def)
    next
      case False
      note hit = try_hit_spec [OF q1 False] and rot = try_rotation_spec [OF ok q2 False]
      show ?thesis
      proof (cases q1)
        case (Some lr)
        with hit dec \<open>?p = Some cur\<close> q1 False moved [of x] show ?thesis
          by (cases lr) (auto simp: decide_sticky_lease_def)
      next
        case None
        with hit have s1: "selects plat x y1" by simp
        show ?thesis
        proof (cases q2)
          case (Some lr)
          with rot dec \<open>?p = Some cur\<close> q1 q2 None False moved [OF _ s1] show ?thesis
            by (cases lr) (auto simp: decide_sticky_lease_def)
        next
          case n: None
          with rot have "selects plat x y2" using selects_trans [OF s1] by simp
          from create [OF this] dec \<open>?p = Some cur\<close> q1 q2 None n False show ?thesis
            by (simp add: decide_sticky_lease_def retire_reason_def)
        qed
      qed
    qed
  qed
qed

section \<open>The world around a request\<close>

definition lease_of :: "world \<Rightarrow> string \<Rightarrow> string \<rightharpoonup> lease" where
  "lease_of w pid = m_load (lt_leases (ps_leases (state_of w pid)))"

definition set_lease ::
  "string \<Rightarrow> string \<Rightarrow> lease option \<Rightarrow> (string \<Rightarrow> string \<rightharpoonup> lease) \<Rightarrow> string \<Rightarrow> string \<rightharpoonup> lease" where
  "set_lease pid account l f = f(pid := (f pid)(account := l))"

definition states_ok :: "world \<Rightarrow> bool" where
  "states_ok w \<longleftrightarrow> m_ok (wd_states w)
     \<and> (\<forall>pid st. m_load (wd_states w) pid = Some st \<longrightarrow> lease_inv (ps_leases st))"

definition world_ok :: "pool_config \<Rightarrow> sub_store \<Rightarrow> world \<Rightarrow> bool" where
  "world_ok cfg subs w \<longleftrightarrow> pool_ok cfg subs (wd_pool w) \<and> states_ok w"

lemma same_entry_ok: "same_entry e e' \<Longrightarrow> entry_ok h e \<Longrightarrow> entry_ok h e'"
  by (auto simp: same_entry_def entry_ok_def option_rel_Some2 same_table_def)

lemma same_nodes_pool_ok:
  assumes "pool_ok cfg subs p" "same_nodes (pool_nodes p) ns"
  shows "pool_ok cfg subs (p\<lparr>pool_nodes := ns\<rparr>)"
proof -
  have "entry_ok h e'" if "m_load ns h = Some e'" for h e'
  proof -
    from assms(2) have "rel_option same_entry (m_load (pool_nodes p) h) (m_load ns h)"
      by (simp add: same_nodes_def)
    with that obtain e where "m_load (pool_nodes p) h = Some e" "same_entry e e'"
      by (auto simp: option_rel_Some2)
    with pool_ok_entry [OF assms(1)] same_entry_ok show ?thesis by blast
  qed
  then have "entries_ok ns"
    using pool_okD(1) [OF assms(1)] same_nodes_m_ok [OF assms(2)] by (simp add: entries_ok_def)
  moreover have "views_ok cfg subs (p\<lparr>pool_nodes := ns\<rparr>)"
    using assms(1) same_nodes_routable [OF assms(2)]
    by (simp add: pool_ok_def views_ok_def view_coherent_def)
  ultimately show ?thesis using assms(1) by (simp add: pool_ok_def)
qed

lemma state_of_put [simp]: "state_of (put_state pid st w) p = (if p = pid then st else state_of w p)"
  by (simp add: state_of_def put_state_def store_simps)

lemma state_of_ensure [simp]: "state_of (ensure_platform_state pid w) = state_of w"
  by (auto simp: state_of_def ensure_platform_state_def store_simps fun_eq_iff split: option.split)

lemma ensure_simps [simp]:
  "wd_pool (ensure_platform_state pid w) = wd_pool w" "wd_env (ensure_platform_state pid w) = wd_env w"
  "wd_events (ensure_platform_state pid w) = wd_events w"
  by (simp_all add: ensure_platform_state_def split: option.split)

lemma state_of_upd [simp]:
  "state_of (w\<lparr>wd_env := ev\<rparr>) = state_of w" "state_of (w\<lparr>wd_pool := p\<rparr>) = state_of w"
  "state_of (w\<lparr>wd_events := es\<rparr>) = state_of w" "state_of (emit_world e w) = state_of w"
  by (simp_all add: state_of_def [abs_def] emit_world_def)

lemma state_of_close [simp]:
  "state_of (close_ctx pid x w) p =
     (if p = pid then \<lparr>ps_leases = rx_leases x, ps_window = rx_window x\<rparr> else state_of w p)"
  by (simp add: state_of_def close_ctx_def store_simps)

lemma lease_of_upd [simp]:
  "lease_of (w\<lparr>wd_env := ev\<rparr>) = lease_of w" "lease_of (emit_world e w) = lease_of w"
  "lease_of (ensure_platform_state pid w) = lease_of w"
  by (simp_all add: lease_of_def [abs_def])

lemma lease_of_put:
  "lease_of (put_state pid st w) = (lease_of w)(pid := m_load (lt_leases (ps_leases st)))"
  by (auto simp: lease_of_def)

lemma put_emit_simps [simp]:
  "wd_pool (put_state pid st w) = wd_pool w" "wd_env (put_state pid st w) = wd_env w"
  "wd_events (put_state pid st w) = wd_events w" "wd_pool (emit_world e w) = wd_pool w"
  "wd_env (emit_world e w) = wd_env w" "wd_events (emit_world e w) = wd_events w @ [e]"
  by (simp_all add: put_state_def emit_world_def)

lemma states_ok_state_of: "states_ok w \<Longrightarrow> lease_inv (ps_leases (state_of w pid))"
  by (auto simp: states_ok_def state_of_def new_platform_routing_state_def new_lease_table_inv
      split: option.split)

lemma states_ok_upd [simp]:
  "states_ok (w\<lparr>wd_env := ev\<rparr>) = states_ok w" "states_ok (emit_world e w) = states_ok w"
  by (simp_all add: states_ok_def emit_world_def)

lemma states_ok_put: "states_ok w \<Longrightarrow> lease_inv (ps_leases st) \<Longrightarrow> states_ok (put_state pid st w)"
  by (auto simp: states_ok_def put_state_def store_simps)

lemma states_ok_ensure [simp]: "states_ok w \<Longrightarrow> states_ok (ensure_platform_state pid w)"
  by (auto simp: states_ok_def ensure_platform_state_def store_simps new_platform_routing_state_def
      new_lease_table_inv split: option.split)

lemma states_ok_close: "states_ok w \<Longrightarrow> lease_inv (rx_leases x) \<Longrightarrow> states_ok (close_ctx pid x w)"
  by (auto simp: states_ok_def close_ctx_def store_simps)

text \<open>A resolved platform is registered; its view is coherent with the pool.\<close>

lemma get_platform_registered:
  assumes "pool_ok cfg subs p" "get_platform p pid = Some plat"
  shows "plat_id plat = pid"
    "view_coherent (pool_nodes p) (Some (make_sub_lookup cfg subs)) (geo_lookup cfg) plat"
  using assms(2) pool_okD(5) [OF assms(1)] by (auto simp: get_platform_def)

lemma resolve_platform_registered:
  assumes "pool_ok cfg subs (wd_pool w)" "resolve_platform w name = Some plat"
  shows "get_platform (wd_pool w) (plat_id plat) = Some plat"
    "plat_name plat = name \<or> name = [] \<and> plat_id plat = default_platform_id"
  using assms(2) pool_okD(5,6) [OF assms(1)]
  by (auto simp: resolve_platform_def get_platform_def get_platform_by_name_def split: if_splits)

lemma with_context_simps [simp]:
  "rr_node (with_platform_context plat r) = rr_node r"
  "rr_egress (with_platform_context plat r) = rr_egress r"
  "rr_created (with_platform_context plat r) = rr_created r"
  "rr_platform_id (with_platform_context plat r) = plat_id plat"
  "rr_platform_name (with_platform_context plat r) = plat_name plat"
  by (simp_all add: with_platform_context_def)

text \<open>The route a result names, whatever its decoration.\<close>

definition route_of :: "route_error + route_result \<Rightarrow> route_error + hash \<times> addr \<times> bool" where
  "route_of r = (case r of Inl e \<Rightarrow> Inl e | Inr q \<Rightarrow> Inr (rr_node q, rr_egress q, rr_created q))"

lemma route_request_eq:
  assumes "resolve_platform w name = Some plat" "route_request X cfg name account target w = (r, w')"
  defines "w1 \<equiv> ensure_platform_state (plat_id plat) w"
  obtains q x where "route_of r = route_of q" "w' = close_ctx (plat_id plat) x w1"
    "account = [] \<Longrightarrow> route_random X cfg plat (extract_domain X target)
        (open_ctx (plat_id plat) w1) = (q, x)"
    "account \<noteq> [] \<Longrightarrow> route_sticky X cfg plat account (extract_domain X target) (fst (time_now (wd_env w)))
        (open_ctx (plat_id plat) (w1\<lparr>wd_env := snd (time_now (wd_env w))\<rparr>)) = (q, x)"
    "\<And>res. r = Inr res \<Longrightarrow> rr_platform_id res = plat_id plat \<and> rr_platform_name res = plat_name plat"
proof -
  obtain q x where q: "(if account = [] then route_random X cfg plat (extract_domain X target)
        (open_ctx (plat_id plat) w1)
      else route_sticky X cfg plat account (extract_domain X target) (fst (time_now (wd_env w)))
        (open_ctx (plat_id plat) (w1\<lparr>wd_env := snd (time_now (wd_env w))\<rparr>))) = (q, x)"
    by (rule prod.exhaust)
  show ?thesis
    by (rule that [of q x])
      (use assms(1,2) q in \<open>auto simp: route_request_def w1_def route_of_def Let_def case_prod_unfold
        split: sum.splits option.splits if_splits\<close>)
qed

text \<open>What a request leaves behind in the world, and where it routes to.\<close>

definition request_effect ::
  "platform \<Rightarrow> string \<Rightarrow> world \<Rightarrow> route_error + route_result \<Rightarrow> world \<Rightarrow> bool" where
  "request_effect plat account w r w' \<longleftrightarrow>
     (if account = [] then
        lease_of w' = lease_of w \<and> wd_events w' = wd_events w
        \<and> (\<forall>res. r = Inr res \<longrightarrow> view_contains (view plat) (rr_node res) \<and> \<not> rr_created res
             \<and> on_ip (pool_nodes (wd_pool w)) (rr_egress res) (rr_node res))
      else \<exists>current evs q. sticky_step plat account (fst (time_now (wd_env w)))
             (pool_nodes (wd_pool w)) (lease_of w (plat_id plat) account) current evs q
         \<and> route_of r = route_of q \<and> wd_events w' = wd_events w @ evs
         \<and> lease_of w' = set_lease (plat_id plat) account current (lease_of w))"

lemma open_ctx_simps [simp]:
  "rx_nodes (open_ctx pid w) = pool_nodes (wd_pool w)"
  "rx_leases (open_ctx pid w) = ps_leases (state_of w pid)"
  "rx_window (open_ctx pid w) = ps_window (state_of w pid)"
  "rx_events (open_ctx pid w) = wd_events w"
  by (simp_all add: open_ctx_def)

lemma close_ctx_simps [simp]:
  "wd_pool (close_ctx pid x w) = (wd_pool w)\<lparr>pool_nodes := rx_nodes x\<rparr>"
  "wd_events (close_ctx pid x w) = rx_events x"
  by (simp_all add: close_ctx_def)

lemma lease_of_close:
  "lease_of (close_ctx pid x w) = (lease_of w)(pid := m_load (lt_leases (rx_leases x)))"
  by (auto simp: lease_of_def fun_eq_iff)

lemma route_request_spec:
  assumes ok: "world_ok pc subs w" and plat: "resolve_platform w name = Some plat"
    and run: "route_request X cfg name account target w = (r, w')"
  shows "world_ok pc subs w' \<and> request_effect plat account w r w'
    \<and> wd_pool w' = (wd_pool w)\<lparr>pool_nodes := pool_nodes (wd_pool w')\<rparr>
    \<and> same_nodes (pool_nodes (wd_pool w)) (pool_nodes (wd_pool w'))
    \<and> (\<forall>p. p \<noteq> plat_id plat \<longrightarrow> state_of w' p = state_of w p)
    \<and> (\<forall>mx. mx = max_accounts_per_ip plat \<longrightarrow> 0 < mx \<longrightarrow> mx < max_i64 \<longrightarrow>
          quota_inv mx (ps_window (state_of w (plat_id plat))) \<longrightarrow>
          quota_inv mx (ps_window (state_of w' (plat_id plat))))"
proof -
  let ?pid = "plat_id plat"
  define w1 where "w1 = ensure_platform_state ?pid w"
  have w1: "wd_pool w1 = wd_pool w" "state_of w1 = state_of w" "wd_events w1 = wd_events w"
    "lease_of w1 = lease_of w" "states_ok w1"
    using ok by (simp_all add: w1_def world_ok_def)
  have pool: "pool_ok pc subs (wd_pool w)" using ok by (simp add: world_ok_def)
  have view: "view_ok (view plat)"
    using get_platform_registered(2) [OF pool resolve_platform_registered(1) [OF pool plat]]
    by (simp add: view_coherent_def)
  obtain q x where q: "route_of r = route_of q" "w' = close_ctx ?pid x w1"
    "account = [] \<Longrightarrow> route_random X cfg plat (extract_domain X target) (open_ctx ?pid w1) = (q, x)"
    "account \<noteq> [] \<Longrightarrow> route_sticky X cfg plat account (extract_domain X target) (fst (time_now (wd_env w)))
        (open_ctx ?pid (w1\<lparr>wd_env := snd (time_now (wd_env w))\<rparr>)) = (q, x)"
    using route_request_eq [OF plat run] unfolding w1_def by metis
  have keeps: "keeps plat (open_ctx ?pid w1) x" and eff: "request_effect plat account w r w'"
    and inv: "lease_inv (rx_leases x)"
  proof -
    have "keeps plat (open_ctx ?pid w1) x \<and> request_effect plat account w r w' \<and> lease_inv (rx_leases x)"
    proof (cases "account = []")
      case True
      obtain p y where p: "select_live_random_route X cfg plat (extract_domain X target)
          (open_ctx ?pid w1) = (p, y)" by (rule prod.exhaust)
      note sp = select_live_spec [OF view p]
      have x: "x = y" "\<And>res. r = Inr res \<Longrightarrow> \<exists>e. p = Inr (rr_node res, e)
          \<and> rr_egress res = get_egress_ip e \<and> \<not> rr_created res"
        using q(1) q(3) [OF True] p
        by (auto simp: route_random_def route_of_def mk_result_def split: sum.splits)
      have l: "lease_of w' = lease_of w"
        using sp w1 x(1) q(2) by (auto simp: lease_of_close selects_def lease_of_def fun_eq_iff)
      have ev: "wd_events w' = wd_events w" using sp w1 x(1) q(2) by (simp add: selects_def)
      have same: "same_nodes (pool_nodes (wd_pool w)) (rx_nodes x)"
        using sp w1 x(1) by (simp add: selects_def keeps_def)
      have "view_contains (view plat) (rr_node res) \<and> \<not> rr_created res
          \<and> on_ip (pool_nodes (wd_pool w)) (rr_egress res) (rr_node res)" if r: "r = Inr res" for res
      proof -
        from x(2) [OF r] sp obtain e where e: "found plat (rx_nodes x) (rr_node res) e"
          "rr_egress res = get_egress_ip e" "\<not> rr_created res" using x(1) by blast
        with found_on_ip [OF e(1)] on_ip_same [OF same] show ?thesis by (simp add: found_def)
      qed
      with l ev True have "request_effect plat account w r w'" by (simp add: request_effect_def)
      moreover have "lease_inv (rx_leases x)"
        using sp x(1) states_ok_state_of [OF w1(5)] by (simp add: selects_def)
      ultimately show ?thesis using sp x(1) by (simp add: selects_def)
    next
      case False
      let ?y = "open_ctx ?pid (w1\<lparr>wd_env := snd (time_now (wd_env w))\<rparr>)"
      have keepsy: "keeps plat ?y x = keeps plat (open_ctx ?pid w1) x" by (simp add: keeps_def)
      from route_sticky_step [OF view q(4) [OF False]] obtain current evs where
        st: "sticky_step plat account (fst (time_now (wd_env w))) (pool_nodes (wd_pool w))
            (lease_of w ?pid account) current evs q" "rx_events x = wd_events w @ evs"
          "lease_moved account current (ps_leases (state_of w ?pid)) (rx_leases x)" "keeps plat ?y x"
        using w1 by (auto simp: lease_of_def)
      have "lease_of w' = set_lease ?pid account current (lease_of w)"
        using lease_moved_lookup [OF st(3)] w1
        by (auto simp: q(2) lease_of_close set_lease_def fun_eq_iff lease_of_def)
      with st q(1,2) False have "request_effect plat account w r w'"
        by (auto simp: request_effect_def)
      moreover have "lease_inv (rx_leases x)"
        using lease_moved_inv [OF _ st(3)] states_ok_state_of [OF w1(5)] w1(2) by simp
      ultimately show ?thesis using st(4) keepsy by simp
    qed
    then show "keeps plat (open_ctx ?pid w1) x" "request_effect plat account w r w'"
      "lease_inv (rx_leases x)" by blast+
  qed
  have same: "same_nodes (pool_nodes (wd_pool w)) (rx_nodes x)" using keeps w1 by (simp add: keeps_def)
  have "world_ok pc subs w'"
    using same_nodes_pool_ok [OF pool same] states_ok_close [OF w1(5) inv] w1(1)
    by (simp add: world_ok_def q(2))
  with eff same keeps w1 show ?thesis
    by (simp add: q(2) keeps_def ip_quota_enabled_def quota_bounded_def)
qed

lemma resolve_none:
  "resolve_platform w name = None \<Longrightarrow>
     route_request X cfg name account target w = (Inl Platform_Not_Found, w)"
  by (simp add: route_request_def)

section \<open>Availability and stickiness without a quota\<close>

lemma select_live_available:
  assumes ok: "view_ok (view plat)" "view_size (view plat) \<noteq> 0"
    and live: "\<forall>h. view_contains (view plat) h \<longrightarrow> m_load (rx_nodes x) h \<noteq> None"
  shows "\<exists>he x'. select_live_random_route X cfg plat domain x = (Inr he, x')"
proof -
  obtain q ns ev where q: "random_route X plat (rx_stats x) domain (rc_authorities cfg)
      (rc_p2c_window cfg) (rx_nodes x, rx_env x) = (q, ns, ev)" by (metis prod.exhaust)
  note sp = random_route_spec [OF ok(1) q]
  from sp(2) ok(2) obtain h where h: "q = Inr h" "view_contains (view plat) h" by blast
  from live h(2) same_nodes_load(1) [OF sp(1), of h] obtain e where "m_load ns h = Some e"
    by (cases "m_load ns h") auto
  with q h show ?thesis
    by (simp add: select_live_random_route_def live_pick_attempts_def numeral_2_eq_2
        pick_live_random_route_def)
qed

lemma coherent_live:
  "view_coherent ns lk geo plat \<Longrightarrow> view_contains (view plat) h \<Longrightarrow> m_load ns h \<noteq> None"
  by (auto simp: view_coherent_def routable_def split: option.splits)

lemma route_sticky_available:
  assumes ok: "view_ok (view plat)" "view_size (view plat) \<noteq> 0" "\<not> ip_quota_enabled plat"
    and live: "\<forall>h. view_contains (view plat) h \<longrightarrow> m_load (rx_nodes x) h \<noteq> None"
  shows "\<exists>res x'. route_sticky X cfg plat account domain now x = (Inr res, x')"
proof -
  have created: "\<exists>lr y'. create_sticky_lease X cfg plat account domain now y = (Inr lr, y')"
    if y: "selects plat x y" for y
  proof -
    from y have "same_nodes (rx_nodes x) (rx_nodes y)" by (simp add: selects_def keeps_def)
    with live have "\<forall>h. view_contains (view plat) h \<longrightarrow> m_load (rx_nodes y) h \<noteq> None"
      by (metis same_nodes_load(1))
    from select_live_available [OF ok(1,2) this, of X cfg domain] obtain h e y' where
      "select_live_random_route X cfg plat domain y = (Inr (h, e), y')" by auto
    with ok(3) show ?thesis
      by (simp add: create_sticky_lease_def select_route_for_lease_def Let_def)
  qed
  have abort: "\<exists>d res y'. create_or_abort_sticky_lease X cfg plat account domain now p i y = (d, Inr res, y')"
    if y: "selects plat x y" for p i y
    using created [OF y] by (fastforce simp: create_or_abort_sticky_lease_def Let_def)
  let ?p = "m_load (lt_leases (rx_leases x)) account"
  have "\<exists>d res y'. decide_sticky_lease X cfg plat account domain now ?p x = (d, Inr res, y')"
  proof (cases ?p)
    case None
    with abort [of x] show ?thesis by (simp add: decide_sticky_lease_def)
  next
    case (Some cur)
    obtain q1 y1 where q1: "try_lease_hit plat account cur now x = (q1, y1)" by (rule prod.exhaust)
    obtain q2 y2 where q2: "try_lease_same_ip_rotation X cfg plat account cur domain now y1 = (q2, y2)"
      by (rule prod.exhaust)
    show ?thesis
    proof (cases "is_expired cur now \<or> q1 \<noteq> None \<or> q2 \<noteq> None")
      case True
      with Some q1 q2 abort [of x] show ?thesis
        by (auto simp: decide_sticky_lease_def split: option.split)
    next
      case False
      then have n: "q1 = None" "q2 = None" "\<not> is_expired cur now" by blast+
      with try_hit_spec [OF q1] try_rotation_spec [OF ok(1) q2]
      have "selects plat x y1" "selects plat y1 y2" by auto
      then have "selects plat x y2" by (rule selects_trans)
      from abort [OF this] Some q1 q2 n show ?thesis by (simp add: decide_sticky_lease_def)
    qed
  qed
  then show ?thesis by (fastforce simp: route_sticky_def)
qed

lemma route_sticky_keeps_egress:
  assumes ok: "view_ok (view plat)" "\<not> ip_quota_enabled plat"
    and cur: "m_load (lt_leases (rx_leases x)) account = Some cur" "\<not> is_expired cur now"
    and z: "\<not> view_contains (view plat) zero_hash"
    and h: "view_contains (view plat) h" "on_ip (rx_nodes x) (l_egress cur) h"
  shows "\<exists>g. fst (route_sticky X cfg plat account domain now x) = Inr (mk_result g (l_egress cur) False)
    \<and> (view_contains (view plat) (l_node cur) \<longrightarrow> on_ip (rx_nodes x) (l_egress cur) (l_node cur)
        \<longrightarrow> g = l_node cur)"
proof (cases "view_contains (view plat) (l_node cur) \<and> on_ip (rx_nodes x) (l_egress cur) (l_node cur)")
  case True
  then obtain e where "m_load (rx_nodes x) (l_node cur) = Some e" "get_egress_ip e = l_egress cur"
    by (auto simp: on_ip_def split: option.splits)
  with True ok cur show ?thesis
    by (simp add: route_sticky_def decide_sticky_lease_def try_lease_hit_def)
next
  case False
  then have hit: "try_lease_hit plat account cur now x = (None, x)"
    by (auto simp: try_lease_hit_def on_ip_def split: option.splits)
  obtain b ns ev where b: "choose_same_ip_rotation_candidate X plat (l_egress cur) domain
      (rc_authorities cfg) (rc_p2c_window cfg) (rx_nodes x, rx_env x) = (b, ns, ev)"
    by (metis prod.exhaust)
  note sp = choose_rotation_sound [OF b, simplified]
  from sp(3) h z obtain g where g: "b = Some g"
    by (cases b) (auto simp: view_contains_range [OF ok(1)] filter_empty_conv)
  with False ok cur hit b show ?thesis
    by (auto simp: route_sticky_def decide_sticky_lease_def try_lease_same_ip_rotation_def Let_def)
qed

section \<open>Properties\<close>

text \<open>
  C5. A sticky request implements the abstract lease protocol: whatever the quota, the scores and
  the draws, it does one of four things to the lease of its account (touch it, move it to another
  node on the same address, replace it by a new one, lose it), with exactly the events and the
  result of that step; all other leases stay, the pool changes in access times only, and every
  invariant of the pool and of the lease counters is kept.
\<close>

theorem sticky_request_refines:
  assumes "world_ok pc subs w" "resolve_platform w name = Some plat" "account \<noteq> []"
    and "route_request X cfg name account target w = (r, w')"
  shows "\<exists>current evs q. sticky_step plat account (fst (time_now (wd_env w))) (pool_nodes (wd_pool w))
        (lease_of w (plat_id plat) account) current evs q
     \<and> route_of r = route_of q \<and> wd_events w' = wd_events w @ evs
     \<and> lease_of w' = set_lease (plat_id plat) account current (lease_of w)
     \<and> same_nodes (pool_nodes (wd_pool w)) (pool_nodes (wd_pool w')) \<and> world_ok pc subs w'"
  using route_request_spec [OF assms(1,2,4)] assms(3) by (auto simp: request_effect_def)

text \<open>
  C6. Routing is sound: a request is only ever routed to a node that is in the pool and passes
  the platform's filter at that moment, under the egress address that node has in the pool, and
  the result names the platform.
\<close>

theorem routed_node_sound:
  assumes "world_ok pc subs w" "route_request X cfg name account target w = (Inr res, w')"
  shows "\<exists>plat e. resolve_platform w name = Some plat \<and> rr_platform_id res = plat_id plat
     \<and> rr_platform_name res = plat_name plat
     \<and> m_load (pool_nodes (wd_pool w)) (rr_node res) = Some e
     \<and> evaluate_node plat e (Some (make_sub_lookup pc subs)) (geo_lookup pc)
     \<and> rr_egress res = get_egress_ip e"
proof (cases "resolve_platform w name")
  case None
  with assms(2) show ?thesis by (simp add: resolve_none)
next
  case (Some plat)
  have pool: "pool_ok pc subs (wd_pool w)" using assms(1) by (simp add: world_ok_def)
  have ctx: "rr_platform_id res = plat_id plat" "rr_platform_name res = plat_name plat"
    using route_request_eq [OF Some assms(2)] by metis+
  have "view_contains (view plat) (rr_node res) \<and> on_ip (pool_nodes (wd_pool w)) (rr_egress res) (rr_node res)"
  proof (cases "account = []")
    case True
    with route_request_spec [OF assms(1) Some assms(2)] show ?thesis by (simp add: request_effect_def)
  next
    case False
    with route_request_spec [OF assms(1) Some assms(2)] obtain current evs q where
      st: "sticky_step plat account (fst (time_now (wd_env w))) (pool_nodes (wd_pool w))
        (lease_of w (plat_id plat) account) current evs q" "route_of (Inr res) = route_of q"
      by (auto simp: request_effect_def)
    from st(2) obtain q' where "q = Inr q'" "rr_node res = rr_node q'" "rr_egress res = rr_egress q'"
      by (auto simp: route_of_def split: sum.splits)
    with st(1) show ?thesis by (auto simp: mk_result_def elim!: sticky_okE)
  qed
  moreover have "view_coherent (pool_nodes (wd_pool w)) (Some (make_sub_lookup pc subs)) (geo_lookup pc) plat"
    using get_platform_registered(2) [OF pool resolve_platform_registered(1) [OF pool Some]] .
  ultimately show ?thesis
    using Some ctx by (auto simp: view_coherent_def routable_def on_ip_def split: option.splits)
qed

text \<open>
  C7. Stickiness: with no account quota, a request whose lease has not expired keeps its egress
  address as long as any routable node has it: no new lease is made, and the node is the lease's
  own node whenever that one is still routable on that address.
\<close>

theorem sticky_egress_kept:
  assumes "world_ok pc subs w" "resolve_platform w name = Some plat" "account \<noteq> []"
    and "\<not> ip_quota_enabled plat" "\<not> view_contains (view plat) zero_hash"
    and "lease_of w (plat_id plat) account = Some l"
    and "\<not> is_expired l (fst (time_now (wd_env w)))"
    and "view_contains (view plat) h" "on_ip (pool_nodes (wd_pool w)) (l_egress l) h"
    and "route_request X cfg name account target w = (r, w')"
  shows "\<exists>res. r = Inr res \<and> rr_egress res = l_egress l \<and> \<not> rr_created res
     \<and> (view_contains (view plat) (l_node l) \<and> on_ip (pool_nodes (wd_pool w)) (l_egress l) (l_node l)
          \<longrightarrow> rr_node res = l_node l)"
proof -
  have pool: "pool_ok pc subs (wd_pool w)" using assms(1) by (simp add: world_ok_def)
  have view: "view_ok (view plat)"
    using get_platform_registered(2) [OF pool resolve_platform_registered(1) [OF pool assms(2)]]
    by (simp add: view_coherent_def)
  from route_request_eq [OF assms(2,10)] assms(3) obtain q x where q: "route_of r = route_of q"
    "route_sticky X cfg plat account (extract_domain X target) (fst (time_now (wd_env w)))
      (open_ctx (plat_id plat) (ensure_platform_state (plat_id plat) w\<lparr>wd_env := snd (time_now (wd_env w))\<rparr>))
      = (q, x)" by metis
  from route_sticky_keeps_egress [OF view assms(4) _ assms(7,5,8),
      of "open_ctx (plat_id plat) (ensure_platform_state (plat_id plat) w\<lparr>wd_env := snd (time_now (wd_env w))\<rparr>)"
      account X cfg "extract_domain X target"] assms(6,9) q
  show ?thesis
    by (auto simp: lease_of_def route_of_def mk_result_def split: sum.splits)
qed

text \<open>
  C37. Availability: with no account quota, a request to a known platform with at least one
  routable node always gets a route.
\<close>

theorem request_available:
  assumes "world_ok pc subs w" "resolve_platform w name = Some plat"
    and "\<not> ip_quota_enabled plat" "view_size (view plat) \<noteq> 0"
  shows "\<exists>res w'. route_request X cfg name account target w = (Inr res, w')"
proof -
  obtain r w' where run: "route_request X cfg name account target w = (r, w')" by (rule prod.exhaust)
  have pool: "pool_ok pc subs (wd_pool w)" using assms(1) by (simp add: world_ok_def)
  note coh = get_platform_registered(2) [OF pool resolve_platform_registered(1) [OF pool assms(2)]]
  then have view: "view_ok (view plat)" by (simp add: view_coherent_def)
  have live: "\<forall>h. view_contains (view plat) h \<longrightarrow> m_load (pool_nodes (wd_pool w)) h \<noteq> None"
    using coherent_live [OF coh] by blast
  from route_request_eq [OF assms(2) run] obtain q x where q: "route_of r = route_of q"
    "account = [] \<Longrightarrow> route_random X cfg plat (extract_domain X target)
      (open_ctx (plat_id plat) (ensure_platform_state (plat_id plat) w)) = (q, x)"
    "account \<noteq> [] \<Longrightarrow> route_sticky X cfg plat account (extract_domain X target) (fst (time_now (wd_env w)))
      (open_ctx (plat_id plat) (ensure_platform_state (plat_id plat) w\<lparr>wd_env := snd (time_now (wd_env w))\<rparr>))
      = (q, x)" by metis
  have "\<exists>res. q = Inr res"
  proof (cases "account = []")
    case True
    from select_live_available [OF view assms(4), of "open_ctx (plat_id plat) (ensure_platform_state
        (plat_id plat) w)" X cfg "extract_domain X target"] live q(2) [OF True]
    show ?thesis by (auto simp: route_random_def)
  next
    case False
    from route_sticky_available [OF view assms(4,3), of "open_ctx (plat_id plat) (ensure_platform_state
        (plat_id plat) w\<lparr>wd_env := snd (time_now (wd_env w))\<rparr>)" X cfg account "extract_domain X target"
        "fst (time_now (wd_env w))"] live q(3) [OF False]
    show ?thesis by auto
  qed
  with q(1) run show ?thesis by (auto simp: route_of_def split: sum.splits)
qed

text \<open>
  The forced fallback: when the quota blocked every pick, the request goes to an address with
  the fewest accounts in its window among all valid egress addresses of the platform, and among
  those to one with the least lease load; the account is then recorded on that address.
\<close>

lemma fallback_least_loaded:
  assumes "view_ok (view plat)" "window_ok (rx_window x)"
    and "fallback_quota_route plat account now win mx x = (Inr (h, e), x')"
    and "view_contains (view plat) g" "m_load (rx_nodes x) g = Some f" "addr_valid (get_egress_ip f)"
  shows "view_contains (view plat) h \<and> m_load (rx_nodes x) h = Some e \<and> addr_valid (get_egress_ip e)
     \<and> (let n = counted_accounts (rx_window x) now win in
        n (get_egress_ip e) < n (get_egress_ip f)
        \<or> n (get_egress_ip e) = n (get_egress_ip f)
          \<and> stats_get (rx_stats x) (get_egress_ip e) \<le> stats_get (rx_stats x) (get_egress_ip f))"
proof -
  let ?hs = "view_range (view plat)"
  obtain w counts where w: "counts_by_ip now win (rx_window x) = (w, counts)" by (rule prod.exhaust)
  note n = counts_by_ip_spec [OF assms(2) w]
  have st: "rx_stats (x\<lparr>rx_window := w\<rparr>) = rx_stats x" by (simp add: rx_stats_def)
  obtain b where b: "fallback_loop (rx_nodes x) (rx_stats x) counts ?hs [] None = Some b"
    "h = cand_hash b" "e = cand_entry b"
    using assms(3) w st
    by (auto simp: fallback_quota_route_def Let_def split: option.splits prod.splits if_splits)
  note sp = fallback_loop_spec [where ns = "rx_nodes x" and counts = counts and hs = ?hs
      and stats = "rx_stats x" and seen = "[]" and best = None, OF refl, simplified, unfolded b(1)]
  from sp have cb: "candidate (rx_nodes x) (rx_stats x) counts (cand_hash b) = Some b"
    "cand_hash b \<in> set ?hs" by auto
  obtain c where c: "candidate (rx_nodes x) (rx_stats x) counts g = Some c"
    using assms(5,6) by (simp add: candidate_def)
  note fb = candidate_facts [OF cb(1)] and fc = candidate_facts [OF c]
  have "\<not> lighter c b" using sp c assms(4) by (auto simp: view_contains_range [OF assms(1)])
  moreover have "cand_entry c = f" using fc(2) assms(5) by simp
  ultimately show ?thesis
    using cb fb fc b n
    by (auto simp: lighter_def Let_def view_contains_range [OF assms(1)])
qed

section \<open>Witnesses\<close>

text \<open>The pool of one node on address 1, and an account with a lease there that expires at 100.\<close>

definition sample_lease :: lease where
  "sample_lease = \<lparr>l_node = replicate 16 1, l_egress = V4 1, l_created_at_ns = 0, l_expiry_ns = 100,
     l_last_accessed_ns = 0\<rparr>"

definition sample_world :: world where
  "sample_world = \<lparr>wd_pool = fst sample_run, wd_env = \<lparr>draws = [], clock = [7]\<rparr>,
     wd_states = [(''p'', new_platform_routing_state
       \<lparr>ps_leases := create_lease ''a'' sample_lease new_lease_table\<rparr>)],
     wd_events = []\<rparr>"

definition sample_router :: router_config where
  "sample_router = \<lparr>rc_authorities = [], rc_p2c_window = 100, rc_tag_resolver = None\<rparr>"

lemma sample_world_ok: "world_ok sample_config sample_store sample_world"
  by (simp add: world_ok_def sample_world_def sample_run_ok states_ok_def
      new_platform_routing_state_def create_lease_inv new_lease_table_inv m_ok_def)

lemma sample_world_values:
  "map_option (\<lambda>plat. (plat_id plat, ip_quota_enabled plat, view_contains (view plat) zero_hash,
       view_contains (view plat) (replicate 16 1), view_size (view plat)))
     (resolve_platform sample_world ''n'') = Some (''p'', False, False, True, 1)"
  "on_ip (pool_nodes (wd_pool sample_world)) (V4 1) (replicate 16 1)"
  "fst (time_now (wd_env sample_world)) = 7"
  by code_simp+

lemma sample_platform_of:
  obtains plat where "resolve_platform sample_world ''n'' = Some plat" "plat_id plat = ''p''"
    "\<not> ip_quota_enabled plat" "\<not> view_contains (view plat) zero_hash"
    "view_contains (view plat) (replicate 16 1)" "view_size (view plat) \<noteq> 0"
  using sample_world_values(1) by (auto simp del: One_nat_def)

lemma sample_lease_of: "lease_of sample_world ''p'' ''a'' = Some sample_lease"
  by (simp add: lease_of_def state_of_def sample_world_def create_lease_def new_lease_table_def)

theorem sticky_egress_kept_witness:
  "\<exists>res w'. route_request plain_external sample_router ''n'' ''a'' ''b'' sample_world = (Inr res, w')
     \<and> rr_egress res = V4 1 \<and> rr_node res = replicate 16 1"
proof -
  obtain plat where plat: "resolve_platform sample_world ''n'' = Some plat" "plat_id plat = ''p''"
    "\<not> ip_quota_enabled plat" "\<not> view_contains (view plat) zero_hash"
    "view_contains (view plat) (replicate 16 1)" by (rule sample_platform_of)
  obtain r w' where run: "route_request plain_external sample_router ''n'' ''a'' ''b'' sample_world = (r, w')"
    by (rule prod.exhaust)
  have l: "l_node sample_lease = replicate 16 1" "l_egress sample_lease = V4 1"
    "\<not> is_expired sample_lease 7" by (simp_all add: sample_lease_def is_expired_def)
  from sticky_egress_kept [OF sample_world_ok plat(1) _ plat(3,4) _ _ plat(5) _ run, of sample_lease]
  show ?thesis using plat(2,5) sample_lease_of l sample_world_values(2,3) run by auto
qed

theorem sticky_request_refines_witness:
  "\<exists>r w'. route_request plain_external sample_router ''n'' ''c'' ''b'' sample_world = (r, w')
     \<and> lease_of w' ''p'' ''a'' = Some sample_lease"
proof -
  obtain plat where plat: "resolve_platform sample_world ''n'' = Some plat" "plat_id plat = ''p''"
    by (rule sample_platform_of)
  obtain r w' where run: "route_request plain_external sample_router ''n'' ''c'' ''b'' sample_world = (r, w')"
    by (rule prod.exhaust)
  from sticky_request_refines [OF sample_world_ok plat(1) _ run] run plat(2) sample_lease_of
  show ?thesis by (auto simp: set_lease_def)
qed

theorem request_available_witness:
  "\<exists>res w'. route_request plain_external sample_router ''n'' [] ''b'' sample_world = (Inr res, w')"
proof -
  obtain plat where plat: "resolve_platform sample_world ''n'' = Some plat" "\<not> ip_quota_enabled plat"
    "view_size (view plat) \<noteq> 0" by (rule sample_platform_of)
  show ?thesis by (rule request_available [OF sample_world_ok plat])
qed

lemma sample_request:
  "fst (route_request plain_external sample_router ''n'' ''a'' ''b'' sample_world) = Inr
     \<lparr>rr_platform_id = ''p'', rr_platform_name = ''n'', rr_node = replicate 16 1, rr_egress = V4 1,
      rr_tag = [], rr_created = False\<rparr>"
  by code_simp

theorem routed_node_sound_witness:
  "\<exists>plat e. resolve_platform sample_world ''n'' = Some plat
     \<and> m_load (pool_nodes (wd_pool sample_world)) (replicate 16 1) = Some e
     \<and> evaluate_node plat e (Some (make_sub_lookup sample_config sample_store)) (geo_lookup sample_config)
     \<and> get_egress_ip e = V4 1"
proof -
  obtain res w' where run: "route_request plain_external sample_router ''n'' ''a'' ''b'' sample_world
      = (Inr res, w')" "rr_node res = replicate 16 1" "rr_egress res = V4 1"
    using sample_request by (cases "route_request plain_external sample_router ''n'' ''a'' ''b'' sample_world") auto
  from routed_node_sound [OF sample_world_ok run(1)] run(2,3) show ?thesis by metis
qed

text \<open>Two nodes on addresses 1 and 2; address 1 already has an account in its window.\<close>

definition sample_ctx :: rctx where
  "sample_ctx = \<lparr>rx_nodes = [(replicate 16 1, entry_with (replicate 16 1) 700),
       (replicate 16 2, (entry_with (replicate 16 2) 300)\<lparr>egress_ip := Some (V4 2)\<rparr>)],
     rx_env = sample_env, rx_leases = new_lease_table,
     rx_window = touch_locked (V4 1) ''a'' 6 new_ip_window, rx_events = []\<rparr>"

end
