(* ===== verification/Lease_Admin.thy ===== *)
theory Lease_Admin
  imports Router
begin

text \<open>
  The administration of leases in \<open>internal/routing/router.go\<close>: reading, upserting, restoring and
  deleting leases, and the snapshots of loads and quotas. The lemmas show what each operation does
  to the lease map, that a listener that replays the events always has the current bindings, and
  that leases survive a restart through their persisted form.
\<close>

section \<open>Administration of leases\<close>

record model_lease =
  ml_platform_id :: string
  ml_account :: string
  ml_node_hash :: string
  ml_egress_ip :: string
  ml_created_at_ns :: int
  ml_expiry_ns :: int
  ml_last_accessed_ns :: int

definition read_lease :: "external \<Rightarrow> string \<Rightarrow> string \<Rightarrow> world \<Rightarrow> model_lease option" where
  "read_lease X pid account w =
     (case m_load (wd_states w) pid of
        None \<Rightarrow> None
      | Some st \<Rightarrow>
          (case get_lease (ps_leases st) account of
             None \<Rightarrow> None
           | Some l \<Rightarrow> Some \<lparr>ml_platform_id = pid, ml_account = account,
               ml_node_hash = hash_hex (l_node l), ml_egress_ip = addr_string X (l_egress l),
               ml_created_at_ns = l_created_at_ns l, ml_expiry_ns = l_expiry_ns l,
               ml_last_accessed_ns = l_last_accessed_ns l\<rparr>))"

datatype upsert_error = Platform_Id_Required | Account_Required | Bad_Node_Hash | Bad_Egress_Ip

definition quota_platform :: "world \<Rightarrow> string \<Rightarrow> platform option" where
  "quota_platform w pid = (case get_platform (wd_pool w) pid of
     None \<Rightarrow> None | Some plat \<Rightarrow> if ip_quota_enabled plat then Some plat else None)"

definition upsert_lease :: "external \<Rightarrow> model_lease \<Rightarrow> world \<Rightarrow> upsert_error option \<times> world" where
  "upsert_lease X ml w =
     (let pid = trim_space (ml_platform_id ml); account = trim_space (ml_account ml) in
      if pid = [] then (Some Platform_Id_Required, w)
      else if account = [] then (Some Account_Required, w)
      else case parse_hex (ml_node_hash ml) of
        Inl _ \<Rightarrow> (Some Bad_Node_Hash, w)
      | Inr h \<Rightarrow>
     (case parse_addr X (ml_egress_ip ml) of
        None \<Rightarrow> (Some Bad_Egress_Ip, w)
      | Some ip \<Rightarrow>
          let w1 = ensure_platform_state pid w;
              st = state_of w1 pid;
              l = \<lparr>l_node = h, l_egress = ip, l_created_at_ns = ml_created_at_ns ml,
                   l_expiry_ns = ml_expiry_ns ml, l_last_accessed_ns = ml_last_accessed_ns ml\<rparr>;
              ty = (if get_lease (ps_leases st) account = None then Lease_Create else Lease_Replace);
              w2 = put_state pid (st\<lparr>ps_leases := create_lease account l (ps_leases st)\<rparr>) w1;
              w3 = (case quota_platform w2 pid of
                      None \<Rightarrow> w2
                    | Some _ \<Rightarrow>
                        let (now, ev) = time_now (wd_env w2); st2 = state_of w2 pid
                        in put_state pid (st2\<lparr>ps_window := touch ip account now (ps_window st2)\<rparr>)
                             (w2\<lparr>wd_env := ev\<rparr>))
          in (None, emit_world (lease_event_of ty pid account h ip 0) w3)))"

definition snapshot_ip_load :: "string \<Rightarrow> world \<Rightarrow> (addr, int) amap" where
  "snapshot_ip_load pid w =
     (case m_load (wd_states w) pid of
        None \<Rightarrow> []
      | Some st \<Rightarrow> stats_snapshot (lt_stats (ps_leases st)))"

definition restore_lease :: "external \<Rightarrow> int \<Rightarrow> model_lease \<Rightarrow> world \<Rightarrow> world" where
  "restore_lease X now ml w =
     (case parse_hex (ml_node_hash ml) of
        Inl _ \<Rightarrow> w
      | Inr h \<Rightarrow>
     (case parse_addr X (ml_egress_ip ml) of
        None \<Rightarrow> w
      | Some ip \<Rightarrow>
          let pid = ml_platform_id ml; account = ml_account ml;
              w1 = ensure_platform_state pid w;
              st = state_of w1 pid;
              l = \<lparr>l_node = h, l_egress = ip, l_created_at_ns = ml_created_at_ns ml,
                   l_expiry_ns = ml_expiry_ns ml, l_last_accessed_ns = ml_last_accessed_ns ml\<rparr>;
              st1 = st\<lparr>ps_leases := create_lease account l (ps_leases st)\<rparr>;
              st2 = (case quota_platform w1 pid of
                       None \<Rightarrow> st1
                     | Some plat \<Rightarrow>
                         let last_active = (if ml_last_accessed_ns ml \<le> 0 then ml_created_at_ns ml
                                            else ml_last_accessed_ns ml)
                         in if i64 (now - last_active) < effective_ip_account_window_ns plat
                            then st1\<lparr>ps_window := touch ip account last_active (ps_window st1)\<rparr>
                            else st1)
          in put_state pid st2 w1))"

definition restore_leases :: "external \<Rightarrow> model_lease list \<Rightarrow> world \<Rightarrow> world" where
  "restore_leases X mls w =
     (let (now, ev) = time_now (wd_env w)
      in fold (restore_lease X now) mls (w\<lparr>wd_env := ev\<rparr>))"

record ip_quota_snapshot =
  qs_blocked_total :: int
  qs_fallback_total :: int
  qs_accounts_by_ip :: "(addr, int) amap"
  qs_detail_by_ip :: "(addr, account_entry list) amap"

definition snapshot_ip_quota :: "string \<Rightarrow> int \<Rightarrow> world \<Rightarrow> ip_quota_snapshot option \<times> world" where
  "snapshot_ip_quota pid window_ns w =
     (case m_load (wd_states w) pid of
        None \<Rightarrow> (None, w)
      | Some st \<Rightarrow>
          let (now, ev) = time_now (wd_env w);
              (blocked, fallback) = window_stats (ps_window st);
              (win, detail) = accounts_by_ip now window_ns (ps_window st);
              counts = map (\<lambda>(ip, as). (ip, int (length as))) detail;
              leased = map fst (lt_leases (ps_leases st));
              detail' = map (\<lambda>(ip, as). (ip,
                 map (\<lambda>a. if ae_account a \<in> set leased then a\<lparr>ae_has_lease := True\<rparr> else a) as)) detail
          in (Some \<lparr>qs_blocked_total = blocked, qs_fallback_total = fallback,
                qs_accounts_by_ip = counts, qs_detail_by_ip = detail'\<rparr>,
              put_state pid (st\<lparr>ps_window := win\<rparr>) (w\<lparr>wd_env := ev\<rparr>)))"

definition range_leases :: "string \<Rightarrow> world \<Rightarrow> (string \<times> lease) list option" where
  "range_leases pid w = map_option (\<lambda>st. lt_leases (ps_leases st)) (m_load (wd_states w) pid)"

definition remove_lease_in :: "string \<Rightarrow> string \<Rightarrow> world \<Rightarrow> world \<times> bool" where
  "remove_lease_in pid account w =
     (let st = state_of w pid; (t, removed) = delete_lease account (ps_leases st) in
      case removed of
        None \<Rightarrow> (w, False)
      | Some l \<Rightarrow>
          (emit_world (lease_event_of Lease_Remove pid account (l_node l) (l_egress l) (l_created_at_ns l))
             (put_state pid (st\<lparr>ps_leases := t\<rparr>) w), True))"

definition router_delete_lease :: "string \<Rightarrow> string \<Rightarrow> world \<Rightarrow> world \<times> bool" where
  "router_delete_lease pid account w =
     (case m_load (wd_states w) pid of
        None \<Rightarrow> (w, False)
      | Some _ \<Rightarrow> remove_lease_in pid account w)"

fun delete_all_loop :: "string \<Rightarrow> string list \<Rightarrow> nat \<Rightarrow> world \<Rightarrow> world \<times> nat" where
  "delete_all_loop pid [] n w = (w, n)"
| "delete_all_loop pid (a # as) n w =
     (let (w', deleted) = remove_lease_in pid a w
      in delete_all_loop pid as (if deleted then Suc n else n) w')"

definition delete_all_leases :: "string \<Rightarrow> world \<Rightarrow> world \<times> nat" where
  "delete_all_leases pid w =
     (case m_load (wd_states w) pid of
        None \<Rightarrow> (w, 0)
      | Some st \<Rightarrow> delete_all_loop pid (map fst (lt_leases (ps_leases st))) 0 w)"

section \<open>What the listener can replay\<close>

text \<open>
  The bindings of accounts to nodes and addresses, and their reconstruction from the events.
\<close>

type_synonym binding_map = "string \<times> string \<rightharpoonup> hash \<times> addr"

definition binding_of :: "lease \<Rightarrow> hash \<times> addr" where
  "binding_of l = (l_node l, l_egress l)"

definition bindings :: "world \<Rightarrow> binding_map" where
  "bindings w = (\<lambda>(pid, account). map_option binding_of (lease_of w pid account))"

definition replay_event :: "lease_event \<Rightarrow> binding_map \<Rightarrow> binding_map" where
  "replay_event ev f = (case le_type ev of
     Lease_Touch \<Rightarrow> f
   | Lease_Create \<Rightarrow> f((le_platform ev, le_account ev) \<mapsto> (le_node ev, le_egress ev))
   | Lease_Replace \<Rightarrow> f((le_platform ev, le_account ev) \<mapsto> (le_node ev, le_egress ev))
   | Lease_Remove \<Rightarrow> f((le_platform ev, le_account ev) := None)
   | Lease_Expire \<Rightarrow> f((le_platform ev, le_account ev) := None))"

lemma replay_event_of:
  "replay_event (lease_event_of ty pid a h ip c) f =
     (if ty = Lease_Touch then f
      else if ty = Lease_Create \<or> ty = Lease_Replace then f((pid, a) \<mapsto> (h, ip))
      else f((pid, a) := None))"
  by (cases ty) (simp_all add: replay_event_def lease_event_of_def)

text \<open>
  What a listener that only marks keys must know of a run: the last event about an account says
  whether it may hold a lease, and an account without an event has the lease it had.
\<close>

definition keeps_lease :: "lease_event \<Rightarrow> bool" where
  "keeps_lease ev \<longleftrightarrow> le_type ev \<notin> {Lease_Remove, Lease_Expire}"

definition event_marks :: "lease_event list \<Rightarrow> string \<times> string \<rightharpoonup> bool" where
  "event_marks evs = map_of (rev (map (\<lambda>ev. ((le_platform ev, le_account ev), keeps_lease ev)) evs))"

lemma event_marks_append: "event_marks (es @ fs) = event_marks es ++ event_marks fs"
  by (simp add: event_marks_def)

lemma event_marks_simps [simp]:
  "event_marks [] = Map.empty"
  "event_marks [ev] = [(le_platform ev, le_account ev) \<mapsto> keeps_lease ev]"
  by (simp_all add: event_marks_def)

lemma lease_event_of_simps [simp]:
  "le_platform (lease_event_of ty pid a h ip c) = pid" "le_account (lease_event_of ty pid a h ip c) = a"
  "keeps_lease (lease_event_of ty pid a h ip c) \<longleftrightarrow> ty \<notin> {Lease_Remove, Lease_Expire}"
  by (simp_all add: lease_event_of_def keeps_lease_def)

definition covers :: "lease_event list \<Rightarrow> world \<Rightarrow> world \<Rightarrow> bool" where
  "covers evs w w' \<longleftrightarrow> (\<forall>pid a. case event_marks evs (pid, a) of
     None \<Rightarrow> lease_of w' pid a = lease_of w pid a | Some b \<Rightarrow> b \<or> lease_of w' pid a = None)"

lemma covers_trans:
  assumes "covers es a b" "covers fs b c"
  shows "covers (es @ fs) a c"
  unfolding covers_def
proof (intro allI)
  fix pid x
  have "case event_marks es (pid, x) of None \<Rightarrow> lease_of b pid x = lease_of a pid x | Some k \<Rightarrow> k \<or> lease_of b pid x = None"
    "case event_marks fs (pid, x) of None \<Rightarrow> lease_of c pid x = lease_of b pid x | Some k \<Rightarrow> k \<or> lease_of c pid x = None"
    using assms by (simp_all add: covers_def)
  then show "case event_marks (es @ fs) (pid, x) of None \<Rightarrow> lease_of c pid x = lease_of a pid x
      | Some k \<Rightarrow> k \<or> lease_of c pid x = None"
    by (cases "event_marks es (pid, x)"; cases "event_marks fs (pid, x)")
      (simp_all add: event_marks_append map_add_def)
qed

definition replays :: "world \<Rightarrow> world \<Rightarrow> bool" where
  "replays w w' \<longleftrightarrow> (\<exists>evs. wd_events w' = wd_events w @ evs
     \<and> fold replay_event evs (bindings w) = bindings w' \<and> covers evs w w')"

lemma covers_same: "lease_of w' = lease_of w \<Longrightarrow> covers [] w w'"
  by (simp add: covers_def)

lemma replays_same: "lease_of w' = lease_of w \<Longrightarrow> wd_events w' = wd_events w \<Longrightarrow> replays w w'"
  by (auto simp: replays_def bindings_def covers_same)

lemma replays_refl [simp]: "replays w w"
  by (simp add: replays_same)

lemma replays_trans: "replays a b \<Longrightarrow> replays b c \<Longrightarrow> replays a c"
  unfolding replays_def using covers_trans by force

lemma bindings_set_lease:
  "lease_of w' = set_lease pid account l (lease_of w) \<Longrightarrow>
     bindings w' = (bindings w)((pid, account) := map_option binding_of l)"
  by (auto simp: bindings_def set_lease_def fun_eq_iff)

lemma replays_event:
  assumes "lease_of w' = set_lease pid account l (lease_of w)" "wd_events w' = wd_events w @ [ev]"
    and "replay_event ev (bindings w) = (bindings w)((pid, account) := map_option binding_of l)"
    and "le_platform ev = pid" "le_account ev = account" "keeps_lease ev \<or> l = None"
  shows "replays w w'"
  using assms bindings_set_lease [OF assms(1)]
  by (auto simp: replays_def covers_def set_lease_def)

lemma replay_retire:
  "f (pid, account) = map_option binding_of previous \<Longrightarrow>
     fold replay_event (retire_events pid account now previous) f = f((pid, account) := None)"
  by (auto simp: retire_events_def replay_event_of fun_eq_iff split: option.split)

lemma sticky_step_replay:
  assumes "sticky_step plat account now ns previous current evs q"
    and "f (plat_id plat, account) = map_option binding_of previous"
  shows "fold replay_event evs f = f((plat_id plat, account) := map_option binding_of current)"
  using assms(1)
  by cases
    (use assms(2) in \<open>auto simp: replay_retire replay_event_of binding_of_def
      fresh_lease_def fun_eq_iff\<close>)

section \<open>What the operations do to the leases\<close>

text \<open>The effect of one write to the lease of an account.\<close>

lemma world_put_lease:
  assumes "world_ok pc subs w" "lease_inv t'"
    and "m_load (lt_leases t') = (m_load (lt_leases (ps_leases (state_of w pid))))(account := l)"
  shows "world_ok pc subs (put_state pid ((state_of w pid)\<lparr>ps_leases := t'\<rparr>) w)"
    "lease_of (put_state pid ((state_of w pid)\<lparr>ps_leases := t'\<rparr>) w) = set_lease pid account l (lease_of w)"
  using assms
  by (auto simp: world_ok_def states_ok_put lease_of_put set_lease_def fun_eq_iff)
    (auto simp: lease_of_def)

lemma create_lease_map:
  "m_load (lt_leases (create_lease a l t)) = (m_load (lt_leases t))(a \<mapsto> l)"
  using create_lease_lookup [of a l t] by (auto simp: get_lease_def fun_eq_iff)

lemma delete_lease_map:
  "m_load (lt_leases (fst (delete_lease a t))) = (m_load (lt_leases t))(a := None)"
  using delete_lease_lookup(1) [of a t] by (auto simp: get_lease_def fun_eq_iff)

lemma world_ok_env [simp]: "world_ok pc subs (w\<lparr>wd_env := ev\<rparr>) = world_ok pc subs w"
  by (simp add: world_ok_def)

lemma world_ok_emit [simp]: "world_ok pc subs (emit_world e w) = world_ok pc subs w"
  by (simp add: world_ok_def)

lemma emit_states [simp]: "wd_states (emit_world e w) = wd_states w"
  by (simp add: emit_world_def)

lemma world_ok_ensure: "world_ok pc subs w \<Longrightarrow> world_ok pc subs (ensure_platform_state pid w)"
  by (simp add: world_ok_def)

lemma world_put_window:
  assumes "world_ok pc subs w"
  shows "world_ok pc subs (put_state pid ((state_of w pid)\<lparr>ps_window := win\<rparr>) w)"
    "lease_of (put_state pid ((state_of w pid)\<lparr>ps_window := win\<rparr>) w) = lease_of w"
  using assms
  by (auto simp: world_ok_def states_ok_put states_ok_state_of lease_of_put fun_eq_iff)
    (simp_all add: lease_of_def)

text \<open>The lease a persisted record stands for.\<close>

definition lease_of_model :: "external \<Rightarrow> model_lease \<Rightarrow> lease option" where
  "lease_of_model X ml = (case (parse_hex (ml_node_hash ml), parse_addr X (ml_egress_ip ml)) of
     (Inr h, Some ip) \<Rightarrow> Some \<lparr>l_node = h, l_egress = ip, l_created_at_ns = ml_created_at_ns ml,
       l_expiry_ns = ml_expiry_ns ml, l_last_accessed_ns = ml_last_accessed_ns ml\<rparr>
   | _ \<Rightarrow> None)"

lemma upsert_lease_spec:
  assumes "world_ok pc subs w" "upsert_lease X ml w = (err, w')"
  shows "err \<noteq> None \<Longrightarrow> w' = w"
    and "err = None \<Longrightarrow> \<exists>l ev. lease_of_model X ml = Some l
      \<and> trim_space (ml_platform_id ml) \<noteq> [] \<and> trim_space (ml_account ml) \<noteq> []
      \<and> lease_of w' = set_lease (trim_space (ml_platform_id ml)) (trim_space (ml_account ml)) (Some l)
          (lease_of w)
      \<and> world_ok pc subs w' \<and> replays w w' \<and> wd_pool w' = wd_pool w
      \<and> m_load (wd_states w') (trim_space (ml_platform_id ml)) \<noteq> None"
proof -
  show "err \<noteq> None \<Longrightarrow> w' = w"
    using assms(2) by (auto simp: upsert_lease_def Let_def split: if_splits sum.splits option.splits)
  assume n: "err = None"
  define pid where "pid = trim_space (ml_platform_id ml)"
  define account where "account = trim_space (ml_account ml)"
  from assms(2) n obtain h ip where ne: "pid \<noteq> []" "account \<noteq> []"
    "parse_hex (ml_node_hash ml) = Inr h" "parse_addr X (ml_egress_ip ml) = Some ip"
    by (auto simp: upsert_lease_def Let_def pid_def account_def split: if_splits sum.splits option.splits)
  define l where "l = \<lparr>l_node = h, l_egress = ip, l_created_at_ns = ml_created_at_ns ml,
    l_expiry_ns = ml_expiry_ns ml, l_last_accessed_ns = ml_last_accessed_ns ml\<rparr>"
  define w1 where "w1 = ensure_platform_state pid w"
  define w2 where "w2 = put_state pid ((state_of w1 pid)\<lparr>ps_leases :=
      create_lease account l (ps_leases (state_of w1 pid))\<rparr>) w1"
  define ty where "ty = (if get_lease (ps_leases (state_of w1 pid)) account = None
      then Lease_Create else Lease_Replace)"
  obtain w3 where w3: "w' = emit_world (lease_event_of ty pid account h ip 0) w3"
    "w3 = w2 \<or> (\<exists>now ev. w3 = put_state pid ((state_of w2 pid)\<lparr>ps_window :=
        touch ip account now (ps_window (state_of w2 pid))\<rparr>) (w2\<lparr>wd_env := ev\<rparr>))"
    using assms(2) ne n
    by (auto simp: upsert_lease_def Let_def pid_def [symmetric] account_def [symmetric] l_def
        w1_def w2_def ty_def split: option.splits prod.splits)
  have ok1: "world_ok pc subs w1" using world_ok_ensure [OF assms(1)] by (simp add: w1_def)
  have inv: "lease_inv (create_lease account l (ps_leases (state_of w1 pid)))"
    using ok1 by (simp add: create_lease_inv world_ok_def states_ok_state_of)
  note put = world_put_lease [OF ok1 inv create_lease_map, folded w2_def]
  have w2: "wd_pool w2 = wd_pool w" "wd_events w2 = wd_events w" "m_load (wd_states w2) pid \<noteq> None"
    by (simp_all add: w2_def w1_def) (simp add: put_state_def store_simps)
  have e: "world_ok pc subs w3 \<and> lease_of w3 = lease_of w2 \<and> wd_events w3 = wd_events w2
      \<and> wd_pool w3 = wd_pool w2 \<and> m_load (wd_states w3) pid \<noteq> None"
    using w3(2)
  proof
    assume "w3 = w2"
    with put(1) w2 show ?thesis by simp
  next
    assume "\<exists>now ev. w3 = put_state pid ((state_of w2 pid)\<lparr>ps_window :=
        touch ip account now (ps_window (state_of w2 pid))\<rparr>) (w2\<lparr>wd_env := ev\<rparr>)"
    then obtain now ev where "w3 = put_state pid ((state_of (w2\<lparr>wd_env := ev\<rparr>) pid)\<lparr>ps_window :=
        touch ip account now (ps_window (state_of w2 pid))\<rparr>) (w2\<lparr>wd_env := ev\<rparr>)" by auto
    with world_put_window [of pc subs "w2\<lparr>wd_env := ev\<rparr>" pid] put(1) show ?thesis
      by (simp add: put_state_def store_simps)
  qed
  have l: "lease_of w' = set_lease pid account (Some l) (lease_of w)"
    using e put(2) w3(1) by (simp add: w1_def)
  have "ty = Lease_Create \<or> ty = Lease_Replace" by (simp add: ty_def)
  then have "replays w w'"
    by (intro replays_event [OF l])
      (use e w2 w3(1) in \<open>auto simp: replay_event_of binding_of_def l_def\<close>)
  with e l w3(1) ne w2 show "\<exists>l ev. lease_of_model X ml = Some l
      \<and> trim_space (ml_platform_id ml) \<noteq> [] \<and> trim_space (ml_account ml) \<noteq> []
      \<and> lease_of w' = set_lease (trim_space (ml_platform_id ml)) (trim_space (ml_account ml)) (Some l)
          (lease_of w)
      \<and> world_ok pc subs w' \<and> replays w w' \<and> wd_pool w' = wd_pool w
      \<and> m_load (wd_states w') (trim_space (ml_platform_id ml)) \<noteq> None"
    unfolding pid_def account_def
    by (auto simp: lease_of_model_def l_def)
qed

lemma restore_lease_spec:
  assumes "world_ok pc subs w"
  shows "world_ok pc subs (restore_lease X now ml w) \<and> wd_pool (restore_lease X now ml w) = wd_pool w
    \<and> wd_events (restore_lease X now ml w) = wd_events w
    \<and> lease_of (restore_lease X now ml w) = (case lease_of_model X ml of
        None \<Rightarrow> lease_of w
      | Some l \<Rightarrow> set_lease (ml_platform_id ml) (ml_account ml) (Some l) (lease_of w))"
proof (cases "lease_of_model X ml")
  case None
  with assms show ?thesis
    by (auto simp: lease_of_model_def restore_lease_def split: sum.splits option.splits)
next
  case (Some l)
  let ?pid = "ml_platform_id ml"
  define w1 where "w1 = ensure_platform_state ?pid w"
  have ok1: "world_ok pc subs w1" "wd_pool w1 = wd_pool w" "wd_events w1 = wd_events w"
    "lease_of w1 = lease_of w"
    using world_ok_ensure [OF assms] by (simp_all add: w1_def)
  define st1 where "st1 = (state_of w1 ?pid)\<lparr>ps_leases :=
      create_lease (ml_account ml) l (ps_leases (state_of w1 ?pid))\<rparr>"
  have inv: "lease_inv (create_lease (ml_account ml) l (ps_leases (state_of w1 ?pid)))"
    using ok1(1) by (simp add: create_lease_inv world_ok_def states_ok_state_of)
  note put = world_put_lease [OF ok1(1) inv create_lease_map, folded st1_def]
  obtain win where "restore_lease X now ml w = put_state ?pid (st1\<lparr>ps_window := win\<rparr>) w1"
  proof (rule that)
    show "restore_lease X now ml w = put_state ?pid (st1\<lparr>ps_window :=
      (case quota_platform w1 ?pid of None \<Rightarrow> ps_window st1
       | Some plat \<Rightarrow> let last_active = (if ml_last_accessed_ns ml \<le> 0 then ml_created_at_ns ml
             else ml_last_accessed_ns ml)
           in if i64 (now - last_active) < effective_ip_account_window_ns plat
              then touch (l_egress l) (ml_account ml) last_active (ps_window st1)
              else ps_window st1)\<rparr>) w1"
      using Some
      by (auto simp: restore_lease_def lease_of_model_def w1_def st1_def Let_def
          split: sum.splits option.splits)
  qed
  moreover have "put_state ?pid (st1\<lparr>ps_window := win\<rparr>) w1 =
      put_state ?pid ((state_of (put_state ?pid st1 w1) ?pid)\<lparr>ps_window := win\<rparr>) (put_state ?pid st1 w1)"
    by (simp add: put_state_def state_of_def store_simps)
  ultimately show ?thesis
    using world_put_window [OF put(1), of ?pid win] put(2) ok1 Some by simp
qed

lemma restore_fold_spec:
  assumes "world_ok pc subs w"
  shows "world_ok pc subs (fold (restore_lease X now) mls w)
    \<and> wd_pool (fold (restore_lease X now) mls w) = wd_pool w
    \<and> lease_of (fold (restore_lease X now) mls w) = fold (\<lambda>ml f. case lease_of_model X ml of
        None \<Rightarrow> f | Some l \<Rightarrow> set_lease (ml_platform_id ml) (ml_account ml) (Some l) f) mls (lease_of w)"
  using assms
proof (induction mls arbitrary: w)
  case (Cons ml mls)
  note s = restore_lease_spec [OF Cons.prems, of X now ml]
  with Cons.IH [of "restore_lease X now ml w"] show ?case by simp
qed simp

lemma fold_set_lease:
  assumes "distinct (map fst kls)"
  shows "fold (\<lambda>(a, l) f. set_lease pid a (Some l) f) kls f = f(pid := f pid ++ map_of kls)"
  using assms
proof (induction kls arbitrary: f)
  case (Cons kl kls)
  obtain a l where kl: "kl = (a, l)" by (rule prod.exhaust)
  with Cons.prems have a: "a \<notin> dom (map_of kls)" by (simp add: dom_map_of_conv_image_fst)
  from Cons.IH [of "set_lease pid a (Some l) f"] Cons.prems kl a show ?case
    by (auto simp: set_lease_def fun_eq_iff map_add_def split: option.splits)
qed simp

text \<open>Deletion.\<close>

lemma remove_lease_spec:
  assumes "world_ok pc subs w" "remove_lease_in pid account w = (w', b)"
  shows "world_ok pc subs w' \<and> replays w w' \<and> wd_pool w' = wd_pool w
    \<and> lease_of w' = set_lease pid account None (lease_of w)
    \<and> (b \<longleftrightarrow> lease_of w pid account \<noteq> None)"
proof (cases "lease_of w pid account")
  case None
  then have "m_load (lt_leases (ps_leases (state_of w pid))) account = None" by (simp add: lease_of_def)
  with assms have "w' = w" "\<not> b" by (auto simp: remove_lease_in_def delete_lease_def Let_def)
  moreover from None have "set_lease pid account None (lease_of w) = lease_of w"
    by (auto simp: set_lease_def fun_eq_iff)
  ultimately show ?thesis using assms(1) None by simp
next
  case (Some l)
  then have l: "m_load (lt_leases (ps_leases (state_of w pid))) account = Some l" by (simp add: lease_of_def)
  let ?t = "fst (delete_lease account (ps_leases (state_of w pid)))"
  let ?w = "put_state pid ((state_of w pid)\<lparr>ps_leases := ?t\<rparr>) w"
  have run: "w' = emit_world (lease_event_of Lease_Remove pid account (l_node l) (l_egress l)
      (l_created_at_ns l)) ?w" "b"
    using assms(2) l by (auto simp: remove_lease_in_def delete_lease_def Let_def)
  have "lease_inv ?t" using assms(1) by (simp add: delete_lease_inv world_ok_def states_ok_state_of)
  note put = world_put_lease [OF assms(1) this delete_lease_map]
  have ls: "lease_of w' = set_lease pid account None (lease_of w)" using put(2) run(1) by simp
  have "replays w w'"
    by (rule replays_event [OF ls]) (use run in \<open>auto simp: replay_event_of\<close>)
  with ls put(1) run Some show ?thesis by simp
qed

lemma delete_lease_spec:
  assumes "world_ok pc subs w" "router_delete_lease pid account w = (w', b)"
  shows "world_ok pc subs w' \<and> replays w w' \<and> wd_pool w' = wd_pool w
    \<and> lease_of w' = set_lease pid account None (lease_of w)
    \<and> (b \<longleftrightarrow> lease_of w pid account \<noteq> None)"
proof (cases "m_load (wd_states w) pid")
  case None
  then have "lease_of w pid account = None"
    by (simp add: lease_of_def state_of_def new_platform_routing_state_def new_lease_table_def)
  moreover from this have "set_lease pid account None (lease_of w) = lease_of w"
    by (auto simp: set_lease_def fun_eq_iff)
  ultimately show ?thesis using assms None by (simp add: router_delete_lease_def)
next
  case (Some st)
  with assms remove_lease_spec [OF assms(1), of pid account w' b] show ?thesis
    by (simp add: router_delete_lease_def)
qed

lemma delete_all_loop_spec:
  assumes "world_ok pc subs w" "distinct as" "delete_all_loop pid as n w = (w', k)"
  shows "world_ok pc subs w' \<and> replays w w' \<and> wd_pool w' = wd_pool w
    \<and> lease_of w' = (lease_of w)(pid := lease_of w pid |` (- set as))
    \<and> k = n + length (filter (\<lambda>a. lease_of w pid a \<noteq> None) as)"
  using assms
proof (induction as arbitrary: w n)
  case (Cons a as)
  obtain w1 b where r: "remove_lease_in pid a w = (w1, b)" by (rule prod.exhaust)
  note s = remove_lease_spec [OF Cons.prems(1) r]
  have "delete_all_loop pid as (if b then Suc n else n) w1 = (w', k)"
    using Cons.prems(3) r by simp
  note ih = Cons.IH [OF conjunct1 [OF s] _ this]
  have "filter (\<lambda>a. lease_of w1 pid a \<noteq> None) as = filter (\<lambda>a. lease_of w pid a \<noteq> None) as"
    using Cons.prems(2) s by (intro filter_cong) (auto simp: set_lease_def)
  with ih s Cons.prems(2) replays_trans [of w w1 w'] show ?case
    by (auto simp: set_lease_def fun_eq_iff restrict_map_def)
qed (auto simp: restrict_map_def fun_eq_iff)

lemma delete_all_spec:
  assumes "world_ok pc subs w" "delete_all_leases pid w = (w', k)"
  shows "world_ok pc subs w' \<and> replays w w' \<and> wd_pool w' = wd_pool w
    \<and> lease_of w' = (lease_of w)(pid := Map.empty) \<and> k = card (dom (lease_of w pid))"
proof (cases "m_load (wd_states w) pid")
  case None
  then have "lease_of w pid = Map.empty"
    by (simp add: lease_of_def state_of_def new_platform_routing_state_def new_lease_table_def)
  moreover from this have "(lease_of w)(pid := Map.empty) = lease_of w" by (auto simp: fun_eq_iff)
  ultimately show ?thesis using assms None by (simp add: delete_all_leases_def)
next
  case (Some st)
  let ?ks = "map fst (lt_leases (ps_leases st))"
  from assms(1) Some have ok: "m_ok (lt_leases (ps_leases st))"
    by (auto simp: world_ok_def states_ok_def lease_inv_def)
  have l: "lease_of w pid = m_load (lt_leases (ps_leases st))" using Some
    by (simp add: lease_of_def state_of_def)
  have d: "distinct ?ks" using ok by (simp add: m_ok_def)
  have "delete_all_loop pid ?ks 0 w = (w', k)" using assms(2) Some by (simp add: delete_all_leases_def)
  note s = delete_all_loop_spec [OF assms(1) d this]
  have "filter (\<lambda>a. lease_of w pid a \<noteq> None) ?ks = ?ks"
    by (rule filter_True) (auto simp: l map_of_eq_None_iff)
  moreover have "lease_of w pid |` (- set ?ks) = Map.empty"
    by (auto simp: l restrict_map_def fun_eq_iff map_of_eq_None_iff)
  moreover have "length ?ks = card (dom (lease_of w pid))" using m_ok_length [OF ok] by (simp add: l)
  ultimately show ?thesis using s by simp
qed

lemma route_request_replays:
  assumes "world_ok pc subs w" "route_request X cfg name account target w = (r, w')"
  shows "world_ok pc subs w' \<and> replays w w'
    \<and> wd_pool w' = (wd_pool w)\<lparr>pool_nodes := pool_nodes (wd_pool w')\<rparr>"
proof (cases "resolve_platform w name")
  case None
  with assms resolve_none show ?thesis by auto
next
  case (Some plat)
  note s = route_request_spec [OF assms(1) Some assms(2)]
  have "replays w w'"
  proof (cases "account = []")
    case True
    with s show ?thesis by (auto simp: request_effect_def intro: replays_same)
  next
    case False
    with s obtain current evs q where st:
      "sticky_step plat account (fst (time_now (wd_env w))) (pool_nodes (wd_pool w))
        (lease_of w (plat_id plat) account) current evs q" "wd_events w' = wd_events w @ evs"
      "lease_of w' = set_lease (plat_id plat) account current (lease_of w)"
      by (auto simp: request_effect_def)
    have "bindings w (plat_id plat, account) = map_option binding_of (lease_of w (plat_id plat) account)"
      by (simp add: bindings_def)
    moreover have "covers evs w w'"
      using st(1) by cases (auto simp: covers_def st(3) set_lease_def retire_events_def event_marks_append
        split: option.splits)
    ultimately show ?thesis
      using sticky_step_replay [OF st(1), of "bindings w"] st(2) bindings_set_lease [OF st(3)]
      by (auto simp: replays_def)
  qed
  with s show ?thesis by blast
qed

text \<open>The persisted form of a platform's leases: what \<open>ReadLease\<close> gives for each account.\<close>

definition persisted :: "external \<Rightarrow> string \<Rightarrow> world \<Rightarrow> model_lease list" where
  "persisted X pid w = List.map_filter (\<lambda>a. read_lease X pid a w)
     (map fst (lt_leases (ps_leases (state_of w pid))))"

definition to_model :: "external \<Rightarrow> string \<Rightarrow> string \<Rightarrow> lease \<Rightarrow> model_lease" where
  "to_model X pid account l = \<lparr>ml_platform_id = pid, ml_account = account,
     ml_node_hash = hash_hex (l_node l), ml_egress_ip = addr_string X (l_egress l),
     ml_created_at_ns = l_created_at_ns l, ml_expiry_ns = l_expiry_ns l,
     ml_last_accessed_ns = l_last_accessed_ns l\<rparr>"

lemma read_lease_eq: "read_lease X pid a w = map_option (to_model X pid a) (lease_of w pid a)"
  by (auto simp: read_lease_def to_model_def lease_of_def state_of_def get_lease_def
      new_platform_routing_state_def new_lease_table_def split: option.split)

definition lease_printable :: "external \<Rightarrow> lease \<Rightarrow> bool" where
  "lease_printable X l \<longleftrightarrow> hash_ok (l_node l)
     \<and> parse_addr X (addr_string X (l_egress l)) = Some (l_egress l)"

lemma lease_of_to_model: "lease_printable X l \<Longrightarrow> lease_of_model X (to_model X pid a l) = Some l"
  by (simp add: lease_of_model_def to_model_def lease_printable_def parse_hex_def decode_hash_hex
      hash_ok_def)

lemma persisted_eq:
  assumes "world_ok pc subs w"
  shows "persisted X pid w = map (\<lambda>(a, l). to_model X pid a l) (lt_leases (ps_leases (state_of w pid)))"
proof -
  let ?ls = "lt_leases (ps_leases (state_of w pid))"
  have ok: "m_ok ?ls" using assms states_ok_state_of [of w pid] by (simp add: world_ok_def lease_inv_def)
  have l: "read_lease X pid a w = Some (to_model X pid a l)" if "(a, l) \<in> set ?ls" for a l
    using that ok by (simp add: read_lease_eq lease_of_def m_ok_mem)
  have "List.map_filter (\<lambda>a. read_lease X pid a w) (map fst kls) = map (\<lambda>(a, l). to_model X pid a l) kls"
    if "set kls \<subseteq> set ?ls" for kls
    using that by (induction kls) (auto simp: List.map_filter_def l)
  then show ?thesis by (simp add: persisted_def)
qed

section \<open>Properties\<close>

text \<open>
  Writing a lease through the control plane: a rejected request changes nothing; an accepted
  one is read back with the canonical form of its node hash and address and its own times, every
  other lease stays, and lease counters stay exact.
\<close>

lemma upsert_then_read:
  assumes "world_ok pc subs w" "upsert_lease X ml w = (err, w')"
  shows "if err = None
    then \<exists>h ip. parse_hex (ml_node_hash ml) = Inr h \<and> parse_addr X (ml_egress_ip ml) = Some ip
      \<and> read_lease X (trim_space (ml_platform_id ml)) (trim_space (ml_account ml)) w'
        = Some (ml\<lparr>ml_platform_id := trim_space (ml_platform_id ml),
            ml_account := trim_space (ml_account ml),
            ml_node_hash := hash_hex h, ml_egress_ip := addr_string X ip\<rparr>)
      \<and> (\<forall>pid a. (pid, a) \<noteq> (trim_space (ml_platform_id ml), trim_space (ml_account ml)) \<longrightarrow>
            read_lease X pid a w' = read_lease X pid a w)
      \<and> world_ok pc subs w'
    else w' = w"
proof (cases err)
  case None
  with upsert_lease_spec(2) [OF assms] obtain l where l: "lease_of_model X ml = Some l"
    "lease_of w' = set_lease (trim_space (ml_platform_id ml)) (trim_space (ml_account ml)) (Some l) (lease_of w)"
    "world_ok pc subs w'" by auto
  from l(1) have "parse_hex (ml_node_hash ml) = Inr (l_node l)" "parse_addr X (ml_egress_ip ml) = Some (l_egress l)"
    "l_created_at_ns l = ml_created_at_ns ml" "l_expiry_ns l = ml_expiry_ns ml"
    "l_last_accessed_ns l = ml_last_accessed_ns ml"
    by (auto simp: lease_of_model_def split: sum.splits option.splits)
  with None l(2,3) show ?thesis by (auto simp: read_lease_eq to_model_def set_lease_def)
next
  case (Some e)
  with upsert_lease_spec(1) [OF assms] show ?thesis by simp
qed

text \<open>
  Leases survive a restart: restoring what was persisted of a platform's leases into a process
  that has none for it gives back exactly the same leases (node, address and times), with exact
  load counters, and leaves the leases of every other platform alone. The address parser is only
  assumed to read back what it printed for the addresses in use.
\<close>

lemma restore_recovers_leases:
  assumes "world_ok pc subs w" "world_ok pc subs w0" "lease_of w0 pid = Map.empty"
    and "\<And>a l. lease_of w pid a = Some l \<Longrightarrow> lease_printable X l"
  shows "lease_of (restore_leases X (persisted X pid w) w0) = (lease_of w0)(pid := lease_of w pid)
     \<and> world_ok pc subs (restore_leases X (persisted X pid w) w0)"
proof -
  let ?ls = "lt_leases (ps_leases (state_of w pid))"
  obtain now ev where now: "time_now (wd_env w0) = (now, ev)" by (rule prod.exhaust)
  have ok0: "world_ok pc subs (w0\<lparr>wd_env := ev\<rparr>)" using assms(2) by simp
  have ok: "m_ok ?ls" using assms(1) states_ok_state_of [of w pid] by (simp add: world_ok_def lease_inv_def)
  have "fold (\<lambda>ml f. case lease_of_model X ml of None \<Rightarrow> f
        | Some l \<Rightarrow> set_lease (ml_platform_id ml) (ml_account ml) (Some l) f)
      (map (\<lambda>(a, l). to_model X pid a l) kls) f = fold (\<lambda>(a, l) f. set_lease pid a (Some l) f) kls f"
    if "set kls \<subseteq> set ?ls" for kls f
    using that
  proof (induction kls arbitrary: f)
    case (Cons kl kls)
    obtain a l where kl: "kl = (a, l)" by (rule prod.exhaust)
    with Cons.prems have "lease_of w pid a = Some l" by (simp add: lease_of_def m_ok_mem [OF ok, symmetric])
    from lease_of_to_model [OF assms(4) [OF this]] Cons show ?case
      by (simp add: kl) (simp add: to_model_def)
  qed simp
  note eq = this [OF order.refl]
  have "distinct (map fst ?ls)" using ok by (simp add: m_ok_def)
  note put = fold_set_lease [OF this, of pid "lease_of w0"]
  have "(lease_of w0)(pid := lease_of w0 pid ++ map_of ?ls) = (lease_of w0)(pid := lease_of w pid)"
    using assms(3) by (simp add: lease_of_def)
  with restore_fold_spec [OF ok0, of X now "persisted X pid w"] eq put persisted_eq [OF assms(1)]
  show ?thesis by (simp add: restore_leases_def now)
qed

text \<open>
  Deleting all leases of a platform removes every one of them, reports their exact number,
  tells the listener about each, and touches no other platform.
\<close>

lemma delete_all_empties:
  assumes "world_ok pc subs w" "delete_all_leases pid w = (w', k)"
  shows "(\<forall>account. read_lease X pid account w' = None) \<and> k = card (dom (lease_of w pid))
     \<and> (\<forall>q. q \<noteq> pid \<longrightarrow> lease_of w' q = lease_of w q) \<and> replays w w' \<and> world_ok pc subs w'"
  using delete_all_spec [OF assms] by (auto simp: read_lease_eq)

section \<open>Witnesses\<close>

definition sample_model_lease :: model_lease where
  "sample_model_lease = \<lparr>ml_platform_id = ''p'', ml_account = ''d'',
     ml_node_hash = hash_hex (replicate 16 0), ml_egress_ip = ''1'', ml_created_at_ns = 1,
     ml_expiry_ns = 50, ml_last_accessed_ns = 2\<rparr>"

definition empty_world :: world where
  "empty_world = sample_world\<lparr>wd_states := []\<rparr>"

end
