(* ===== verification/Lease_Cleaner.thy ===== *)
theory Lease_Cleaner
  imports Lease_Admin
begin

text \<open>
  \<open>internal/routing/lease_cleaner.go\<close>: the sweep that removes expired leases, and the runs that
  interleave requests, administration and sweeps.
\<close>

section \<open>The lease cleaner\<close>

text \<open>
  \<open>lease_cleaner.go\<close>: a sweep visits the leases of each platform; the stop signal may end the
  visit of a platform after any number of leases, or come before its turn (\<open>None\<close>). Each expired
  lease is checked again inside the map before it is deleted.
\<close>

definition sweep_one :: "string \<Rightarrow> int \<Rightarrow> string \<times> lease \<Rightarrow> world \<Rightarrow> world" where
  "sweep_one pid now al w =
     (if \<not> l_expiry_ns (snd al) < now then w
      else let st = state_of w pid; t = ps_leases st in
        case m_load (lt_leases t) (fst al) of
          None \<Rightarrow> w
        | Some cur \<Rightarrow>
            if l_expiry_ns cur < now
            then emit_world (lease_event_of Lease_Expire pid (fst al) (l_node cur) (l_egress cur)
                   (l_created_at_ns cur))
                 (put_state pid (st\<lparr>ps_leases := \<lparr>lt_leases = m_delete (fst al) (lt_leases t),
                   lt_stats = stats_dec (l_egress cur) (lt_stats t)\<rparr>\<rparr>) w)
            else w)"

definition sweep_platform_state :: "nat \<Rightarrow> string \<Rightarrow> int \<Rightarrow> world \<Rightarrow> world" where
  "sweep_platform_state visited pid now w =
     (let w1 = (case quota_platform w pid of
                  None \<Rightarrow> w
                | Some plat \<Rightarrow>
                    let st = state_of w pid
                    in put_state pid (st\<lparr>ps_window := prune now (effective_ip_account_window_ns plat)
                         (ps_window st)\<rparr>) w)
      in fold (sweep_one pid now) (take visited (lt_leases (ps_leases (state_of w1 pid)))) w1)"

definition sweep :: "(string \<Rightarrow> nat option) \<Rightarrow> world \<Rightarrow> world" where
  "sweep visited w =
     (let (now, ev) = time_now (wd_env w) in
      fold (\<lambda>pid w. case visited pid of None \<Rightarrow> w | Some n \<Rightarrow> sweep_platform_state n pid now w)
        (map fst (wd_states w)) (w\<lparr>wd_env := ev\<rparr>))"

section \<open>What a sweep removes\<close>

definition expired_at :: "int \<Rightarrow> lease \<Rightarrow> bool" where
  "expired_at now l \<longleftrightarrow> l_expiry_ns l < now"

text \<open>The leases after a sweep that visited the given snapshot of the table.\<close>

definition swept :: "int \<Rightarrow> (string \<times> lease) list \<Rightarrow> (string \<rightharpoonup> lease) \<Rightarrow> string \<rightharpoonup> lease" where
  "swept now als f = (\<lambda>a. case f a of
     None \<Rightarrow> None
   | Some l \<Rightarrow> if expired_at now l \<and> (\<exists>l'. (a, l') \<in> set als \<and> expired_at now l') then None else Some l)"

lemma sweep_one_spec:
  assumes "world_ok pc subs w"
  shows "world_ok pc subs (sweep_one pid now al w) \<and> replays w (sweep_one pid now al w)
    \<and> wd_pool (sweep_one pid now al w) = wd_pool w
    \<and> ps_window (state_of (sweep_one pid now al w) p) = ps_window (state_of w p)
    \<and> lease_of (sweep_one pid now al w) = (lease_of w)(pid := swept now [al] (lease_of w pid))"
proof -
  obtain a l0 where al: "al = (a, l0)" by (rule prod.exhaust)
  show ?thesis
  proof (cases "expired_at now l0 \<and> (\<exists>l. lease_of w pid a = Some l \<and> expired_at now l)")
    case False
    then have "sweep_one pid now al w = w"
      by (auto simp: sweep_one_def al expired_at_def lease_of_def Let_def split: option.splits)
    moreover from False have "(lease_of w)(pid := swept now [al] (lease_of w pid)) = lease_of w"
      by (auto simp: swept_def al fun_eq_iff split: option.split)
    ultimately show ?thesis using assms by simp
  next
    case True
    then obtain l where l: "lease_of w pid a = Some l" "expired_at now l" "expired_at now l0" by blast
    let ?t = "fst (delete_lease a (ps_leases (state_of w pid)))"
    let ?w = "put_state pid ((state_of w pid)\<lparr>ps_leases := ?t\<rparr>) w"
    have run: "sweep_one pid now al w = emit_world (lease_event_of Lease_Expire pid a (l_node l)
        (l_egress l) (l_created_at_ns l)) ?w"
      using l by (auto simp: sweep_one_def al expired_at_def lease_of_def Let_def delete_lease_def)
    have "lease_inv ?t" using assms by (simp add: delete_lease_inv world_ok_def states_ok_state_of)
    note put = world_put_lease [OF assms this delete_lease_map]
    have ls: "lease_of (sweep_one pid now al w) = set_lease pid a None (lease_of w)"
      using put(2) run by simp
    have "replays w (sweep_one pid now al w)"
      by (rule replays_event [OF ls]) (use run in \<open>auto simp: replay_event_of\<close>)
    moreover have "set_lease pid a None (lease_of w) = (lease_of w)(pid := swept now [al] (lease_of w pid))"
      using l by (auto simp: set_lease_def swept_def al fun_eq_iff split: option.split)
    ultimately show ?thesis using ls put(1) run by simp
  qed
qed

lemma swept_Cons: "swept now als (swept now [al] f) = swept now (al # als) f"
  (is "?l = ?r")
proof
  fix a
  obtain b l0 where al: "al = (b, l0)" by (rule prod.exhaust)
  have "(\<exists>l'. (a, l') \<in> set (al # als) \<and> expired_at now l') \<longleftrightarrow>
      a = b \<and> expired_at now l0 \<or> (\<exists>l'. (a, l') \<in> set als \<and> expired_at now l')"
    by (auto simp: al)
  then show "?l a = ?r a" by (cases "f a") (simp_all add: swept_def al)
qed

lemma sweep_fold_spec:
  assumes "world_ok pc subs w"
  shows "world_ok pc subs (fold (sweep_one pid now) als w) \<and> replays w (fold (sweep_one pid now) als w)
    \<and> wd_pool (fold (sweep_one pid now) als w) = wd_pool w
    \<and> ps_window (state_of (fold (sweep_one pid now) als w) p) = ps_window (state_of w p)
    \<and> lease_of (fold (sweep_one pid now) als w) = (lease_of w)(pid := swept now als (lease_of w pid))"
  using assms
proof (induction als arbitrary: w)
  case Nil
  have "swept now [] f = f" for f by (auto simp: swept_def fun_eq_iff split: option.split)
  with Nil show ?case by simp
next
  case (Cons al als)
  note s = sweep_one_spec [OF Cons.prems, of pid now al]
  with Cons.IH [of "sweep_one pid now al w"] s [of p] show ?case
    by (auto simp: swept_Cons intro: replays_trans)
qed

definition prune_window :: "string \<Rightarrow> int \<Rightarrow> world \<Rightarrow> world" where
  "prune_window pid now w = (case quota_platform w pid of
     None \<Rightarrow> w
   | Some plat \<Rightarrow> put_state pid ((state_of w pid)\<lparr>ps_window :=
       prune now (effective_ip_account_window_ns plat) (ps_window (state_of w pid))\<rparr>) w)"

lemma prune_window_spec:
  assumes "world_ok pc subs w"
  shows "world_ok pc subs (prune_window pid now w) \<and> lease_of (prune_window pid now w) = lease_of w
    \<and> wd_pool (prune_window pid now w) = wd_pool w \<and> wd_events (prune_window pid now w) = wd_events w
    \<and> (quota_inv mx (ps_window (state_of w p)) \<longrightarrow>
         quota_inv mx (ps_window (state_of (prune_window pid now w) p)))"
  using assms world_put_window [OF assms, of pid]
  by (auto simp: prune_window_def prune_quota split: option.split)

lemma sweep_platform_eq:
  "sweep_platform_state n pid now w = (let w1 = prune_window pid now w in
     fold (sweep_one pid now) (take n (lt_leases (ps_leases (state_of w1 pid)))) w1)"
  by (auto simp: sweep_platform_state_def prune_window_def Let_def split: option.split)

lemma sweep_platform_spec:
  assumes "world_ok pc subs w"
  shows "world_ok pc subs (sweep_platform_state n pid now w) \<and> replays w (sweep_platform_state n pid now w)
    \<and> wd_pool (sweep_platform_state n pid now w) = wd_pool w
    \<and> (quota_inv mx (ps_window (state_of w p)) \<longrightarrow>
         quota_inv mx (ps_window (state_of (sweep_platform_state n pid now w) p)))
    \<and> (\<exists>als. set als \<subseteq> {(a, l). lease_of w pid a = Some l}
         \<and> (card (dom (lease_of w pid)) \<le> n \<longrightarrow> set als = {(a, l). lease_of w pid a = Some l})
         \<and> lease_of (sweep_platform_state n pid now w) = (lease_of w)(pid := swept now als (lease_of w pid)))"
proof -
  define w1 where "w1 = prune_window pid now w"
  note p = prune_window_spec [OF assms, where pid = pid and now = now, folded w1_def]
  let ?ls = "lt_leases (ps_leases (state_of w1 pid))"
  note s = sweep_fold_spec [of pc subs w1 pid now "take n ?ls"]
  have ok: "m_ok ?ls"
    using p [of undefined] states_ok_state_of [of w1 pid] by (simp add: world_ok_def lease_inv_def)
  have l: "lease_of w pid = m_load ?ls" using p [of undefined] by (simp add: lease_of_def fun_eq_iff)
  have ls: "set ?ls = {(a, l). lease_of w pid a = Some l}"
    by (auto simp: l m_ok_mem [OF ok])
  have "set (take n ?ls) \<subseteq> {(a, l). lease_of w pid a = Some l}" using ls by (metis set_take_subset)
  moreover have "set (take n ?ls) = {(a, l). lease_of w pid a = Some l}" if "card (dom (lease_of w pid)) \<le> n"
    using that ls m_ok_length [OF ok] by (simp add: l)
  moreover have "replays w w1" using p [of undefined] by (intro replays_same) auto
  ultimately show ?thesis
    using s p [of mx p] unfolding sweep_platform_eq Let_def w1_def [symmetric]
    by (auto intro: replays_trans)
qed

section \<open>Runs of the whole system\<close>

text \<open>
  Requests, lease administration, the cleaner and the changes of the pool, in any order. The
  cleaner contributes single visits: \<open>Sweep_Lease\<close> carries the lease its iteration saw, which may
  be out of date by the time its callback runs, so every interleaving with requests is a run.
\<close>

datatype world_op =
    Request string string string
  | Upsert model_lease
  | Delete_Lease string string
  | Delete_All string
  | Sweep_Lease string int "string \<times> lease"
  | Prune_Window string int
  | Snapshot_Quota string int
  | Pool_Op pool_op

fun world_op_ok :: "world_op \<Rightarrow> bool" where
  "world_op_ok (Pool_Op op) = pool_op_ok op"
| "world_op_ok _ = True"

fun world_step ::
  "external \<Rightarrow> pool_config \<Rightarrow> sub_store \<Rightarrow> router_config \<Rightarrow> world_op \<Rightarrow> world \<Rightarrow> world" where
  "world_step X pc subs cfg (Request name account target) w = snd (route_request X cfg name account target w)"
| "world_step X pc subs cfg (Upsert ml) w = snd (upsert_lease X ml w)"
| "world_step X pc subs cfg (Delete_Lease pid account) w = fst (router_delete_lease pid account w)"
| "world_step X pc subs cfg (Delete_All pid) w = fst (delete_all_leases pid w)"
| "world_step X pc subs cfg (Sweep_Lease pid now al) w = sweep_one pid now al w"
| "world_step X pc subs cfg (Prune_Window pid now) w = prune_window pid now w"
| "world_step X pc subs cfg (Snapshot_Quota pid win) w = snd (snapshot_ip_quota pid win w)"
| "world_step X pc subs cfg (Pool_Op op) w =
     (let (p, ev) = pool_step X pc subs op (wd_pool w, wd_env w) in w\<lparr>wd_pool := p, wd_env := ev\<rparr>)"

lemma snapshot_quota_spec:
  assumes "world_ok pc subs w"
  shows "world_ok pc subs (snd (snapshot_ip_quota pid win w))
    \<and> lease_of (snd (snapshot_ip_quota pid win w)) = lease_of w
    \<and> wd_events (snd (snapshot_ip_quota pid win w)) = wd_events w
    \<and> wd_pool (snd (snapshot_ip_quota pid win w)) = wd_pool w
    \<and> (quota_inv mx (ps_window (state_of w p)) \<longrightarrow>
         quota_inv mx (ps_window (state_of (snd (snapshot_ip_quota pid win w)) p)))"
proof (cases "m_load (wd_states w) pid")
  case None
  with assms show ?thesis by (simp add: snapshot_ip_quota_def)
next
  case (Some st)
  obtain now ev where now: "time_now (wd_env w) = (now, ev)" by (rule prod.exhaust)
  obtain win' d where a: "accounts_by_ip now win (ps_window st) = (win', d)" by (rule prod.exhaust)
  have st: "state_of (w\<lparr>wd_env := ev\<rparr>) pid = st" using Some by (simp add: state_of_def)
  have run: "snd (snapshot_ip_quota pid win w) = put_state pid (st\<lparr>ps_window := win'\<rparr>) (w\<lparr>wd_env := ev\<rparr>)"
    using Some now a by (simp add: snapshot_ip_quota_def window_stats_def)
  have "quota_inv mx (ps_window st) \<Longrightarrow> quota_inv mx win'"
    using accounts_loop_quota [of mx "ps_window st" "map fst (w_entries (ps_window st))" now win "[]"] a
    by (simp add: accounts_by_ip_def)
  with world_put_window [of pc subs "w\<lparr>wd_env := ev\<rparr>" pid win', unfolded st] assms st show ?thesis
    by (auto simp: run)
qed

lemma pool_op_world:
  assumes "world_ok pc subs w" "pool_op_ok op"
  shows "world_ok pc subs (world_step X pc subs cfg (Pool_Op op) w)
    \<and> replays w (world_step X pc subs cfg (Pool_Op op) w)"
proof -
  obtain p ev where r: "pool_step X pc subs op (wd_pool w, wd_env w) = (p, ev)" by (rule prod.exhaust)
  have "pool_ok pc subs p"
    using pm.step_inv [of pc subs "(wd_pool w, wd_env w)" op X] assms r by (simp add: world_ok_def)
  moreover have "lease_of (w\<lparr>wd_pool := p, wd_env := ev\<rparr>) = lease_of w"
    by (simp add: lease_of_def state_of_def fun_eq_iff)
  ultimately show ?thesis
    using assms(1) r by (auto simp: world_ok_def states_ok_def intro: replays_same)
qed

lemma world_step_spec:
  assumes "world_ok pc subs w" "world_op_ok op"
  shows "world_ok pc subs (world_step X pc subs cfg op w) \<and> replays w (world_step X pc subs cfg op w)"
proof (cases op)
  case (Request name account target)
  with route_request_replays [OF assms(1) prod.collapse [symmetric], of X cfg name account target]
  show ?thesis by simp
next
  case (Upsert ml)
  with upsert_lease_spec [OF assms(1) prod.collapse [symmetric], of X ml] assms(1) show ?thesis
    by (cases "fst (upsert_lease X ml w)") auto
next
  case (Delete_Lease pid account)
  with delete_lease_spec [OF assms(1) prod.collapse [symmetric], of pid account] show ?thesis by simp
next
  case (Delete_All pid)
  with delete_all_spec [OF assms(1) prod.collapse [symmetric], of pid] show ?thesis by simp
next
  case (Sweep_Lease pid now al)
  with sweep_one_spec [OF assms(1), of pid now al] show ?thesis by simp
next
  case (Prune_Window pid now)
  with prune_window_spec [OF assms(1), of pid now] show ?thesis by (auto intro: replays_same)
next
  case (Snapshot_Quota pid win)
  with snapshot_quota_spec [OF assms(1), of pid win] show ?thesis by (auto intro: replays_same)
next
  case (Pool_Op pop)
  with pool_op_world [OF assms(1), of pop X cfg] assms(2) show ?thesis by simp
qed

interpretation wm: invariant_machine "world_step X pc subs cfg" world_op_ok "world_ok pc subs"
  for X pc subs cfg
  by unfold_locales (rule conjunct1 [OF world_step_spec])

lemma run_replays:
  "world_ok pc subs w \<Longrightarrow> list_all world_op_ok ops \<Longrightarrow> replays w (fold (world_step X pc subs cfg) ops w)"
proof (induction ops arbitrary: w)
  case (Cons op ops)
  note s = world_step_spec [OF Cons.prems(1), of op X cfg]
  from Cons s show ?case by (auto intro: replays_trans)
qed simp

section \<open>The quota through the router\<close>

text \<open>
  The operations of a platform whose settings stay: all but the control plane's own bindings
  (which consume slots without asking) and changes of the pool.
\<close>

fun quota_op :: "world_op \<Rightarrow> bool" where
  "quota_op (Upsert _) = False"
| "quota_op (Pool_Op _) = False"
| "quota_op _ = True"

definition under_quota :: "pool_config \<Rightarrow> sub_store \<Rightarrow> string \<Rightarrow> int \<Rightarrow> world \<Rightarrow> bool" where
  "under_quota pc subs pid mx w \<longleftrightarrow> world_ok pc subs w
     \<and> map_option max_accounts_per_ip (get_platform (wd_pool w) pid) = Some mx
     \<and> quota_inv mx (ps_window (state_of w pid))"

lemma remove_lease_window: "ps_window (state_of (fst (remove_lease_in pid a w)) p) = ps_window (state_of w p)"
  by (auto simp: remove_lease_in_def Let_def split: option.splits prod.splits)

lemma delete_loop_window:
  "ps_window (state_of (fst (delete_all_loop pid as n w)) p) = ps_window (state_of w p)"
proof (induction as arbitrary: n w)
  case (Cons a as)
  with remove_lease_window [of pid a w p] show ?case by (auto split: prod.splits)
qed simp

lemma get_platform_nodes [simp]: "get_platform (p\<lparr>pool_nodes := ns\<rparr>) pid = get_platform p pid"
  by (simp add: get_platform_def deref_def [abs_def])

lemma request_quota:
  assumes "under_quota pc subs pid mx w" "0 < mx" "mx < max_i64"
  shows "under_quota pc subs pid mx (snd (route_request X cfg name account target w))"
proof -
  obtain r w' where run: "route_request X cfg name account target w = (r, w')" by (rule prod.exhaust)
  have ok: "world_ok pc subs w" using assms(1) by (simp add: under_quota_def)
  show ?thesis
  proof (cases "resolve_platform w name")
    case None
    with assms(1) show ?thesis by (simp add: resolve_none)
  next
    case (Some plat)
    note s = route_request_spec [OF ok Some run]
    have pool: "get_platform (wd_pool w') pid = get_platform (wd_pool w) pid"
      using s by (metis get_platform_nodes)
    have "quota_inv mx (ps_window (state_of w' pid))"
    proof (cases "pid = plat_id plat")
      case True
      have "pool_ok pc subs (wd_pool w)" using ok by (simp add: world_ok_def)
      from resolve_platform_registered(1) [OF this Some] assms(1) True
      have "mx = max_accounts_per_ip plat" by (simp add: under_quota_def)
      with s True assms show ?thesis by (simp add: under_quota_def)
    next
      case False
      with s assms(1) show ?thesis by (simp add: under_quota_def)
    qed
    with s pool assms(1) run show ?thesis by (simp add: under_quota_def)
  qed
qed

interpretation uq: invariant_machine "world_step X pc subs cfg"
  "\<lambda>op. quota_op op \<and> 0 < mx \<and> mx < max_i64" "under_quota pc subs pid mx"
  for X pc subs cfg pid mx
proof
  fix w op
  assume u: "under_quota pc subs pid mx w" and op: "quota_op op \<and> 0 < mx \<and> mx < max_i64"
  have ok: "world_ok pc subs w" using u by (simp add: under_quota_def)
  show "under_quota pc subs pid mx (world_step X pc subs cfg op w)"
  proof (cases op)
    case (Request name account target)
    with request_quota [OF u] op show ?thesis by simp
  next
    case (Delete_Lease p a)
    with delete_lease_spec [OF ok prod.collapse [symmetric], of p a] u remove_lease_window [of p a w pid]
    show ?thesis by (simp add: under_quota_def router_delete_lease_def split: option.split)
  next
    case (Delete_All p)
    with delete_all_spec [OF ok prod.collapse [symmetric], of p] u delete_loop_window [of p _ _ w pid]
    show ?thesis by (simp add: under_quota_def delete_all_leases_def split: option.split)
  next
    case (Sweep_Lease p now al)
    with sweep_one_spec [OF ok, of p now al pid] u show ?thesis by (simp add: under_quota_def)
  next
    case (Prune_Window p now)
    with prune_window_spec [OF ok, of p now mx pid] u show ?thesis by (simp add: under_quota_def)
  next
    case (Snapshot_Quota p win)
    with snapshot_quota_spec [OF ok, of p win mx pid] u show ?thesis by (simp add: under_quota_def)
  qed (use op in auto)
qed

section \<open>Properties\<close>


text \<open>
  C9. The load counters never drift: after any such run, the load snapshot of a platform lists
  exactly the egress addresses that carry leases, each with its number of leases.
\<close>

theorem load_counters_exact:
  assumes "world_ok pc subs w" "list_all world_op_ok ops" "addr_valid ip"
    and "w' = fold (world_step X pc subs cfg) ops w"
    and "leases_on (lease_of w' pid) ip \<le> max_i64"
  shows "m_load (snapshot_ip_load pid w') ip =
     (if leases_on (lease_of w' pid) ip > 0 then Some (leases_on (lease_of w' pid) ip) else None)"
proof -
  have "world_ok pc subs w'" unfolding assms(4) by (rule wm.run_inv [OF assms(1,2)])
  then have inv: "lease_inv (ps_leases (state_of w' pid))" by (simp add: world_ok_def states_ok_state_of)
  then have ok: "m_ok (lt_stats (ps_leases (state_of w' pid)))" by (simp add: lease_inv_def)
  from inv have get: "stats_get (lt_stats (ps_leases (state_of w' pid))) ip = leases_on (lease_of w' pid) ip"
    using ls.match_get [OF _ assms(3)] assms(5) by (simp add: lease_inv_def lease_of_def)
  show ?thesis
  proof (cases "m_load (wd_states w') pid")
    case None
    then show ?thesis
      by (simp add: snapshot_ip_load_def lease_of_def state_of_def new_platform_routing_state_def
          new_lease_table_def leases_on_def keys_where_def)
  next
    case (Some st)
    with stats_snapshot_lookup [OF ok, of ip] get show ?thesis
      by (simp add: snapshot_ip_load_def state_of_def)
  qed
qed

text \<open>
  C10. The account quota holds through the router: on a platform that admits \<open>mx\<close> accounts per
  address, after any run of requests (all picks, hits, rotations and forced fallbacks), lease
  deletions, cleaner visits and snapshots, no address has more than \<open>mx + 1\<close> accounts in its
  window, and at most \<open>mx\<close> of them outside a forced fallback slot.
\<close>

theorem router_respects_quota:
  assumes "under_quota pc subs pid mx w" "0 < mx" "mx < max_i64" "list_all quota_op ops"
  shows "let m = accounts_of (ps_window (state_of (fold (world_step X pc subs cfg) ops w) pid)) ip
    in int (length m) \<le> mx + 1
       \<and> int (card {a. \<exists>e. m_load m a = Some e \<and> \<not> via_fallback e}) \<le> mx"
proof -
  have "list_all (\<lambda>op. quota_op op \<and> 0 < mx \<and> mx < max_i64) ops"
    using assms(2-4) by (simp add: list_all_iff)
  from uq.run_inv [OF assms(1) this] have
    inv: "quota_inv mx (ps_window (state_of (fold (world_step X pc subs cfg) ops w) pid))"
    by (simp add: under_quota_def)
  let ?m = "accounts_of (ps_window (state_of (fold (world_step X pc subs cfg) ops w) pid)) ip"
  have "m_ok ?m" "within_quota mx ?m" using inv by (auto simp: quota_inv_def window_ok_accounts)
  then show ?thesis
    by (simp add: Let_def within_quota_def all_accounts_length) (simp add: acct_count_def keys_where_def)
qed

text \<open>
  A sweep removes the leases that have expired and no others: a visit of a platform that is
  not cut short by the stop signal leaves exactly the leases whose expiry is not before its time,
  and a visit that is cut short removes only expired ones.
\<close>

lemma sweep_removes_expired:
  assumes "world_ok pc subs w" "w' = sweep_platform_state visited pid now w"
  shows "(\<forall>a l. lease_of w pid a = Some l \<longrightarrow> now \<le> l_expiry_ns l \<longrightarrow> lease_of w' pid a = Some l)
     \<and> (\<forall>a. lease_of w' pid a = None \<or> lease_of w' pid a = lease_of w pid a)
     \<and> (\<forall>q. q \<noteq> pid \<longrightarrow> lease_of w' q = lease_of w q)
     \<and> (card (dom (lease_of w pid)) \<le> visited \<longrightarrow>
          (\<forall>a l. lease_of w' pid a = Some l \<longrightarrow> now \<le> l_expiry_ns l))
     \<and> replays w w'"
proof -
  note s = sweep_platform_spec [OF assms(1), of visited pid now, folded assms(2)]
  then obtain als where als: "lease_of w' = (lease_of w)(pid := swept now als (lease_of w pid))"
    "card (dom (lease_of w pid)) \<le> visited \<longrightarrow> set als = {(a, l). lease_of w pid a = Some l}" by blast
  show ?thesis
    using s als by (auto simp: swept_def expired_at_def split: option.splits if_splits)
qed

section \<open>Witnesses\<close>


lemma sample_leases: "lease_of sample_world ''p'' = [''a'' \<mapsto> sample_lease]"
  by (auto simp: lease_of_def state_of_def sample_world_def create_lease_map new_lease_table_def fun_eq_iff)

theorem load_counters_exact_witness:
  "m_load (snapshot_ip_load ''p'' (snd (upsert_lease plain_external sample_model_lease sample_world))) (V4 1)
     = Some 2"
proof -
  let ?w = "snd (upsert_lease plain_external sample_model_lease sample_world)"
  have t: "trim_space (ml_platform_id sample_model_lease) = ''p''"
    "trim_space (ml_account sample_model_lease) = ''d''"
    by (simp_all add: sample_model_lease_def trim_space_plain plain_char_def)
  have p: "parse_hex (ml_node_hash sample_model_lease) = Inr (replicate 16 0)"
    "parse_addr plain_external (ml_egress_ip sample_model_lease) = Some (V4 1)"
    by (simp_all add: sample_model_lease_def parse_hex_def decode_hash_hex plain_external_def)
  have "fst (upsert_lease plain_external sample_model_lease sample_world) = None"
    by (simp add: upsert_lease_def p t Let_def)
  with upsert_lease_spec(2) [OF sample_world_ok prod.collapse [symmetric], of plain_external sample_model_lease]
  obtain l where l: "lease_of_model plain_external sample_model_lease = Some l"
    "lease_of ?w = set_lease ''p'' ''d'' (Some l) (lease_of sample_world)" by (auto simp: t)
  from l(1) p have "l_egress l = V4 1" by (auto simp: lease_of_model_def)
  then have "keys_where (\<lambda>_ l. l_egress l = V4 1) (lease_of ?w ''p'') = {''a'', ''d''}"
    by (auto simp: l(2) set_lease_def sample_leases keys_where_def sample_lease_def split: if_splits)
  then have n: "leases_on (lease_of ?w ''p'') (V4 1) = 2" by (simp add: leases_on_def)
  show ?thesis
    using load_counters_exact [OF sample_world_ok, of "[Upsert sample_model_lease]" "V4 1" ?w plain_external
        sample_router "''p''"] n by (simp add: max_i64_def)
qed

text \<open>The same pool with one account per address.\<close>

definition quota_world :: world where
  "quota_world = \<lparr>wd_pool = fst (fold (pool_step plain_external sample_config sample_store)
       (Create_Platform (sample_platform\<lparr>max_accounts_per_ip := 1\<rparr>) # tl all_ops)
       (new_global_node_pool, \<lparr>draws = [], clock = [5]\<rparr>)),
     wd_env = \<lparr>draws = [], clock = [7]\<rparr>, wd_states = [], wd_events = []\<rparr>"

lemma quota_world_under_quota: "under_quota sample_config sample_store ''p'' 1 quota_world"
proof -
  have "list_all pool_op_ok (Create_Platform (sample_platform\<lparr>max_accounts_per_ip := 1\<rparr>) # tl all_ops)"
    using all_ops_ok by (simp add: all_ops_def sample_platform_def)
  then have "pool_ok sample_config sample_store (wd_pool quota_world)"
    unfolding quota_world_def world.select_convs by (rule pm.run_inv [rotated]) (simp add: new_pool_ok)
  moreover have "map_option max_accounts_per_ip (get_platform (wd_pool quota_world) ''p'') = Some 1"
    by code_simp
  ultimately show ?thesis
    by (simp add: under_quota_def world_ok_def states_ok_def)
      (simp add: quota_world_def state_of_def new_platform_routing_state_def new_window_quota)
qed

theorem router_respects_quota_witness:
  "int (length (accounts_of (ps_window (state_of (fold (world_step plain_external sample_config
      sample_store sample_router) [Request ''n'' ''a'' ''b'', Request ''n'' ''c'' ''b'',
        Request ''n'' ''d'' ''b''] quota_world) ''p'')) (V4 1))) \<le> 2"
  using router_respects_quota [OF quota_world_under_quota, of "[Request ''n'' ''a'' ''b'',
      Request ''n'' ''c'' ''b'', Request ''n'' ''d'' ''b'']" plain_external sample_router "V4 1"]
  by (simp add: max_i64_def Let_def)

end
