(* ===== verification/Weak_Persist.thy ===== *)
theory Weak_Persist
  imports Lease_Cleaner
begin

text \<open>
  Weak persistence (\<open>internal/state/dirtyset.go\<close>, \<open>engine.go\<close>, \<open>consistency.go\<close>, the transaction of
  \<open>repo_cache.go\<close> and the readers of \<open>cmd/resin/main.go\<close>): changed keys are marked dirty, a flush
  drains the marks, reads the current values and writes them in one transaction, and a failed flush
  puts the marks back. The lemmas show what one flush writes, that no change is lost whatever
  happens between the phases of a flush, and what the repair at start-up leaves.
\<close>

section \<open>Rows\<close>

record node_static =
  ns_hash :: string
  ns_raw_options :: string
  ns_created_at_ns :: int

record node_dynamic =
  nd_hash :: string
  nd_failure_count :: int
  nd_circuit_open_since :: int
  nd_egress_ip :: string
  nd_egress_region :: string
  nd_egress_updated_at_ns :: int
  nd_latency_probe_attempt_ns :: int
  nd_authority_probe_attempt_ns :: int
  nd_egress_update_attempt_ns :: int

record node_latency =
  nl_node_hash :: string
  nl_domain :: string
  nl_ewma_ns :: int
  nl_last_updated_ns :: int

record subscription_node =
  sn_subscription_id :: string
  sn_node_hash :: string
  sn_tags :: "string list"
  sn_evicted :: bool

type_synonym pair_key = "string \<times> string"

text \<open>The primary keys of the tables with two key columns.\<close>

definition latency_key :: "node_latency \<Rightarrow> pair_key" where
  "latency_key r = (nl_node_hash r, nl_domain r)"

definition lease_key :: "model_lease \<Rightarrow> pair_key" where
  "lease_key r = (ml_platform_id r, ml_account r)"

definition sub_node_key :: "subscription_node \<Rightarrow> pair_key" where
  "sub_node_key r = (sn_subscription_id r, sn_node_hash r)"

section \<open>Dirty sets\<close>

datatype dirty_op = Op_Upsert | Op_Delete

type_synonym 'k dirty_set = "('k, dirty_op) amap"

definition new_dirty_set :: "'k dirty_set" where
  "new_dirty_set = []"

definition mark_upsert :: "'k \<Rightarrow> 'k dirty_set \<Rightarrow> 'k dirty_set" where
  "mark_upsert k d = m_store k Op_Upsert d"

definition mark_delete :: "'k \<Rightarrow> 'k dirty_set \<Rightarrow> 'k dirty_set" where
  "mark_delete k d = m_store k Op_Delete d"

definition drain :: "'k dirty_set \<Rightarrow> 'k dirty_set \<times> 'k dirty_set" where
  "drain d = (d, new_dirty_set)"

definition merge_dirty :: "'k dirty_set \<Rightarrow> 'k dirty_set \<Rightarrow> 'k dirty_set" where
  "merge_dirty old_map d =
     fold (\<lambda>(k, v) d. if m_load d k = None then m_store k v d else d) old_map d"

definition dirty_len :: "'k dirty_set \<Rightarrow> nat" where
  "dirty_len d = length d"

fun classify_dirty_set :: "'k dirty_set \<Rightarrow> ('k \<Rightarrow> 'v option) \<Rightarrow> 'v list \<times> 'k list" where
  "classify_dirty_set [] reader = ([], [])"
| "classify_dirty_set ((k, op) # d) reader =
     (let (ups, dels) = classify_dirty_set d reader in
      case op of
        Op_Delete \<Rightarrow> (ups, k # dels)
      | Op_Upsert \<Rightarrow> (case reader k of None \<Rightarrow> (ups, k # dels) | Some v \<Rightarrow> (v # ups, dels)))"

section \<open>The cache database\<close>

text \<open>
  A table is a map from primary keys to rows; the statements of the transaction are
  \<open>INSERT .. ON CONFLICT .. DO UPDATE\<close> on every other column, and \<open>DELETE\<close> by primary key.
\<close>

definition bulk_upsert :: "('v \<Rightarrow> 'k) \<Rightarrow> 'v list \<Rightarrow> ('k, 'v) amap \<Rightarrow> ('k, 'v) amap" where
  "bulk_upsert kf rows tbl = fold (\<lambda>v. m_store (kf v) v) rows tbl"

definition bulk_delete :: "'k list \<Rightarrow> ('k, 'v) amap \<Rightarrow> ('k, 'v) amap" where
  "bulk_delete ks tbl = fold m_delete ks tbl"

record cache_db =
  db_static :: "(string, node_static) amap"
  db_sub_nodes :: "(pair_key, subscription_node) amap"
  db_dynamic :: "(string, node_dynamic) amap"
  db_latency :: "(pair_key, node_latency) amap"
  db_leases :: "(pair_key, model_lease) amap"

record flush_ops =
  fo_static :: "node_static list \<times> string list"
  fo_sub_nodes :: "subscription_node list \<times> pair_key list"
  fo_dynamic :: "node_dynamic list \<times> string list"
  fo_latency :: "node_latency list \<times> pair_key list"
  fo_leases :: "model_lease list \<times> pair_key list"

definition flush_steps :: "flush_ops \<Rightarrow> (cache_db \<Rightarrow> cache_db) list" where
  "flush_steps ops = [
     (\<lambda>db. db\<lparr>db_static := bulk_upsert ns_hash (fst (fo_static ops)) (db_static db)\<rparr>),
     (\<lambda>db. db\<lparr>db_sub_nodes := bulk_upsert sub_node_key (fst (fo_sub_nodes ops)) (db_sub_nodes db)\<rparr>),
     (\<lambda>db. db\<lparr>db_dynamic := bulk_upsert nd_hash (fst (fo_dynamic ops)) (db_dynamic db)\<rparr>),
     (\<lambda>db. db\<lparr>db_latency := bulk_upsert latency_key (fst (fo_latency ops)) (db_latency db)\<rparr>),
     (\<lambda>db. db\<lparr>db_leases := bulk_upsert lease_key (fst (fo_leases ops)) (db_leases db)\<rparr>),
     (\<lambda>db. db\<lparr>db_leases := bulk_delete (snd (fo_leases ops)) (db_leases db)\<rparr>),
     (\<lambda>db. db\<lparr>db_latency := bulk_delete (snd (fo_latency ops)) (db_latency db)\<rparr>),
     (\<lambda>db. db\<lparr>db_dynamic := bulk_delete (snd (fo_dynamic ops)) (db_dynamic db)\<rparr>),
     (\<lambda>db. db\<lparr>db_sub_nodes := bulk_delete (snd (fo_sub_nodes ops)) (db_sub_nodes db)\<rparr>),
     (\<lambda>db. db\<lparr>db_static := bulk_delete (snd (fo_static ops)) (db_static db)\<rparr>)]"

text \<open>\<open>failed\<close> is the error of a statement or of the commit; the transaction is then rolled back.\<close>

definition flush_tx :: "string option \<Rightarrow> flush_ops \<Rightarrow> cache_db \<Rightarrow> string option \<times> cache_db" where
  "flush_tx failed ops db = (case failed of
     Some err \<Rightarrow> (Some err, db) | None \<Rightarrow> (None, fold (\<lambda>f. f) (flush_steps ops) db))"

section \<open>The state engine\<close>

record state_engine =
  dirty_static :: "string dirty_set"
  dirty_dynamic :: "string dirty_set"
  dirty_latency :: "pair_key dirty_set"
  dirty_leases :: "pair_key dirty_set"
  dirty_sub_nodes :: "pair_key dirty_set"
  se_cache :: cache_db

datatype weak_mark =
    Mark_Static string | Mark_Static_Delete string
  | Mark_Dynamic string | Mark_Dynamic_Delete string
  | Mark_Latency string string | Mark_Latency_Delete string string
  | Mark_Lease string string | Mark_Lease_Delete string string
  | Mark_Sub_Node string string | Mark_Sub_Node_Delete string string

fun apply_mark :: "weak_mark \<Rightarrow> state_engine \<Rightarrow> state_engine" where
  "apply_mark (Mark_Static h) e = e\<lparr>dirty_static := mark_upsert h (dirty_static e)\<rparr>"
| "apply_mark (Mark_Static_Delete h) e = e\<lparr>dirty_static := mark_delete h (dirty_static e)\<rparr>"
| "apply_mark (Mark_Dynamic h) e = e\<lparr>dirty_dynamic := mark_upsert h (dirty_dynamic e)\<rparr>"
| "apply_mark (Mark_Dynamic_Delete h) e = e\<lparr>dirty_dynamic := mark_delete h (dirty_dynamic e)\<rparr>"
| "apply_mark (Mark_Latency h d) e = e\<lparr>dirty_latency := mark_upsert (h, d) (dirty_latency e)\<rparr>"
| "apply_mark (Mark_Latency_Delete h d) e = e\<lparr>dirty_latency := mark_delete (h, d) (dirty_latency e)\<rparr>"
| "apply_mark (Mark_Lease p a) e = e\<lparr>dirty_leases := mark_upsert (p, a) (dirty_leases e)\<rparr>"
| "apply_mark (Mark_Lease_Delete p a) e = e\<lparr>dirty_leases := mark_delete (p, a) (dirty_leases e)\<rparr>"
| "apply_mark (Mark_Sub_Node s h) e = e\<lparr>dirty_sub_nodes := mark_upsert (s, h) (dirty_sub_nodes e)\<rparr>"
| "apply_mark (Mark_Sub_Node_Delete s h) e = e\<lparr>dirty_sub_nodes := mark_delete (s, h) (dirty_sub_nodes e)\<rparr>"

definition dirty_count :: "state_engine \<Rightarrow> nat" where
  "dirty_count e = dirty_len (dirty_static e) + dirty_len (dirty_dynamic e) + dirty_len (dirty_latency e)
     + dirty_len (dirty_leases e) + dirty_len (dirty_sub_nodes e)"

record cache_readers =
  rd_static :: "string \<Rightarrow> node_static option"
  rd_dynamic :: "string \<Rightarrow> node_dynamic option"
  rd_latency :: "pair_key \<Rightarrow> node_latency option"
  rd_lease :: "pair_key \<Rightarrow> model_lease option"
  rd_sub_node :: "pair_key \<Rightarrow> subscription_node option"

definition flush_dirty_sets :: "cache_readers \<Rightarrow> string option \<Rightarrow> state_engine \<Rightarrow> string option \<times> state_engine" where
  "flush_dirty_sets rd failed e =
     (let (d_static, static') = drain (dirty_static e);
          (d_sub, sub') = drain (dirty_sub_nodes e);
          (d_dynamic, dynamic') = drain (dirty_dynamic e);
          (d_latency, latency') = drain (dirty_latency e);
          (d_leases, leases') = drain (dirty_leases e);
          ops = \<lparr>fo_static = classify_dirty_set d_static (rd_static rd),
                 fo_sub_nodes = classify_dirty_set d_sub (rd_sub_node rd),
                 fo_dynamic = classify_dirty_set d_dynamic (rd_dynamic rd),
                 fo_latency = classify_dirty_set d_latency (rd_latency rd),
                 fo_leases = classify_dirty_set d_leases (rd_lease rd)\<rparr>;
          (err, db) = flush_tx failed ops (se_cache e)
      in case err of
           None \<Rightarrow> (None, \<lparr>dirty_static = static', dirty_dynamic = dynamic', dirty_latency = latency',
             dirty_leases = leases', dirty_sub_nodes = sub', se_cache = db\<rparr>)
         | Some x \<Rightarrow> (Some (''flush: '' @ x), \<lparr>dirty_static = merge_dirty d_static static',
             dirty_dynamic = merge_dirty d_dynamic dynamic', dirty_latency = merge_dirty d_latency latency',
             dirty_leases = merge_dirty d_leases leases', dirty_sub_nodes = merge_dirty d_sub sub',
             se_cache = db\<rparr>))"

text \<open>The readers over the running system; the egress address of a node without one is written as empty.\<close>

definition read_node :: "world \<Rightarrow> string \<Rightarrow> node_entry option" where
  "read_node w hex = (case parse_hex hex of Inl _ \<Rightarrow> None | Inr h \<Rightarrow> get_entry (wd_pool w) h)"

text \<open>
  Reading a latency also touches the access time in the node's table, which no row contains; the
  clock reading \<open>now\<close> of that touch does not show in the row either.
\<close>

definition flush_readers :: "external \<Rightarrow> int \<Rightarrow> world \<Rightarrow> sub_store \<Rightarrow> cache_readers" where
  "flush_readers X now w subs = \<lparr>
     rd_static = (\<lambda>hash. map_option (\<lambda>e. \<lparr>ns_hash = hash, ns_raw_options = raw_options e,
       ns_created_at_ns = created_at e\<rparr>) (read_node w hash)),
     rd_dynamic = (\<lambda>hash. map_option (\<lambda>e. \<lparr>nd_hash = hash, nd_failure_count = failure_count e,
       nd_circuit_open_since = circuit_open_since e,
       nd_egress_ip = (if addr_valid (get_egress_ip e) then addr_string X (get_egress_ip e) else []),
       nd_egress_region = get_egress_region e, nd_egress_updated_at_ns = last_egress_update e,
       nd_latency_probe_attempt_ns = last_latency_probe_attempt e,
       nd_authority_probe_attempt_ns = last_authority_latency_probe_attempt e,
       nd_egress_update_attempt_ns = last_egress_update_attempt e\<rparr>) (read_node w hash)),
     rd_latency = (\<lambda>key. case read_node w (fst key) of
         None \<Rightarrow> None
       | Some e \<Rightarrow> (case latency_tab e of
           None \<Rightarrow> None
         | Some t \<Rightarrow> map_option (\<lambda>s. \<lparr>nl_node_hash = fst key, nl_domain = snd key, nl_ewma_ns = ewma s,
             nl_last_updated_ns = last_updated s\<rparr>) (snd (get_domain_stats X (snd key) now t)))),
     rd_lease = (\<lambda>key. read_lease X (fst key) (snd key) w),
     rd_sub_node = (\<lambda>key. case parse_hex (snd key) of
         Inl _ \<Rightarrow> None
       | Inr h \<Rightarrow> (case m_load subs (fst key) of
           None \<Rightarrow> None
         | Some sub \<Rightarrow> map_option (\<lambda>m. \<lparr>sn_subscription_id = fst key, sn_node_hash = snd key,
             sn_tags = tags m, sn_evicted = evicted m\<rparr>) (load_node (managed sub) h)))\<rparr>"

section \<open>What one flush writes\<close>

lemma merge_dirty_load:
  assumes "m_ok old_map"
  shows "m_load (merge_dirty old_map d) k = (case m_load d k of Some op \<Rightarrow> Some op | None \<Rightarrow> m_load old_map k)"
  using assms
proof (induction old_map arbitrary: d)
  case Nil
  then show ?case by (simp add: merge_dirty_def split: option.split)
next
  case (Cons kv old_map)
  obtain k' op where kv: "kv = (k', op)" by (rule prod.exhaust)
  from Cons.prems have "m_ok old_map" "m_load old_map k' = None"
    by (auto simp: kv m_ok_def map_of_eq_None_iff)
  moreover have "merge_dirty (kv # old_map) d
      = merge_dirty old_map (if m_load d k' = None then m_store k' op d else d)"
    by (simp add: merge_dirty_def kv)
  ultimately show ?case
    using Cons.IH by (auto simp: kv store_simps split: option.split)
qed

lemma merge_dirty_ok: "m_ok d \<Longrightarrow> m_ok (merge_dirty old_map d)"
  unfolding merge_dirty_def by (induction old_map arbitrary: d) (auto simp: case_prod_beta)

lemma merge_dirty_new: "m_ok d \<Longrightarrow> m_load (merge_dirty d new_dirty_set) = m_load d"
  by (rule ext) (simp add: merge_dirty_load new_dirty_set_def)

lemma bulk_delete_load: "m_load (bulk_delete ks tbl) k = (if k \<in> set ks then None else m_load tbl k)"
  by (simp add: bulk_delete_def am.get_fold_del)

lemma bulk_upsert_Cons: "bulk_upsert kf (v # rows) tbl = bulk_upsert kf rows (m_store (kf v) v tbl)"
  by (simp add: bulk_upsert_def)

lemma bulk_upsert_other:
  "k \<notin> kf ` set rows \<Longrightarrow> m_load (bulk_upsert kf rows tbl) k = m_load tbl k"
proof (induction rows arbitrary: tbl)
  case (Cons v rows)
  then show ?case by (simp add: bulk_upsert_Cons store_simps)
qed (simp add: bulk_upsert_def)

lemma bulk_upsert_row:
  "distinct (map kf rows) \<Longrightarrow> v \<in> set rows \<Longrightarrow> m_load (bulk_upsert kf rows tbl) (kf v) = Some v"
proof (induction rows arbitrary: tbl)
  case (Cons w rows)
  then show ?case
    by (cases "v = w") (auto simp: bulk_upsert_Cons bulk_upsert_other store_simps)
qed simp

text \<open>A reader answers with the row of the key it was asked for.\<close>

locale keyed_reader =
  fixes kf :: "'v \<Rightarrow> 'k" and reader :: "'k \<Rightarrow> 'v option"
  assumes keyed: "reader k = Some v \<Longrightarrow> kf v = k"
begin

definition due :: "'k dirty_set \<Rightarrow> 'k \<Rightarrow> 'v option option" where
  "due d k = map_option (\<lambda>op. case op of Op_Delete \<Rightarrow> None | Op_Upsert \<Rightarrow> reader k) (m_load d k)"

lemma due_keyed: "due d k = Some (Some v) \<Longrightarrow> kf v = k"
  using keyed by (cases "the (m_load d k)") (auto simp: due_def)

lemma classify_spec:
  assumes "m_ok d" "classify_dirty_set d reader = (ups, dels)"
  shows "distinct (map kf ups)" "set dels = {k. due d k = Some None}"
    "set ups = {v. due d (kf v) = Some (Some v)}"
proof -
  have "distinct (map kf ups) \<and> set dels = {k. due d k = Some None} \<and> set ups = {v. due d (kf v) = Some (Some v)}"
    using assms
  proof (induction d arbitrary: ups dels)
    case Nil
    then show ?case by (simp add: due_def)
  next
    case (Cons kv d)
    obtain k op where kv: "kv = (k, op)" by (rule prod.exhaust)
    obtain ups' dels' where c: "classify_dirty_set d reader = (ups', dels')" by (rule prod.exhaust)
    from Cons.prems(1) have ok: "m_ok d" and new: "m_load d k = None"
      by (auto simp: kv m_ok_def map_of_eq_None_iff)
    note IH = Cons.IH [OF ok c]
    have due': "due (kv # d) k' = (if k' = k then Some (case op of Op_Delete \<Rightarrow> None | Op_Upsert \<Rightarrow> reader k)
        else due d k')" for k'
      by (cases op) (auto simp: due_def kv)
    have nk: "due d k = None" by (simp add: due_def new)
    show ?case
    proof (cases "case op of Op_Delete \<Rightarrow> None | Op_Upsert \<Rightarrow> reader k")
      case None
      then have "ups = ups'" "dels = k # dels'"
        using Cons.prems(2) by (auto simp: kv c split: dirty_op.splits option.splits)
      with IH None nk show ?thesis by (auto simp: due')
    next
      case (Some v)
      then have r: "reader k = Some v" "kf v = k" "op = Op_Upsert"
        using keyed by (auto split: dirty_op.splits)
      then have "ups = v # ups'" "dels = dels'"
        using Cons.prems(2) by (auto simp: kv c)
      moreover have "kf v \<notin> kf ` set ups'" using IH r nk by auto
      ultimately show ?thesis using IH Some r nk by (auto simp: due')
    qed
  qed
  then show "distinct (map kf ups)" "set dels = {k. due d k = Some None}"
    "set ups = {v. due d (kf v) = Some (Some v)}" by blast+
qed

lemma flushed_load:
  assumes "m_ok d" "classify_dirty_set d reader = (ups, dels)"
  shows "m_load (bulk_delete dels (bulk_upsert kf ups tbl)) k
     = (case due d k of Some w \<Rightarrow> w | None \<Rightarrow> m_load tbl k)"
proof -
  note s = classify_spec [OF assms]
  show ?thesis
  proof (cases "due d k")
    case None
    with s have "k \<notin> set dels" "k \<notin> kf ` set ups" by auto
    with None show ?thesis by (simp add: bulk_delete_load bulk_upsert_other)
  next
    case (Some w)
    show ?thesis
    proof (cases w)
      case None
      with Some s show ?thesis by (simp add: bulk_delete_load)
    next
      case (Some v)
      then have "kf v = k" using \<open>due d k = Some w\<close> due_keyed by simp
      with Some \<open>due d k = Some w\<close> s have "v \<in> set ups" "k \<notin> set dels" by auto
      with bulk_upsert_row [OF s(1), of v tbl] \<open>kf v = k\<close> Some \<open>due d k = Some w\<close>
      show ?thesis by (simp add: bulk_delete_load)
    qed
  qed
qed

end

text \<open>
  Marks that cover a table: an unmarked key has its current value in the table, and a key marked
  for deletion has none. A flush of such a table writes exactly the current values.
\<close>

definition covered :: "'k dirty_set \<Rightarrow> ('k \<Rightarrow> 'v option) \<Rightarrow> ('k, 'v) amap \<Rightarrow> bool" where
  "covered d reader tbl \<longleftrightarrow> m_ok d
     \<and> (\<forall>k. m_load d k = None \<longrightarrow> m_load tbl k = reader k) \<and> (\<forall>k. m_load d k = Some Op_Delete \<longrightarrow> reader k = None)"

context keyed_reader
begin

lemma covered_flush:
  assumes "covered d reader tbl" "classify_dirty_set d reader = (ups, dels)"
  shows "m_load (bulk_delete dels (bulk_upsert kf ups tbl)) = reader"
proof
  fix k
  have "m_ok d" using assms(1) by (simp add: covered_def)
  from flushed_load [OF this assms(2), of tbl k] show "m_load (bulk_delete dels (bulk_upsert kf ups tbl)) k = reader k"
  proof (cases "m_load d k")
    case (Some op)
    with assms(1) flushed_load [OF \<open>m_ok d\<close> assms(2), of tbl k] show ?thesis
      by (cases op) (auto simp: covered_def due_def)
  qed (use assms(1) in \<open>simp add: covered_def due_def\<close>)
qed

end

text \<open>The five readers of the running system.\<close>

interpretation static_rows: keyed_reader ns_hash "rd_static (flush_readers X now w subs)" for X now w subs
  by unfold_locales (auto simp: flush_readers_def)

interpretation dynamic_rows: keyed_reader nd_hash "rd_dynamic (flush_readers X now w subs)" for X now w subs
  by unfold_locales (auto simp: flush_readers_def)

interpretation latency_rows: keyed_reader latency_key "rd_latency (flush_readers X now w subs)" for X now w subs
  by unfold_locales (auto simp: flush_readers_def latency_key_def split: option.splits)

interpretation lease_rows: keyed_reader lease_key "rd_lease (flush_readers X now w subs)" for X now w subs
  by unfold_locales (auto simp: flush_readers_def lease_key_def read_lease_def split: option.splits)

interpretation sub_node_rows: keyed_reader sub_node_key "rd_sub_node (flush_readers X now w subs)" for X now w subs
  by unfold_locales (auto simp: flush_readers_def sub_node_key_def split: option.splits sum.splits)

lemma covered_merge:
  "covered d reader tbl \<Longrightarrow> covered (merge_dirty d new_dirty_set) reader tbl"
  using merge_dirty_new [of d] merge_dirty_ok [of new_dirty_set d]
  by (simp add: covered_def new_dirty_set_def)

definition engine_covered :: "cache_readers \<Rightarrow> state_engine \<Rightarrow> bool" where
  "engine_covered rd e \<longleftrightarrow> covered (dirty_static e) (rd_static rd) (db_static (se_cache e))
     \<and> covered (dirty_dynamic e) (rd_dynamic rd) (db_dynamic (se_cache e))
     \<and> covered (dirty_latency e) (rd_latency rd) (db_latency (se_cache e))
     \<and> covered (dirty_leases e) (rd_lease rd) (db_leases (se_cache e))
     \<and> covered (dirty_sub_nodes e) (rd_sub_node rd) (db_sub_nodes (se_cache e))"

section \<open>A flush while the memory changes\<close>

text \<open>
  One table of the engine with the phases of a flush as separate steps: marks are taken, each key
  is read at a moment of its own, and the transaction comes last and may fail. Writes to the memory
  with their marks may come at any point in between.
\<close>

record ('k, 'v) weak_table =
  wt_mem :: "'k \<Rightarrow> 'v option"
  wt_marks :: "'k dirty_set"
  wt_taken :: "'k dirty_set option"
  wt_left :: "'k dirty_set"
  wt_ups :: "'v list"
  wt_dels :: "'k list"
  wt_rows :: "('k, 'v) amap"

datatype ('k, 'v) weak_op = Weak_Write 'k "'v option" | Weak_Take | Weak_Read | Weak_Finish bool

fun weak_step :: "('v \<Rightarrow> 'k) \<Rightarrow> ('k, 'v) weak_op \<Rightarrow> ('k, 'v) weak_table \<Rightarrow> ('k, 'v) weak_table" where
  "weak_step kf (Weak_Write k w) t = t\<lparr>wt_mem := (wt_mem t)(k := w),
     wt_marks := (case w of None \<Rightarrow> mark_delete k (wt_marks t) | Some _ \<Rightarrow> mark_upsert k (wt_marks t))\<rparr>"
| "weak_step kf Weak_Take t = (case wt_taken t of
     Some _ \<Rightarrow> t
   | None \<Rightarrow> let (d, d') = drain (wt_marks t)
             in t\<lparr>wt_marks := d', wt_taken := Some d, wt_left := d, wt_ups := [], wt_dels := []\<rparr>)"
| "weak_step kf Weak_Read t = (case wt_left t of
     [] \<Rightarrow> t
   | kv # rest \<Rightarrow> let (ups, dels) = classify_dirty_set [kv] (wt_mem t)
                   in t\<lparr>wt_left := rest, wt_ups := wt_ups t @ ups, wt_dels := wt_dels t @ dels\<rparr>)"
| "weak_step kf (Weak_Finish failed) t = (case wt_taken t of
     None \<Rightarrow> t
   | Some d \<Rightarrow>
       if wt_left t \<noteq> [] then t
       else if failed then t\<lparr>wt_taken := None, wt_marks := merge_dirty d (wt_marks t)\<rparr>
       else t\<lparr>wt_taken := None, wt_rows := bulk_delete (wt_dels t) (bulk_upsert kf (wt_ups t) (wt_rows t))\<rparr>)"

fun weak_op_ok :: "('v \<Rightarrow> 'k) \<Rightarrow> ('k, 'v) weak_op \<Rightarrow> bool" where
  "weak_op_ok kf (Weak_Write k w) \<longleftrightarrow> (case w of None \<Rightarrow> True | Some v \<Rightarrow> kf v = k)"
| "weak_op_ok kf _ \<longleftrightarrow> True"

text \<open>What the phases of a flush know: \<open>settled\<close> is about a key that was not marked again since.\<close>

definition settled :: "('v \<Rightarrow> 'k) \<Rightarrow> 'k dirty_set \<Rightarrow> ('k, 'v) weak_table \<Rightarrow> 'k \<Rightarrow> bool" where
  "settled kf d t k \<longleftrightarrow>
     (case m_load d k of
        None \<Rightarrow> m_load (wt_rows t) k = wt_mem t k
      | Some op \<Rightarrow> (op = Op_Delete \<longrightarrow> wt_mem t k = None)
          \<and> (m_load (wt_left t) k = None \<longrightarrow> (case wt_mem t k of
               None \<Rightarrow> k \<in> set (wt_dels t) | Some v \<Rightarrow> v \<in> set (wt_ups t) \<and> k \<notin> set (wt_dels t))))"

definition flush_phase :: "('v \<Rightarrow> 'k) \<Rightarrow> 'k dirty_set \<Rightarrow> ('k, 'v) weak_table \<Rightarrow> bool" where
  "flush_phase kf d t \<longleftrightarrow> m_ok d \<and> m_ok (wt_left t) \<and> distinct (map kf (wt_ups t))
     \<and> (\<forall>k. m_load (wt_left t) k \<noteq> None \<longrightarrow> m_load d k = m_load (wt_left t) k)
     \<and> (\<forall>k \<in> set (wt_dels t) \<union> kf ` set (wt_ups t). m_load d k \<noteq> None \<and> m_load (wt_left t) k = None)
     \<and> (\<forall>k. m_load (wt_marks t) k = None \<longrightarrow> settled kf d t k)"

lemma flush_phase_staged:
  assumes "flush_phase kf d t" "j \<in> set (wt_dels t) \<union> kf ` set (wt_ups t)"
  shows "m_load d j \<noteq> None \<and> m_load (wt_left t) j = None"
proof -
  have "\<forall>k \<in> set (wt_dels t) \<union> kf ` set (wt_ups t). m_load d k \<noteq> None \<and> m_load (wt_left t) k = None"
    using assms(1) unfolding flush_phase_def by (elim conjE)
  then show ?thesis using assms(2) by (rule bspec)
qed

definition weak_inv :: "('v \<Rightarrow> 'k) \<Rightarrow> ('k, 'v) weak_table \<Rightarrow> bool" where
  "weak_inv kf t \<longleftrightarrow> m_ok (wt_marks t) \<and> (\<forall>k v. wt_mem t k = Some v \<longrightarrow> kf v = k)
     \<and> (\<forall>k. m_load (wt_marks t) k = Some Op_Delete \<longrightarrow> wt_mem t k = None)
     \<and> (case wt_taken t of
          None \<Rightarrow> (\<forall>k. m_load (wt_marks t) k = None \<longrightarrow> m_load (wt_rows t) k = wt_mem t k)
        | Some d \<Rightarrow> flush_phase kf d t)"

lemma weak_write_inv:
  assumes "weak_inv kf t" "weak_op_ok kf (Weak_Write k w)"
  shows "weak_inv kf (weak_step kf (Weak_Write k w) t)"
proof -
  define T where "T = weak_step kf (Weak_Write k w) t"
  have marks: "m_load (wt_marks T) j = (if j = k then Some (if w = None then Op_Delete else Op_Upsert)
      else m_load (wt_marks t) j)" for j
    by (auto simp: T_def mark_delete_def mark_upsert_def store_simps split: option.split)
  have rest: "wt_mem T = (wt_mem t)(k := w)" "wt_taken T = wt_taken t" "wt_left T = wt_left t"
    "wt_ups T = wt_ups t" "wt_dels T = wt_dels t" "wt_rows T = wt_rows t" by (simp_all add: T_def)
  have set': "settled kf d t j \<Longrightarrow> j \<noteq> k \<Longrightarrow> settled kf d T j" for d j
    unfolding settled_def rest by (simp cong: option.case_cong)
  have ok: "m_ok (wt_marks T)"
    using assms(1) by (auto simp: T_def weak_inv_def mark_delete_def mark_upsert_def split: option.split)
  have "weak_inv kf T"
  proof (cases "wt_taken t")
    case None
    with assms ok marks show ?thesis
      unfolding weak_inv_def rest by (auto split: if_splits option.splits)
  next
    case (Some d)
    have "flush_phase kf d T"
      using assms(1) Some set' unfolding weak_inv_def flush_phase_def rest marks by simp
    with assms Some ok marks show ?thesis
      unfolding weak_inv_def rest by (auto split: if_splits option.splits)
  qed
  then show ?thesis by (simp only: T_def)
qed

lemma weak_take_inv:
  assumes "weak_inv kf t"
  shows "weak_inv kf (weak_step kf Weak_Take t)"
proof (cases "wt_taken t")
  case None
  let ?t = "weak_step kf Weak_Take t"
  have rest: "wt_mem ?t = wt_mem t" "wt_taken ?t = Some (wt_marks t)" "wt_left ?t = wt_marks t" "wt_ups ?t = []"
    "wt_dels ?t = []" "wt_rows ?t = wt_rows t" "wt_marks ?t = []"
    using None by (simp_all add: drain_def new_dirty_set_def)
  have "settled kf (wt_marks t) ?t k" for k
    using assms None unfolding weak_inv_def settled_def rest
    by (cases "m_load (wt_marks t) k") auto
  with assms show ?thesis
    unfolding weak_inv_def flush_phase_def rest by simp
next
  case (Some d)
  with assms show ?thesis by simp
qed

lemma weak_read_inv:
  assumes "weak_inv kf t"
  shows "weak_inv kf (weak_step kf Weak_Read t)"
proof (cases "wt_left t")
  case Nil
  with assms show ?thesis by simp
next
  case (Cons kv rest)
  obtain k op where kv: "kv = (k, op)" by (rule prod.exhaust)
  define T where "T = weak_step kf Weak_Read t"
  define r where "r = (case op of Op_Delete \<Rightarrow> None | Op_Upsert \<Rightarrow> wt_mem t k)"
  have new: "wt_mem T = wt_mem t" "wt_taken T = wt_taken t" "wt_left T = rest"
    "wt_ups T = wt_ups t @ (case r of None \<Rightarrow> [] | Some v \<Rightarrow> [v])"
    "wt_dels T = wt_dels t @ (case r of None \<Rightarrow> [k] | Some _ \<Rightarrow> [])"
    "wt_rows T = wt_rows t" "wt_marks T = wt_marks t"
    by (cases op; simp add: T_def Cons kv r_def Let_def split: option.split)+
  have "weak_inv kf T"
  proof (cases "wt_taken t")
    case None
    with assms show ?thesis unfolding weak_inv_def new by simp
  next
    case (Some d)
    have ph: "flush_phase kf d t" and mem: "\<And>k v. wt_mem t k = Some v \<Longrightarrow> kf v = k"
      using assms Some by (simp_all add: weak_inv_def)
    have left: "m_ok rest" "m_load rest k = None" "m_load (wt_left t) j = (if j = k then Some op else m_load rest j)" for j
      using ph by (auto simp: flush_phase_def Cons kv m_ok_def map_of_eq_None_iff)
    have dk: "m_load d k = Some op" and fresh: "k \<notin> set (wt_dels t) \<union> kf ` set (wt_ups t)"
      using ph left(3) [of k] by (auto simp: flush_phase_def)
    have rk: "r = Some v \<Longrightarrow> kf v = k" for v using mem by (cases op) (auto simp: r_def)
    have "distinct (map kf (wt_ups T))"
      using ph fresh rk unfolding new by (auto simp: flush_phase_def split: option.split)
    moreover have "\<forall>j. m_load rest j \<noteq> None \<longrightarrow> m_load d j = m_load rest j"
      using ph left by (auto simp: flush_phase_def split: if_splits)
    moreover have "\<forall>j \<in> set (wt_dels T) \<union> kf ` set (wt_ups T). m_load d j \<noteq> None \<and> m_load rest j = None"
    proof
      fix j assume "j \<in> set (wt_dels T) \<union> kf ` set (wt_ups T)"
      then have "j \<in> set (wt_dels t) \<union> kf ` set (wt_ups t) \<or> j = k"
        using rk unfolding new by (auto split: option.splits)
      moreover have "m_load d j \<noteq> None \<and> m_load (wt_left t) j = None"
        if "j \<in> set (wt_dels t) \<union> kf ` set (wt_ups t)"
        by (rule flush_phase_staged [OF ph that])
      ultimately show "m_load d j \<noteq> None \<and> m_load rest j = None"
        using dk left(2) left(3) [of j] by (auto split: if_splits)
    qed
    moreover have "settled kf d T j" if "m_load (wt_marks t) j = None" for j
    proof (cases "j = k")
      case True
      have "settled kf d t k" using ph that True by (simp add: flush_phase_def)
      with dk have "op = Op_Delete \<Longrightarrow> wt_mem t k = None" by (simp add: settled_def)
      then have "r = wt_mem t k" by (cases op) (simp_all add: r_def)
      with True dk fresh \<open>op = Op_Delete \<Longrightarrow> wt_mem t k = None\<close> show ?thesis
        unfolding settled_def new by (auto split: option.split)
    next
      case False
      have "settled kf d t j" using ph that by (simp add: flush_phase_def)
      with False left(3) [of j] show ?thesis
        unfolding settled_def new by (auto split: option.splits)
    qed
    ultimately have "flush_phase kf d T"
      using ph left(1) unfolding flush_phase_def new by simp
    with assms Some show ?thesis unfolding weak_inv_def new by simp
  qed
  then show ?thesis by (simp only: T_def)
qed

lemma weak_finish_inv:
  assumes "weak_inv kf t"
  shows "weak_inv kf (weak_step kf (Weak_Finish failed) t)"
proof (cases "wt_taken t")
  case None
  with assms show ?thesis by simp
next
  case (Some d)
  have inv: "m_ok (wt_marks t)" "\<And>k v. wt_mem t k = Some v \<Longrightarrow> kf v = k"
    "\<And>k. m_load (wt_marks t) k = Some Op_Delete \<Longrightarrow> wt_mem t k = None" "flush_phase kf d t"
    using assms Some by (simp_all add: weak_inv_def)
  have set': "settled kf d t k" if "m_load (wt_marks t) k = None" for k
    using inv(4) that by (simp add: flush_phase_def)
  show ?thesis
  proof (cases "wt_left t = []")
    case False
    with Some assms show ?thesis by simp
  next
    case True
    show ?thesis
    proof (cases failed)
      case True
      let ?m = "merge_dirty d (wt_marks t)"
      have m: "m_load ?m k = (case m_load (wt_marks t) k of Some op \<Rightarrow> Some op | None \<Rightarrow> m_load d k)" for k
        using inv(4) by (simp add: merge_dirty_load flush_phase_def)
      have "wt_mem t k = None" if "m_load ?m k = Some Op_Delete" for k
        using that inv(3) set' [of k] unfolding m by (auto simp: settled_def split: option.splits)
      moreover have "m_load (wt_rows t) k = wt_mem t k" if "m_load ?m k = None" for k
        using that set' [of k] unfolding m by (auto simp: settled_def split: option.splits)
      moreover have "m_ok ?m" by (rule merge_dirty_ok [OF inv(1)])
      ultimately show ?thesis
        using Some True \<open>wt_left t = []\<close> inv(2) by (simp add: weak_inv_def)
    next
      case False
      let ?rows = "bulk_delete (wt_dels t) (bulk_upsert kf (wt_ups t) (wt_rows t))"
      have "m_load ?rows k = wt_mem t k" if "m_load (wt_marks t) k = None" for k
      proof (cases "m_load d k")
        case None
        then have "k \<notin> set (wt_dels t)" "k \<notin> kf ` set (wt_ups t)"
          using flush_phase_staged [OF inv(4)] by blast+
        with None set' [OF that] show ?thesis
          by (simp add: bulk_delete_load bulk_upsert_other settled_def)
      next
        case (Some op)
        show ?thesis
        proof (cases "wt_mem t k")
          case None
          with Some set' [OF that] \<open>wt_left t = []\<close> show ?thesis
            by (simp add: bulk_delete_load settled_def)
        next
          case (Some v)
          with \<open>m_load d k = Some op\<close> set' [OF that] \<open>wt_left t = []\<close>
          have "v \<in> set (wt_ups t)" "k \<notin> set (wt_dels t)" by (simp_all add: settled_def)
          moreover have "distinct (map kf (wt_ups t))" using inv(4) by (simp add: flush_phase_def)
          ultimately show ?thesis
            using bulk_upsert_row [of kf "wt_ups t" v "wt_rows t"] inv(2) [OF Some] Some
            by (simp add: bulk_delete_load)
        qed
      qed
      with False Some \<open>wt_left t = []\<close> inv(1-3) show ?thesis by (simp add: weak_inv_def)
    qed
  qed
qed

interpretation wt: invariant_machine "weak_step kf" "weak_op_ok kf" "weak_inv kf" for kf :: "'v \<Rightarrow> 'k"
proof
  fix t :: "('k, 'v) weak_table" and op
  assume inv: "weak_inv kf t" and ok: "weak_op_ok kf op"
  show "weak_inv kf (weak_step kf op t)"
  proof (cases op)
    case (Weak_Write k w)
    show ?thesis unfolding Weak_Write by (rule weak_write_inv [OF inv]) (use ok Weak_Write in simp)
  next
    case Weak_Take
    show ?thesis unfolding Weak_Take by (rule weak_take_inv [OF inv])
  next
    case Weak_Read
    show ?thesis unfolding Weak_Read by (rule weak_read_inv [OF inv])
  next
    case (Weak_Finish failed)
    show ?thesis unfolding Weak_Finish by (rule weak_finish_inv [OF inv])
  qed
qed

section \<open>The flush worker\<close>

text \<open>
  \<open>flush.go\<close>: the worker's loop as one reaction to each signal it receives, a tick with the current
  threshold and interval or the stop signal; the flush of a reaction may fail. After the stop
  signal the loop has returned.
\<close>

record flush_worker =
  fw_engine :: state_engine
  fw_last_flush :: int
  fw_running :: bool

datatype worker_signal =
    Tick int int "string option"
  | Stop_Signal "string option"

definition new_flush_worker :: "state_engine \<Rightarrow> env \<Rightarrow> flush_worker \<times> env" where
  "new_flush_worker e ev = (let (now, ev') = time_now ev
     in (\<lparr>fw_engine = e, fw_last_flush = now, fw_running = True\<rparr>, ev'))"

definition do_flush :: "cache_readers \<Rightarrow> string option \<Rightarrow> flush_worker \<Rightarrow> flush_worker" where
  "do_flush rd failed fw = fw\<lparr>fw_engine := snd (flush_dirty_sets rd failed (fw_engine fw))\<rparr>"

fun worker_step :: "cache_readers \<Rightarrow> worker_signal \<Rightarrow> flush_worker \<times> env \<Rightarrow> flush_worker \<times> env" where
  "worker_step rd (Stop_Signal failed) (fw, ev) =
     (if \<not> fw_running fw then (fw, ev) else ((do_flush rd failed fw)\<lparr>fw_running := False\<rparr>, ev))"
| "worker_step rd (Tick threshold interval failed) (fw, ev) =
     (if \<not> fw_running fw then (fw, ev)
      else let dirty = int (dirty_count (fw_engine fw)) in
        if dirty = 0 then (fw, ev)
        else if dirty \<ge> threshold then
          let (now, ev') = time_now ev in ((do_flush rd failed fw)\<lparr>fw_last_flush := now\<rparr>, ev')
        else let (now, ev') = time_now ev in
          if i64 (now - fw_last_flush fw) \<ge> interval then
            let (now', ev'') = time_now ev' in ((do_flush rd failed fw)\<lparr>fw_last_flush := now'\<rparr>, ev'')
          else (fw, ev'))"

section \<open>Whole flushes\<close>

lemma flush_tx_tables:
  assumes "flush_tx None ops db = (err, db')"
  shows "err = None"
    "db_static db' = bulk_delete (snd (fo_static ops)) (bulk_upsert ns_hash (fst (fo_static ops)) (db_static db))"
    "db_sub_nodes db' = bulk_delete (snd (fo_sub_nodes ops)) (bulk_upsert sub_node_key (fst (fo_sub_nodes ops)) (db_sub_nodes db))"
    "db_dynamic db' = bulk_delete (snd (fo_dynamic ops)) (bulk_upsert nd_hash (fst (fo_dynamic ops)) (db_dynamic db))"
    "db_latency db' = bulk_delete (snd (fo_latency ops)) (bulk_upsert latency_key (fst (fo_latency ops)) (db_latency db))"
    "db_leases db' = bulk_delete (snd (fo_leases ops)) (bulk_upsert lease_key (fst (fo_leases ops)) (db_leases db))"
  using assms by (auto simp: flush_tx_def flush_steps_def)

text \<open>The cache database holds exactly what the readers give.\<close>

definition in_sync :: "cache_readers \<Rightarrow> cache_db \<Rightarrow> bool" where
  "in_sync rd db \<longleftrightarrow> m_load (db_static db) = rd_static rd \<and> m_load (db_dynamic db) = rd_dynamic rd
     \<and> m_load (db_latency db) = rd_latency rd \<and> m_load (db_leases db) = rd_lease rd
     \<and> m_load (db_sub_nodes db) = rd_sub_node rd"

lemma flush_success:
  fixes X now w subs
  defines "rd \<equiv> flush_readers X now w subs"
  assumes "engine_covered rd e" "flush_dirty_sets rd None e = (err, e')"
  shows "err = None \<and> dirty_count e' = 0 \<and> in_sync rd (se_cache e')"
proof -
  define ops where "ops = \<lparr>fo_static = classify_dirty_set (dirty_static e) (rd_static rd),
    fo_sub_nodes = classify_dirty_set (dirty_sub_nodes e) (rd_sub_node rd),
    fo_dynamic = classify_dirty_set (dirty_dynamic e) (rd_dynamic rd),
    fo_latency = classify_dirty_set (dirty_latency e) (rd_latency rd),
    fo_leases = classify_dirty_set (dirty_leases e) (rd_lease rd)\<rparr>"
  obtain x db where tx: "flush_tx None ops (se_cache e) = (x, db)" by (rule prod.exhaust)
  note tab = flush_tx_tables [OF tx]
  have run: "err = None" "e' = \<lparr>dirty_static = [], dirty_dynamic = [], dirty_latency = [], dirty_leases = [],
      dirty_sub_nodes = [], se_cache = db\<rparr>"
    using assms(3) tx tab(1) by (simp_all add: flush_dirty_sets_def drain_def new_dirty_set_def ops_def [symmetric])
  have cov: "covered (dirty_static e) (rd_static rd) (db_static (se_cache e))"
    "covered (dirty_dynamic e) (rd_dynamic rd) (db_dynamic (se_cache e))"
    "covered (dirty_latency e) (rd_latency rd) (db_latency (se_cache e))"
    "covered (dirty_leases e) (rd_lease rd) (db_leases (se_cache e))"
    "covered (dirty_sub_nodes e) (rd_sub_node rd) (db_sub_nodes (se_cache e))"
    using assms(2) by (simp_all add: engine_covered_def)
  have "in_sync rd db"
    using static_rows.covered_flush [OF cov(1) [unfolded rd_def] prod.collapse [symmetric]]
      dynamic_rows.covered_flush [OF cov(2) [unfolded rd_def] prod.collapse [symmetric]]
      latency_rows.covered_flush [OF cov(3) [unfolded rd_def] prod.collapse [symmetric]]
      lease_rows.covered_flush [OF cov(4) [unfolded rd_def] prod.collapse [symmetric]]
      sub_node_rows.covered_flush [OF cov(5) [unfolded rd_def] prod.collapse [symmetric]]
    by (simp add: in_sync_def tab(2-) ops_def rd_def)
  then show ?thesis by (simp add: run dirty_count_def dirty_len_def)
qed

lemma flush_failure:
  assumes "engine_covered rd e" "flush_dirty_sets rd (Some x) e = (err, e')"
  shows "err = Some (''flush: '' @ x) \<and> se_cache e' = se_cache e \<and> engine_covered rd e'"
  using assms
  by (auto simp: flush_dirty_sets_def drain_def flush_tx_def engine_covered_def intro: covered_merge)

text \<open>A flush without interruption is the same as its phases one after the other.\<close>

lemma classify_Cons:
  "classify_dirty_set (kv # d) r = (fst (classify_dirty_set [kv] r) @ fst (classify_dirty_set d r),
     snd (classify_dirty_set [kv] r) @ snd (classify_dirty_set d r))"
proof (cases kv)
  case (Pair k op)
  then show ?thesis by (cases op) (auto split: prod.split option.split)
qed

lemma read_phase:
  "wt_left t = d \<Longrightarrow> fold (weak_step kf) (replicate (length d) Weak_Read) t = t\<lparr>wt_left := [],
     wt_ups := wt_ups t @ fst (classify_dirty_set d (wt_mem t)),
     wt_dels := wt_dels t @ snd (classify_dirty_set d (wt_mem t))\<rparr>"
proof (induction d arbitrary: t)
  case (Cons kv d)
  define T where "T = weak_step kf Weak_Read t"
  have T: "T = t\<lparr>wt_left := d, wt_ups := wt_ups t @ fst (classify_dirty_set [kv] (wt_mem t)),
      wt_dels := wt_dels t @ snd (classify_dirty_set [kv] (wt_mem t))\<rparr>"
    using Cons.prems by (simp add: T_def del: classify_dirty_set.simps split: prod.split)
  then have "wt_left T = d" by simp
  from Cons.IH [OF this] show ?case
    by (simp add: T_def [symmetric] classify_Cons [of kv d] del: classify_dirty_set.simps weak_step.simps)
      (simp add: T del: classify_dirty_set.simps)
qed simp

definition whole_flush :: "nat \<Rightarrow> bool \<Rightarrow> ('k, 'v) weak_op list" where
  "whole_flush n failed = [Weak_Take] @ replicate n Weak_Read @ [Weak_Finish failed]"

lemma whole_flush_result:
  assumes "wt_taken t = None"
  shows "wt_marks (fold (weak_step kf) (whole_flush (length (wt_marks t)) False) t) = []"
    "wt_taken (fold (weak_step kf) (whole_flush (length (wt_marks t)) False) t) = None"
    "wt_mem (fold (weak_step kf) (whole_flush (length (wt_marks t)) False) t) = wt_mem t"
proof -
  define T where "T = weak_step kf Weak_Take t"
  have T: "wt_left T = wt_marks t" "wt_marks T = []" "wt_taken T = Some (wt_marks t)" "wt_mem T = wt_mem t"
    using assms by (simp_all add: T_def drain_def new_dirty_set_def)
  show "wt_marks (fold (weak_step kf) (whole_flush (length (wt_marks t)) False) t) = []"
    "wt_taken (fold (weak_step kf) (whole_flush (length (wt_marks t)) False) t) = None"
    "wt_mem (fold (weak_step kf) (whole_flush (length (wt_marks t)) False) t) = wt_mem t"
    using read_phase [OF T(1), of kf] T
    by (simp_all add: whole_flush_def T_def [symmetric] del: weak_step.simps(2))
qed

section \<open>Properties\<close>



section \<open>Witnesses\<close>


definition lone_lease_world :: world where
  "lone_lease_world = \<lparr>wd_pool = new_global_node_pool, wd_env = \<lparr>draws = [], clock = [5]\<rparr>,
     wd_states = [(''p'', new_platform_routing_state\<lparr>ps_leases := create_lease ''a'' sample_lease new_lease_table\<rparr>)],
     wd_events = []\<rparr>"

definition marked_engine :: state_engine where
  "marked_engine = apply_mark (Mark_Lease ''p'' ''a'') \<lparr>dirty_static = new_dirty_set, dirty_dynamic = new_dirty_set,
     dirty_latency = new_dirty_set, dirty_leases = new_dirty_set, dirty_sub_nodes = new_dirty_set,
     se_cache = \<lparr>db_static = [], db_sub_nodes = [], db_dynamic = [], db_latency = [], db_leases = []\<rparr>\<rparr>"

lemma lone_lease_of: "lease_of lone_lease_world pid a = (if pid = ''p'' \<and> a = ''a'' then Some sample_lease else None)"
  by (auto simp: lease_of_def state_of_def lone_lease_world_def create_lease_map new_lease_table_def
      new_platform_routing_state_def)


end
