(* ===== verification/Persist_Runs.thy ===== *)
theory Persist_Runs
  imports Weak_Persist
begin

text \<open>
  The weak persistence around the running system: the lease listener of \<open>cmd/resin/app_runtime.go\<close>
  that marks keys, flushes between requests, a crash, the repair of \<open>internal/state/consistency.go\<close>
  and the restore at the next start. The lemmas show that the marks always cover the leases, what
  the repair leaves, and which leases a restart brings back.
\<close>

section \<open>The lease listener\<close>

definition on_lease_event :: "lease_event \<Rightarrow> state_engine \<Rightarrow> state_engine" where
  "on_lease_event ev e = (case le_type ev of
     Lease_Create \<Rightarrow> apply_mark (Mark_Lease (le_platform ev) (le_account ev)) e
   | Lease_Touch \<Rightarrow> apply_mark (Mark_Lease (le_platform ev) (le_account ev)) e
   | Lease_Replace \<Rightarrow> apply_mark (Mark_Lease (le_platform ev) (le_account ev)) e
   | Lease_Remove \<Rightarrow> apply_mark (Mark_Lease_Delete (le_platform ev) (le_account ev)) e
   | Lease_Expire \<Rightarrow> apply_mark (Mark_Lease_Delete (le_platform ev) (le_account ev)) e)"

text \<open>The listeners of the pool, which \<open>newTopologyRuntime\<close> wires to the same engine.\<close>

definition mark_node_removed_dirty :: "hash \<Rightarrow> node_entry \<Rightarrow> state_engine \<Rightarrow> state_engine" where
  "mark_node_removed_dirty h entry e =
     (let hex = hash_hex h;
          e1 = apply_mark (Mark_Dynamic_Delete hex) (apply_mark (Mark_Static_Delete hex) e)
      in case latency_tab entry of
           None \<Rightarrow> e1
         | Some t \<Rightarrow> fold (\<lambda>(domain, _). apply_mark (Mark_Latency_Delete hex domain)) (range_entries t) e1)"

fun on_pool_event :: "pool_event \<Rightarrow> state_engine \<Rightarrow> state_engine" where
  "on_pool_event (Node_Added h) e = apply_mark (Mark_Static (hash_hex h)) e"
| "on_pool_event (Node_Removed h entry) e = mark_node_removed_dirty h entry e"
| "on_pool_event (Sub_Node_Changed sub h added) e =
     (if added then apply_mark (Mark_Sub_Node sub (hash_hex h)) e
      else apply_mark (Mark_Sub_Node_Delete sub (hash_hex h)) e)"
| "on_pool_event (Node_Dynamic_Changed h) e = apply_mark (Mark_Dynamic (hash_hex h)) e"
| "on_pool_event (Node_Latency_Changed h domain) e = apply_mark (Mark_Latency (hash_hex h) domain) e"

text \<open>
  The events of a step reach the listeners in their order. \<open>Node_Evicted\<close> is the callback of the
  periodic cleanup and of the cleanup endpoint.
\<close>

datatype persist_op = World_Op world_op | Node_Evicted string hash | Flush int "string option"

fun persist_step ::
  "external \<Rightarrow> pool_config \<Rightarrow> sub_store \<Rightarrow> router_config \<Rightarrow> persist_op \<Rightarrow> world \<times> state_engine
    \<Rightarrow> world \<times> state_engine" where
  "persist_step X pc subs cfg (World_Op op) (w, e) =
     (let w' = world_step X pc subs cfg op w;
          e1 = fold on_pool_event (drop (length (pool_log (wd_pool w))) (pool_log (wd_pool w'))) e
      in (w', fold on_lease_event (drop (length (wd_events w)) (wd_events w')) e1))"
| "persist_step X pc subs cfg (Node_Evicted sub h) (w, e) =
     (w, apply_mark (Mark_Sub_Node sub (hash_hex h)) e)"
| "persist_step X pc subs cfg (Flush now failed) (w, e) =
     (w, snd (flush_dirty_sets (flush_readers X now w subs) failed e))"

fun persist_op_ok :: "persist_op \<Rightarrow> bool" where
  "persist_op_ok (World_Op op) = world_op_ok op"
| "persist_op_ok (Node_Evicted sub h) = True"
| "persist_op_ok (Flush now failed) = True"

definition load_all_leases :: "cache_db \<Rightarrow> model_lease list" where
  "load_all_leases db = map snd (db_leases db)"

section \<open>The repair at start-up\<close>

text \<open>The rows of a table, and the two subqueries of the statements.\<close>

definition rows :: "('k, 'v) amap \<Rightarrow> 'v set" where
  "rows tbl = snd ` set tbl"

definition static_hashes :: "cache_db \<Rightarrow> string set" where
  "static_hashes db = ns_hash ` rows (db_static db)"

definition live_hashes :: "cache_db \<Rightarrow> string set" where
  "live_hashes db = sn_node_hash ` {r \<in> rows (db_sub_nodes db). \<not> sn_evicted r}"

definition delete_where :: "('v \<Rightarrow> bool) \<Rightarrow> ('k, 'v) amap \<Rightarrow> ('k, 'v) amap" where
  "delete_where cond tbl = filter (\<lambda>kr. \<not> cond (snd kr)) tbl"

text \<open>
  The five statements in their order, over the ids of the platforms and subscriptions in the other
  database; an error of any of them, or of the commit, rolls the transaction back.
\<close>

definition repair_steps :: "string list \<Rightarrow> string list \<Rightarrow> (cache_db \<Rightarrow> cache_db) list" where
  "repair_steps platform_ids sub_ids = [
     (\<lambda>db. db\<lparr>db_sub_nodes := delete_where (\<lambda>r. sn_subscription_id r \<notin> set sub_ids
        \<or> (\<not> sn_evicted r \<and> sn_node_hash r \<notin> static_hashes db)) (db_sub_nodes db)\<rparr>),
     (\<lambda>db. db\<lparr>db_static := delete_where (\<lambda>r. ns_hash r \<notin> live_hashes db) (db_static db)\<rparr>),
     (\<lambda>db. db\<lparr>db_dynamic := delete_where (\<lambda>r. nd_hash r \<notin> static_hashes db) (db_dynamic db)\<rparr>),
     (\<lambda>db. db\<lparr>db_latency := delete_where (\<lambda>r. nl_node_hash r \<notin> static_hashes db) (db_latency db)\<rparr>),
     (\<lambda>db. db\<lparr>db_leases := delete_where (\<lambda>r. ml_platform_id r \<notin> set platform_ids
        \<or> ml_node_hash r \<notin> static_hashes db) (db_leases db)\<rparr>)]"

definition repair_consistency ::
  "string list \<Rightarrow> string list \<Rightarrow> string option \<Rightarrow> cache_db \<Rightarrow> string option \<times> cache_db" where
  "repair_consistency platform_ids sub_ids failed db = (case failed of
     Some err \<Rightarrow> (Some err, db)
   | None \<Rightarrow> (None, fold (\<lambda>stmt. stmt) (repair_steps platform_ids sub_ids) db))"

text \<open>What the comment in the source asks of the tables.\<close>

definition consistent :: "string list \<Rightarrow> string list \<Rightarrow> cache_db \<Rightarrow> bool" where
  "consistent platform_ids sub_ids db \<longleftrightarrow>
     (\<forall>r \<in> rows (db_sub_nodes db). sn_subscription_id r \<in> set sub_ids
        \<and> (sn_evicted r \<or> sn_node_hash r \<in> static_hashes db))
     \<and> (\<forall>r \<in> rows (db_static db). ns_hash r \<in> live_hashes db)
     \<and> (\<forall>r \<in> rows (db_dynamic db). nd_hash r \<in> static_hashes db)
     \<and> (\<forall>r \<in> rows (db_latency db). nl_node_hash r \<in> static_hashes db)
     \<and> (\<forall>r \<in> rows (db_leases db). ml_platform_id r \<in> set platform_ids \<and> ml_node_hash r \<in> static_hashes db)"

definition sub_database :: "cache_db \<Rightarrow> cache_db \<Rightarrow> bool" where
  "sub_database a b \<longleftrightarrow> set (db_static a) \<subseteq> set (db_static b) \<and> set (db_sub_nodes a) \<subseteq> set (db_sub_nodes b)
     \<and> set (db_dynamic a) \<subseteq> set (db_dynamic b) \<and> set (db_latency a) \<subseteq> set (db_latency b)
     \<and> set (db_leases a) \<subseteq> set (db_leases b)"

lemma set_delete_where: "set (delete_where cond tbl) = {kr \<in> set tbl. \<not> cond (snd kr)}"
  by (auto simp: delete_where_def)

lemma rows_delete_where: "rows (delete_where cond tbl) = {r \<in> rows tbl. \<not> cond r}"
  by (auto simp: rows_def set_delete_where)

lemma rows_mono: "set a \<subseteq> set b \<Longrightarrow> rows a \<subseteq> rows b"
  by (auto simp: rows_def)

lemma mem_rows: "kr \<in> set tbl \<Longrightarrow> snd kr \<in> rows tbl"
  by (simp add: rows_def)

lemma delete_where_id: "(\<And>r. r \<in> rows tbl \<Longrightarrow> \<not> cond r) \<Longrightarrow> delete_where cond tbl = tbl"
  unfolding delete_where_def by (intro filter_True) (auto simp: rows_def)

lemma subset_delete_where:
  "set a \<subseteq> set tbl \<Longrightarrow> (\<And>r. r \<in> rows a \<Longrightarrow> \<not> cond r) \<Longrightarrow> set a \<subseteq> set (delete_where cond tbl)"
  by (auto simp: set_delete_where dest: mem_rows)

lemma static_hashes_mono: "set (db_static a) \<subseteq> set (db_static b) \<Longrightarrow> static_hashes a \<subseteq> static_hashes b"
  unfolding static_hashes_def by (intro image_mono rows_mono)

lemma live_hashes_mono: "set (db_sub_nodes a) \<subseteq> set (db_sub_nodes b) \<Longrightarrow> live_hashes a \<subseteq> live_hashes b"
  unfolding live_hashes_def using rows_mono by blast

lemma hashes_cong:
  "db_static a = db_static b \<Longrightarrow> static_hashes a = static_hashes b"
  "db_sub_nodes a = db_sub_nodes b \<Longrightarrow> live_hashes a = live_hashes b"
  by (simp_all add: static_hashes_def live_hashes_def)

lemma repair_tables:
  assumes "repair_consistency platform_ids sub_ids None db = (err, db')"
  shows "err = None"
    "db_sub_nodes db' = delete_where (\<lambda>r. sn_subscription_id r \<notin> set sub_ids
       \<or> (\<not> sn_evicted r \<and> sn_node_hash r \<notin> static_hashes db)) (db_sub_nodes db)"
    "db_static db' = delete_where (\<lambda>r. ns_hash r \<notin> live_hashes db') (db_static db)"
    "db_dynamic db' = delete_where (\<lambda>r. nd_hash r \<notin> static_hashes db') (db_dynamic db)"
    "db_latency db' = delete_where (\<lambda>r. nl_node_hash r \<notin> static_hashes db') (db_latency db)"
    "db_leases db' = delete_where (\<lambda>r. ml_platform_id r \<notin> set platform_ids \<or> ml_node_hash r \<notin> static_hashes db')
       (db_leases db)"
  using assms
  by (auto simp: repair_consistency_def repair_steps_def static_hashes_def live_hashes_def)

lemma repair_consistent:
  assumes "repair_consistency platform_ids sub_ids None db = (err, db')"
  shows "consistent platform_ids sub_ids db'"
proof -
  note t = repair_tables [OF assms]
  have live: "h \<in> static_hashes db'" if "h \<in> live_hashes db'" "h \<in> static_hashes db" for h
    using that by (auto simp: static_hashes_def t(3) rows_delete_where)
  have "sn_evicted r \<or> sn_node_hash r \<in> static_hashes db'" if r: "r \<in> rows (db_sub_nodes db')" for r
  proof (cases "sn_evicted r")
    case False
    with r have "sn_node_hash r \<in> live_hashes db'" "sn_node_hash r \<in> static_hashes db"
      by (auto simp: live_hashes_def t(2) rows_delete_where)
    with live show ?thesis by blast
  qed simp
  moreover have "\<forall>r \<in> rows (db_sub_nodes db'). sn_subscription_id r \<in> set sub_ids"
    unfolding t(2) rows_delete_where by blast
  moreover have "\<forall>r \<in> rows (db_static db'). ns_hash r \<in> live_hashes db'"
    unfolding arg_cong [OF t(3), of rows] rows_delete_where by blast
  ultimately show ?thesis
    unfolding consistent_def t(4-6) rows_delete_where by blast
qed

lemma repair_largest:
  assumes run: "repair_consistency platform_ids sub_ids None db = (err, db')"
    and c: "consistent platform_ids sub_ids c" and sub: "sub_database c db"
  shows "sub_database c db'"
proof -
  note t = repair_tables [OF run]
  note sub' = sub [unfolded sub_database_def]
  have st: "static_hashes c \<subseteq> static_hashes db" using sub' by (intro static_hashes_mono) blast
  have sn: "set (db_sub_nodes c) \<subseteq> set (db_sub_nodes db')"
    unfolding t(2) by (rule subset_delete_where) (use sub' c st in \<open>auto simp: consistent_def\<close>)
  have sc: "set (db_static c) \<subseteq> set (db_static db')"
    unfolding t(3) by (rule subset_delete_where)
      (use sub' c live_hashes_mono [OF sn] in \<open>auto simp: consistent_def\<close>)
  note h = static_hashes_mono [OF sc]
  have "set (db_dynamic c) \<subseteq> set (db_dynamic db')"
    unfolding t(4) by (rule subset_delete_where) (use sub' c h in \<open>auto simp: consistent_def\<close>)
  moreover have "set (db_latency c) \<subseteq> set (db_latency db')"
    unfolding t(5) by (rule subset_delete_where) (use sub' c h in \<open>auto simp: consistent_def\<close>)
  moreover have "set (db_leases c) \<subseteq> set (db_leases db')"
    unfolding t(6) by (rule subset_delete_where) (use sub' c h in \<open>auto simp: consistent_def\<close>)
  ultimately show ?thesis using sn sc by (simp add: sub_database_def)
qed

lemma repair_sub:
  assumes "repair_consistency platform_ids sub_ids None db = (err, db')"
  shows "sub_database db' db"
  unfolding sub_database_def repair_tables(2-6) [OF assms] set_delete_where by blast

lemma repair_unchanged:
  assumes "consistent platform_ids sub_ids db"
  shows "repair_consistency platform_ids sub_ids None db = (None, db)"
proof -
  obtain err db' where run: "repair_consistency platform_ids sub_ids None db = (err, db')" by (rule prod.exhaust)
  note t = repair_tables [OF run]
  have sn: "db_sub_nodes db' = db_sub_nodes db"
    unfolding t(2) by (rule delete_where_id) (use assms in \<open>auto simp: consistent_def\<close>)
  have st: "db_static db' = db_static db"
    unfolding t(3) hashes_cong(2) [OF sn]
    by (rule delete_where_id) (use assms in \<open>auto simp: consistent_def\<close>)
  have "db_dynamic db' = db_dynamic db" "db_latency db' = db_latency db" "db_leases db' = db_leases db"
    unfolding t(4-6) hashes_cong(1) [OF st]
    by (rule delete_where_id; use assms in \<open>auto simp: consistent_def\<close>)+
  with sn st have "db' = db" by simp
  with run t(1) show ?thesis by simp
qed

section \<open>The marks cover the leases\<close>

lemma listener_leases:
  "m_load (dirty_leases (fold on_lease_event evs e)) k = (case event_marks evs k of
     None \<Rightarrow> m_load (dirty_leases e) k | Some b \<Rightarrow> Some (if b then Op_Upsert else Op_Delete))"
proof (induction evs arbitrary: e)
  case (Cons ev evs)
  have "m_load (dirty_leases (on_lease_event ev e)) k =
      (if k = (le_platform ev, le_account ev) then Some (if keeps_lease ev then Op_Upsert else Op_Delete)
       else m_load (dirty_leases e) k)"
    by (cases "le_type ev")
      (simp_all add: on_lease_event_def keeps_lease_def mark_upsert_def mark_delete_def store_simps)
  with Cons.IH [of "on_lease_event ev e"] event_marks_append [of "[ev]" evs] show ?case
    by (auto simp: map_add_def split: option.split)
qed simp

lemma listener_ok: "m_ok (dirty_leases e) \<Longrightarrow> m_ok (dirty_leases (fold on_lease_event evs e))"
proof (induction evs arbitrary: e)
  case (Cons ev evs)
  have "m_ok (dirty_leases (on_lease_event ev e))"
    using Cons.prems by (cases "le_type ev") (simp_all add: on_lease_event_def mark_upsert_def mark_delete_def)
  with Cons.IH show ?case by simp
qed simp

lemma listener_cache [simp]: "se_cache (fold on_lease_event evs e) = se_cache e"
proof (induction evs arbitrary: e)
  case (Cons ev evs)
  have "se_cache (on_lease_event ev e) = se_cache e"
    by (cases "le_type ev") (simp_all add: on_lease_event_def)
  with Cons.IH show ?case by simp
qed simp

definition lease_reader :: "external \<Rightarrow> world \<Rightarrow> pair_key \<Rightarrow> model_lease option" where
  "lease_reader X w = (\<lambda>k. read_lease X (fst k) (snd k) w)"

definition lease_covered :: "external \<Rightarrow> pool_config \<Rightarrow> sub_store \<Rightarrow> world \<times> state_engine \<Rightarrow> bool" where
  "lease_covered X pc subs we \<longleftrightarrow> world_ok pc subs (fst we) \<and> m_ok (db_leases (se_cache (snd we)))
     \<and> covered (dirty_leases (snd we)) (lease_reader X (fst we)) (db_leases (se_cache (snd we)))"

lemma covered_listener:
  assumes c: "covered (dirty_leases e) (lease_reader X w) tbl" and r: "covers evs w w'"
  shows "covered (dirty_leases (fold on_lease_event evs e)) (lease_reader X w') tbl"
proof -
  have k: "case event_marks evs k of None \<Rightarrow> lease_reader X w' k = lease_reader X w k
      | Some b \<Rightarrow> b \<or> lease_reader X w' k = None" for k
  proof -
    obtain pid a where pa: "k = (pid, a)" by (rule prod.exhaust)
    have "case event_marks evs (pid, a) of None \<Rightarrow> lease_of w' pid a = lease_of w pid a
        | Some b \<Rightarrow> b \<or> lease_of w' pid a = None"
      using r unfolding covers_def by blast
    then show ?thesis by (auto simp: pa lease_reader_def read_lease_eq split: option.splits)
  qed
  have "(m_load (dirty_leases (fold on_lease_event evs e)) k = None \<longrightarrow> m_load tbl k = lease_reader X w' k)
      \<and> (m_load (dirty_leases (fold on_lease_event evs e)) k = Some Op_Delete \<longrightarrow> lease_reader X w' k = None)" for k
    using k [of k] c unfolding covered_def listener_leases
    by (cases k; cases "event_marks evs k") (auto split: if_splits)
  with c listener_ok show ?thesis unfolding covered_def by blast
qed

lemma bulk_ok: "m_ok tbl \<Longrightarrow> m_ok (bulk_delete ks (bulk_upsert kf rs tbl))"
proof -
  assume "m_ok tbl"
  then have "m_ok (bulk_upsert kf rs tbl)"
    by (induction rs arbitrary: tbl) (simp_all add: bulk_upsert_def)
  then show ?thesis
    unfolding bulk_delete_def by (induction ks arbitrary: rs tbl rule: rev_induct) simp_all
qed

lemma flush_leases:
  assumes "covered (dirty_leases e) (lease_reader X w) (db_leases (se_cache e))" "m_ok (db_leases (se_cache e))"
    and "flush_dirty_sets (flush_readers X now w subs) failed e = (err, e')"
  shows "covered (dirty_leases e') (lease_reader X w) (db_leases (se_cache e')) \<and> m_ok (db_leases (se_cache e'))
    \<and> (if failed = None then m_load (db_leases (se_cache e')) = lease_reader X w else se_cache e' = se_cache e)"
proof (cases failed)
  case None
  have rd: "rd_lease (flush_readers X now w subs) = lease_reader X w"
    by (simp add: flush_readers_def lease_reader_def)
  obtain ups dels where c: "classify_dirty_set (dirty_leases e) (lease_reader X w) = (ups, dels)" by (rule prod.exhaust)
  have "dirty_leases e' = []" "db_leases (se_cache e') = bulk_delete dels (bulk_upsert lease_key ups (db_leases (se_cache e)))"
    using assms(3) c unfolding None
    by (auto simp: flush_dirty_sets_def drain_def new_dirty_set_def flush_tx_def flush_steps_def rd)
  with None lease_rows.covered_flush [of "dirty_leases e" X now w subs, unfolded rd, OF assms(1) c] bulk_ok [OF assms(2)]
  show ?thesis by (simp add: covered_def)
next
  case (Some x)
  with assms show ?thesis
    by (auto simp: flush_dirty_sets_def drain_def flush_tx_def intro: covered_merge)
qed

lemma pool_listener [simp]:
  "dirty_leases (fold on_pool_event evs e) = dirty_leases e" "se_cache (fold on_pool_event evs e) = se_cache e"
proof -
  have m: "dirty_leases (fold (\<lambda>(d, _). apply_mark (Mark_Latency_Delete hex d)) ds e) = dirty_leases e
      \<and> se_cache (fold (\<lambda>(d, _). apply_mark (Mark_Latency_Delete hex d)) ds e) = se_cache e"
    for hex and ds :: "(string \<times> domain_stats) list" and e
    by (induction ds arbitrary: e) (auto simp: case_prod_beta)
  have "dirty_leases (on_pool_event ev e) = dirty_leases e \<and> se_cache (on_pool_event ev e) = se_cache e" for ev e
    by (cases ev) (simp_all add: mark_node_removed_dirty_def Let_def m split: option.split)
  then have "dirty_leases (fold on_pool_event evs e) = dirty_leases e \<and> se_cache (fold on_pool_event evs e) = se_cache e"
    by (induction evs arbitrary: e) simp_all
  then show "dirty_leases (fold on_pool_event evs e) = dirty_leases e"
    "se_cache (fold on_pool_event evs e) = se_cache e" by blast+
qed

lemma drop_events: "wd_events w' = wd_events w @ evs \<Longrightarrow> drop (length (wd_events w)) (wd_events w') = evs"
  by simp

lemma world_op_covered:
  assumes "lease_covered X pc subs (w, e)" "world_op_ok op"
  shows "lease_covered X pc subs (persist_step X pc subs cfg (World_Op op) (w, e))"
    and "se_cache (snd (persist_step X pc subs cfg (World_Op op) (w, e))) = se_cache e"
proof -
  define w' where "w' = world_step X pc subs cfg op w"
  have ok: "world_ok pc subs w'" and "replays w w'"
    using world_step_spec [OF _ assms(2), of pc subs w X cfg] assms(1) by (simp_all add: lease_covered_def w'_def)
  then obtain evs where evs: "wd_events w' = wd_events w @ evs" "covers evs w w'" by (auto simp: replays_def)
  obtain e1 where st: "persist_step X pc subs cfg (World_Op op) (w, e) = (w', fold on_lease_event evs e1)"
    "dirty_leases e1 = dirty_leases e" "se_cache e1 = se_cache e"
    by (simp add: w'_def [symmetric] evs(1) Let_def)
  show "lease_covered X pc subs (persist_step X pc subs cfg (World_Op op) (w, e))"
    using assms(1) ok covered_listener [OF _ evs(2), of e1 X] st(2,3)
    unfolding st(1) by (simp add: lease_covered_def)
  show "se_cache (snd (persist_step X pc subs cfg (World_Op op) (w, e))) = se_cache e"
    unfolding st(1) using st(3) by simp
qed

lemma evicted_mark:
  assumes "lease_covered X pc subs (w, e)"
  shows "lease_covered X pc subs (persist_step X pc subs cfg (Node_Evicted sub h) (w, e))"
    and "se_cache (snd (persist_step X pc subs cfg (Node_Evicted sub h) (w, e))) = se_cache e"
  using assms by (simp_all add: lease_covered_def)

lemma flush_covered:
  assumes "lease_covered X pc subs (w, e)"
  shows "lease_covered X pc subs (persist_step X pc subs cfg (Flush now failed) (w, e))"
  using flush_leases [OF _ _ prod.collapse [symmetric], of e X w now subs failed] assms
  by (simp add: lease_covered_def)

interpretation pr: invariant_machine "persist_step X pc subs cfg" persist_op_ok "lease_covered X pc subs"
  for X pc subs cfg
proof
  fix we op
  assume inv: "lease_covered X pc subs we" and ok: "persist_op_ok op"
  obtain w e where we: "we = (w, e)" by (rule prod.exhaust)
  show "lease_covered X pc subs (persist_step X pc subs cfg op we)"
    using inv ok unfolding we
    by (cases op) (simp_all only: persist_op_ok.simps world_op_covered(1) evicted_mark(1) flush_covered)
qed

text \<open>Only a successful flush changes the database.\<close>

fun commits :: "persist_op \<Rightarrow> bool" where
  "commits (Flush now failed) \<longleftrightarrow> failed = None"
| "commits _ \<longleftrightarrow> False"

lemma run_cache:
  assumes "lease_covered X pc subs we" "list_all (\<lambda>op. persist_op_ok op \<and> \<not> commits op) ops"
  shows "se_cache (snd (fold (persist_step X pc subs cfg) ops we)) = se_cache (snd we)"
  using assms
proof (induction ops arbitrary: we)
  case (Cons op ops)
  obtain w e where we: "we = (w, e)" by (rule prod.exhaust)
  have inv: "lease_covered X pc subs (persist_step X pc subs cfg op we)"
    by (rule pr.step_inv) (use Cons.prems in simp_all)
  have "se_cache (snd (persist_step X pc subs cfg op we)) = se_cache e"
  proof (cases op)
    case (World_Op wop)
    with world_op_covered(2) [of X pc subs w e wop cfg] Cons.prems show ?thesis
      by (simp add: we del: persist_step.simps)
  next
    case (Node_Evicted sub h)
    with evicted_mark(2) [of X pc subs w e cfg sub h] Cons.prems show ?thesis by (simp add: we)
  next
    case (Flush now failed)
    with flush_leases [OF _ _ prod.collapse [symmetric], of e X w now subs failed] Cons.prems show ?thesis
      by (simp add: we lease_covered_def)
  qed
  with Cons.IH [OF inv] Cons.prems show ?case by (simp add: we)
qed simp

section \<open>Restart\<close>

lemma restore_rows:
  assumes "distinct (map fst tbl)"
    and "\<And>k ml. (k, ml) \<in> set tbl \<Longrightarrow> k = (ml_platform_id ml, ml_account ml) \<and> lease_of_model X ml \<noteq> None"
  shows "fold (\<lambda>ml f. case lease_of_model X ml of None \<Rightarrow> f
      | Some l \<Rightarrow> set_lease (ml_platform_id ml) (ml_account ml) (Some l) f) (map snd tbl) f pid a
    = (case map_of tbl (pid, a) of None \<Rightarrow> f pid a | Some ml \<Rightarrow> lease_of_model X ml)"
  using assms
proof (induction tbl arbitrary: f)
  case (Cons row tbl)
  obtain k ml where row: "row = (k, ml)" by (rule prod.exhaust)
  from Cons.prems(2) [of k ml] obtain l where k: "k = (ml_platform_id ml, ml_account ml)" "lease_of_model X ml = Some l"
    by (auto simp: row)
  have "map_of tbl k = None" using Cons.prems(1) by (simp add: row map_of_eq_None_iff)
  define F where "F = set_lease (ml_platform_id ml) (ml_account ml) (Some l) f"
  have F: "F pid a = (if (pid, a) = k then Some l else f pid a)" by (auto simp: F_def set_lease_def k(1))
  have IH: "fold (\<lambda>ml f. case lease_of_model X ml of None \<Rightarrow> f
      | Some l \<Rightarrow> set_lease (ml_platform_id ml) (ml_account ml) (Some l) f) (map snd tbl) F pid a
    = (case map_of tbl (pid, a) of None \<Rightarrow> F pid a | Some ml \<Rightarrow> lease_of_model X ml)"
    using Cons.prems(1) by (intro Cons.IH Cons.prems(2)) (simp_all add: row)
  show ?case
  proof (cases "(pid, a) = k")
    case True
    with IH \<open>map_of tbl k = None\<close> F k(2) show ?thesis by (simp add: row F_def [symmetric])
  next
    case False
    with IH F k(2) show ?thesis by (auto simp add: row F_def [symmetric] split: option.split)
  qed
qed simp

lemma delete_where_load:
  "m_ok tbl \<Longrightarrow> m_load (delete_where cond tbl) k = (case m_load tbl k of
     None \<Rightarrow> None | Some r \<Rightarrow> if cond r then None else Some r)"
  unfolding delete_where_def
  by (induction tbl) (auto simp: m_ok_def map_of_eq_None_iff split: option.splits)

lemma delete_where_ok: "m_ok tbl \<Longrightarrow> m_ok (delete_where cond tbl)"
  unfolding delete_where_def m_ok_def by (rule distinct_map_filter)

text \<open>A restart: repair of the database, a process without leases, and the restore.\<close>

definition reboot_leases ::
  "external \<Rightarrow> string list \<Rightarrow> string list \<Rightarrow> string option \<Rightarrow> cache_db \<Rightarrow> world \<Rightarrow> world" where
  "reboot_leases X platform_ids sub_ids failed db w0 =
     (let leases = load_all_leases (snd (repair_consistency platform_ids sub_ids failed db))
      in if leases = [] then w0 else restore_leases X leases w0)"

lemma reboot_spec:
  assumes "world_ok pc subs w0" "lease_of w0 = (\<lambda>_. Map.empty)"
    and "m_ok (db_leases db)" "m_load (db_leases db) = lease_reader X w"
    and pr: "\<And>pid a l. lease_of w pid a = Some l \<Longrightarrow> lease_printable X l"
    and run: "repair_consistency platform_ids sub_ids None db = (None, db')"
  shows "lease_of (reboot_leases X platform_ids sub_ids None db w0) pid a
      = (case lease_of w pid a of None \<Rightarrow> None
         | Some l \<Rightarrow> if pid \<in> set platform_ids \<and> hash_hex (l_node l) \<in> static_hashes db' then Some l else None)"
    and "world_ok pc subs (reboot_leases X platform_ids sub_ids None db w0)"
proof -
  have m: "m_load (db_leases db) k = map_option (to_model X (fst k) (snd k)) (lease_of w (fst k) (snd k))" for k
    by (simp add: assms(4) lease_reader_def read_lease_eq)
  define keep where "keep = (\<lambda>r :: model_lease. ml_platform_id r \<in> set platform_ids \<and> ml_node_hash r \<in> static_hashes db')"
  have tab: "db_leases db' = delete_where (\<lambda>r. \<not> keep r) (db_leases db)"
    using repair_tables(6) [OF run] by (simp add: keep_def)
  have ok: "m_ok (db_leases db')" unfolding tab by (rule delete_where_ok [OF assms(3)])
  have ld: "m_load (db_leases db') k = (case lease_of w (fst k) (snd k) of None \<Rightarrow> None
      | Some l \<Rightarrow> if keep (to_model X (fst k) (snd k) l) then Some (to_model X (fst k) (snd k) l) else None)" for k
    unfolding tab delete_where_load [OF assms(3)] m by (simp split: option.split)
  have row: "k = (ml_platform_id ml, ml_account ml) \<and> lease_of_model X ml \<noteq> None" if mem: "(k, ml) \<in> set (db_leases db')" for k ml
  proof -
    obtain l where "lease_of w (fst k) (snd k) = Some l" "ml = to_model X (fst k) (snd k) l"
      using mem [unfolded m_ok_mem [OF ok]] unfolding ld by (auto split: option.splits if_splits)
    with lease_of_to_model [OF pr] show ?thesis by (cases k) (simp add: to_model_def)
  qed
  obtain now ev where now: "time_now (wd_env w0) = (now, ev)" by (rule prod.exhaust)
  have "world_ok pc subs (w0\<lparr>wd_env := ev\<rparr>)" using assms(1) by simp
  note s = restore_fold_spec [OF this, of X now "load_all_leases db'"]
  have e: "lease_of (w0\<lparr>wd_env := ev\<rparr>) = (\<lambda>_. Map.empty)"
    using assms(2) by (simp add: lease_of_def state_of_def fun_eq_iff)
  have ls: "lease_of (fold (restore_lease X now) (load_all_leases db') (w0\<lparr>wd_env := ev\<rparr>)) pid a
      = (case m_load (db_leases db') (pid, a) of None \<Rightarrow> None | Some ml \<Rightarrow> lease_of_model X ml)"
    using s restore_rows [OF ok [unfolded m_ok_def] row, of "\<lambda>_. Map.empty" pid a]
    by (simp add: load_all_leases_def assms(2))
  have re: "reboot_leases X platform_ids sub_ids None db w0
      = (if load_all_leases db' = [] then w0 else fold (restore_lease X now) (load_all_leases db') (w0\<lparr>wd_env := ev\<rparr>))"
    by (simp add: reboot_leases_def run restore_leases_def now)
  have "lease_of (reboot_leases X platform_ids sub_ids None db w0) pid a
      = (case m_load (db_leases db') (pid, a) of None \<Rightarrow> None | Some ml \<Rightarrow> lease_of_model X ml)"
    using ls unfolding re by (auto simp: assms(2) load_all_leases_def)
  moreover have keep: "keep (to_model X pid a l) \<longleftrightarrow> pid \<in> set platform_ids \<and> hash_hex (l_node l) \<in> static_hashes db'" for l
    by (simp add: keep_def to_model_def)
  ultimately show "lease_of (reboot_leases X platform_ids sub_ids None db w0) pid a
      = (case lease_of w pid a of None \<Rightarrow> None
         | Some l \<Rightarrow> if pid \<in> set platform_ids \<and> hash_hex (l_node l) \<in> static_hashes db' then Some l else None)"
    using lease_of_to_model [OF pr, of pid a _ pid a] keep
    by (auto simp: ld split: option.split)
  show "world_ok pc subs (reboot_leases X platform_ids sub_ids None db w0)"
    using s assms(1) unfolding re by simp
qed

section \<open>Properties\<close>


text \<open>
  The repair at start-up leaves a consistent database, and the largest one: every consistent part
  of the old tables survives. A consistent database is left as it is, so a second repair does
  nothing, and a repair that fails changes nothing.
\<close>

lemma repair_keeps_largest_consistent:
  assumes "repair_consistency platform_ids sub_ids failed db = (err, db')"
  shows "case failed of
      Some x \<Rightarrow> err = Some x \<and> db' = db
    | None \<Rightarrow> err = None \<and> consistent platform_ids sub_ids db' \<and> sub_database db' db
        \<and> (\<forall>c. consistent platform_ids sub_ids c \<and> sub_database c db \<longrightarrow> sub_database c db')
        \<and> (consistent platform_ids sub_ids db \<longrightarrow> db' = db)"
proof (cases failed)
  case None
  note run = assms [unfolded None]
  have "db' = db" if "consistent platform_ids sub_ids db"
    using run repair_unchanged [OF that] by simp
  with None repair_consistent [OF run] repair_sub [OF run] repair_largest [OF run] repair_tables(1) [OF run]
  show ?thesis by simp
next
  case (Some x)
  show ?thesis using assms unfolding Some by (auto simp: repair_consistency_def)
qed

section \<open>Witnesses\<close>

definition stored_db :: cache_db where
  "stored_db = \<lparr>db_static = [(hash_hex (replicate 16 0), \<lparr>ns_hash = hash_hex (replicate 16 0), ns_raw_options = [],
       ns_created_at_ns = 1\<rparr>)],
     db_sub_nodes = [((''s'', hash_hex (replicate 16 0)), \<lparr>sn_subscription_id = ''s'',
       sn_node_hash = hash_hex (replicate 16 0), sn_tags = [], sn_evicted = False\<rparr>)],
     db_dynamic = [], db_latency = [], db_leases = []\<rparr>"

definition stored_engine :: state_engine where
  "stored_engine = \<lparr>dirty_static = new_dirty_set, dirty_dynamic = new_dirty_set, dirty_latency = new_dirty_set,
     dirty_leases = new_dirty_set, dirty_sub_nodes = new_dirty_set, se_cache = stored_db\<rparr>"

lemma stored_start: "lease_covered X sample_config sample_store (empty_world, stored_engine)"
proof -
  have ok: "world_ok sample_config sample_store empty_world"
    using sample_world_ok by (simp add: world_ok_def empty_world_def states_ok_def)
  have e: "lease_of empty_world = (\<lambda>_. Map.empty)"
    by (simp add: lease_of_def state_of_def empty_world_def new_platform_routing_state_def new_lease_table_def fun_eq_iff)
  show ?thesis
    by (simp add: lease_covered_def ok e covered_def stored_engine_def stored_db_def new_dirty_set_def
        lease_reader_def read_lease_eq)
qed

text \<open>A lease is written on the stored node, flushed, and deleted before the next flush.\<close>

definition upserted_world :: world where
  "upserted_world = snd (upsert_lease plain_external sample_model_lease empty_world)"

definition model_sample :: lease where
  "model_sample = the (lease_of_model plain_external sample_model_lease)"

lemma upserted:
  "wd_pool upserted_world = wd_pool empty_world"
  "lease_of upserted_world pid a = (if pid = ''p'' \<and> a = ''d'' then Some model_sample else None)"
  "l_node model_sample = replicate 16 0" "l_egress model_sample = V4 1"
proof -
  have p: "parse_hex (ml_node_hash sample_model_lease) = Inr (replicate 16 0)"
    "parse_addr plain_external (ml_egress_ip sample_model_lease) = Some (V4 1)"
    by (simp_all add: sample_model_lease_def parse_hex_def decode_hash_hex plain_external_def)
  have t: "trim_space (ml_platform_id sample_model_lease) = ''p''"
    "trim_space (ml_account sample_model_lease) = ''d''"
    by (simp_all add: sample_model_lease_def trim_space_plain plain_char_def)
  have "fst (upsert_lease plain_external sample_model_lease empty_world) = None"
    by (simp add: upsert_lease_def p t Let_def)
  moreover have "world_ok sample_config sample_store empty_world"
    using stored_start by (simp add: lease_covered_def)
  ultimately obtain l where l: "lease_of_model plain_external sample_model_lease = Some l"
    "lease_of upserted_world = set_lease ''p'' ''d'' (Some l) (lease_of empty_world)"
    "wd_pool upserted_world = wd_pool empty_world"
    using upsert_lease_spec(2) [OF _ prod.collapse [symmetric], of sample_config sample_store empty_world
        plain_external sample_model_lease] by (auto simp: t upserted_world_def)
  show "wd_pool upserted_world = wd_pool empty_world" by (rule l(3))
  have "lease_of empty_world pid a = None"
    by (simp add: lease_of_def state_of_def empty_world_def new_platform_routing_state_def new_lease_table_def)
  with l show "lease_of upserted_world pid a = (if pid = ''p'' \<and> a = ''d'' then Some model_sample else None)"
    by (auto simp: set_lease_def model_sample_def)
  show "l_node model_sample = replicate 16 0" "l_egress model_sample = V4 1"
    by (simp_all add: model_sample_def lease_of_model_def p)
qed

lemma stored_flush:
  defines "we \<equiv> fold (persist_step plain_external sample_config sample_store sample_router)
    ([World_Op (Upsert sample_model_lease)] @ [Flush 0 None]) (empty_world, stored_engine)"
  shows "fst we = upserted_world" "db_static (se_cache (snd we)) = db_static stored_db"
    "db_sub_nodes (se_cache (snd we)) = db_sub_nodes stored_db"
proof -
  have k: "dirty_static (fold on_lease_event evs e) = dirty_static e
      \<and> dirty_sub_nodes (fold on_lease_event evs e) = dirty_sub_nodes e" for evs e
  proof (induction evs arbitrary: e)
    case (Cons ev evs)
    have "dirty_static (on_lease_event ev e) = dirty_static e \<and> dirty_sub_nodes (on_lease_event ev e) = dirty_sub_nodes e"
      by (cases "le_type ev") (simp_all add: on_lease_event_def)
    with Cons.IH show ?case by simp
  qed simp
  obtain evs where we: "we = (upserted_world, snd (flush_dirty_sets (flush_readers plain_external 0 upserted_world sample_store)
      None (fold on_lease_event evs stored_engine)))"
    using upserted(1) by (simp add: we_def Let_def upserted_world_def)
  show "fst we = upserted_world" by (simp add: we)
  show "db_static (se_cache (snd we)) = db_static stored_db" "db_sub_nodes (se_cache (snd we)) = db_sub_nodes stored_db"
    by (simp_all add: we k flush_dirty_sets_def drain_def flush_tx_def flush_steps_def stored_engine_def
        new_dirty_set_def bulk_upsert_def bulk_delete_def)
qed


end
