(* ===== verification/Account_Matcher.thy ===== *)
theory Account_Matcher
  imports Net_Domain
begin

text \<open>
  \<open>internal/proxy/account_matcher.go\<close>, \<open>rule_prefix.go\<close> and \<open>account_matcher_runtime.go\<close>: which headers
  carry the account of a request. Rules are kept in a trie over the host and the path segments; the
  lemmas show that the trie is a finite map from segment lists to rules, that a match is the rule
  of the longest matching prefix, and that the matcher does not depend on the order of the rules.
\<close>

section \<open>Rule prefixes\<close>

datatype prefix_error = Prefix_Empty | Prefix_Query | Prefix_No_Host

text \<open>\<open>strings.SplitN(s, sep, 2)\<close> with a one-byte separator.\<close>

definition split_two :: "char \<Rightarrow> string \<Rightarrow> string \<times> string option" where
  "split_two c s = (case index_byte c s of None \<Rightarrow> (s, None) | Some i \<Rightarrow> (take i s, Some (drop (i + 1) s)))"

definition normalize_rule_prefix :: "external \<Rightarrow> string \<Rightarrow> prefix_error + string" where
  "normalize_rule_prefix X prefix =
     (let p = trim_space prefix in
      if p = [] then Inl Prefix_Empty
      else if CHR ''?'' \<in> set p then Inl Prefix_Query
      else if p = ''*'' then Inr p
      else let (host, rest) = split_two CHR ''/'' p in
        if host = [] then Inl Prefix_No_Host
        else let host = to_lower (uni_lower X) host in
          case rest of None \<Rightarrow> Inr host | Some path \<Rightarrow> Inr (host @ ''/'' @ path))"

text \<open>The lower case host and the path segments of a prefix.\<close>

definition split_prefix :: "external \<Rightarrow> string \<Rightarrow> string list" where
  "split_prefix X prefix =
     (let (domain, rest) = split_two CHR ''/'' prefix;
          segments = [to_lower (uni_lower X) domain]
      in case rest of
           Some path \<Rightarrow> if path \<noteq> [] then segments @ split_at_byte CHR ''/'' path else segments
         | None \<Rightarrow> segments)"

section \<open>The trie\<close>

text \<open>A rule without headers has a nil slice, which marks a node that is not a rule.\<close>

datatype matcher_node =
  Matcher_Node (mn_children: "(string \<times> matcher_node) list") (mn_headers: "string list") (mn_prefix: string)

definition empty_node :: matcher_node where
  "empty_node = Matcher_Node [] [] []"

record account_matcher =
  am_root :: matcher_node
  am_wildcard :: "string list"

fun insert_segments :: "string list \<Rightarrow> string \<Rightarrow> string list \<Rightarrow> matcher_node \<Rightarrow> matcher_node" where
  "insert_segments [] prefix headers (Matcher_Node cs h p) = Matcher_Node cs headers prefix"
| "insert_segments (seg # segs) prefix headers (Matcher_Node cs h p) =
     (let child = (case m_load cs seg of None \<Rightarrow> empty_node | Some c \<Rightarrow> c)
      in Matcher_Node (m_store seg (insert_segments segs prefix headers child) cs) h p)"

fun match_walk :: "string list \<Rightarrow> matcher_node \<Rightarrow> string \<times> string list \<Rightarrow> string \<times> string list" where
  "match_walk [] cur best = best"
| "match_walk (seg # segs) cur best =
     (case m_load (mn_children cur) seg of
        None \<Rightarrow> best
      | Some child \<Rightarrow> match_walk segs child
          (if mn_headers child \<noteq> [] then (mn_prefix child, mn_headers child) else best))"

section \<open>Building and matching\<close>

record header_rule =
  hr_url_prefix :: string
  hr_headers :: "string list"
  hr_updated_at_ns :: int

record normalized_rule =
  nr_normalized_prefix :: string
  nr_raw_prefix :: string
  nr_headers :: "string list"
  nr_headers_key :: string
  nr_updated_at_ns :: int

definition should_replace_rule :: "normalized_rule \<Rightarrow> normalized_rule \<Rightarrow> bool" where
  "should_replace_rule next current =
     (if nr_updated_at_ns next \<noteq> nr_updated_at_ns current then nr_updated_at_ns next > nr_updated_at_ns current
      else if nr_raw_prefix next \<noteq> nr_raw_prefix current then str_less (nr_raw_prefix next) (nr_raw_prefix current)
      else str_less (nr_headers_key next) (nr_headers_key current))"

definition headers_tie_break_key :: "string list \<Rightarrow> string" where
  "headers_tie_break_key headers = join_with [char_of (0 :: nat)] headers"

definition candidate_of :: "external \<Rightarrow> header_rule \<Rightarrow> normalized_rule option" where
  "candidate_of X r = (case normalize_rule_prefix X (hr_url_prefix r) of
     Inl _ \<Rightarrow> None
   | Inr np \<Rightarrow> Some \<lparr>nr_normalized_prefix = np, nr_raw_prefix = hr_url_prefix r,
       nr_headers = hr_headers r, nr_headers_key = headers_tie_break_key (hr_headers r),
       nr_updated_at_ns = hr_updated_at_ns r\<rparr>)"

definition add_candidate ::
  "external \<Rightarrow> header_rule \<Rightarrow> (string, normalized_rule) amap \<Rightarrow> (string, normalized_rule) amap" where
  "add_candidate X r winners = (case candidate_of X r of
     None \<Rightarrow> winners
   | Some c \<Rightarrow>
       let np = nr_normalized_prefix c in
       case m_load winners np of
         None \<Rightarrow> m_store np c winners
       | Some current \<Rightarrow> if should_replace_rule c current then m_store np c winners else winners)"

definition rule_winners :: "external \<Rightarrow> header_rule list \<Rightarrow> (string, normalized_rule) amap" where
  "rule_winners X rules = fold (add_candidate X) rules []"

fun insert_string :: "string \<Rightarrow> string list \<Rightarrow> string list" where
  "insert_string s [] = [s]"
| "insert_string s (t # ts) = (if str_less t s then t # insert_string s ts else s # t # ts)"

definition sort_strings :: "string list \<Rightarrow> string list" where
  "sort_strings ss = foldr insert_string ss []"

definition insert_winner :: "external \<Rightarrow> normalized_rule \<Rightarrow> account_matcher \<Rightarrow> account_matcher" where
  "insert_winner X r m =
     (if nr_normalized_prefix r = ''*'' then m\<lparr>am_wildcard := nr_headers r\<rparr>
      else m\<lparr>am_root := insert_segments (split_prefix X (nr_normalized_prefix r)) (nr_normalized_prefix r)
        (nr_headers r) (am_root m)\<rparr>)"

definition build_account_matcher :: "external \<Rightarrow> header_rule list \<Rightarrow> account_matcher" where
  "build_account_matcher X rules =
     (let winners = rule_winners X rules
      in fold (\<lambda>key. insert_winner X (the (m_load winners key))) (sort_strings (map fst winners))
           \<lparr>am_root = empty_node, am_wildcard = []\<rparr>)"

definition normalize_match_host :: "external \<Rightarrow> string \<Rightarrow> string" where
  "normalize_match_host X host0 =
     (let host = to_lower (uni_lower X) host0 in
      if host = [] then host
      else let h = (case split_host_port host of
                      Some (h, _) \<Rightarrow> h
                    | None \<Rightarrow> if hd host = CHR ''['' \<and> last host = CHR '']''
                              then take (length host - 2) (drop 1 host) else host)
        in case parse_addr X h of Some ip \<Rightarrow> addr_string X ip | None \<Rightarrow> h)"

definition request_segments :: "external \<Rightarrow> string \<Rightarrow> string \<Rightarrow> string list" where
  "request_segments X host path0 =
     (let h = normalize_match_host X host;
          path1 = (case index_byte CHR ''?'' path0 of None \<Rightarrow> path0 | Some qi \<Rightarrow> take qi path0);
          path = (case drop_prefix ''/'' path1 of None \<Rightarrow> path1 | Some r \<Rightarrow> r)
      in if path0 \<noteq> [] \<and> path \<noteq> [] then h # split_at_byte CHR ''/'' path else [h])"

definition match_with_prefix :: "external \<Rightarrow> account_matcher \<Rightarrow> string \<Rightarrow> string \<Rightarrow> string \<times> string list" where
  "match_with_prefix X m host path =
     (let (best_prefix, best_headers) = match_walk (request_segments X host path) (am_root m) ([], [])
      in if best_headers \<noteq> [] then (best_prefix, best_headers)
         else if am_wildcard m \<noteq> [] then (''*'', am_wildcard m)
         else ([], []))"

definition match_headers :: "external \<Rightarrow> account_matcher \<Rightarrow> string \<Rightarrow> string \<Rightarrow> string list" where
  "match_headers X m host path = snd (match_with_prefix X m host path)"

text \<open>The published matcher: swapped whole, nil stands for an empty one.\<close>

definition runtime_swap :: "external \<Rightarrow> account_matcher option \<Rightarrow> account_matcher \<Rightarrow> account_matcher" where
  "runtime_swap X next cur = (case next of None \<Rightarrow> build_account_matcher X [] | Some m \<Rightarrow> m)"

definition runtime_replace_rules :: "external \<Rightarrow> header_rule list \<Rightarrow> account_matcher \<Rightarrow> account_matcher" where
  "runtime_replace_rules X rules cur = build_account_matcher X rules"

section \<open>The trie is a finite map\<close>

fun trie_lookup :: "matcher_node \<Rightarrow> string list \<Rightarrow> string \<times> string list" where
  "trie_lookup t [] = (mn_prefix t, mn_headers t)"
| "trie_lookup t (seg # segs) = (case m_load (mn_children t) seg of
     None \<Rightarrow> ([], []) | Some c \<Rightarrow> trie_lookup c segs)"

lemma empty_node_lookup [simp]: "trie_lookup empty_node segs = ([], [])"
  by (cases segs) (simp_all add: empty_node_def)

lemma insert_segments_lookup:
  "trie_lookup (insert_segments segs p hs t) ss = (if ss = segs then (p, hs) else trie_lookup t ss)"
proof (induction segs p hs t arbitrary: ss rule: insert_segments.induct)
  case (1 p hs cs h q)
  then show ?case by (cases ss) auto
next
  case (2 seg segs p hs cs h q)
  then show ?case by (cases ss) (auto simp: Let_def store_simps split: option.splits)
qed

text \<open>The rule of the longest prefix, as a plain recursion over the lookup function.\<close>

fun longest_prefix :: "(string list \<Rightarrow> string \<times> string list) \<Rightarrow> string list \<Rightarrow> nat \<Rightarrow> string \<times> string list" where
  "longest_prefix f segs 0 = ([], [])"
| "longest_prefix f segs (Suc n) =
     (if snd (f (take (Suc n) segs)) \<noteq> [] then f (take (Suc n) segs) else longest_prefix f segs n)"

lemma longest_prefix_none: "snd (longest_prefix f segs n) = [] \<Longrightarrow> longest_prefix f segs n = ([], [])"
  by (induction n) auto

lemma longest_prefix_cong:
  "(\<And>k. k \<le> n \<Longrightarrow> f (take k segs) = g (take k segs)) \<Longrightarrow> longest_prefix f segs n = longest_prefix g segs n"
proof (induction n)
  case (Suc n)
  have "f (take (Suc n) segs) = g (take (Suc n) segs)" by (rule Suc.prems) simp
  with Suc show ?case by simp
qed simp

lemma longest_prefix_child:
  assumes "m_load (mn_children t) seg = Some c"
  shows "longest_prefix (trie_lookup t) (seg # segs) (Suc n) =
    (let r = longest_prefix (trie_lookup c) segs n in
     if snd r \<noteq> [] then r else if mn_headers c \<noteq> [] then (mn_prefix c, mn_headers c) else ([], []))"
  by (induction n) (simp_all add: assms Let_def)

lemma longest_prefix_no_child:
  "m_load (mn_children t) seg = None \<Longrightarrow> longest_prefix (trie_lookup t) (seg # segs) n = ([], [])"
  by (induction n) simp_all

lemma match_walk_longest:
  "match_walk segs t best = (let r = longest_prefix (trie_lookup t) segs (length segs)
     in if snd r \<noteq> [] then r else best)"
proof (induction segs arbitrary: t best)
  case (Cons seg segs)
  show ?case
  proof (cases "m_load (mn_children t) seg")
    case None
    with longest_prefix_no_child [OF None, of segs "Suc (length segs)"] show ?thesis
      by (simp del: longest_prefix.simps)
  next
    case (Some c)
    with longest_prefix_child [OF Some, of segs "length segs"] Cons.IH [of c] show ?thesis
      by (simp add: Let_def del: longest_prefix.simps)
  qed
qed simp

section \<open>What the trie of a rule list holds\<close>

text \<open>The rule at a segment list: the last of the winners with these segments, in the order of keys.\<close>

definition rule_table :: "external \<Rightarrow> header_rule list \<Rightarrow> string list \<Rightarrow> string \<times> string list" where
  "rule_table X rules segs =
     (let winners = rule_winners X rules;
          ks = filter (\<lambda>k. k \<noteq> ''*'' \<and> split_prefix X k = segs) (sort_strings (map fst winners))
      in if ks = [] then ([], []) else (last ks, nr_headers (the (m_load winners (last ks)))))"

definition winners_ok :: "(string, normalized_rule) amap \<Rightarrow> bool" where
  "winners_ok ws \<longleftrightarrow> m_ok ws \<and> (\<forall>k r. m_load ws k = Some r \<longrightarrow> nr_normalized_prefix r = k)"

lemma add_candidate_ok: "winners_ok ws \<Longrightarrow> winners_ok (add_candidate X r ws)"
  by (auto simp: winners_ok_def add_candidate_def Let_def store_simps split: option.splits)

lemma rule_winners_ok: "winners_ok (rule_winners X rules)"
proof -
  have "winners_ok ws \<Longrightarrow> winners_ok (fold (add_candidate X) rules ws)" for ws
    by (induction rules arbitrary: ws) (simp_all add: add_candidate_ok)
  moreover have "winners_ok []" by (simp add: winners_ok_def)
  ultimately show ?thesis unfolding rule_winners_def by blast
qed

lemma set_insert_string [simp]: "set (insert_string s ts) = insert s (set ts)"
  by (induction ts) auto

lemma set_sort_strings [simp]: "set (sort_strings ss) = set ss"
  by (induction ss) (auto simp: sort_strings_def)

lemma build_fold:
  assumes "\<And>k. k \<in> set ks \<Longrightarrow> nr_normalized_prefix (w k) = k"
  shows "trie_lookup (am_root (fold (\<lambda>k. insert_winner X (w k)) ks m)) segs =
      (let qs = filter (\<lambda>k. k \<noteq> ''*'' \<and> split_prefix X k = segs) ks
       in if qs = [] then trie_lookup (am_root m) segs else (last qs, nr_headers (w (last qs))))"
    and "am_wildcard (fold (\<lambda>k. insert_winner X (w k)) ks m)
      = (if ''*'' \<in> set ks then nr_headers (w ''*'') else am_wildcard m)"
proof (goal_cases)
  case 1
  show ?case using assms
  proof (induction ks rule: rev_induct)
    case (snoc k ks)
    have k: "nr_normalized_prefix (w k) = k" by (rule snoc.prems) simp
    have IH: "trie_lookup (am_root (fold (\<lambda>k. insert_winner X (w k)) ks m)) segs =
      (let qs = filter (\<lambda>k. k \<noteq> ''*'' \<and> split_prefix X k = segs) ks
       in if qs = [] then trie_lookup (am_root m) segs else (last qs, nr_headers (w (last qs))))"
      by (rule snoc.IH) (simp add: snoc.prems)
    show ?case
    proof (cases "k \<noteq> ''*'' \<and> split_prefix X k = segs")
      case True
      then show ?thesis by (simp add: insert_winner_def k insert_segments_lookup Let_def)
    next
      case False
      then have "trie_lookup (am_root (insert_winner X (w k) (fold (\<lambda>k. insert_winner X (w k)) ks m))) segs
          = trie_lookup (am_root (fold (\<lambda>k. insert_winner X (w k)) ks m)) segs"
        by (auto simp: insert_winner_def k insert_segments_lookup)
      moreover have "filter (\<lambda>k. k \<noteq> ''*'' \<and> split_prefix X k = segs) (ks @ [k])
          = filter (\<lambda>k. k \<noteq> ''*'' \<and> split_prefix X k = segs) ks" using False by auto
      ultimately show ?thesis using IH by simp
    qed
  qed simp
next
  case 2
  show ?case using assms
  proof (induction ks rule: rev_induct)
    case (snoc k ks)
    have "nr_normalized_prefix (w k) = k" by (rule snoc.prems) simp
    with snoc show ?case by (simp add: insert_winner_def)
  qed simp
qed

lemma build_lookup:
  "trie_lookup (am_root (build_account_matcher X rules)) = rule_table X rules"
  "am_wildcard (build_account_matcher X rules)
     = (case m_load (rule_winners X rules) ''*'' of None \<Rightarrow> [] | Some r \<Rightarrow> nr_headers r)"
proof -
  let ?ws = "rule_winners X rules"
  have key: "nr_normalized_prefix (the (m_load ?ws k)) = k" if "k \<in> set (sort_strings (map fst ?ws))" for k
  proof -
    from that have "m_load ?ws k \<noteq> None" by (simp add: map_of_eq_None_iff)
    with rule_winners_ok [of X rules] show ?thesis by (auto simp: winners_ok_def)
  qed
  note b = build_fold [where w = "\<lambda>k. the (m_load ?ws k)" and ks = "sort_strings (map fst ?ws)", OF key]
  show "trie_lookup (am_root (build_account_matcher X rules)) = rule_table X rules"
  proof
    fix segs
    show "trie_lookup (am_root (build_account_matcher X rules)) segs = rule_table X rules segs"
      using b(1) [of X "\<lparr>am_root = empty_node, am_wildcard = []\<rparr>" segs]
      by (simp add: build_account_matcher_def rule_table_def Let_def)
  qed
  have "''*'' \<in> set (sort_strings (map fst ?ws)) \<longleftrightarrow> m_load ?ws ''*'' \<noteq> None"
    by (simp add: map_of_eq_None_iff)
  then show "am_wildcard (build_account_matcher X rules)
      = (case m_load ?ws ''*'' of None \<Rightarrow> [] | Some r \<Rightarrow> nr_headers r)"
    using b(2) [of X "\<lparr>am_root = empty_node, am_wildcard = []\<rparr>"]
    by (cases "m_load ?ws ''*''") (simp_all add: build_account_matcher_def Let_def)
qed

section \<open>The winner of a prefix\<close>

text \<open>
  The best rule of each prefix does not depend on the order of the rules: the comparison is a
  strict linear order on the candidates of a prefix.
\<close>

definition rule_rank :: "normalized_rule \<Rightarrow> int \<times> string \<times> string" where
  "rule_rank r = (nr_updated_at_ns r, nr_raw_prefix r, nr_headers_key r)"

lemma should_replace_irrefl: "\<not> should_replace_rule a a"
  by (simp add: should_replace_rule_def)

lemma should_replace_trans: "should_replace_rule a b \<Longrightarrow> should_replace_rule b c \<Longrightarrow> should_replace_rule a c"
  by (auto simp: should_replace_rule_def split: if_splits dest: str_less_trans)

lemma should_replace_linear: "should_replace_rule a b \<or> should_replace_rule b a \<or> rule_rank a = rule_rank b"
  using str_less_linear by (auto simp: should_replace_rule_def rule_rank_def)

text \<open>Two candidates that tie are the same: header names hold no zero byte and rules have headers.\<close>

definition rule_ok :: "header_rule \<Rightarrow> bool" where
  "rule_ok r \<longleftrightarrow> hr_headers r \<noteq> [] \<and> (\<forall>h \<in> set (hr_headers r). h \<noteq> [] \<and> char_of (0 :: nat) \<notin> set h)"

lemma split_join:
  "hs \<noteq> [] \<Longrightarrow> \<forall>h \<in> set hs. c \<notin> set h \<Longrightarrow> split_at_byte c (join_with [c] hs) = hs"
proof (induction "[c]" hs rule: join_with.induct)
  case (2 h)
  then have "c \<notin> set h" by simp
  then have "split_at_byte c h = [h]" by (induction h) auto
  then show ?case by simp
next
  case (3 h t ts)
  have "split_at_byte c (g @ c # rest) = g # split_at_byte c rest" if "c \<notin> set g" for g rest
    using that by (induction g) auto
  with 3 show ?case by simp
qed simp

lemma candidates_tie:
  assumes "candidate_of X r = Some a" "candidate_of X q = Some b" "rule_ok r" "rule_ok q" "rule_rank a = rule_rank b"
  shows "a = b"
proof -
  have key: "headers_tie_break_key (hr_headers r) = headers_tie_break_key (hr_headers q)"
    and "hr_url_prefix r = hr_url_prefix q" "hr_updated_at_ns r = hr_updated_at_ns q"
    using assms(1,2,5) by (auto simp: candidate_of_def rule_rank_def split: sum.splits)
  moreover have "hr_headers r = hr_headers q"
  proof -
    have "split_at_byte (char_of (0 :: nat)) (headers_tie_break_key (hr_headers x)) = hr_headers x" if "rule_ok x" for x
      unfolding headers_tie_break_key_def by (rule split_join) (use that [unfolded rule_ok_def] in blast)+
    note inv = this
    have "hr_headers r = split_at_byte (char_of (0 :: nat)) (headers_tie_break_key (hr_headers r))"
      by (rule inv [OF assms(3), symmetric])
    also have "\<dots> = hr_headers q" unfolding key by (rule inv [OF assms(4)])
    finally show ?thesis .
  qed
  ultimately have "candidate_of X r = candidate_of X q" by (simp add: candidate_of_def cong: sum.case_cong)
  with assms(1,2) show ?thesis by simp
qed

text \<open>The winner of a prefix, declaratively: a candidate that no other candidate replaces.\<close>

definition is_winner :: "external \<Rightarrow> header_rule list \<Rightarrow> string \<Rightarrow> normalized_rule \<Rightarrow> bool" where
  "is_winner X rules k c \<longleftrightarrow> (\<exists>r \<in> set rules. candidate_of X r = Some c) \<and> nr_normalized_prefix c = k
     \<and> (\<forall>q \<in> set rules. \<forall>d. candidate_of X q = Some d \<and> nr_normalized_prefix d = k \<longrightarrow> \<not> should_replace_rule d c)"

lemma winner_unique:
  assumes "is_winner X rules k a" "is_winner X rules k b" "\<forall>r \<in> set rules. rule_ok r"
  shows "a = b"
proof -
  obtain r q where rq: "r \<in> set rules" "q \<in> set rules" "candidate_of X r = Some a" "candidate_of X q = Some b"
    using assms(1,2) by (auto simp: is_winner_def)
  have "rule_rank a = rule_rank b"
    using should_replace_linear [of a b] assms(1,2) rq unfolding is_winner_def by blast
  with rq assms(3) show ?thesis by (blast intro: candidates_tie)
qed

lemma winner_snoc:
  assumes "candidate_of X r = Some c"
  shows "is_winner X (rules @ [r]) k w \<longleftrightarrow>
    (if nr_normalized_prefix c \<noteq> k then is_winner X rules k w
     else (is_winner X rules k w \<and> \<not> should_replace_rule c w)
       \<or> (w = c \<and> (\<forall>q \<in> set rules. \<forall>d. candidate_of X q = Some d \<and> nr_normalized_prefix d = k
            \<longrightarrow> \<not> should_replace_rule d c)))"
  using assms should_replace_irrefl by (auto simp: is_winner_def)

lemma winners_are_winners:
  "case m_load (rule_winners X rules) k of
     Some w \<Rightarrow> is_winner X rules k w
   | None \<Rightarrow> (\<forall>r \<in> set rules. \<forall>c. candidate_of X r = Some c \<longrightarrow> nr_normalized_prefix c \<noteq> k)"
proof (induction rules arbitrary: k rule: rev_induct)
  case Nil
  then show ?case by (simp add: rule_winners_def)
next
  case (snoc r rules)
  have step: "rule_winners X (rules @ [r]) = add_candidate X r (rule_winners X rules)"
    by (simp add: rule_winners_def)
  show ?case
  proof (cases "candidate_of X r")
    case None
    with snoc.IH [of k] show ?thesis
      unfolding step by (auto simp: add_candidate_def is_winner_def split: option.splits)
  next
    case (Some c)
    let ?np = "nr_normalized_prefix c"
    show ?thesis
    proof (cases "?np = k")
      case False
      then have "m_load (rule_winners X (rules @ [r])) k = m_load (rule_winners X rules) k"
        unfolding step by (auto simp: add_candidate_def Some Let_def store_simps split: option.split)
      with snoc.IH [of k] winner_snoc [OF Some, of rules k] False Some show ?thesis
        by (auto split: option.splits)
    next
      case True
      show ?thesis
      proof (cases "m_load (rule_winners X rules) k")
        case None
        with snoc.IH [of k] have "is_winner X (rules @ [r]) k c"
          using True Some winner_snoc [OF Some, of rules k c] by auto
        with None True show ?thesis unfolding step by (simp add: add_candidate_def Some store_simps)
      next
        case (Some w)
        with snoc.IH [of k] have w: "is_winner X rules k w" by simp
        have new: "m_load (rule_winners X (rules @ [r])) k = Some (if should_replace_rule c w then c else w)"
          unfolding step using \<open>candidate_of X r = Some c\<close> True Some by (simp add: add_candidate_def store_simps)
        have "\<not> should_replace_rule d c" if "should_replace_rule c w" "q \<in> set rules" "candidate_of X q = Some d"
          "nr_normalized_prefix d = k" for q d
          using w that should_replace_trans [of d c w] by (auto simp: is_winner_def)
        with w winner_snoc [OF \<open>candidate_of X r = Some c\<close>, of rules k] True show ?thesis
          unfolding new by auto
      qed
    qed
  qed
qed

text \<open>Sorting strings: the result depends on the set only.\<close>

lemma sorted_insert:
  "sorted_wrt str_less ts \<Longrightarrow> s \<notin> set ts \<Longrightarrow> sorted_wrt str_less (insert_string s ts)"
  by (induction ts) (auto dest: str_less_trans intro: disjE [OF str_less_linear])

lemma sorted_sort: "distinct ss \<Longrightarrow> sorted_wrt str_less (sort_strings ss)"
proof (induction ss)
  case (Cons s ss)
  then have "s \<notin> set (sort_strings ss)" by simp
  with Cons sorted_insert show ?case by (simp add: sort_strings_def)
qed (simp add: sort_strings_def)

lemma sorted_unique:
  "sorted_wrt str_less as \<Longrightarrow> sorted_wrt str_less bs \<Longrightarrow> set as = set bs \<Longrightarrow> as = bs"
proof (induction as arbitrary: bs)
  case (Cons a as)
  then obtain b bs' where bs: "bs = b # bs'" by (cases bs) auto
  have n: "a \<notin> set as" "b \<notin> set bs'" using Cons.prems by (auto simp: bs)
  have "a = b"
  proof (rule ccontr)
    assume "a \<noteq> b"
    with Cons.prems have "str_less a b" "str_less b a" by (auto simp: bs)
    with str_less_trans show False by fastforce
  qed
  moreover have "as = bs'"
    using Cons.prems n \<open>a = b\<close> by (intro Cons.IH) (auto simp: bs set_eq_iff)
  ultimately show ?case by (simp add: bs)
qed simp

lemma rule_winners_set:
  assumes "set rules = set rules'" "\<forall>r \<in> set rules. rule_ok r"
  shows "m_load (rule_winners X rules) = m_load (rule_winners X rules')"
proof
  fix k
  have same: "is_winner X rules = is_winner X rules'" using assms(1) by (intro ext) (simp add: is_winner_def)
  note a = winners_are_winners [of rules X k] and b = winners_are_winners [of rules' X k]
  show "m_load (rule_winners X rules) k = m_load (rule_winners X rules') k"
  proof (cases "m_load (rule_winners X rules) k"; cases "m_load (rule_winners X rules') k")
    fix w w' assume "m_load (rule_winners X rules) k = Some w" "m_load (rule_winners X rules') k = Some w'"
    with a b same have "is_winner X rules k w" "is_winner X rules k w'" by simp_all
    from winner_unique [OF this assms(2)] \<open>m_load (rule_winners X rules) k = Some w\<close>
      \<open>m_load (rule_winners X rules') k = Some w'\<close> show ?thesis by simp
  qed (use a b assms(1) in \<open>auto simp: is_winner_def\<close>)
qed

lemma winner_keys: "sort_strings (map fst (rule_winners X rules)) = sort_strings (map fst (rule_winners X rules'))"
  if "m_load (rule_winners X rules) = m_load (rule_winners X rules')"
proof (rule sorted_unique)
  have d: "distinct (map fst (rule_winners X rs))" for rs
    using rule_winners_ok [of X rs] by (simp add: winners_ok_def m_ok_def)
  show "sorted_wrt str_less (sort_strings (map fst (rule_winners X rules)))"
    "sorted_wrt str_less (sort_strings (map fst (rule_winners X rules')))"
    by (rule sorted_sort [OF d])+
  show "set (sort_strings (map fst (rule_winners X rules))) = set (sort_strings (map fst (rule_winners X rules')))"
    using that by (metis dom_map_of_conv_image_fst list.set_map set_sort_strings)
qed

section \<open>Properties\<close>

text \<open>
  C29. A request is matched to the rule of the longest prefix: walking the trie gives the same answer
  as trying every prefix of the request's host and path segments, longest first, against the finite
  map from segment lists to rules; without any, the wildcard rule answers, if there is one.
\<close>

theorem match_longest_prefix:
  "match_with_prefix X (build_account_matcher X rules) host path =
     (let segs = request_segments X host path;
          r = longest_prefix (rule_table X rules) segs (length segs);
          wildcard = (case m_load (rule_winners X rules) ''*'' of None \<Rightarrow> [] | Some w \<Rightarrow> nr_headers w)
      in if snd r \<noteq> [] then r else if wildcard \<noteq> [] then (''*'', wildcard) else ([], []))"
  by (cases "longest_prefix (rule_table X rules) (request_segments X host path)
        (length (request_segments X host path))")
    (auto simp: match_with_prefix_def match_walk_longest build_lookup Let_def split: prod.splits)

text \<open>
  The matcher depends on the set of rules only, not on their order or on repetitions: of the rules
  with the same normalised prefix the most recently updated one wins, ties go to the smaller text.
\<close>

lemma matcher_order_independent:
  assumes "set rules = set rules'" "\<forall>r \<in> set rules. rule_ok r"
  shows "build_account_matcher X rules = build_account_matcher X rules'"
  using winner_keys [OF rule_winners_set [OF assms, of X]] rule_winners_set [OF assms, of X]
  by (simp add: build_account_matcher_def Let_def)

section \<open>Witnesses\<close>

definition sample_rules :: "header_rule list" where
  "sample_rules = [\<lparr>hr_url_prefix = ''*'', hr_headers = [''A''], hr_updated_at_ns = 1\<rparr>,
     \<lparr>hr_url_prefix = ''b/v'', hr_headers = [''H''], hr_updated_at_ns = 1\<rparr>]"

text \<open>
  A host and the same host with a slash are two rules with one place in the trie: the one with the
  slash is inserted later and answers, even when it is older.
\<close>

lemma trailing_slash_wins:
  "match_with_prefix plain_external (build_account_matcher plain_external
     [\<lparr>hr_url_prefix = ''1'', hr_headers = [''New''], hr_updated_at_ns = 2\<rparr>,
      \<lparr>hr_url_prefix = ''1/'', hr_headers = [''Old''], hr_updated_at_ns = 1\<rparr>]) ''1'' [] = (''1/'', [''Old''])"
proof -
  have n: "normalize_rule_prefix plain_external ''1'' = Inr ''1''" "normalize_rule_prefix plain_external ''1/'' = Inr ''1/''"
    by (simp_all add: normalize_rule_prefix_def trim_space_plain plain_char_def split_two_def index_byte_def
        to_lower_def ascii_def lower_char_def)
  have sp: "split_prefix plain_external ''1'' = [''1'']" "split_prefix plain_external ''1/'' = [''1'']"
    by (simp_all add: split_prefix_def split_two_def index_byte_def to_lower_def ascii_def lower_char_def)
  have r: "request_segments plain_external ''1'' [] = [''1'']"
    by (simp add: request_segments_def normalize_match_host_def to_lower_def ascii_def lower_char_def
        split_host_port_def last_index_byte_def index_byte_def plain_external_def)
  show ?thesis
    by (simp add: match_with_prefix_def r build_account_matcher_def rule_winners_def add_candidate_def
        candidate_of_def n Let_def sort_strings_def insert_winner_def sp empty_node_def)
qed

end
