(* ===== verification/Proxy_Identity.thy ===== *)
theory Proxy_Identity
  imports Platform Net_Domain
begin

text \<open>
  Who a proxied request belongs to (\<open>internal/proxy/identity_v1.go\<close>, the authentication in
  \<open>forward.go\<close>, the path format and the account resolution in \<open>reverse.go\<close>): the formats of the
  credential and of the reverse path, the token checks, and where the account comes from. The
  lemmas show that every valid platform name survives the formats, that nothing passes without the
  token, and which source of the account wins. Base64, URL parsing and the account rules come in
  as parameters.
\<close>

section \<open>Identities and credentials\<close>

definition parse_v1_identity :: "string \<Rightarrow> string \<times> string" where
  "parse_v1_identity identity =
     (case (index_byte CHR ''.'' identity, index_byte CHR '':'' identity) of
        (None, None) \<Rightarrow> (identity, [])
      | (None, Some colon) \<Rightarrow> (take colon identity, drop (colon + 1) identity)
      | (Some dot, None) \<Rightarrow> (take dot identity, drop (dot + 1) identity)
      | (Some dot, Some colon) \<Rightarrow>
          if dot < colon then (take dot identity, drop (dot + 1) identity)
          else (take colon identity, drop (colon + 1) identity))"

definition parse_forward_credential_v1 :: "string \<Rightarrow> string \<times> string \<times> string" where
  "parse_forward_credential_v1 credential =
     (let (identity, token) = (case last_index_byte CHR '':'' credential of
            None \<Rightarrow> (credential, []) | Some idx \<Rightarrow> (take idx credential, drop (idx + 1) credential));
          (platform, account) = parse_v1_identity identity
      in (token, platform, account))"

definition parse_forward_credential_v1_when_auth_disabled :: "string \<Rightarrow> string \<times> string" where
  "parse_forward_credential_v1_when_auth_disabled credential =
     (let full = (let (_, platform, account) = parse_forward_credential_v1 credential in (platform, account));
          dotted = (case last_index_byte CHR '':'' credential of
                      None \<Rightarrow> False | Some i \<Rightarrow> CHR ''.'' \<in> set (take i credential))
      in if dotted then full
         else if length (filter (\<lambda>c. c = CHR '':'') credential) = 1 then parse_v1_identity credential
         else full)"

section \<open>Errors and headers\<close>

datatype proxy_error =
    Auth_Required | Auth_Failed | Url_Parse_Error | Invalid_Protocol | Invalid_Host
  | Platform_Not_Found | Account_Rejected | No_Available_Nodes
  | Upstream_Connect_Failed | Upstream_Timeout | Upstream_Request_Failed | Internal_Error

definition http_code :: "proxy_error \<Rightarrow> nat" where
  "http_code e = (case e of
     Auth_Required \<Rightarrow> 407 | Auth_Failed \<Rightarrow> 403 | Url_Parse_Error \<Rightarrow> 400 | Invalid_Protocol \<Rightarrow> 400
   | Invalid_Host \<Rightarrow> 400 | Platform_Not_Found \<Rightarrow> 404 | Account_Rejected \<Rightarrow> 403 | No_Available_Nodes \<Rightarrow> 503
   | Upstream_Connect_Failed \<Rightarrow> 502 | Upstream_Timeout \<Rightarrow> 504 | Upstream_Request_Failed \<Rightarrow> 502
   | Internal_Error \<Rightarrow> 500)"

text \<open>\<open>http.Header\<close>: canonical names with their values; \<open>Get\<close> gives the first value or nothing.\<close>

type_synonym header = "(string, string list) amap"

definition header_get :: "string \<Rightarrow> header \<Rightarrow> string" where
  "header_get name h = (case m_load h (canonical_header_key name) of Some (v # _) \<Rightarrow> v | _ \<Rightarrow> [])"

definition header_del :: "string \<Rightarrow> header \<Rightarrow> header" where
  "header_del name h = m_delete (canonical_header_key name) h"

definition extract_account_from_headers :: "header \<Rightarrow> string list \<Rightarrow> string" where
  "extract_account_from_headers h names =
     (case List.find (\<lambda>n. header_get n h \<noteq> []) names of None \<Rightarrow> [] | Some n \<Rightarrow> header_get n h)"

text \<open>\<open>nil\<close> as the value of a key suppresses the address that the standard library would add.\<close>

definition forwarding_identity_headers :: "string list" where
  "forwarding_identity_headers = [''X-Resin-Account'', ''Forwarded'', ''X-Forwarded-For'', ''X-Forwarded-Host'',
     ''X-Forwarded-Proto'', ''X-Forwarded-Port'', ''X-Forwarded-Server'', ''Via'', ''X-Real-IP'', ''X-Client-IP'',
     ''True-Client-IP'', ''CF-Connecting-IP'', ''X-ProxyUser-Ip'']"

definition strip_forwarding_identity_headers :: "header \<Rightarrow> header" where
  "strip_forwarding_identity_headers h =
     m_store ''X-Forwarded-For'' [] (fold header_del forwarding_identity_headers h)"

definition hop_by_hop_headers :: "string list" where
  "hop_by_hop_headers = [''Connection'', ''Proxy-Connection'', ''Keep-Alive'', ''Proxy-Authenticate'',
     ''Proxy-Authorization'', ''TE'', ''Trailer'', ''Transfer-Encoding'', ''Upgrade'']"

definition strip_hop_by_hop_headers :: "header \<Rightarrow> header" where
  "strip_hop_by_hop_headers h =
     (let listed = concat (map (split_at_byte CHR '','') (case m_load h ''Connection'' of None \<Rightarrow> [] | Some vs \<Rightarrow> vs));
          h1 = fold (\<lambda>n h. let t = trim_space n in if t \<noteq> [] then header_del t h else h) listed h
      in fold header_del hop_by_hop_headers h1)"

section \<open>Forward proxy authentication\<close>

text \<open>\<open>strings.Fields\<close>.\<close>

fun next_word :: "string \<Rightarrow> string \<times> string" where
  "next_word [] = ([], [])"
| "next_word (c # cs) = (if drop_first_of go_spaces (c # cs) \<noteq> None then ([], c # cs)
     else let (w, r) = next_word cs in (c # w, r))"

lemma next_word_shorter: "next_word s = (w, r) \<Longrightarrow> length r \<le> length s"
  by (induction s arbitrary: w r) (auto split: if_splits prod.splits)

lemma trim_front_shorter: "length (trim_front ps s) \<le> length s"
  using trim_front_suffix [of s ps] by (metis length_append le_add2)

function go_fields :: "string \<Rightarrow> string list" where
  "go_fields s = (case trim_front go_spaces s of
     [] \<Rightarrow> [] | c # cs \<Rightarrow> (let (w, r) = next_word cs in (c # w) # go_fields r))"
  by pat_completeness auto
termination
proof (relation "measure length")
  fix s c cs x w r
  assume a: "trim_front go_spaces s = c # cs" "x = next_word cs" "(w, r) = x"
  have "length (c # cs) \<le> length s" using a(1) trim_front_shorter [of go_spaces s] by simp
  with a(2,3) next_word_shorter [of cs w r] show "(r, s) \<in> measure length" by simp
qed simp

declare go_fields.simps [simp del]

definition parse_proxy_authorization_credential_v1 ::
  "external \<Rightarrow> (string \<Rightarrow> string option) \<Rightarrow> string \<Rightarrow> string option" where
  "parse_proxy_authorization_credential_v1 X base64 auth =
     (if auth = [] then None
      else case go_fields auth of
        [scheme, payload] \<Rightarrow> if equal_fold (uni_fold X) scheme ''Basic'' then base64 payload else None
      | _ \<Rightarrow> None)"

definition has_basic_user_info :: "string \<Rightarrow> bool" where
  "has_basic_user_info credential \<longleftrightarrow>
     (case last_index_byte CHR '':'' credential of None \<Rightarrow> False | Some i \<Rightarrow> 0 < i)"

definition authenticate_v1 ::
  "external \<Rightarrow> (string \<Rightarrow> string option) \<Rightarrow> string \<Rightarrow> bool \<Rightarrow> header \<Rightarrow> proxy_error + string \<times> string" where
  "authenticate_v1 X base64 token require_auth_info h =
     (let auth = header_get ''Proxy-Authorization'' h in
      if token = [] then
        (case parse_proxy_authorization_credential_v1 X base64 auth of
           None \<Rightarrow> if require_auth_info then Inl Auth_Required else Inr ([], [])
         | Some credential \<Rightarrow>
             if require_auth_info \<and> \<not> has_basic_user_info credential then Inl Auth_Required
             else Inr (parse_forward_credential_v1_when_auth_disabled credential))
      else (case parse_proxy_authorization_credential_v1 X base64 auth of
           None \<Rightarrow> Inl Auth_Required
         | Some credential \<Rightarrow>
             let (tok, platform, account) = parse_forward_credential_v1 credential in
             if tok \<noteq> token then Inl Auth_Failed else Inr (platform, account)))"

section \<open>Reverse proxy paths\<close>

record parsed_path =
  pp_platform_name :: string
  pp_account :: string
  pp_protocol :: string
  pp_host :: string
  pp_path :: string

text \<open>\<open>url.PathUnescape\<close>: a percent sign must be followed by two hexadecimal digits.\<close>

definition hex_value :: "char \<Rightarrow> nat option" where
  "hex_value c = (let n = of_char c in
     if 48 \<le> n \<and> n \<le> 57 then Some (n - 48)
     else if 97 \<le> n \<and> n \<le> 102 then Some (n - 87)
     else if 65 \<le> n \<and> n \<le> 70 then Some (n - 55) else None)"

fun path_unescape :: "string \<Rightarrow> string option" where
  "path_unescape [] = Some []"
| "path_unescape (c # cs) =
     (if c = CHR ''%'' then
        (case cs of
           a # b # rest \<Rightarrow>
             (case (hex_value a, hex_value b) of
                (Some x, Some y) \<Rightarrow> map_option ((#) (char_of (16 * x + y))) (path_unescape rest)
              | _ \<Rightarrow> None)
         | _ \<Rightarrow> None)
      else map_option ((#) c) (path_unescape cs))"

definition decode_path_segment_v1 :: "string \<Rightarrow> proxy_error + string" where
  "decode_path_segment_v1 s = (case path_unescape s of None \<Rightarrow> Inl Url_Parse_Error | Some d \<Rightarrow> Inr d)"

text \<open>\<open>strings.SplitN\<close> at a byte into at most \<open>Suc n\<close> parts.\<close>

fun split_n :: "char \<Rightarrow> nat \<Rightarrow> string \<Rightarrow> string list" where
  "split_n c 0 s = [s]"
| "split_n c (Suc n) s = (case index_byte c s of None \<Rightarrow> [s] | Some i \<Rightarrow> take i s # split_n c n (drop (i + 1) s))"

text \<open>
  The parts of \<open>url.Parse\<close> of \<open>http://host\<close> that the check reads: whether there is user
  information, the host, and the host name without the port; \<open>None\<close> is a parse error.
\<close>

type_synonym url_authority = "string \<Rightarrow> (bool \<times> string \<times> string) option"

definition is_valid_host :: "url_authority \<Rightarrow> string \<Rightarrow> bool" where
  "is_valid_host authority host \<longleftrightarrow>
     host \<noteq> [] \<and> \<not> contains_any host (''/ '' @ map char_of [9 :: nat, 10, 13] @ ''@'')
     \<and> \<not> (length (filter (\<lambda>c. c = CHR '':'') host) > 1 \<and> hd host \<noteq> CHR ''['')
     \<and> (case authority (''http://'' @ host) of
          None \<Rightarrow> False
        | Some (user, uhost, hostname) \<Rightarrow> \<not> user \<and> uhost \<noteq> [] \<and> uhost = host \<and> hostname \<noteq> [])"

definition parse_path_v1 :: "external \<Rightarrow> url_authority \<Rightarrow> string \<Rightarrow> string \<Rightarrow> proxy_error + parsed_path" where
  "parse_path_v1 X authority token raw_path =
     (let path = (case drop_prefix ''/'' raw_path of Some r \<Rightarrow> r | None \<Rightarrow> raw_path) in
      if path = [] then Inl Auth_Failed
      else let segments = split_n CHR ''/'' 4 path in
      case decode_path_segment_v1 (segments ! 0) of
        Inl e \<Rightarrow> Inl e
      | Inr tok \<Rightarrow>
      if token \<noteq> [] \<and> tok \<noteq> token then Inl Auth_Failed
      else if length segments < 4 then Inl Url_Parse_Error
      else case decode_path_segment_v1 (segments ! 1) of
        Inl e \<Rightarrow> Inl e
      | Inr identity \<Rightarrow>
      (let (plat_name, account) = parse_v1_identity identity in
      case decode_path_segment_v1 (segments ! 2) of
        Inl e \<Rightarrow> Inl e
      | Inr protocol_seg \<Rightarrow>
      (let protocol = to_lower (uni_lower X) protocol_seg in
      if protocol \<noteq> ''http'' \<and> protocol \<noteq> ''https'' then Inl Invalid_Protocol
      else case decode_path_segment_v1 (segments ! 3) of
        Inl e \<Rightarrow> Inl e
      | Inr host \<Rightarrow>
      if host = [] then Inl Invalid_Host
      else if \<not> is_valid_host authority host then Inl Invalid_Host
      else Inr \<lparr>pp_platform_name = plat_name, pp_account = account, pp_protocol = protocol, pp_host = host,
        pp_path = (if length segments = 5 then segments ! 4 else [])\<rparr>)))"

definition build_reverse_target_url :: "url_authority \<Rightarrow> parsed_path \<Rightarrow> string \<Rightarrow> proxy_error + string" where
  "build_reverse_target_url authority parsed raw_query =
     (let url = pp_protocol parsed @ ''://'' @ pp_host parsed
     @ (if pp_path parsed \<noteq> [] then ''/'' @ pp_path parsed else [])
     @ (if raw_query \<noteq> [] then ''?'' @ raw_query else [])
      in case authority url of None \<Rightarrow> Inl Invalid_Host | Some _ \<Rightarrow> Inr url)"

section \<open>The account of a reverse request\<close>

definition effective_empty_account_behavior :: "platform option \<Rightarrow> string" where
  "effective_empty_account_behavior plat = (case plat of
     None \<Rightarrow> behavior_random
   | Some p \<Rightarrow> if behavior_is_valid (empty_account_behavior p) then empty_account_behavior p else behavior_random)"

definition fixed_account_headers_for_platform :: "external \<Rightarrow> platform option \<Rightarrow> string list" where
  "fixed_account_headers_for_platform X plat = (case plat of
     None \<Rightarrow> []
   | Some p \<Rightarrow>
       if fixed_account_headers p \<noteq> [] then fixed_account_headers p
       else if fixed_account_header p = [] then []
       else case normalize_fixed_account_headers X (fixed_account_header p) of
         Inl _ \<Rightarrow> [] | Inr (_, headers) \<Rightarrow> headers)"

text \<open>\<open>rules\<close> is the account rule matcher, absent when none is configured.\<close>

definition resolve_reverse_proxy_account ::
  "external \<Rightarrow> (string \<Rightarrow> string \<Rightarrow> string list) option \<Rightarrow> parsed_path \<Rightarrow> header \<Rightarrow> platform option
    \<Rightarrow> string \<times> string \<times> bool" where
  "resolve_reverse_proxy_account X rules parsed h plat =
     (let behavior = effective_empty_account_behavior plat;
          header_account = header_get ''X-Resin-Account'' h
      in if header_account \<noteq> [] then (header_account, behavior, False)
         else if pp_account parsed \<noteq> [] then (pp_account parsed, behavior, False)
         else if behavior = behavior_random then ([], behavior, False)
         else if behavior = behavior_fixed_header then
           (let headers = fixed_account_headers_for_platform X plat in
            if headers = [] then ([], behavior, True)
            else let account = extract_account_from_headers h headers in (account, behavior, account = []))
         else if behavior = behavior_account_header_rule then
           (case rules of
              None \<Rightarrow> ([], behavior, True)
            | Some match \<Rightarrow>
                let headers = match (pp_host parsed) (pp_path parsed) in
                if headers = [] then ([], behavior, True)
                else let account = extract_account_from_headers h headers in (account, behavior, account = []))
         else ([], behavior, False))"

definition should_reject_extraction_failure :: "bool \<Rightarrow> platform option \<Rightarrow> bool" where
  "should_reject_extraction_failure failed plat = (case plat of
     None \<Rightarrow> False | Some p \<Rightarrow> failed \<and> normalize_miss_action (miss_action p) = miss_reject)"

section \<open>Round trips\<close>

lemma take_drop_index:
  "index_byte c s = Some i \<Longrightarrow> take i s @ c # drop (i + 1) s = s \<and> c \<notin> set (take i s) \<and> i < length s"
  using find_index_Some [of "\<lambda>d. d = c" s i]
  by (auto simp: index_byte_def in_set_conv_nth id_take_nth_drop [symmetric])

lemma index_byte_first: "c \<notin> set s \<Longrightarrow> index_byte c (s @ c # t) = Some (length s)"
  by (rule index_byte_at)

lemma index_byte_append: "c \<notin> set s \<Longrightarrow> index_byte c (s @ t) = map_option (\<lambda>i. length s + i) (index_byte c t)"
proof (induction s)
  case Nil
  then show ?case by (simp add: option.map_ident)
next
  case (Cons d s)
  then show ?case by (cases "index_byte c t") (auto simp: index_byte_def)
qed

lemma parse_v1_identity_at:
  assumes "d = CHR ''.'' \<or> d = CHR '':''" "CHR ''.'' \<notin> set p" "CHR '':'' \<notin> set p"
  shows "parse_v1_identity (p @ d # a) = (p, a)"
proof -
  have "index_byte CHR ''.'' (p @ d # a) = map_option (\<lambda>i. length p + i) (index_byte CHR ''.'' (d # a))"
    "index_byte CHR '':'' (p @ d # a) = map_option (\<lambda>i. length p + i) (index_byte CHR '':'' (d # a))"
    by (rule index_byte_append [OF assms(2)], rule index_byte_append [OF assms(3)])
  with assms(1) show ?thesis
    by (auto simp: parse_v1_identity_def index_byte_def split: option.split)
qed

lemma parse_v1_identity_alone:
  "CHR ''.'' \<notin> set p \<Longrightarrow> CHR '':'' \<notin> set p \<Longrightarrow> parse_v1_identity p = (p, [])"
  using iffD2 [OF index_byte_None, of "CHR ''.''" p] iffD2 [OF index_byte_None, of "CHR '':''" p]
  by (simp add: parse_v1_identity_def del: index_byte_None)

lemma valid_name_plain:
  "validate_platform_name X name = Inr u \<Longrightarrow> CHR ''.'' \<notin> set name \<and> CHR '':'' \<notin> set name \<and> name \<noteq> []"
  by (auto simp: validate_platform_name_def contains_any_def name_forbidden_chars_def list_ex_iff split: if_splits)

lemma parse_credential_at:
  "CHR '':'' \<notin> set tok \<Longrightarrow> parse_forward_credential_v1 (identity @ CHR '':'' # tok)
     = (tok, fst (parse_v1_identity identity), snd (parse_v1_identity identity))"
  by (simp add: parse_forward_credential_v1_def last_index_byte_at split: prod.split)

lemma last_index_split:
  assumes "last_index_byte c s = Some i"
  shows "s = take i s @ c # drop (i + 1) s \<and> c \<notin> set (drop (i + 1) s)"
proof -
  obtain j where j: "index_byte c (rev s) = Some j" "i = length s - 1 - j"
    using assms by (auto simp: last_index_byte_def split: option.splits)
  note t = take_drop_index [OF j(1)]
  then have jl: "j < length s" by simp
  have r: "rev s = take j (rev s) @ c # drop (j + 1) (rev s)" using t by simp
  have "rev (rev s) = rev (drop (j + 1) (rev s)) @ c # rev (take j (rev s))" by (subst r) simp
  then have "s = take (length s - (j + 1)) s @ c # drop (length s - j) s"
    by (simp add: rev_drop rev_take)
  moreover have "i = length s - (j + 1)" "i + 1 = length s - j" using j(2) jl by simp_all
  ultimately have "s = take i s @ c # drop (i + 1) s" by simp
  moreover have "c \<notin> set (drop (i + 1) s)"
    using t \<open>i + 1 = length s - j\<close> by (metis rev_drop rev_rev_ident set_rev take_rev rev_take)
  ultimately show ?thesis by blast
qed

text \<open>Percent encoding of every byte, and of the segments of a path.\<close>

definition hex_digit :: "nat \<Rightarrow> char" where
  "hex_digit k = (if k < 10 then char_of (48 + k) else char_of (55 + k))"

fun percent_encode :: "string \<Rightarrow> string" where
  "percent_encode [] = []"
| "percent_encode (c # cs) = CHR ''%'' # hex_digit (of_char c div 16) # hex_digit (of_char c mod 16) # percent_encode cs"

lemma char_below_256: "(of_char c :: nat) < 256"
  using nat_of_char_less_256 [of c] by simp

lemma hex_value_digit: "k < 16 \<Longrightarrow> hex_value (hex_digit k) = Some k"
  by (simp add: hex_value_def hex_digit_def Let_def)

lemma path_unescape_encode: "path_unescape (percent_encode s) = Some s"
proof (induction s)
  case (Cons c s)
  have "(of_char c :: nat) div 16 < 16" by (rule less_mult_imp_div_less) (simp add: char_below_256)
  with Cons hex_value_digit show ?case
    by (simp add: hex_value_digit [OF \<open>(of_char c :: nat) div 16 < 16\<close>])
qed simp

lemma slash_not_digit: "k < 16 \<Longrightarrow> hex_digit k \<noteq> CHR ''/''"
proof
  assume k: "k < 16" and e: "hex_digit k = CHR ''/''"
  have "hex_value (CHR ''/'') = None" by (simp add: hex_value_def)
  with hex_value_digit [OF k] e show False by simp
qed

lemma slash_not_encoded: "CHR ''/'' \<notin> set (percent_encode s)"
proof (induction s)
  case (Cons c s)
  have "(of_char c :: nat) div 16 < 16" by (rule less_mult_imp_div_less) (simp add: char_below_256)
  with Cons slash_not_digit [of "of_char c div 16"] slash_not_digit [of "of_char c mod 16"] show ?case
    by (auto dest: sym)
qed simp

lemma split_n_Suc: "c \<notin> set s \<Longrightarrow> split_n c (Suc n) (s @ c # t) = s # split_n c n t"
  by (simp add: index_byte_first)

lemma split_n_none: "c \<notin> set s \<Longrightarrow> split_n c n s = [s]"
proof (cases n)
  case (Suc m)
  assume "c \<notin> set s"
  then have "index_byte c s = None" by simp
  with Suc show ?thesis by (simp del: index_byte_None)
qed simp

lemma parse_path_parts:
  assumes "\<And>x. x \<in> {tok, identity, protocol, host} \<Longrightarrow> CHR ''/'' \<notin> set x" "tok \<noteq> []"
  shows "split_n CHR ''/'' 4 (tok @ ''/'' @ identity @ ''/'' @ protocol @ ''/'' @ host @ ''/'' @ rest)
      = [tok, identity, protocol, host, rest]"
    and "split_n CHR ''/'' 4 (tok @ ''/'' @ identity @ ''/'' @ protocol @ ''/'' @ host)
      = [tok, identity, protocol, host]"
proof -
  have n: "CHR ''/'' \<notin> set tok" "CHR ''/'' \<notin> set identity" "CHR ''/'' \<notin> set protocol" "CHR ''/'' \<notin> set host"
    using assms(1) by blast+
  have four: "(4 :: nat) = Suc (Suc (Suc (Suc 0)))" by simp
  show "split_n CHR ''/'' 4 (tok @ ''/'' @ identity @ ''/'' @ protocol @ ''/'' @ host @ ''/'' @ rest)
      = [tok, identity, protocol, host, rest]"
    unfolding four by (simp add: split_n_Suc n del: split_n.simps(2)) 
  show "split_n CHR ''/'' 4 (tok @ ''/'' @ identity @ ''/'' @ protocol @ ''/'' @ host)
      = [tok, identity, protocol, host]"
    unfolding four by (simp add: split_n_Suc n(1-3) split_n_none [OF n(4)] del: split_n.simps(2))
qed

section \<open>Properties\<close>

text \<open>
  The formats of the forward credential keep every valid platform name and every account: for a
  name that the platform validation accepts, an account of any bytes and a token without a colon,
  both separators are parsed back into the three parts, and the part of the credential after its
  last colon is the token that is compared.
\<close>

lemma credential_roundtrip:
  assumes "validate_platform_name X platform = Inr u" "CHR '':'' \<notin> set token" "sep \<in> {CHR ''.'', CHR '':''}"
  shows "parse_forward_credential_v1 (platform @ [sep] @ account @ '':'' @ token) = (token, platform, account)
    \<and> parse_forward_credential_v1 (platform @ '':'' @ token) = (token, platform, [])
    \<and> parse_v1_identity (platform @ [sep] @ account) = (platform, account)"
proof -
  note plain = valid_name_plain [OF assms(1)]
  have id: "parse_v1_identity (platform @ sep # account) = (platform, account)"
    using plain assms(3) by (intro parse_v1_identity_at) auto
  have "parse_v1_identity platform = (platform, [])" using plain by (simp add: parse_v1_identity_alone)
  with id parse_credential_at [OF assms(2), of "platform @ sep # account"] parse_credential_at [OF assms(2), of platform]
  show ?thesis by simp
qed

text \<open>
  C30. Nothing passes the forward proxy without the token: with a token configured, a request is
  authenticated only if its header carries a Basic credential whose text after the last colon is
  exactly the token; without any credential the answer asks for one, with a wrong token it refuses.
\<close>

theorem forward_auth_needs_token:
  assumes "token \<noteq> []"
  shows "case authenticate_v1 X base64 token require h of
      Inr (platform, account) \<Rightarrow> \<exists>scheme payload identity.
          go_fields (header_get ''Proxy-Authorization'' h) = [scheme, payload]
          \<and> equal_fold (uni_fold X) scheme ''Basic'' \<and> base64 payload = Some (identity @ '':'' @ token)
          \<and> CHR '':'' \<notin> set token \<and> (platform, account) = parse_v1_identity identity
    | Inl e \<Rightarrow> e = (if parse_proxy_authorization_credential_v1 X base64 (header_get ''Proxy-Authorization'' h) = None
        then Auth_Required else Auth_Failed)"
proof (cases "parse_proxy_authorization_credential_v1 X base64 (header_get ''Proxy-Authorization'' h)")
  case None
  with assms show ?thesis by (simp add: authenticate_v1_def)
next
  case (Some credential)
  obtain scheme payload where payload: "go_fields (header_get ''Proxy-Authorization'' h) = [scheme, payload]"
    "equal_fold (uni_fold X) scheme ''Basic''" "base64 payload = Some credential"
    using Some by (auto simp: parse_proxy_authorization_credential_v1_def split: if_splits list.splits)
  obtain tok platform account where c: "parse_forward_credential_v1 credential = (tok, platform, account)"
    by (metis prod_cases3)
  show ?thesis
  proof (cases "tok = token")
    case False
    with Some assms c show ?thesis by (simp add: authenticate_v1_def)
  next
    case True
    with assms c obtain i where i: "last_index_byte CHR '':'' credential = Some i" "drop (i + 1) credential = token"
      "(platform, account) = parse_v1_identity (take i credential)"
      by (auto simp: parse_forward_credential_v1_def split: option.splits prod.splits)
    from last_index_split [OF i(1)] i(2) have split: "credential = take i credential @ '':'' @ token" "CHR '':'' \<notin> set token"
      by auto
    have "authenticate_v1 X base64 token require h = Inr (platform, account)"
      using Some assms c True by (simp add: authenticate_v1_def)
    moreover have "base64 payload = Some (take i credential @ '':'' @ token)" using payload(3) split(1) by simp
    ultimately show ?thesis using payload(1,2) split(2) i(3) by auto
  qed
qed

lemma reverse_path_facts:
  assumes "validate_platform_name X platform = Inr u" "token \<noteq> []" "protocol \<in> {''http'', ''https''}"
    and "is_valid_host authority host" "configured \<in> {[], token}"
  shows "parse_path_v1 X authority configured (''/'' @ percent_encode token @ ''/''
        @ percent_encode (platform @ ''.'' @ account) @ ''/'' @ percent_encode protocol @ ''/''
        @ percent_encode host @ ''/'' @ rest)
      = Inr \<lparr>pp_platform_name = platform, pp_account = account, pp_protocol = protocol, pp_host = host, pp_path = rest\<rparr>"
    and "\<And>other tail. other \<noteq> [] \<Longrightarrow> other \<noteq> token \<Longrightarrow>
      parse_path_v1 X authority other (''/'' @ percent_encode token @ ''/'' @ tail) = Inl Auth_Failed"
proof -
  have plain: "CHR ''.'' \<notin> set platform \<and> CHR '':'' \<notin> set platform" using valid_name_plain [OF assms(1)] by blast
  have id: "parse_v1_identity (platform @ CHR ''.'' # account) = (platform, account)"
    using plain by (intro parse_v1_identity_at) auto
  have low: "to_lower (uni_lower X) protocol = protocol"
    using assms(3) by (auto simp: to_lower_def ascii_def lower_char_def)
  have tok: "percent_encode token \<noteq> []" using assms(2) by (cases token) simp_all
  have host: "host \<noteq> []" using assms(4) by (simp add: is_valid_host_def)
  note parts = parse_path_parts(1) [of "percent_encode token" "percent_encode (platform @ CHR ''.'' # account)"
      "percent_encode protocol" "percent_encode host" rest]
  have sp: "split_n CHR ''/'' 4 (percent_encode token @ ''/'' @ percent_encode (platform @ CHR ''.'' # account) @ ''/''
      @ percent_encode protocol @ ''/'' @ percent_encode host @ ''/'' @ rest)
    = [percent_encode token, percent_encode (platform @ CHR ''.'' # account), percent_encode protocol,
       percent_encode host, rest]"
    by (rule parts) (use slash_not_encoded tok in auto)
  show "parse_path_v1 X authority configured (''/'' @ percent_encode token @ ''/''
        @ percent_encode (platform @ ''.'' @ account) @ ''/'' @ percent_encode protocol @ ''/''
        @ percent_encode host @ ''/'' @ rest)
      = Inr \<lparr>pp_platform_name = platform, pp_account = account, pp_protocol = protocol, pp_host = host, pp_path = rest\<rparr>"
    using sp tok assms(3-5) low id host
    by (auto simp: parse_path_v1_def Let_def decode_path_segment_v1_def path_unescape_encode)
  show "parse_path_v1 X authority other (''/'' @ percent_encode token @ ''/'' @ tail) = Inl Auth_Failed"
    if "other \<noteq> []" "other \<noteq> token" for other tail
  proof -
    have "split_n CHR ''/'' (Suc 3) (percent_encode token @ ''/'' @ tail) ! 0 = percent_encode token"
      using split_n_Suc [OF slash_not_encoded, of 3 token tail] by simp
    then have "split_n CHR ''/'' 4 (percent_encode token @ CHR ''/'' # tail) ! 0 = percent_encode token"
      by (simp del: split_n.simps)
    with that show ?thesis
      by (simp add: parse_path_v1_def Let_def decode_path_segment_v1_def path_unescape_encode del: split_n.simps)
  qed
qed


text \<open>
  Where the account of a reverse request comes from: the override header first, then the path,
  then what the platform's behaviour says (nothing, its fixed headers, or the headers of the rule
  that matches host and path; the first header with a value). Extraction counts as failed exactly
  when the behaviour asks for a header and none gave a value, and only then can a platform reject.
\<close>

lemma account_resolution:
  assumes "resolve_reverse_proxy_account X rules parsed h plat = (account, behavior, failed)"
  shows "account = (if header_get ''X-Resin-Account'' h \<noteq> [] then header_get ''X-Resin-Account'' h
        else if pp_account parsed \<noteq> [] then pp_account parsed
        else if behavior = behavior_fixed_header
        then extract_account_from_headers h (fixed_account_headers_for_platform X plat)
        else if behavior = behavior_account_header_rule
        then (case rules of None \<Rightarrow> []
              | Some match \<Rightarrow> extract_account_from_headers h (match (pp_host parsed) (pp_path parsed)))
        else [])"
    and "failed \<longleftrightarrow> account = [] \<and> behavior \<in> {behavior_fixed_header, behavior_account_header_rule}"
    and "should_reject_extraction_failure failed plat \<longleftrightarrow> failed \<and> (\<exists>p. plat = Some p
        \<and> normalize_miss_action (miss_action p) = miss_reject)"
proof -
  have none: "extract_account_from_headers h [] = []" by (simp add: extract_account_from_headers_def)
  have d: "behavior_random \<noteq> behavior_fixed_header" "behavior_random \<noteq> behavior_account_header_rule"
    "behavior_fixed_header \<noteq> behavior_account_header_rule"
    by (simp_all add: behavior_random_def behavior_fixed_header_def behavior_account_header_rule_def)
  show "account = (if header_get ''X-Resin-Account'' h \<noteq> [] then header_get ''X-Resin-Account'' h
        else if pp_account parsed \<noteq> [] then pp_account parsed
        else if behavior = behavior_fixed_header
        then extract_account_from_headers h (fixed_account_headers_for_platform X plat)
        else if behavior = behavior_account_header_rule
        then (case rules of None \<Rightarrow> []
              | Some match \<Rightarrow> extract_account_from_headers h (match (pp_host parsed) (pp_path parsed)))
        else [])"
    and "failed \<longleftrightarrow> account = [] \<and> behavior \<in> {behavior_fixed_header, behavior_account_header_rule}"
    using assms d none unfolding resolve_reverse_proxy_account_def
    by (auto simp: Let_def split: if_splits option.splits)
  show "should_reject_extraction_failure failed plat \<longleftrightarrow> failed \<and> (\<exists>p. plat = Some p
        \<and> normalize_miss_action (miss_action p) = miss_reject)"
    by (auto simp: should_reject_extraction_failure_def split: option.split)
qed

section \<open>Witnesses\<close>

lemma plain_not_space: "plain_char c \<Longrightarrow> drop_first_of go_spaces (c # cs) = None"
  unfolding drop_first_of_None
proof (intro ballI allI notI)
  fix p r assume p: "plain_char c" "p \<in> set go_spaces" "c # cs = p @ r"
  from go_spaces_ends p(2) have "p \<noteq> [] \<and> \<not> plain_char (hd p)" unfolding list_all_iff by blast
  with p(1,3) show False by (cases p) auto
qed

lemma space_dropped: "drop_first_of go_spaces (CHR '' '' # cs) = Some cs"
proof -
  have "map (\<lambda>n. [byte n]) [9, 10, 11, 12, 13, 32] = [[CHR 0x09], [CHR 0x0A], [CHR 0x0B], [CHR 0x0C], [CHR 0x0D], [CHR '' '']]"
    by code_simp
  then show ?thesis by (simp add: go_spaces_def del: list.map)
qed

lemma next_word_plain: "list_all plain_char w \<Longrightarrow> next_word (w @ CHR '' '' # r) = (w, CHR '' '' # r)"
  by (induction w) (simp_all add: plain_not_space space_dropped)

lemma next_word_end: "list_all plain_char w \<Longrightarrow> next_word w = (w, [])"
  by (induction w) (simp_all add: plain_not_space)

lemma go_fields_two:
  assumes "list_all plain_char (a # as)" "list_all plain_char (b # bs)"
  shows "go_fields ((a # as) @ CHR '' '' # b # bs) = [a # as, b # bs]"
proof -
  have f: "trim_front go_spaces (a # xs) = a # xs" "trim_front go_spaces (b # bs) = b # bs" for xs
    using assms by (simp_all add: trim_front_fix plain_not_space)
  have "trim_front go_spaces (CHR '' '' # b # bs) = b # bs"
    by (subst trim_front.simps) (simp add: space_dropped go_spaces_nonempty f)
  moreover have "go_fields [] = []"
    by (subst go_fields.simps) (simp add: trim_front_fix drop_first_of_None go_spaces_def)
  ultimately have "go_fields (CHR '' '' # b # bs) = [b # bs]"
    using next_word_end [of bs] assms by (subst go_fields.simps) simp
  then show ?thesis using next_word_plain [of as "b # bs"] assms f(1)
    by (subst go_fields.simps) simp
qed

lemma plain_name: "validate_platform_name plain_external ''p'' = Inr ()"
  by (simp add: validate_platform_name_def equal_fold_def ascii_def lower_char_def contains_any_def
      name_forbidden_chars_def name_forbidden_spacing_def char_of_def)

theorem forward_auth_needs_token_witness:
  "authenticate_v1 plain_external Some ''tok'' False [(''Proxy-Authorization'', [''Basic p.a:tok''])] = Inr (''p'', ''a'')
   \<and> (\<exists>identity. Some ''p.a:tok'' = Some (identity @ '':'' @ ''tok'') \<and> (''p'', ''a'') = parse_v1_identity identity)"
proof -
  have f: "go_fields ''Basic p.a:tok'' = [''Basic'', ''p.a:tok'']"
    using go_fields_two [of "CHR ''B''" "''asic''" "CHR ''p''" "''.a:tok''"] by (simp add: plain_char_def)
  have c: "canonical_header_key ''Proxy-Authorization'' = ''Proxy-Authorization''"
    by (simp add: canonical_header_key_def token_byte_def upper_char_def lower_char_def)
  have e: "equal_fold (uni_fold plain_external) ''Basic'' ''Basic''" by (simp add: equal_fold_def plain_external_def)
  have p: "parse_forward_credential_v1 ''p.a:tok'' = (''tok'', ''p'', ''a'')"
    by (simp add: parse_forward_credential_v1_def last_index_byte_def index_byte_def parse_v1_identity_def)
  have a: "authenticate_v1 plain_external Some ''tok'' False [(''Proxy-Authorization'', [''Basic p.a:tok''])] = Inr (''p'', ''a'')"
    by (simp add: authenticate_v1_def header_get_def c parse_proxy_authorization_credential_v1_def f e p)
  have "(''tok'' :: string) \<noteq> []" by simp
  note t = forward_auth_needs_token [OF this, where X = plain_external and ?base64.0 = Some and require = False
      and h = "[(''Proxy-Authorization'', [''Basic p.a:tok''])]"]
  from t show ?thesis by (simp add: a header_get_def c f)
qed

definition plain_authority :: url_authority where
  "plain_authority u = Some (False, drop 7 u, drop 7 u)"


end
