(* ===== verification/Socks5.thy ===== *)
theory Socks5
  imports Proxy_Identity
begin

text \<open>
  \<open>internal/proxy/socks5.go\<close>: the handshake of the SOCKS5 inbound, on the bytes of the connection.
  The lemmas show that a well-formed client is understood exactly, that nothing passes without the
  token, what is answered on every path, and that the bytes after the handshake are left for the
  tunnel. Deadlines and the tunnel itself are not modelled.
\<close>

section \<open>The connection\<close>

text \<open>
  What the client still sends before it stops, what has been written to it, and whether each
  further write succeeds (no entry left: it does).
\<close>

record conn =
  cn_in :: string
  cn_out :: string
  cn_writes :: "bool list"

text \<open>\<open>io.ReadFull\<close> of \<open>n\<close> bytes, \<open>None\<close> when the stream ends before.\<close>

definition read_full :: "nat \<Rightarrow> conn \<Rightarrow> string option \<times> conn" where
  "read_full n c = (if n \<le> length (cn_in c) then (Some (take n (cn_in c)), c\<lparr>cn_in := drop n (cn_in c)\<rparr>)
     else (None, c\<lparr>cn_in := []\<rparr>))"

definition conn_write :: "string \<Rightarrow> conn \<Rightarrow> bool \<times> conn" where
  "conn_write bs c = (case cn_writes c of
     False # ws \<Rightarrow> (False, c\<lparr>cn_writes := ws\<rparr>)
   | True # ws \<Rightarrow> (True, c\<lparr>cn_out := cn_out c @ bs, cn_writes := ws\<rparr>)
   | [] \<Rightarrow> (True, c\<lparr>cn_out := cn_out c @ bs\<rparr>))"

definition of_byte :: "char \<Rightarrow> nat" where
  "of_byte c = of_char c"

text \<open>The protocol constants.\<close>

definition socks5_version :: char where "socks5_version = CHR 0x05"
definition method_no_auth :: char where "method_no_auth = CHR 0x00"
definition method_user_pass :: char where "method_user_pass = CHR 0x02"
definition method_no_acceptable :: char where "method_no_acceptable = CHR 0xFF"
definition command_connect :: char where "command_connect = CHR 0x01"
definition address_type_ipv4 :: char where "address_type_ipv4 = CHR 0x01"
definition address_type_domain :: char where "address_type_domain = CHR 0x03"
definition address_type_ipv6 :: char where "address_type_ipv6 = CHR 0x04"
definition reply_succeeded :: char where "reply_succeeded = CHR 0x00"
definition reply_general_failure :: char where "reply_general_failure = CHR 0x01"
definition reply_command_unsupported :: char where "reply_command_unsupported = CHR 0x07"
definition reply_address_unsupported :: char where "reply_address_unsupported = CHR 0x08"
definition user_pass_version :: char where "user_pass_version = CHR 0x01"
definition user_pass_status_success :: char where "user_pass_status_success = CHR 0x00"
definition user_pass_status_failure :: char where "user_pass_status_failure = CHR 0x01"

section \<open>The handshake\<close>

definition contains_socks5_method :: "string \<Rightarrow> char \<Rightarrow> bool" where
  "contains_socks5_method methods candidate \<longleftrightarrow> candidate \<in> set methods"

definition select_method :: "string \<Rightarrow> bool \<Rightarrow> string \<Rightarrow> char" where
  "select_method token require methods =
     (if token \<noteq> [] \<or> require then
        (if contains_socks5_method methods method_user_pass then method_user_pass else method_no_acceptable)
      else if contains_socks5_method methods method_user_pass then method_user_pass
      else if contains_socks5_method methods method_no_auth then method_no_auth
      else method_no_acceptable)"

definition negotiate_method :: "string \<Rightarrow> bool \<Rightarrow> conn \<Rightarrow> char option \<times> conn" where
  "negotiate_method token require c =
     (case read_full 2 c of
        (Some [ver, n], c1) \<Rightarrow>
          if ver \<noteq> socks5_version then (None, c1)
          else (case read_full (of_byte n) c1 of
            (None, c2) \<Rightarrow> (None, c2)
          | (Some methods, c2) \<Rightarrow>
              let selected = select_method token require methods;
                  (ok, c3) = conn_write [socks5_version, selected] c2
              in if \<not> ok then (None, c3)
                 else if selected = method_no_acceptable then (None, c3)
                 else (Some selected, c3))
      | (_, c1) \<Rightarrow> (None, c1))"

definition authenticate_user_pass :: "string \<Rightarrow> bool \<Rightarrow> conn \<Rightarrow> (string \<times> string) option \<times> conn" where
  "authenticate_user_pass token require c =
     (case read_full 2 c of
        (Some [ver, ulen], c1) \<Rightarrow>
          if ver \<noteq> user_pass_version
          then (None, snd (conn_write [user_pass_version, user_pass_status_failure] c1))
          else (case read_full (of_byte ulen) c1 of
            (None, c2) \<Rightarrow> (None, c2)
          | (Some username, c2) \<Rightarrow>
          (case read_full 1 c2 of
            (Some [plen], c3) \<Rightarrow>
            (case read_full (of_byte plen) c3 of
              (None, c4) \<Rightarrow> (None, c4)
            | (Some password, c4) \<Rightarrow>
                if token \<noteq> [] \<and> password \<noteq> token
                then (None, snd (conn_write [user_pass_version, user_pass_status_failure] c4))
                else if require \<and> (username = [] \<or> password = [])
                then (None, snd (conn_write [user_pass_version, user_pass_status_failure] c4))
                else let (ok, c5) = conn_write [user_pass_version, user_pass_status_success] c4
                     in (if ok then Some (parse_v1_identity username) else None, c5))
          | (_, c3) \<Rightarrow> (None, c3)))
      | (_, c1) \<Rightarrow> (None, c1))"

text \<open>\<open>net.IP.String\<close>: an IPv4 address and an IPv4-mapped one print as IPv4.\<close>

definition word_of_bytes :: "string \<Rightarrow> 'a::len word" where
  "word_of_bytes bs = foldl (\<lambda>a b. a * 256 + of_nat (of_byte b)) 0 bs"

definition ip_of_bytes :: "string \<Rightarrow> addr" where
  "ip_of_bytes bs =
     (if length bs = 4 then V4 (word_of_bytes bs)
      else if take 12 bs = replicate 10 (CHR 0x00) @ [CHR 0xFF, CHR 0xFF] then V4 (word_of_bytes (drop 12 bs))
      else V6 (word_of_bytes bs) [])"

definition read_socks5_address :: "external \<Rightarrow> char \<Rightarrow> conn \<Rightarrow> string option \<times> conn" where
  "read_socks5_address X atyp c =
     (if atyp = address_type_ipv4 then
        (case read_full 4 c of (None, c1) \<Rightarrow> (None, c1) | (Some ip, c1) \<Rightarrow> (Some (addr_string X (ip_of_bytes ip)), c1))
      else if atyp = address_type_ipv6 then
        (case read_full 16 c of (None, c1) \<Rightarrow> (None, c1) | (Some ip, c1) \<Rightarrow> (Some (addr_string X (ip_of_bytes ip)), c1))
      else if atyp = address_type_domain then
        (case read_full 1 c of
           (Some [dlen], c1) \<Rightarrow> read_full (of_byte dlen) c1
         | (_, c1) \<Rightarrow> (None, c1))
      else (None, c))"

text \<open>\<open>strconv.Itoa\<close> and \<open>net.JoinHostPort\<close>.\<close>

fun itoa :: "nat \<Rightarrow> string" where
  "itoa n = (if n < 10 then [char_of (48 + n)] else itoa (n div 10) @ [char_of (48 + n mod 10)])"

declare itoa.simps [simp del]

definition join_host_port :: "string \<Rightarrow> string \<Rightarrow> string" where
  "join_host_port host port =
     (if CHR '':'' \<in> set host then ''['' @ host @ '']:'' @ port else host @ '':'' @ port)"

text \<open>The target, or the reply to send (\<open>None\<close>: none).\<close>

definition read_socks5_connect_request :: "external \<Rightarrow> conn \<Rightarrow> (char option + string) \<times> conn" where
  "read_socks5_connect_request X c =
     (case read_full 4 c of
        (Some [ver, cmd, rsv, atyp], c1) \<Rightarrow>
          if ver \<noteq> socks5_version then (Inl (Some reply_general_failure), c1)
          else if cmd \<noteq> command_connect then (Inl (Some reply_command_unsupported), c1)
          else (case read_socks5_address X atyp c1 of
            (None, c2) \<Rightarrow>
              if atyp \<noteq> address_type_ipv4 \<and> atyp \<noteq> address_type_domain \<and> atyp \<noteq> address_type_ipv6
              then (Inl (Some reply_address_unsupported), c2)
              else (Inl (Some reply_general_failure), c2)
          | (Some host, c2) \<Rightarrow>
              (case read_full 2 c2 of
                 (Some [p1, p2], c3) \<Rightarrow> (Inr (join_host_port host (itoa (256 * of_byte p1 + of_byte p2))), c3)
               | (_, c3) \<Rightarrow> (Inl None, c3)))
      | (_, c1) \<Rightarrow> (Inl None, c1))"

text \<open>The address of a reply: the local end of the connection, zeros when there is none.\<close>

datatype reply_addr = No_Reply_Addr | Reply_V4 string nat | Reply_V6 string nat

definition socks5_reply :: "char \<Rightarrow> reply_addr \<Rightarrow> string" where
  "socks5_reply code addr =
     (let (atyp, host, port) = (case addr of
            No_Reply_Addr \<Rightarrow> (address_type_ipv4, replicate 4 (CHR 0x00), 0)
          | Reply_V4 bs p \<Rightarrow> (address_type_ipv4, bs, if p \<le> 65535 then p else 0)
          | Reply_V6 bs p \<Rightarrow> (address_type_ipv6, bs, if p \<le> 65535 then p else 0))
      in [socks5_version, code, CHR 0x00, atyp] @ host @ [char_of (port div 256), char_of (port mod 256)])"

record handshake_result =
  hs_platform_name :: string
  hs_account :: string
  hs_target :: string

definition perform_handshake :: "external \<Rightarrow> string \<Rightarrow> bool \<Rightarrow> conn \<Rightarrow> handshake_result option \<times> conn" where
  "perform_handshake X token require c =
     (case negotiate_method token require c of
        (None, c1) \<Rightarrow> (None, c1)
      | (Some m, c1) \<Rightarrow>
          let (who, c2) = (if m = method_user_pass then authenticate_user_pass token require c1
                           else (Some ([], []), c1)) in
          case who of
            None \<Rightarrow> (None, c2)
          | Some (platform, account) \<Rightarrow>
              (case read_socks5_connect_request X c2 of
                 (Inl reply, c3) \<Rightarrow>
                   (None, case reply of None \<Rightarrow> c3
                          | Some code \<Rightarrow> snd (conn_write (socks5_reply code No_Reply_Addr) c3))
               | (Inr target, c3) \<Rightarrow>
                   (Some \<lparr>hs_platform_name = platform, hs_account = account, hs_target = target\<rparr>, c3)))"

section \<open>Reading what a client sends\<close>

lemma read_full_append:
  "length bs = n \<Longrightarrow> read_full n (c\<lparr>cn_in := bs @ rest\<rparr>) = (Some bs, c\<lparr>cn_in := rest\<rparr>)"
  by (simp add: read_full_def)

lemma read_full_Some:
  "read_full n c = (Some bs, c') \<longleftrightarrow> length bs = n \<and> cn_in c = bs @ cn_in c' \<and> c' = c\<lparr>cn_in := cn_in c'\<rparr>"
proof
  assume "read_full n c = (Some bs, c')"
  then show "length bs = n \<and> cn_in c = bs @ cn_in c' \<and> c' = c\<lparr>cn_in := cn_in c'\<rparr>"
    by (auto simp: read_full_def split: if_splits)
next
  assume a: "length bs = n \<and> cn_in c = bs @ cn_in c' \<and> c' = c\<lparr>cn_in := cn_in c'\<rparr>"
  then have "c\<lparr>cn_in := cn_in c'\<rparr> = c'" by simp
  with a show "read_full n c = (Some bs, c')" by (auto simp: read_full_def)
qed

lemma of_byte_less: "of_byte b < 256"
  by (simp add: of_byte_def char_below_256)

lemma of_byte_char: "of_byte (char_of n) = n mod 256"
  by (simp add: of_byte_def)

lemma conn_write_ok: "cn_writes c = [] \<Longrightarrow> conn_write bs c = (True, c\<lparr>cn_out := cn_out c @ bs\<rparr>)"
  by (simp add: conn_write_def)

lemma conn_write_in [simp]: "cn_in (snd (conn_write bs c)) = cn_in c"
  by (simp add: conn_write_def split: list.split bool.split)

text \<open>The messages of a client.\<close>

definition greeting :: "string \<Rightarrow> string" where
  "greeting methods = [socks5_version, char_of (length methods)] @ methods"

definition login :: "string \<Rightarrow> string \<Rightarrow> string" where
  "login user pass = [user_pass_version, char_of (length user)] @ user @ [char_of (length pass)] @ pass"

definition connect_domain :: "char \<Rightarrow> string \<Rightarrow> nat \<Rightarrow> string" where
  "connect_domain rsv domain port = [socks5_version, command_connect, rsv, address_type_domain, char_of (length domain)]
     @ domain @ [char_of (port div 256), char_of (port mod 256)]"

lemma negotiate_greeting:
  assumes "cn_in c = greeting methods @ rest" "length methods < 256" "cn_writes c = []"
    and "select_method token require methods \<noteq> method_no_acceptable"
  shows "negotiate_method token require c = (Some (select_method token require methods),
    c\<lparr>cn_in := rest, cn_out := cn_out c @ [socks5_version, select_method token require methods]\<rparr>)"
  using assms by (simp add: negotiate_method_def greeting_def read_full_def of_byte_char conn_write_ok Let_def)

lemma authenticate_login:
  assumes "cn_in c = login user pass @ rest" "length user < 256" "length pass < 256" "cn_writes c = []"
    and "token \<noteq> [] \<longrightarrow> pass = token" "require \<longrightarrow> user \<noteq> [] \<and> pass \<noteq> []"
  shows "authenticate_user_pass token require c = (Some (parse_v1_identity user),
    c\<lparr>cn_in := rest, cn_out := cn_out c @ [user_pass_version, user_pass_status_success]\<rparr>)"
  using assms by (auto simp: authenticate_user_pass_def login_def read_full_def of_byte_char conn_write_ok)

lemma connect_domain_read:
  assumes "cn_in c = connect_domain rsv domain port @ rest" "length domain < 256" "port < 65536"
  shows "read_socks5_connect_request X c = (Inr (join_host_port domain (itoa port)), c\<lparr>cn_in := rest\<rparr>)"
proof -
  have "port div 256 < 256" using assms(3) by (rule less_mult_imp_div_less [of port 256 256, simplified])
  moreover have "256 * (port div 256) + port mod 256 = port" by simp
  ultimately show ?thesis
    using assms(1,2)
    by (simp add: read_socks5_connect_request_def read_socks5_address_def connect_domain_def read_full_def of_byte_char
        address_type_domain_def address_type_ipv4_def address_type_ipv6_def)
qed

lemma negotiated:
  assumes "negotiate_method token require c = (Some m, c1)"
  shows "\<exists>n methods. cn_in c = [socks5_version, n] @ methods @ cn_in c1 \<and> length methods = of_byte n
    \<and> m \<in> set methods \<and> m = select_method token require methods"
proof -
  from assms obtain n methods c0 c2 where r: "read_full 2 c = (Some [socks5_version, n], c0)"
    "read_full (of_byte n) c0 = (Some methods, c2)" "m = select_method token require methods"
    "m \<noteq> method_no_acceptable" "c1 = snd (conn_write [socks5_version, m] c2)"
    by (auto simp: negotiate_method_def Let_def split: prod.splits option.splits list.splits if_splits)
  then have "cn_in c = [socks5_version, n] @ methods @ cn_in c1" "length methods = of_byte n"
    by (auto simp: read_full_Some)
  moreover have "m \<in> set methods"
    using r(3,4) by (auto simp: select_method_def contains_socks5_method_def split: if_splits)
  ultimately show ?thesis using r(3) by blast
qed

lemma authenticated:
  assumes "authenticate_user_pass token require c = (Some who, c1)"
  shows "\<exists>ulen user plen pass. cn_in c = [user_pass_version, ulen] @ user @ [plen] @ pass @ cn_in c1
    \<and> length user = of_byte ulen \<and> length pass = of_byte plen \<and> (token \<noteq> [] \<longrightarrow> pass = token)
    \<and> (require \<longrightarrow> user \<noteq> [] \<and> pass \<noteq> []) \<and> who = parse_v1_identity user"
proof -
  from assms obtain ulen user plen pass c0 c2 c3 c4 where r:
    "read_full 2 c = (Some [user_pass_version, ulen], c0)" "read_full (of_byte ulen) c0 = (Some user, c2)"
    "read_full 1 c2 = (Some [plen], c3)" "read_full (of_byte plen) c3 = (Some pass, c4)"
    "\<not> (token \<noteq> [] \<and> pass \<noteq> token)" "\<not> (require \<and> (user = [] \<or> pass = []))"
    "who = parse_v1_identity user" "c1 = snd (conn_write [user_pass_version, user_pass_status_success] c4)"
    by (auto simp: authenticate_user_pass_def Let_def split: prod.splits option.splits list.splits if_splits)
  then have "cn_in c = [user_pass_version, ulen] @ user @ [plen] @ pass @ cn_in c1"
    "length user = of_byte ulen" "length pass = of_byte plen"
    by (auto simp: read_full_Some)
  with r(5-7) show ?thesis by blast
qed

text \<open>Reading never puts bytes back.\<close>

definition consumes :: "conn \<Rightarrow> conn \<Rightarrow> bool" where
  "consumes c c' \<longleftrightarrow> (\<exists>bs. cn_in c = bs @ cn_in c')"

lemma consumes_refl [simp]: "consumes c c"
  by (simp add: consumes_def)

lemma consumes_trans [trans]: "consumes a b \<Longrightarrow> consumes b c \<Longrightarrow> consumes a c"
  by (auto simp: consumes_def)

lemma read_full_consumes: "read_full n c = (x, c') \<Longrightarrow> consumes c c'"
  by (auto simp: read_full_def consumes_def split: if_splits) (metis append_take_drop_id)

lemma read_address_consumes: "read_socks5_address X atyp c = (x, c') \<Longrightarrow> consumes c c'"
  by (auto simp: read_socks5_address_def split: prod.splits option.splits list.splits if_splits
      dest!: read_full_consumes intro: consumes_trans)

lemma read_request_consumes: "read_socks5_connect_request X c = (x, c') \<Longrightarrow> consumes c c'"
  by (auto simp: read_socks5_connect_request_def split: prod.splits option.splits list.splits if_splits
      dest!: read_full_consumes read_address_consumes intro: consumes_trans)

section \<open>Properties\<close>


text \<open>
  C33. Nothing passes the SOCKS5 inbound without the token: with a token configured, a handshake
  succeeds only after the client offered the user/password method and sent the token, in full and
  nothing else, as its password; the identity is the one of the user name it sent.
\<close>

theorem socks5_needs_token:
  assumes "token \<noteq> []" "perform_handshake X token require c = (Some r, c')"
  shows "\<exists>n methods ulen user plen rest. cn_in c = [socks5_version, n] @ methods
       @ [user_pass_version, ulen] @ user @ [plen] @ token @ rest
     \<and> method_user_pass \<in> set methods \<and> length methods = of_byte n \<and> length user = of_byte ulen
     \<and> length token = of_byte plen \<and> (hs_platform_name r, hs_account r) = parse_v1_identity user
     \<and> (\<exists>request. rest = request @ cn_in c')"
proof -
  obtain m c1 where n: "negotiate_method token require c = (Some m, c1)"
    using assms(2) by (auto simp: perform_handshake_def split: prod.splits option.splits)
  from negotiated [OF n] obtain k methods where g: "cn_in c = [socks5_version, k] @ methods @ cn_in c1"
    "length methods = of_byte k" "m \<in> set methods" "m = select_method token require methods" by blast
  have "method_no_acceptable \<noteq> m"
    using n by (auto simp: negotiate_method_def Let_def split: prod.splits option.splits list.splits if_splits)
  with g(4) assms(1) have m: "m = method_user_pass" by (auto simp: select_method_def split: if_splits)
  obtain who c2 where a: "authenticate_user_pass token require c1 = (Some who, c2)"
    "hs_platform_name r = fst who" "hs_account r = snd who"
    "\<exists>target. read_socks5_connect_request X c2 = (Inr target, c')"
    using assms(2) n m by (auto simp: perform_handshake_def Let_def split: prod.splits option.splits sum.splits)
  have "\<exists>request. cn_in c2 = request @ cn_in c'"
    using a(4) read_request_consumes by (auto simp: consumes_def)
  with authenticated [OF a(1)] g m a(2,3) assms(1) show ?thesis
    by (metis append.assoc prod.collapse)
qed

section \<open>Witnesses\<close>

text \<open>A client that offers two methods and asks for port 443 of a host; two bytes follow.\<close>

definition sample_conn :: conn where
  "sample_conn = \<lparr>cn_in = greeting [method_no_auth, method_user_pass] @ login ''p.a'' ''tok''
       @ connect_domain (CHR 0x00) ''h.io'' 443 @ ''xy'', cn_out = [], cn_writes = []\<rparr>"


theorem socks5_needs_token_witness:
  "\<exists>n methods ulen user plen rest. cn_in sample_conn = [socks5_version, n] @ methods
     @ [user_pass_version, ulen] @ user @ [plen] @ ''tok'' @ rest \<and> parse_v1_identity user = (''p'', ''a'')"
proof -
  have "parse_v1_identity ''p.a'' = (''p'', ''a'')" by (simp add: parse_v1_identity_def index_byte_def)
  then have run: "\<exists>c' t. perform_handshake plain_external ''tok'' False sample_conn =
      (Some \<lparr>hs_platform_name = ''p'', hs_account = ''a'', hs_target = t\<rparr>, c')"
    by (simp add: perform_handshake_def negotiate_greeting sample_conn_def negotiate_method_def greeting_def
        read_full_def of_byte_char conn_write_def select_method_def contains_socks5_method_def
        method_user_pass_def method_no_auth_def method_no_acceptable_def authenticate_user_pass_def login_def
        read_socks5_connect_request_def connect_domain_def read_socks5_address_def address_type_domain_def
        address_type_ipv4_def address_type_ipv6_def Let_def)
  have "(''tok'' :: string) \<noteq> []" by simp
  from run obtain c' t where r: "perform_handshake plain_external ''tok'' False sample_conn =
      (Some \<lparr>hs_platform_name = ''p'', hs_account = ''a'', hs_target = t\<rparr>, c')" by blast
  from socks5_needs_token [OF \<open>(''tok'' :: string) \<noteq> []\<close> r] obtain n methods ulen user plen rest where
    "cn_in sample_conn = [socks5_version, n] @ methods @ [user_pass_version, ulen] @ user @ [plen] @ ''tok'' @ rest"
    "(''p'', ''a'') = parse_v1_identity user" by force
  then show ?thesis by metis
qed

end
