(* ===== verification/Probe_Tasks.thy ===== *)
theory Probe_Tasks
  imports Node_Hash "HOL-Library.Multiset"
begin

text \<open>
  The task scheduling of \<open>internal/probe/manager.go\<close>: the two-priority queue, the flags that keep
  one task per node and kind, and the operations of triggers and workers. The lemmas show that the
  ring buffers are queues and give each operation as a function of the flags of its key and the
  queue (\<open>trigger_effect\<close>, \<open>finish_effect\<close>); with operations handled one at a time a trigger is
  never lost. \<open>Probe_Threads\<close> interleaves the atomic steps.
\<close>

section \<open>Tasks and queues\<close>

datatype probe_kind = Kind_Egress | Kind_Latency

datatype probe_priority = Priority_Normal | Priority_High

datatype task_key = Task_Key (tk_hash: hash) (tk_kind: probe_kind)

text \<open>The five bits of the flag word.\<close>

datatype task_flag = Queued | Running | Dirty | Dirty_High | Queued_High

type_synonym task_flags = "task_flag set"

record task_buffer =
  tb_items :: "task_key list"
  tb_head :: nat

definition empty_buffer :: task_buffer where
  "empty_buffer = \<lparr>tb_items = [], tb_head = 0\<rparr>"

definition buffer_len :: "task_buffer \<Rightarrow> nat" where
  "buffer_len b = length (tb_items b) - tb_head b"

definition buffer_push :: "task_key \<Rightarrow> task_buffer \<Rightarrow> task_buffer" where
  "buffer_push k b = b\<lparr>tb_items := tb_items b @ [k]\<rparr>"

definition buffer_pop :: "task_buffer \<Rightarrow> task_key \<times> task_buffer" where
  "buffer_pop b =
     (let task = tb_items b ! tb_head b; h = tb_head b + 1 in
      if h \<ge> length (tb_items b) then (task, empty_buffer)
      else if h > 64 \<and> h * 2 \<ge> length (tb_items b)
      then (task, \<lparr>tb_items = drop h (tb_items b), tb_head = 0\<rparr>)
      else (task, b\<lparr>tb_head := h\<rparr>))"

definition buffer_clear :: "task_buffer \<Rightarrow> task_buffer" where
  "buffer_clear b = empty_buffer"

record task_queue =
  tq_high :: task_buffer
  tq_normal :: task_buffer
  tq_high_cap :: nat
  tq_normal_cap :: nat
  tq_stopped :: bool

definition default_queue_cap :: nat where
  "default_queue_cap = 1024"

definition new_task_queue :: "int \<Rightarrow> int \<Rightarrow> task_queue" where
  "new_task_queue high_cap normal_cap =
     \<lparr>tq_high = empty_buffer, tq_normal = empty_buffer,
      tq_high_cap = (if high_cap \<le> 0 then default_queue_cap else nat high_cap),
      tq_normal_cap = (if normal_cap \<le> 0 then default_queue_cap else nat normal_cap), tq_stopped = False\<rparr>"

definition queue_enqueue :: "task_key \<Rightarrow> probe_priority \<Rightarrow> task_queue \<Rightarrow> bool \<times> task_queue" where
  "queue_enqueue k prio q =
     (if tq_stopped q then (False, q)
      else case prio of
        Priority_High \<Rightarrow>
          if buffer_len (tq_high q) \<ge> tq_high_cap q then (False, q)
          else (True, q\<lparr>tq_high := buffer_push k (tq_high q)\<rparr>)
      | Priority_Normal \<Rightarrow>
          if buffer_len (tq_normal q) \<ge> tq_normal_cap q then (False, q)
          else (True, q\<lparr>tq_normal := buffer_push k (tq_normal q)\<rparr>))"

text \<open>\<open>None\<close>: the worker waits (nothing queued) or ends (stopped).\<close>

definition queue_dequeue :: "bool \<Rightarrow> task_queue \<Rightarrow> (task_key \<times> task_queue) option" where
  "queue_dequeue choose_normal q =
     (if tq_stopped q then None
      else let high_len = buffer_len (tq_high q); normal_len = buffer_len (tq_normal q);
               pop_high = (let (k, b) = buffer_pop (tq_high q) in Some (k, q\<lparr>tq_high := b\<rparr>));
               pop_normal = (let (k, b) = buffer_pop (tq_normal q) in Some (k, q\<lparr>tq_normal := b\<rparr>))
           in if high_len > 0 \<and> normal_len > 0 then (if choose_normal then pop_normal else pop_high)
              else if high_len > 0 then pop_high
              else if normal_len > 0 then pop_normal
              else None)"

definition queue_stop :: "task_queue \<Rightarrow> task_queue" where
  "queue_stop q = q\<lparr>tq_stopped := True, tq_high := buffer_clear (tq_high q), tq_normal := buffer_clear (tq_normal q)\<rparr>"

section \<open>The flags of a task\<close>

text \<open>
  Each function is one round of a compare-and-swap loop: the flags it writes when the swap succeeds
  and what the loop does then. A failed swap changes nothing and reads the flags again.
\<close>

datatype enqueue_outcome = Marked_Dirty | Upgraded | Queued_Now

definition enqueue_flags :: "probe_priority \<Rightarrow> bool \<Rightarrow> task_flags \<Rightarrow> enqueue_outcome \<times> task_flags" where
  "enqueue_flags prio allow_upgrade flags =
     (let dirty = insert Dirty flags \<union> (if prio = Priority_High then {Dirty_High} else {}) in
      if Running \<in> flags then (Marked_Dirty, dirty)
      else if Queued \<in> flags then
        (if allow_upgrade \<and> Queued_High \<notin> flags then (Upgraded, insert Queued_High flags)
         else (Marked_Dirty, dirty))
      else (Queued_Now, if prio = Priority_High then insert Queued_High (insert Queued flags)
                        else insert Queued flags - {Queued_High}))"

definition mark_running_flags :: "task_flags \<Rightarrow> task_flags option" where
  "mark_running_flags flags =
     (if Queued \<notin> flags then None else Some (insert Running flags - {Queued, Queued_High}))"

text \<open>The new flags, and the priority to queue the task again with, if it is dirty.\<close>

definition finish_flags :: "task_flags \<Rightarrow> probe_priority option \<times> task_flags" where
  "finish_flags flags =
     (let next = flags - {Running} in
      if Dirty \<in> flags then
        (let next = insert Queued next - {Dirty} in
         if Dirty_High \<in> flags then (Some Priority_High, insert Queued_High next - {Dirty_High})
         else (Some Priority_Normal, next - {Queued_High}))
      else (None, next - {Dirty, Dirty_High, Queued_High}))"

definition dropped_flags :: "task_flags \<Rightarrow> task_flags" where
  "dropped_flags flags = flags - {Queued, Queued_High, Dirty, Dirty_High}"

section \<open>The operations\<close>

text \<open>State objects are positions in the list of all objects ever made.\<close>

record probe_tasks =
  pt_states :: "(task_key, nat) amap"
  pt_objs :: "task_flags list"
  pt_queue :: task_queue

definition put_flags :: "nat \<Rightarrow> task_flags \<Rightarrow> 'a probe_tasks_scheme \<Rightarrow> 'a probe_tasks_scheme" where
  "put_flags sid f st = st\<lparr>pt_objs := (pt_objs st)[sid := f]\<rparr>"

definition load_task_state :: "task_key \<Rightarrow> 'a probe_tasks_scheme \<Rightarrow> nat \<times> 'a probe_tasks_scheme" where
  "load_task_state k st = (case m_load (pt_states st) k of
     Some sid \<Rightarrow> (sid, st)
   | None \<Rightarrow> let sid = length (pt_objs st)
             in (sid, st\<lparr>pt_states := m_store k sid (pt_states st), pt_objs := pt_objs st @ [{}]\<rparr>))"

definition push_task :: "task_key \<Rightarrow> probe_priority \<Rightarrow> 'a probe_tasks_scheme \<Rightarrow> bool \<times> 'a probe_tasks_scheme" where
  "push_task k prio st = (let (ok, q) = queue_enqueue k prio (pt_queue st) in (ok, st\<lparr>pt_queue := q\<rparr>))"

definition clear_dropped_state :: "nat \<Rightarrow> 'a probe_tasks_scheme \<Rightarrow> 'a probe_tasks_scheme" where
  "clear_dropped_state sid st = put_flags sid (dropped_flags (pt_objs st ! sid)) st"

definition try_delete_task_state :: "task_key \<Rightarrow> nat \<Rightarrow> 'a probe_tasks_scheme \<Rightarrow> 'a probe_tasks_scheme" where
  "try_delete_task_state k sid st =
     (if m_load (pt_states st) k \<noteq> Some sid then st
      else if pt_objs st ! sid \<noteq> {} then st
      else st\<lparr>pt_states := m_delete k (pt_states st)\<rparr>)"

function enqueue_loop ::
  "task_key \<Rightarrow> nat \<Rightarrow> probe_priority \<Rightarrow> bool \<Rightarrow> probe_tasks \<Rightarrow> bool \<times> probe_tasks" where
  "enqueue_loop k sid prio allow_upgrade st =
     (let flags = pt_objs st ! sid; (outcome, next) = enqueue_flags prio allow_upgrade flags;
          st1 = put_flags sid next st
      in case outcome of
           Marked_Dirty \<Rightarrow> (False, st1)
         | Upgraded \<Rightarrow>
             let (ok, st2) = push_task k Priority_High st1 in
             if ok then (True, st2)
             else enqueue_loop k sid prio False (put_flags sid (pt_objs st2 ! sid - {Queued_High}) st2)
         | Queued_Now \<Rightarrow>
             let (ok, st2) = push_task k prio st1 in
             if ok then (True, st2)
             else (False, try_delete_task_state k sid (clear_dropped_state sid st2)))"
  by pat_completeness auto
termination
  by (relation "measure (\<lambda>(k, sid, prio, allow, st). if allow then 1 else 0)")
    (auto simp: enqueue_flags_def Let_def split: if_splits)

declare enqueue_loop.simps [simp del]

definition enqueue_probe :: "hash \<Rightarrow> probe_kind \<Rightarrow> probe_priority \<Rightarrow> probe_tasks \<Rightarrow> bool \<times> probe_tasks" where
  "enqueue_probe h kind prio st =
     (let k = Task_Key h kind; (sid, st1) = load_task_state k st
      in enqueue_loop k sid prio (prio = Priority_High) st1)"

definition mark_task_running :: "task_key \<Rightarrow> probe_tasks \<Rightarrow> nat option \<times> probe_tasks" where
  "mark_task_running k st = (case m_load (pt_states st) k of
     None \<Rightarrow> (None, st)
   | Some sid \<Rightarrow> (case mark_running_flags (pt_objs st ! sid) of
       None \<Rightarrow> (None, try_delete_task_state k sid st)
     | Some next \<Rightarrow> (Some sid, put_flags sid next st)))"

definition finish_task :: "task_key \<Rightarrow> nat \<Rightarrow> probe_tasks \<Rightarrow> probe_tasks" where
  "finish_task k sid st =
     (let (requeue, next) = finish_flags (pt_objs st ! sid);
          st1 = put_flags sid next st;
          st2 = (case requeue of
                   None \<Rightarrow> st1
                 | Some prio \<Rightarrow> let (ok, s) = push_task k prio st1 in if ok then s else clear_dropped_state sid s)
      in try_delete_task_state k sid st2)"

definition stop_probes :: "'a probe_tasks_scheme \<Rightarrow> 'a probe_tasks_scheme" where
  "stop_probes st = st\<lparr>pt_queue := queue_stop (pt_queue st)\<rparr>"

definition new_probe_tasks :: "int \<Rightarrow> int \<Rightarrow> probe_tasks" where
  "new_probe_tasks concurrency queue_capacity =
     (let conc = (if concurrency \<le> 0 then 8 else concurrency);
          cap = (if queue_capacity \<le> 0 then max (i64 (conc * 4)) (int default_queue_cap) else queue_capacity)
      in \<lparr>pt_states = [], pt_objs = [], pt_queue = new_task_queue cap cap\<rparr>)"

section \<open>The buffers are queues\<close>

definition buffer_tasks :: "task_buffer \<Rightarrow> task_key list" where
  "buffer_tasks b = drop (tb_head b) (tb_items b)"

lemma buffer_len_tasks: "buffer_len b = length (buffer_tasks b)"
  by (simp add: buffer_len_def buffer_tasks_def)

definition buffer_ok :: "task_buffer \<Rightarrow> bool" where
  "buffer_ok b \<longleftrightarrow> tb_head b \<le> length (tb_items b)"

lemma buffer_push_tasks: "buffer_ok b \<Longrightarrow> buffer_tasks (buffer_push k b) = buffer_tasks b @ [k] \<and> buffer_ok (buffer_push k b)"
  by (simp add: buffer_ok_def buffer_tasks_def buffer_push_def)

lemma buffer_pop_tasks:
  assumes "buffer_len b > 0" "buffer_pop b = (k, b')"
  shows "buffer_tasks b = k # buffer_tasks b' \<and> buffer_ok b'"
proof -
  have h: "tb_head b < length (tb_items b)" using assms(1) by (simp add: buffer_len_def)
  then have d: "drop (tb_head b) (tb_items b) = tb_items b ! tb_head b # drop (Suc (tb_head b)) (tb_items b)"
    by (simp add: Cons_nth_drop_Suc)
  show ?thesis
    using assms(2) h by (auto simp: buffer_pop_def Let_def buffer_tasks_def buffer_ok_def empty_buffer_def d split: if_splits)
qed

definition queue_tasks :: "task_queue \<Rightarrow> task_key multiset" where
  "queue_tasks q = mset (buffer_tasks (tq_high q)) + mset (buffer_tasks (tq_normal q))"

definition queue_ok :: "task_queue \<Rightarrow> bool" where
  "queue_ok q \<longleftrightarrow> buffer_ok (tq_high q) \<and> buffer_ok (tq_normal q)
     \<and> length (buffer_tasks (tq_high q)) \<le> tq_high_cap q \<and> length (buffer_tasks (tq_normal q)) \<le> tq_normal_cap q"

lemma empty_buffer_tasks [simp]: "buffer_tasks empty_buffer = []" "buffer_ok empty_buffer"
  by (simp_all add: empty_buffer_def buffer_tasks_def buffer_ok_def)

lemma queue_enqueue_spec:
  assumes "queue_ok q" "queue_enqueue k prio q = (ok, q')"
  shows "queue_ok q' \<and> queue_tasks q' = (if ok then add_mset k (queue_tasks q) else queue_tasks q)
    \<and> tq_stopped q' = tq_stopped q"
  using assms
  by (cases prio) (auto simp: queue_enqueue_def queue_ok_def queue_tasks_def buffer_push_tasks buffer_len_tasks split: if_splits)

lemma queue_dequeue_spec:
  assumes "queue_ok q" "queue_dequeue c q = Some (k, q')"
  shows "queue_ok q' \<and> queue_tasks q = add_mset k (queue_tasks q') \<and> tq_stopped q' = tq_stopped q"
proof -
  obtain kh bh where h: "buffer_pop (tq_high q) = (kh, bh)" by (rule prod.exhaust)
  obtain kn bn where n: "buffer_pop (tq_normal q) = (kn, bn)" by (rule prod.exhaust)
  note ph = buffer_pop_tasks [OF _ h] and pn = buffer_pop_tasks [OF _ n]
  show ?thesis
    using assms ph pn
    by (auto simp: queue_dequeue_def Let_def h n queue_ok_def queue_tasks_def split: if_splits)
qed

lemma queue_dequeue_None:
  "queue_dequeue c q = None \<longleftrightarrow> tq_stopped q \<or> queue_tasks q = {#}"
  by (auto simp: queue_dequeue_def Let_def queue_tasks_def buffer_len_tasks split: prod.splits)

section \<open>Flags by key\<close>

definition flags_of :: "'a probe_tasks_scheme \<Rightarrow> task_key \<Rightarrow> task_flags" where
  "flags_of st k = (case m_load (pt_states st) k of None \<Rightarrow> {} | Some sid \<Rightarrow> pt_objs st ! sid)"

definition objs_ok :: "'a probe_tasks_scheme \<Rightarrow> bool" where
  "objs_ok st \<longleftrightarrow> (\<forall>k s. m_load (pt_states st) k = Some s \<longrightarrow> s < length (pt_objs st))
     \<and> (\<forall>k k' s. m_load (pt_states st) k = Some s \<and> m_load (pt_states st) k' = Some s \<longrightarrow> k = k')"

lemma put_flags_spec:
  assumes "objs_ok st" "m_load (pt_states st) k = Some s"
  shows "objs_ok (put_flags s f st)" "flags_of (put_flags s f st) = (flags_of st)(k := f)"
    "pt_states (put_flags s f st) = pt_states st" "pt_queue (put_flags s f st) = pt_queue st"
  using assms by (auto simp: objs_ok_def put_flags_def flags_of_def fun_eq_iff nth_list_update split: option.split)

lemma load_task_state_spec:
  assumes "objs_ok st" "load_task_state k st = (s, st')"
  shows "objs_ok st' \<and> m_load (pt_states st') k = Some s \<and> flags_of st' = flags_of st \<and> pt_queue st' = pt_queue st
    \<and> (\<forall>j. j \<noteq> k \<longrightarrow> m_load (pt_states st') j = m_load (pt_states st) j)
    \<and> (\<forall>t. m_load (pt_states st) k = Some t \<longrightarrow> s = t)"
proof (cases "m_load (pt_states st) k")
  case None
  then have s: "s = length (pt_objs st)" "st' = st\<lparr>pt_states := m_store k s (pt_states st), pt_objs := pt_objs st @ [{}]\<rparr>"
    using assms(2) by (auto simp: load_task_state_def Let_def)
  have lt: "t < length (pt_objs st)" if "m_load (pt_states st) j = Some t" for j t
    using assms(1) that by (auto simp: objs_ok_def)
  have "flags_of st' j = flags_of st j" for j
    using lt [of j] None by (auto simp: s flags_of_def store_simps nth_append split: option.split)
  moreover have "objs_ok st'"
    using assms(1) lt by (auto simp: objs_ok_def s store_simps less_Suc_eq split: if_splits)
  ultimately show ?thesis using None by (auto simp: s store_simps)
next
  case (Some t)
  with assms show ?thesis by (simp add: load_task_state_def)
qed

lemma try_delete_spec:
  assumes "objs_ok st" "m_load (pt_states st) k = Some s"
  shows "objs_ok (try_delete_task_state k s st)" "flags_of (try_delete_task_state k s st) = flags_of st"
    "pt_queue (try_delete_task_state k s st) = pt_queue st"
    "j \<noteq> k \<or> flags_of st k \<noteq> {} \<Longrightarrow> m_load (pt_states (try_delete_task_state k s st)) j = m_load (pt_states st) j"
  using assms
  by (auto simp: try_delete_task_state_def objs_ok_def flags_of_def fun_eq_iff store_simps split: option.split)

lemma push_task_spec:
  "push_task k prio st = (ok, st') \<Longrightarrow> pt_states st' = pt_states st \<and> pt_objs st' = pt_objs st
    \<and> queue_enqueue k prio (pt_queue st) = (ok, pt_queue st')"
  by (auto simp: push_task_def split: prod.splits)

lemma same_objs: "pt_states st' = pt_states st \<Longrightarrow> pt_objs st' = pt_objs st \<Longrightarrow>
    flags_of st' = flags_of st \<and> (objs_ok st' \<longleftrightarrow> objs_ok st)"
  by (simp add: flags_of_def objs_ok_def fun_eq_iff cong: option.case_cong)

text \<open>The whole trigger, on the flags of its key and the queue.\<close>

definition dirty_flags :: "probe_priority \<Rightarrow> task_flags \<Rightarrow> task_flags" where
  "dirty_flags prio f = insert Dirty f \<union> (if prio = Priority_High then {Dirty_High} else {})"

definition queued_flags :: "probe_priority \<Rightarrow> task_flags \<Rightarrow> task_flags" where
  "queued_flags prio f = (if prio = Priority_High then insert Queued_High (insert Queued f)
     else insert Queued f - {Queued_High})"

definition trigger_effect ::
  "task_key \<Rightarrow> probe_priority \<Rightarrow> bool \<Rightarrow> task_flags \<Rightarrow> task_queue \<Rightarrow> bool \<times> task_flags \<times> task_queue" where
  "trigger_effect k prio allow f q =
     (if Running \<in> f then (False, dirty_flags prio f, q)
      else if Queued \<in> f then
        (if allow \<and> Queued_High \<notin> f then
           (let (ok, q') = queue_enqueue k Priority_High q
            in if ok then (True, insert Queued_High f, q') else (False, dirty_flags prio f, q'))
         else (False, dirty_flags prio f, q))
      else (let (ok, q') = queue_enqueue k prio q
            in if ok then (True, queued_flags prio f, q') else (False, dropped_flags (queued_flags prio f), q')))"

lemma enqueue_loop_effect:
  assumes "objs_ok st" "m_load (pt_states st) k = Some s" "enqueue_loop k s prio allow st = (ok, st')"
  shows "objs_ok st' \<and> trigger_effect k prio allow (flags_of st k) (pt_queue st) = (ok, flags_of st' k, pt_queue st')
    \<and> flags_of st' = (flags_of st)(k := flags_of st' k)
    \<and> (\<forall>j. j \<noteq> k \<or> flags_of st' k \<noteq> {} \<longrightarrow> m_load (pt_states st') j = m_load (pt_states st) j)"
  using assms
proof (induction "if allow then 1 else (0 :: nat)" arbitrary: allow st rule: less_induct)
  case less
  let ?f = "flags_of st k"
  have f: "pt_objs st ! s = ?f" using less.prems(2) by (simp add: flags_of_def)
  obtain outcome nxt where o: "enqueue_flags prio allow ?f = (outcome, nxt)" by (rule prod.exhaust)
  define st1 where "st1 = put_flags s nxt st"
  note p = put_flags_spec [OF less.prems(1,2), of nxt, folded st1_def]
  have k1: "m_load (pt_states st1) k = Some s" using p(3) less.prems(2) by simp
  note run = less.prems(3) [unfolded enqueue_loop.simps [of k s prio allow st], unfolded f o Let_def prod.case,
      folded st1_def]
  show ?case
  proof (cases outcome)
    case Marked_Dirty
    with run o p k1 show ?thesis
      by (auto simp: trigger_effect_def enqueue_flags_def dirty_flags_def Let_def split: if_splits)
  next
    case Upgraded
    then have u: "allow" "Running \<notin> ?f" "Queued \<in> ?f" "Queued_High \<notin> ?f" "nxt = insert Queued_High ?f"
      using o by (auto simp: enqueue_flags_def Let_def split: if_splits)
    obtain b st2 where b: "push_task k Priority_High st1 = (b, st2)" by (rule prod.exhaust)
    note q = push_task_spec [OF b] and so = same_objs [of st2 st1]
    show ?thesis
    proof (cases b)
      case True
      with run Upgraded b have "ok" "st' = st2" by simp_all
      with q so p u True k1 show ?thesis by (simp add: trigger_effect_def)
    next
      case False
      define st3 where "st3 = put_flags s (pt_objs st2 ! s - {Queued_High}) st2"
      have s2: "objs_ok st2" "m_load (pt_states st2) k = Some s" using q so p k1 by simp_all
      note p3 = put_flags_spec [OF s2, of "pt_objs st2 ! s - {Queued_High}", folded st3_def]
      have "pt_objs st2 ! s = nxt" using q p(2) k1 by (metis flags_of_def fun_upd_same option.case(2))
      then have f3: "flags_of st3 = flags_of st" using p3(2) q so p(2) u by (auto simp: fun_eq_iff)
      have q3: "pt_queue st3 = pt_queue st2" "queue_enqueue k Priority_High (pt_queue st) = (False, pt_queue st2)"
        using p3(4) q p(4) False by simp_all
      have run3: "enqueue_loop k s prio False st3 = (ok, st')"
        using run Upgraded b False by (simp add: st3_def)
      have k3: "m_load (pt_states st3) k = Some s" using p3(3) s2(2) by simp
      have "objs_ok st' \<and> trigger_effect k prio False (flags_of st3 k) (pt_queue st3) = (ok, flags_of st' k, pt_queue st')
        \<and> flags_of st' = (flags_of st3)(k := flags_of st' k)
        \<and> (\<forall>j. j \<noteq> k \<or> flags_of st' k \<noteq> {} \<longrightarrow> m_load (pt_states st') j = m_load (pt_states st3) j)"
        by (rule less.hyps [OF _ p3(1) k3 run3]) (simp add: u(1))
      moreover have "pt_states st3 = pt_states st" using p3(3) q p(3) by simp
      ultimately show ?thesis
        using u q3 by (simp add: f3 trigger_effect_def)
    qed
  next
    case Queued_Now
    then have u: "Running \<notin> ?f" "Queued \<notin> ?f" "nxt = queued_flags prio ?f"
      using o by (auto simp: enqueue_flags_def queued_flags_def Let_def split: if_splits)
    obtain b st2 where b: "push_task k prio st1 = (b, st2)" by (rule prod.exhaust)
    note q = push_task_spec [OF b] and so = same_objs [of st2 st1]
    show ?thesis
    proof (cases b)
      case True
      with run Queued_Now b have "ok" "st' = st2" by simp_all
      with q so p u True k1 show ?thesis by (simp add: trigger_effect_def)
    next
      case False
      have s2: "objs_ok st2" "m_load (pt_states st2) k = Some s" using q so p k1 by simp_all
      have "pt_objs st2 ! s = nxt" using q p(2) k1 by (metis flags_of_def fun_upd_same option.case(2))
      define st3 where "st3 = clear_dropped_state s st2"
      note p3 = put_flags_spec [OF s2, of "dropped_flags (pt_objs st2 ! s)", folded clear_dropped_state_def, folded st3_def]
      have k3: "m_load (pt_states st3) k = Some s" using p3(3) s2(2) by simp
      note d = try_delete_spec [OF p3(1) k3]
      have "\<not> ok" "st' = try_delete_task_state k s st3"
        using run Queued_Now b False by (simp_all add: st3_def)
      moreover have "flags_of st3 = (flags_of st)(k := dropped_flags nxt)"
        using p3(2) q so p(2) \<open>pt_objs st2 ! s = nxt\<close> by (simp add: fun_eq_iff)
      moreover have "queue_enqueue k prio (pt_queue st) = (False, pt_queue st3)" "pt_states st3 = pt_states st"
        using q p(3,4) p3(3,4) False by simp_all
      ultimately show ?thesis using d u by (simp add: trigger_effect_def)
    qed
  qed
qed

section \<open>Triggers and workers one operation at a time\<close>

text \<open>
  Workers run between \<open>Take\<close> and \<open>Finish\<close>; triggers may come at any point. The logs of started
  and dropped tasks are not part of the program.
\<close>

record probe_system =
  ps_tasks :: probe_tasks
  ps_running :: "(task_key \<times> nat) list"
  ps_started :: "task_key list"
  ps_dropped :: "task_key list"

datatype probe_op = Trigger hash probe_kind probe_priority | Take bool | Finish nat

fun probe_op_step :: "probe_op \<Rightarrow> probe_system \<Rightarrow> probe_system" where
  "probe_op_step (Trigger h kind prio) s =
     s\<lparr>ps_tasks := snd (enqueue_probe h kind prio (ps_tasks s))\<rparr>"
| "probe_op_step (Take c) s = (case queue_dequeue c (pt_queue (ps_tasks s)) of
     None \<Rightarrow> s
   | Some (k, q) \<Rightarrow> (case mark_task_running k ((ps_tasks s)\<lparr>pt_queue := q\<rparr>) of
       (None, st) \<Rightarrow> s\<lparr>ps_tasks := st\<rparr>
     | (Some sid, st) \<Rightarrow> s\<lparr>ps_tasks := st, ps_running := (k, sid) # ps_running s, ps_started := k # ps_started s\<rparr>))"
| "probe_op_step (Finish i) s =
     (if i < length (ps_running s) then
        let (k, sid) = ps_running s ! i;
            requeue = fst (finish_flags (pt_objs (ps_tasks s) ! sid));
            lost = (case requeue of None \<Rightarrow> False | Some prio \<Rightarrow> \<not> fst (queue_enqueue k prio (pt_queue (ps_tasks s))))
        in s\<lparr>ps_tasks := finish_task k sid (ps_tasks s),
             ps_running := take i (ps_running s) @ drop (i + 1) (ps_running s),
             ps_dropped := (if lost then k # ps_dropped s else ps_dropped s)\<rparr>
      else s)"

definition task_flags_ok :: "task_queue \<Rightarrow> task_key \<Rightarrow> task_flags \<Rightarrow> bool" where
  "task_flags_ok q k f \<longleftrightarrow> (Queued \<in> f \<longrightarrow> k \<in># queue_tasks q) \<and> \<not> (Queued \<in> f \<and> Running \<in> f)
     \<and> (Dirty \<in> f \<longrightarrow> Queued \<in> f \<or> Running \<in> f)"

definition probe_inv :: "probe_system \<Rightarrow> bool" where
  "probe_inv s \<longleftrightarrow> objs_ok (ps_tasks s) \<and> queue_ok (pt_queue (ps_tasks s)) \<and> \<not> tq_stopped (pt_queue (ps_tasks s))
     \<and> (\<forall>k. task_flags_ok (pt_queue (ps_tasks s)) k (flags_of (ps_tasks s) k))
     \<and> distinct (map fst (ps_running s))
     \<and> (\<forall>k sid. (k, sid) \<in> set (ps_running s) \<longleftrightarrow>
          m_load (pt_states (ps_tasks s)) k = Some sid \<and> Running \<in> flags_of (ps_tasks s) k)"

definition due_flags :: "task_flags \<Rightarrow> bool" where
  "due_flags f \<longleftrightarrow> Queued \<in> f \<or> (Running \<in> f \<and> Dirty \<in> f)"

text \<open>A probe that is still to come: queued, or to be queued again by the worker that runs it.\<close>

definition pending :: "task_key \<Rightarrow> probe_system \<Rightarrow> bool" where
  "pending k s \<longleftrightarrow> due_flags (flags_of (ps_tasks s) k)"

lemma enqueue_probe_effect:
  assumes "objs_ok st" "enqueue_probe h kind prio st = (ok, st')"
  shows "objs_ok st' \<and> trigger_effect (Task_Key h kind) prio (prio = Priority_High) (flags_of st (Task_Key h kind)) (pt_queue st)
      = (ok, flags_of st' (Task_Key h kind), pt_queue st')
    \<and> flags_of st' = (flags_of st)(Task_Key h kind := flags_of st' (Task_Key h kind))
    \<and> (\<forall>j. j \<noteq> Task_Key h kind \<longrightarrow> m_load (pt_states st') j = m_load (pt_states st) j)
    \<and> (flags_of st (Task_Key h kind) \<noteq> {} \<longrightarrow> flags_of st' (Task_Key h kind) \<noteq> {} \<longrightarrow>
         m_load (pt_states st') (Task_Key h kind) = m_load (pt_states st) (Task_Key h kind))"
proof -
  let ?k = "Task_Key h kind"
  obtain s st1 where l: "load_task_state ?k st = (s, st1)" by (rule prod.exhaust)
  note c = load_task_state_spec [OF assms(1) l]
  have "enqueue_loop ?k s prio (prio = Priority_High) st1 = (ok, st')"
    using assms(2) l by (simp add: enqueue_probe_def Let_def)
  note e = enqueue_loop_effect [OF _ _ this]
  have s1: "objs_ok st1" "m_load (pt_states st1) ?k = Some s" "flags_of st1 = flags_of st" "pt_queue st1 = pt_queue st"
    using c by blast+
  note e = e [OF s1(1,2), unfolded s1(3,4)]
  have "m_load (pt_states st') j = m_load (pt_states st) j" if "j \<noteq> ?k" for j
    using e c that by metis
  moreover have "m_load (pt_states st') ?k = m_load (pt_states st) ?k" if f: "flags_of st ?k \<noteq> {}" "flags_of st' ?k \<noteq> {}"
  proof -
    from f(1) obtain t where "m_load (pt_states st) ?k = Some t" by (auto simp: flags_of_def split: option.splits)
    with c s1(2) e f(2) show ?thesis by metis
  qed
  ultimately show ?thesis using e by blast
qed

lemma trigger_flags:
  assumes "trigger_effect k prio allow f q = (ok, f', q')" "task_flags_ok q k f" "queue_ok q"
  shows "queue_ok q' \<and> tq_stopped q' = tq_stopped q" "task_flags_ok q' k f'" "Running \<in> f' \<longleftrightarrow> Running \<in> f"
    "queue_tasks q \<subseteq># queue_tasks q'" "due_flags f \<Longrightarrow> due_flags f'"
    "fst (queue_enqueue k prio q) \<Longrightarrow> due_flags f'"
proof -
  obtain b1 q1 where e1: "queue_enqueue k Priority_High q = (b1, q1)" by (rule prod.exhaust)
  obtain b2 q2 where e2: "queue_enqueue k prio q = (b2, q2)" by (rule prod.exhaust)
  note s1 = queue_enqueue_spec [OF assms(3) e1] and s2 = queue_enqueue_spec [OF assms(3) e2]
  show "queue_ok q' \<and> tq_stopped q' = tq_stopped q" "task_flags_ok q' k f'" "Running \<in> f' \<longleftrightarrow> Running \<in> f"
    "queue_tasks q \<subseteq># queue_tasks q'" "due_flags f \<Longrightarrow> due_flags f'" "fst (queue_enqueue k prio q) \<Longrightarrow> due_flags f'"
    using assms(1,2) s1 s2 assms(3) unfolding trigger_effect_def e1 e2 prod.case fst_conv Let_def
    by (auto simp: task_flags_ok_def due_flags_def dirty_flags_def queued_flags_def dropped_flags_def split: if_splits)
qed

lemma mark_effect:
  assumes "objs_ok st" "mark_task_running k st = (r, st')"
  shows "objs_ok st' \<and> pt_queue st' = pt_queue st
    \<and> (\<forall>j. j \<noteq> k \<or> flags_of st k \<noteq> {} \<longrightarrow> m_load (pt_states st') j = m_load (pt_states st) j)
    \<and> (case r of
         None \<Rightarrow> Queued \<notin> flags_of st k \<and> flags_of st' = flags_of st
       | Some sid \<Rightarrow> Queued \<in> flags_of st k \<and> m_load (pt_states st') k = Some sid
           \<and> flags_of st' = (flags_of st)(k := insert Running (flags_of st k) - {Queued, Queued_High}))"
proof (cases "m_load (pt_states st) k")
  case None
  with assms show ?thesis by (auto simp: mark_task_running_def flags_of_def)
next
  case (Some sid)
  then have f: "pt_objs st ! sid = flags_of st k" by (simp add: flags_of_def)
  show ?thesis
  proof (cases "Queued \<in> flags_of st k")
    case True
    then have "r = Some sid" "st' = put_flags sid (insert Running (flags_of st k) - {Queued, Queued_High}) st"
      using assms(2) Some f by (simp_all add: mark_task_running_def mark_running_flags_def)
    with put_flags_spec [OF assms(1) Some, of "insert Running (flags_of st k) - {Queued, Queued_High}"] Some True
    show ?thesis by simp
  next
    case False
    with try_delete_spec [OF assms(1) Some] assms(2) Some f show ?thesis
      by (auto simp: mark_task_running_def mark_running_flags_def)
  qed
qed

definition finish_effect :: "task_key \<Rightarrow> task_flags \<Rightarrow> task_queue \<Rightarrow> task_flags \<times> task_queue" where
  "finish_effect k f q = (case finish_flags f of
     (None, f') \<Rightarrow> (f', q)
   | (Some prio, f') \<Rightarrow> let (ok, q') = queue_enqueue k prio q in (if ok then f' else dropped_flags f', q'))"

lemma finish_task_effect:
  assumes "objs_ok st" "m_load (pt_states st) k = Some sid"
  shows "objs_ok (finish_task k sid st)
    \<and> finish_effect k (flags_of st k) (pt_queue st) = (flags_of (finish_task k sid st) k, pt_queue (finish_task k sid st))
    \<and> flags_of (finish_task k sid st) = (flags_of st)(k := flags_of (finish_task k sid st) k)
    \<and> (\<forall>j. j \<noteq> k \<longrightarrow> m_load (pt_states (finish_task k sid st)) j = m_load (pt_states st) j)"
proof -
  obtain requeue f' where ff: "finish_flags (flags_of st k) = (requeue, f')" by (rule prod.exhaust)
  have f: "pt_objs st ! sid = flags_of st k" using assms(2) by (simp add: flags_of_def)
  define st1 where "st1 = put_flags sid f' st"
  note p1 = put_flags_spec [OF assms, of f', folded st1_def]
  have k1: "m_load (pt_states st1) k = Some sid" using p1(3) assms(2) by simp
  show ?thesis
  proof (cases requeue)
    case None
    then have run: "finish_task k sid st = try_delete_task_state k sid st1"
      by (simp add: finish_task_def f ff st1_def)
    show ?thesis unfolding run using try_delete_spec [OF p1(1) k1] p1 None
      by (simp add: finish_effect_def ff)
  next
    case (Some prio)
    obtain ok st2 where b: "push_task k prio st1 = (ok, st2)" by (rule prod.exhaust)
    note q = push_task_spec [OF b] and so = same_objs [of st2 st1]
    have s2: "objs_ok st2" "m_load (pt_states st2) k = Some sid" "flags_of st2 = (flags_of st)(k := f')"
      "pt_objs st2 ! sid = f'"
      using q so p1 k1 by (simp_all add: flags_of_def [of st1 k, symmetric]) (metis flags_of_def fun_upd_same option.case(2))
    define st3 where "st3 = (if ok then st2 else clear_dropped_state sid st2)"
    note p3 = put_flags_spec [OF s2(1,2), of "dropped_flags (pt_objs st2 ! sid)", folded clear_dropped_state_def]
    have s3: "objs_ok st3" "m_load (pt_states st3) k = Some sid" "pt_queue st3 = pt_queue st2" "pt_states st3 = pt_states st"
      "flags_of st3 = (flags_of st)(k := (if ok then f' else dropped_flags f'))"
      using s2 p3 q p1(3) by (auto simp: st3_def)
    have run: "finish_task k sid st = try_delete_task_state k sid st3"
      by (simp add: finish_task_def f ff Some st1_def [symmetric] b st3_def)
    show ?thesis unfolding run using try_delete_spec [OF s3(1,2)] s3 q p1(4) Some
      by (simp add: finish_effect_def ff)
  qed
qed

lemma finish_flags_effect:
  assumes "finish_effect k f q = (f', q')" "task_flags_ok q k f" "queue_ok q" "Running \<in> f"
  shows "queue_ok q' \<and> tq_stopped q' = tq_stopped q" "task_flags_ok q' k f'" "Running \<notin> f'" "queue_tasks q \<subseteq># queue_tasks q'"
    "due_flags f \<Longrightarrow> due_flags f' \<or> (\<exists>prio. fst (finish_flags f) = Some prio \<and> \<not> fst (queue_enqueue k prio q))"
proof -
  have q: "Queued \<notin> f" using assms(2,4) by (simp add: task_flags_ok_def)
  obtain b1 q1 where e1: "queue_enqueue k Priority_High q = (b1, q1)" by (rule prod.exhaust)
  obtain b2 q2 where e2: "queue_enqueue k Priority_Normal q = (b2, q2)" by (rule prod.exhaust)
  note s1 = queue_enqueue_spec [OF assms(3) e1] and s2 = queue_enqueue_spec [OF assms(3) e2]
  show "queue_ok q' \<and> tq_stopped q' = tq_stopped q" "task_flags_ok q' k f'" "Running \<notin> f'" "queue_tasks q \<subseteq># queue_tasks q'"
    "due_flags f \<Longrightarrow> due_flags f' \<or> (\<exists>prio. fst (finish_flags f) = Some prio \<and> \<not> fst (queue_enqueue k prio q))"
    using assms(1-3) q s1 s2
    by (auto simp: finish_effect_def finish_flags_def Let_def e1 e2 task_flags_ok_def due_flags_def dropped_flags_def
        split: if_splits)
qed

lemma flags_ok_mono:
  "task_flags_ok q k f \<Longrightarrow> (k \<in># queue_tasks q \<Longrightarrow> k \<in># queue_tasks q') \<Longrightarrow> task_flags_ok q' k f"
  by (auto simp: task_flags_ok_def)

lemma running_key: "probe_inv s \<Longrightarrow> (k, sid) \<in> set (ps_running s) \<Longrightarrow>
    m_load (pt_states (ps_tasks s)) k = Some sid \<and> Running \<in> flags_of (ps_tasks s) k"
  by (simp add: probe_inv_def)

lemma trigger_step:
  assumes "probe_inv s"
  shows "probe_inv (probe_op_step (Trigger h kind prio) s)"
    and "pending k s \<Longrightarrow> pending k (probe_op_step (Trigger h kind prio) s)"
    and "fst (queue_enqueue (Task_Key h kind) prio (pt_queue (ps_tasks s))) \<Longrightarrow>
      pending (Task_Key h kind) (probe_op_step (Trigger h kind prio) s)"
proof -
  let ?k = "Task_Key h kind" and ?st = "ps_tasks s"
  obtain ok st' where e: "enqueue_probe h kind prio ?st = (ok, st')" by (rule prod.exhaust)
  have inv: "objs_ok ?st" "queue_ok (pt_queue ?st)" "\<not> tq_stopped (pt_queue ?st)"
    "\<And>j. task_flags_ok (pt_queue ?st) j (flags_of ?st j)" "distinct (map fst (ps_running s))"
    "\<And>j sid. (j, sid) \<in> set (ps_running s) \<longleftrightarrow> m_load (pt_states ?st) j = Some sid \<and> Running \<in> flags_of ?st j"
    using assms by (simp_all add: probe_inv_def)
  note en = enqueue_probe_effect [OF inv(1) e]
  define f' where "f' = flags_of st' ?k"
  have fl: "flags_of st' = (flags_of ?st)(?k := f')" using en by (simp add: f'_def)
  have t: "trigger_effect ?k prio (prio = Priority_High) (flags_of ?st ?k) (pt_queue ?st) = (ok, f', pt_queue st')"
    using en by (simp add: f'_def)
  note tf = trigger_flags [OF t inv(4) inv(2)]
  have tasks: "j \<in># queue_tasks (pt_queue st')" if "j \<in># queue_tasks (pt_queue ?st)" for j
    using tf(4) that by (rule mset_subset_eqD)
  have flok: "task_flags_ok (pt_queue st') j (flags_of st' j)" for j
    using tf(2) flags_ok_mono [OF inv(4) tasks] by (simp add: fl)
  have run: "(j, sid) \<in> set (ps_running s) \<longleftrightarrow> m_load (pt_states st') j = Some sid \<and> Running \<in> flags_of st' j" for j sid
  proof (cases "j = ?k \<and> Running \<in> flags_of ?st j")
    case True
    then have "flags_of ?st ?k \<noteq> {}" "flags_of st' ?k \<noteq> {}" using tf(3) by (auto simp: fl)
    with en True inv(6) tf(3) show ?thesis by (simp add: fl)
  next
    case False
    with en inv(6) tf(3) show ?thesis by (auto simp: fl)
  qed
  have st: "probe_op_step (Trigger h kind prio) s = s\<lparr>ps_tasks := st'\<rparr>" by (simp add: e)
  show "probe_inv (probe_op_step (Trigger h kind prio) s)"
    unfolding st probe_inv_def using en tf(1) inv(3,5) flok run by simp
  show "pending k s \<Longrightarrow> pending k (probe_op_step (Trigger h kind prio) s)"
    unfolding st using tf(5) by (auto simp: pending_def fl)
  show "fst (queue_enqueue ?k prio (pt_queue ?st)) \<Longrightarrow> pending ?k (probe_op_step (Trigger h kind prio) s)"
    unfolding st using tf(6) by (simp add: pending_def fl)
qed

lemma take_step:
  assumes "probe_inv s"
  shows "probe_inv (probe_op_step (Take c) s)"
    and "pending k s \<Longrightarrow> pending k (probe_op_step (Take c) s) \<or> k \<in> set (ps_started (probe_op_step (Take c) s))"
    and "set (ps_started s) \<subseteq> set (ps_started (probe_op_step (Take c) s))"
proof -
  let ?st = "ps_tasks s"
  have inv: "objs_ok ?st" "queue_ok (pt_queue ?st)" "\<not> tq_stopped (pt_queue ?st)"
    "\<And>j. task_flags_ok (pt_queue ?st) j (flags_of ?st j)" "distinct (map fst (ps_running s))"
    "\<And>j sid. (j, sid) \<in> set (ps_running s) \<longleftrightarrow> m_load (pt_states ?st) j = Some sid \<and> Running \<in> flags_of ?st j"
    using assms by (simp_all add: probe_inv_def)
  have goal: "probe_inv (probe_op_step (Take c) s)
      \<and> (pending k s \<longrightarrow> pending k (probe_op_step (Take c) s) \<or> k \<in> set (ps_started (probe_op_step (Take c) s)))
      \<and> set (ps_started s) \<subseteq> set (ps_started (probe_op_step (Take c) s))"
  proof (cases "queue_dequeue c (pt_queue ?st)")
    case None
    with assms show ?thesis by simp
  next
    case (Some kq)
    obtain k0 q where kq: "kq = (k0, q)" by (rule prod.exhaust)
    note dq = queue_dequeue_spec [OF inv(2) Some [unfolded kq]]
    define st0 where "st0 = ?st\<lparr>pt_queue := q\<rparr>"
    have st0: "objs_ok st0" "flags_of st0 = flags_of ?st" "pt_states st0 = pt_states ?st" "pt_queue st0 = q"
      using same_objs [of st0 ?st] inv(1) by (simp_all add: st0_def)
    obtain r st' where m: "mark_task_running k0 st0 = (r, st')" by (rule prod.exhaust)
    note me = mark_effect [OF st0(1) m]
    have tasks: "j \<in># queue_tasks q" if "j \<in># queue_tasks (pt_queue ?st)" "j \<noteq> k0" for j using dq that by simp
    show ?thesis
    proof (cases r)
      case None
      have q: "pt_queue st' = q" using me st0(4) by simp
      have fl: "flags_of st' = flags_of ?st" "Queued \<notin> flags_of ?st k0"
        using me None st0(2) by simp_all
      have flok: "task_flags_ok q j (flags_of ?st j)" for j
        using inv(4) [of j] tasks [of j] fl(2) by (cases "j = k0") (auto simp: task_flags_ok_def)
      have run: "(j, sid) \<in> set (ps_running s) \<longleftrightarrow> m_load (pt_states st') j = Some sid \<and> Running \<in> flags_of st' j" for j sid
      proof (cases "Running \<in> flags_of ?st j")
        case True
        then have "m_load (pt_states st') j = m_load (pt_states ?st) j" using me st0(2,3) by auto
        with True inv(6) fl show ?thesis by simp
      qed (simp add: inv(6) fl)
      have st: "probe_op_step (Take c) s = s\<lparr>ps_tasks := st'\<rparr>"
        using Some kq m None by (simp add: st0_def)
      show ?thesis unfolding st using me q dq inv(3,5) fl flok run by (simp add: probe_inv_def pending_def)
    next
      case (Some sid0)
      have q: "pt_queue st' = q" using me st0(4) by simp
      define f' where "f' = insert Running (flags_of ?st k0) - {Queued, Queued_High}"
      have fl: "flags_of st' = (flags_of ?st)(k0 := f')" "Queued \<in> flags_of ?st k0"
        and ld: "m_load (pt_states st') k0 = Some sid0" "\<And>j. m_load (pt_states st') j = m_load (pt_states ?st) j"
        using me Some st0(2,3) by (auto simp: f'_def)
      have nr: "Running \<notin> flags_of ?st k0" using inv(4) [of k0] fl(2) by (auto simp: task_flags_ok_def)
      have f': "Running \<in> f'" "Queued \<notin> f'" by (auto simp: f'_def)
      have flok: "task_flags_ok q j (flags_of st' j)" for j
        using inv(4) [of j] tasks [of j] f' by (cases "j = k0") (auto simp: task_flags_ok_def fl)
      have run: "(j, sid) \<in> set ((k0, sid0) # ps_running s) \<longleftrightarrow>
          m_load (pt_states st') j = Some sid \<and> Running \<in> flags_of st' j" for j sid
        using inv(6) [of j sid] ld f'(1) nr by (auto simp: fl)
      have new: "k0 \<notin> fst ` set (ps_running s)" using inv(6) nr by force
      have st: "probe_op_step (Take c) s = s\<lparr>ps_tasks := st', ps_running := (k0, sid0) # ps_running s,
          ps_started := k0 # ps_started s\<rparr>"
        using \<open>queue_dequeue c (pt_queue ?st) = Some kq\<close> kq m Some by (simp add: st0_def)
      have "probe_inv (probe_op_step (Take c) s)"
        unfolding st probe_inv_def using me q dq inv(3,5) flok run new by simp
      then show ?thesis unfolding st by (auto simp: pending_def fl)
    qed
  qed
  then show "probe_inv (probe_op_step (Take c) s)"
    "pending k s \<Longrightarrow> pending k (probe_op_step (Take c) s) \<or> k \<in> set (ps_started (probe_op_step (Take c) s))"
    "set (ps_started s) \<subseteq> set (ps_started (probe_op_step (Take c) s))" by blast+
qed

lemma remove_nth_set:
  assumes "distinct (map fst xs)" "i < length xs"
  shows "set (take i xs @ drop (i + 1) xs) = {x \<in> set xs. fst x \<noteq> fst (xs ! i)}"
    "distinct (map fst (take i xs @ drop (i + 1) xs))"
proof -
  have x: "xs = take i xs @ xs ! i # drop (i + 1) xs" using assms(2) by (simp add: id_take_nth_drop)
  have d: "distinct (map fst (take i xs @ xs ! i # drop (i + 1) xs))" using assms(1) x by simp
  show "distinct (map fst (take i xs @ drop (i + 1) xs))" using d by auto
  have "set xs = set (take i xs) \<union> {xs ! i} \<union> set (drop (i + 1) xs)" by (subst x) auto
  with d show "set (take i xs @ drop (i + 1) xs) = {x \<in> set xs. fst x \<noteq> fst (xs ! i)}"
    by (auto simp: image_iff)
qed

lemma finish_step:
  assumes "probe_inv s"
  shows "probe_inv (probe_op_step (Finish i) s)"
    and "pending k s \<Longrightarrow> pending k (probe_op_step (Finish i) s) \<or> k \<in> set (ps_dropped (probe_op_step (Finish i) s))"
    and "set (ps_dropped s) \<subseteq> set (ps_dropped (probe_op_step (Finish i) s))"
    and "ps_started (probe_op_step (Finish i) s) = ps_started s"
proof -
  let ?st = "ps_tasks s"
  have inv: "objs_ok ?st" "queue_ok (pt_queue ?st)" "\<not> tq_stopped (pt_queue ?st)"
    "\<And>j. task_flags_ok (pt_queue ?st) j (flags_of ?st j)" "distinct (map fst (ps_running s))"
    "\<And>j sid. (j, sid) \<in> set (ps_running s) \<longleftrightarrow> m_load (pt_states ?st) j = Some sid \<and> Running \<in> flags_of ?st j"
    using assms by (simp_all add: probe_inv_def)
  have goal: "probe_inv (probe_op_step (Finish i) s)
      \<and> (pending k s \<longrightarrow> pending k (probe_op_step (Finish i) s) \<or> k \<in> set (ps_dropped (probe_op_step (Finish i) s)))
      \<and> set (ps_dropped s) \<subseteq> set (ps_dropped (probe_op_step (Finish i) s))
      \<and> ps_started (probe_op_step (Finish i) s) = ps_started s"
  proof (cases "i < length (ps_running s)")
    case False
    with assms show ?thesis by simp
  next
    case True
    obtain k0 sid0 where r: "ps_running s ! i = (k0, sid0)" by (rule prod.exhaust)
    then have mem: "(k0, sid0) \<in> set (ps_running s)" using True nth_mem by force
    then have k0: "m_load (pt_states ?st) k0 = Some sid0" "Running \<in> flags_of ?st k0" using inv(6) by blast+
    define st' where "st' = finish_task k0 sid0 ?st"
    note ft = finish_task_effect [OF inv(1) k0(1), folded st'_def]
    define f' where "f' = flags_of st' k0"
    have fl: "flags_of st' = (flags_of ?st)(k0 := f')" using ft by (simp add: f'_def)
    have fe: "finish_effect k0 (flags_of ?st k0) (pt_queue ?st) = (f', pt_queue st')" using ft by (simp add: f'_def)
    note ff = finish_flags_effect [OF fe inv(4) inv(2) k0(2)]
    have flok: "task_flags_ok (pt_queue st') j (flags_of st' j)" for j
      using ff(2) flags_ok_mono [OF inv(4), of j "pt_queue st'"] mset_subset_eqD [OF ff(4), of j] by (simp add: fl)
    define rs where "rs = take i (ps_running s) @ drop (i + 1) (ps_running s)"
    note rn = remove_nth_set [OF inv(5) True, folded rs_def, unfolded r fst_conv]
    have run: "(j, sid) \<in> set rs \<longleftrightarrow> m_load (pt_states st') j = Some sid \<and> Running \<in> flags_of st' j" for j sid
      using rn(1) inv(6) [of j sid] ft ff(3) by (cases "j = k0") (auto simp: fl)
    define lost where "lost = (case fst (finish_flags (flags_of ?st k0)) of None \<Rightarrow> False
        | Some prio \<Rightarrow> \<not> fst (queue_enqueue k0 prio (pt_queue ?st)))"
    have "pt_objs ?st ! sid0 = flags_of ?st k0" using k0(1) by (simp add: flags_of_def)
    then have st: "probe_op_step (Finish i) s = s\<lparr>ps_tasks := st', ps_running := rs,
        ps_dropped := (if lost then k0 # ps_dropped s else ps_dropped s)\<rparr>"
      using True by (simp add: r st'_def rs_def lost_def)
    have "probe_inv (probe_op_step (Finish i) s)"
      unfolding st probe_inv_def using ft ff(1) inv(3) flok run rn(2) by simp
    moreover have "due_flags (flags_of ?st k0) \<longrightarrow> due_flags f' \<or> lost"
      using ff(5) by (auto simp: lost_def)
    ultimately show ?thesis unfolding st by (auto simp: pending_def fl)
  qed
  then show "probe_inv (probe_op_step (Finish i) s)"
    "pending k s \<Longrightarrow> pending k (probe_op_step (Finish i) s) \<or> k \<in> set (ps_dropped (probe_op_step (Finish i) s))"
    "set (ps_dropped s) \<subseteq> set (ps_dropped (probe_op_step (Finish i) s))"
    "ps_started (probe_op_step (Finish i) s) = ps_started s" by blast+
qed

interpretation pb: invariant_machine probe_op_step "\<lambda>op. True" probe_inv
proof
  fix s op assume "probe_inv s"
  then show "probe_inv (probe_op_step op s)"
    by (cases op) (simp_all only: trigger_step(1) take_step(1) finish_step(1))
qed

lemma pending_run:
  "probe_inv s \<Longrightarrow> pending k s \<or> k \<in> set (ps_started s) \<or> k \<in> set (ps_dropped s) \<Longrightarrow>
     (let s' = fold probe_op_step ops s in pending k s' \<or> k \<in> set (ps_started s') \<or> k \<in> set (ps_dropped s'))"
proof (induction ops arbitrary: s)
  case (Cons op ops)
  have "probe_inv (probe_op_step op s)" by (rule pb.step_inv [OF Cons.prems(1)]) simp
  moreover have "pending k (probe_op_step op s) \<or> k \<in> set (ps_started (probe_op_step op s))
      \<or> k \<in> set (ps_dropped (probe_op_step op s))"
  proof (cases op)
    case (Trigger h kind prio)
    with trigger_step(2) [OF Cons.prems(1), of k h kind prio] Cons.prems(2) show ?thesis by auto
  next
    case (Take c)
    have "ps_dropped (probe_op_step (Take c) s) = ps_dropped s"
      by (auto split: option.split prod.split)
    with Take take_step(2,3) [OF Cons.prems(1)] Cons.prems(2) show ?thesis
      by (metis (no_types, lifting) subsetD)
  next
    case (Finish i)
    with finish_step(2-4) [OF Cons.prems(1)] Cons.prems(2) show ?thesis
      by (metis (no_types, lifting) subsetD)
  qed
  ultimately show ?case using Cons.IH by simp
qed simp

definition idle :: "probe_system \<Rightarrow> bool" where
  "idle s \<longleftrightarrow> queue_tasks (pt_queue (ps_tasks s)) = {#} \<and> ps_running s = []"

lemma idle_not_pending:
  assumes "probe_inv s" "idle s"
  shows "\<not> pending k s"
proof
  assume p: "pending k s"
  have "task_flags_ok (pt_queue (ps_tasks s)) k (flags_of (ps_tasks s) k)" using assms(1) by (simp add: probe_inv_def)
  with p assms(2) have r: "Running \<in> flags_of (ps_tasks s) k"
    by (auto simp: pending_def due_flags_def task_flags_ok_def idle_def)
  then obtain sid where "m_load (pt_states (ps_tasks s)) k = Some sid"
    by (auto simp: flags_of_def split: option.splits)
  with r assms have "(k, sid) \<in> set (ps_running s)" by (simp add: probe_inv_def)
  with assms(2) show False by (simp add: idle_def)
qed

section \<open>No trigger is lost\<close>

definition start_system :: "int \<Rightarrow> int \<Rightarrow> probe_system" where
  "start_system concurrency queue_capacity =
     \<lparr>ps_tasks = new_probe_tasks concurrency queue_capacity, ps_running = [], ps_started = [], ps_dropped = []\<rparr>"

lemma start_system_inv: "probe_inv (start_system c q)"
  by (auto simp: probe_inv_def start_system_def new_probe_tasks_def Let_def objs_ok_def queue_ok_def new_task_queue_def
      task_flags_ok_def flags_of_def)

definition clear_logs :: "probe_system \<Rightarrow> probe_system" where
  "clear_logs s = s\<lparr>ps_started := [], ps_dropped := []\<rparr>"

lemma clear_logs_inv: "probe_inv s \<Longrightarrow> probe_inv (clear_logs s)"
  by (simp add: probe_inv_def clear_logs_def)


text \<open>A trigger of a task that is running: the worker queues it again and it runs a second time.\<close>

definition sample_later :: "probe_op list" where
  "sample_later = [Finish 0, Take False, Finish 0]"


section \<open>The workers come to rest\<close>

fun effective :: "probe_op \<Rightarrow> probe_system \<Rightarrow> bool" where
  "effective (Trigger h kind prio) s \<longleftrightarrow> False"
| "effective (Take c) s \<longleftrightarrow> queue_tasks (pt_queue (ps_tasks s)) \<noteq> {#}"
| "effective (Finish i) s \<longleftrightarrow> i < length (ps_running s)"

fun effective_run :: "probe_op list \<Rightarrow> probe_system \<Rightarrow> bool" where
  "effective_run [] s \<longleftrightarrow> True"
| "effective_run (op # ops) s \<longleftrightarrow> effective op s \<and> effective_run ops (probe_op_step op s)"

definition dirty_tasks :: "task_flags list \<Rightarrow> nat" where
  "dirty_tasks fs = length (filter (\<lambda>f. Dirty \<in> f) fs)"

definition work_left :: "probe_system \<Rightarrow> nat" where
  "work_left s = 2 * size (queue_tasks (pt_queue (ps_tasks s))) + length (ps_running s)
     + 2 * dirty_tasks (pt_objs (ps_tasks s))"

lemma dirty_tasks_update:
  "i < length fs \<Longrightarrow> dirty_tasks (fs[i := f]) + (if Dirty \<in> fs ! i then 1 else 0)
     = dirty_tasks fs + (if Dirty \<in> f then 1 else 0)"
proof (induction fs arbitrary: i)
  case (Cons g fs)
  then show ?case by (cases i) (simp_all add: dirty_tasks_def, (metis Suc_inject add.commute)?)
qed simp

lemma take_work:
  assumes "probe_inv s" "effective (Take c) s"
  shows "work_left (probe_op_step (Take c) s) < work_left s"
proof -
  let ?st = "ps_tasks s"
  have inv: "objs_ok ?st" "queue_ok (pt_queue ?st)" "\<not> tq_stopped (pt_queue ?st)"
    using assms(1) by (simp_all add: probe_inv_def)
  obtain k q where d: "queue_dequeue c (pt_queue ?st) = Some (k, q)"
    using assms(2) inv(3) queue_dequeue_None [of c "pt_queue ?st"] by (cases "queue_dequeue c (pt_queue ?st)") auto
  note dq = queue_dequeue_spec [OF inv(2) d]
  define st0 where "st0 = ?st\<lparr>pt_queue := q\<rparr>"
  obtain r st' where m: "mark_task_running k st0 = (r, st')" by (rule prod.exhaust)
  have ok: "objs_ok st0" using same_objs [of st0 ?st] inv(1) by (simp add: st0_def)
  have objs: "dirty_tasks (pt_objs st') = dirty_tasks (pt_objs st0)"
  proof (cases "m_load (pt_states st0) k")
    case None
    with m show ?thesis by (simp add: mark_task_running_def)
  next
    case (Some sid)
    then have "sid < length (pt_objs st0)" using ok by (simp add: objs_ok_def)
    with m Some dirty_tasks_update [of sid "pt_objs st0" "insert Running (pt_objs st0 ! sid) - {Queued, Queued_High}"] show ?thesis
      by (auto simp: mark_task_running_def mark_running_flags_def put_flags_def try_delete_task_state_def split: if_splits)
  qed
  have "pt_queue st' = q" using mark_effect [OF ok m] by (simp add: st0_def)
  with d m dq objs show ?thesis
    by (cases r) (auto simp: work_left_def st0_def)
qed

lemma finish_work:
  assumes "probe_inv s" "effective (Finish i) s"
  shows "work_left (probe_op_step (Finish i) s) < work_left s"
proof -
  let ?st = "ps_tasks s"
  have inv: "objs_ok ?st" "queue_ok (pt_queue ?st)" using assms(1) by (simp_all add: probe_inv_def)
  obtain k sid where r: "ps_running s ! i = (k, sid)" by (rule prod.exhaust)
  then have "(k, sid) \<in> set (ps_running s)" using assms(2) nth_mem by force
  then have ld: "m_load (pt_states ?st) k = Some sid" using assms(1) by (simp add: probe_inv_def)
  then have sid: "sid < length (pt_objs ?st)" using inv(1) by (simp add: objs_ok_def)
  define f where "f = pt_objs ?st ! sid"
  obtain requeue f' where ff: "finish_flags f = (requeue, f')" by (rule prod.exhaust)
  have clean: "Dirty \<notin> f'" "requeue \<noteq> None \<longleftrightarrow> Dirty \<in> f"
    using ff by (auto simp: finish_flags_def Let_def split: if_splits)
  define st1 where "st1 = put_flags sid f' ?st"
  have c1: "dirty_tasks (pt_objs st1) + (if Dirty \<in> f then 1 else 0) = dirty_tasks (pt_objs ?st)"
    "pt_queue st1 = pt_queue ?st" "sid < length (pt_objs st1)" "pt_objs st1 ! sid = f'"
    using dirty_tasks_update [OF sid, of f'] clean(1) sid by (simp_all add: st1_def put_flags_def f_def)
  have del: "pt_objs (try_delete_task_state k sid st) = pt_objs st" "pt_queue (try_delete_task_state k sid st) = pt_queue st"
    for st :: probe_tasks by (simp_all add: try_delete_task_state_def)
  have work: "2 * size (queue_tasks (pt_queue (finish_task k sid ?st))) + 2 * dirty_tasks (pt_objs (finish_task k sid ?st))
      \<le> 2 * size (queue_tasks (pt_queue ?st)) + 2 * dirty_tasks (pt_objs ?st)"
  proof (cases requeue)
    case None
    with ff c1 clean show ?thesis
      by (simp add: finish_task_def f_def [symmetric] st1_def [symmetric] del)
  next
    case (Some prio)
    obtain ok st2 where p: "push_task k prio st1 = (ok, st2)" by (rule prod.exhaust)
    note q = push_task_spec [OF p]
    have e: "queue_enqueue k prio (pt_queue ?st) = (ok, pt_queue st2)" using q c1(2) by simp
    have "size (queue_tasks (pt_queue st2)) \<le> size (queue_tasks (pt_queue ?st)) + 1"
      using queue_enqueue_spec [OF inv(2) e] by (simp split: if_splits)
    moreover have "dirty_tasks (pt_objs (clear_dropped_state sid st2)) = dirty_tasks (pt_objs st1)"
      using q c1(3,4) clean(1) dirty_tasks_update [of sid "pt_objs st1" "dropped_flags f'"]
      by (simp add: clear_dropped_state_def put_flags_def dropped_flags_def)
    moreover have "pt_queue (clear_dropped_state sid st2) = pt_queue st2"
      by (simp add: clear_dropped_state_def put_flags_def)
    ultimately show ?thesis
      using ff Some p q c1(1) clean(2) by (simp add: finish_task_def f_def [symmetric] st1_def [symmetric] del)
  qed
  define x where "x = fst (finish_flags (pt_objs ?st ! sid))"
  show ?thesis
    using assms(2) r work by (simp add: work_left_def Let_def)
qed

lemma effective_work: "probe_inv s \<Longrightarrow> effective op s \<Longrightarrow> work_left (probe_op_step op s) < work_left s"
  by (cases op) (simp_all only: effective.simps(1) take_work finish_work)

lemma effective_run_bound: "probe_inv s \<Longrightarrow> effective_run ops s \<Longrightarrow> length ops \<le> work_left s"
proof (induction ops arbitrary: s)
  case (Cons op ops)
  then have "length ops \<le> work_left (probe_op_step op s)" using pb.step_inv [of s op] by simp
  with effective_work [of s op] Cons.prems show ?case by simp
qed simp

text \<open>
  C16. Without new triggers the workers come to rest: in every reachable state that is not idle some
  worker can take a task or finish one, and no run of such steps is longer than twice the queued
  tasks plus the running ones plus twice the tasks that were triggered again while waiting or running.
\<close>

theorem workers_come_to_rest:
  assumes "s = fold probe_op_step earlier (start_system concurrency queue_capacity)"
  shows "(effective_run ops s \<longrightarrow> length ops \<le> work_left s) \<and> ((\<exists>op. effective op s) \<longleftrightarrow> \<not> idle s)"
proof -
  have "probe_inv s" unfolding assms by (rule pb.run_inv [OF start_system_inv]) (simp add: list_all_iff)
  moreover have "(\<exists>op. effective op s) \<longleftrightarrow> \<not> idle s"
  proof
    assume "\<exists>op. effective op s"
    then obtain op where "effective op s" by blast
    then show "\<not> idle s" by (cases op) (auto simp: idle_def)
  next
    assume "\<not> idle s"
    then have "effective (Take True) s \<or> effective (Finish 0) s" by (auto simp: idle_def)
    then show "\<exists>op. effective op s" by blast
  qed
  ultimately show ?thesis using effective_run_bound by blast
qed

theorem workers_come_to_rest_witness:
  "let s = fold probe_op_step [Trigger [] Kind_Egress Priority_Normal, Take False, Trigger [] Kind_Egress Priority_High]
       (start_system 0 0)
   in effective_run sample_later s \<and> length sample_later \<le> work_left s"
proof -
  define s where "s = fold probe_op_step [Trigger [] Kind_Egress Priority_Normal, Take False, Trigger [] Kind_Egress Priority_High]
       (start_system 0 0)"
  have q: "new_task_queue 1024 1024 = \<lparr>tq_high = empty_buffer, tq_normal = empty_buffer, tq_high_cap = 1024,
      tq_normal_cap = 1024, tq_stopped = False\<rparr>" by (simp add: new_task_queue_def)
  note run = start_system_def new_probe_tasks_def i64_def default_queue_cap_def q enqueue_probe_def enqueue_loop.simps
    load_task_state_def enqueue_flags_def push_task_def queue_enqueue_def buffer_len_def buffer_push_def empty_buffer_def
    queue_dequeue_def buffer_pop_def mark_task_running_def mark_running_flags_def finish_task_def finish_flags_def
    try_delete_task_state_def put_flags_def store_simps Let_def insert_Diff_if
  have "effective_run sample_later s"
    by (simp add: s_def sample_later_def run queue_tasks_def buffer_tasks_def)
  with workers_come_to_rest [OF s_def, of sample_later] show ?thesis
    unfolding s_def [symmetric] Let_def by blast
qed

end
