(* ===== verification/Probe_Manager.thy ===== *)
theory Probe_Manager
  imports Probe_Tasks Node_Pool
begin

text \<open>
  What a probe does to the pool and which nodes are due (\<open>internal/probe/manager.go\<close>,
  \<open>trace.go\<close>): the parser of the trace page, the egress and latency probes, asynchronous and
  synchronous, and the two periodic scans. The lemmas show that a probe of a node always moves its
  attempt times, so that it is not due again before its interval, that every probe keeps the pool's
  invariant, and that a scan queues exactly the nodes that are due.
\<close>

section \<open>The trace page\<close>

datatype trace_error = Trace_Bad_Address | Trace_No_Address

fun trace_lines ::
  "external \<Rightarrow> string list \<Rightarrow> addr option \<Rightarrow> string option \<Rightarrow> trace_error + (addr option \<times> string option)" where
  "trace_lines X [] ip loc = Inr (ip, loc)"
| "trace_lines X (line # rest) ip loc =
     (case drop_prefix ''ip='' line of
        Some raw \<Rightarrow>
          (case parse_addr X (trim_space raw) of
             None \<Rightarrow> Inl Trace_Bad_Address
           | Some a \<Rightarrow> trace_lines X rest (Some a) loc)
      | None \<Rightarrow>
          (case drop_prefix ''loc='' line of
             Some raw \<Rightarrow> trace_lines X rest ip (Some (to_lower (uni_lower X) (trim_space raw)))
           | None \<Rightarrow> trace_lines X rest ip loc))"

definition newline :: char where "newline = CHR 0x0A"

definition parse_cloudflare_trace :: "external \<Rightarrow> string \<Rightarrow> trace_error + (addr \<times> string option)" where
  "parse_cloudflare_trace X body =
     (case trace_lines X (split_at_byte newline body) None None of
        Inl e \<Rightarrow> Inl e
      | Inr (None, _) \<Rightarrow> Inl Trace_No_Address
      | Inr (Some ip, loc) \<Rightarrow> Inr (ip, if loc = Some [] then None else loc))"

section \<open>Probes\<close>

text \<open>What the fetcher returned: an error, or the body and the handshake latency.\<close>

datatype fetch = Fetch_Error string | Fetched string int

definition egress_trace_domain :: string where
  "egress_trace_domain = ''cloudflare.com''"

definition default_latency_test_url :: string where
  "default_latency_test_url = ''https://www.gstatic.com/generate_204''"

datatype egress_error = Egress_Fetch_Failed string | Egress_Parse_Failed trace_error

definition perform_egress_probe ::
  "external \<Rightarrow> pool_config \<Rightarrow> sub_store \<Rightarrow> hash \<Rightarrow> fetch \<Rightarrow> node_pool \<times> env
     \<Rightarrow> (egress_error + addr) \<times> node_pool \<times> env" where
  "perform_egress_probe X cfg subs h reply s =
     (case reply of
        Fetch_Error err \<Rightarrow>
          let s1 = record_result cfg subs h False s;
              s2 = update_node_egress_ip X cfg subs h None None s1
          in (Inl (Egress_Fetch_Failed err), s2)
      | Fetched body latency \<Rightarrow>
          let s1 = record_result cfg subs h True s;
              s2 = (if latency > 0 then record_latency X cfg subs h egress_trace_domain (Some latency) s1 else s1)
          in (case parse_cloudflare_trace X body of
                Inl err \<Rightarrow> (Inl (Egress_Parse_Failed err), update_node_egress_ip X cfg subs h None None s2)
              | Inr (ip, loc) \<Rightarrow> (Inr ip, update_node_egress_ip X cfg subs h (Some ip) loc s2)))"

definition perform_latency_probe ::
  "external \<Rightarrow> pool_config \<Rightarrow> sub_store \<Rightarrow> hash \<Rightarrow> string \<Rightarrow> fetch \<Rightarrow> node_pool \<times> env
     \<Rightarrow> string option \<times> node_pool \<times> env" where
  "perform_latency_probe X cfg subs h test_url reply s =
     (let domain = extract_domain X test_url in
      case reply of
        Fetch_Error err \<Rightarrow>
          let s1 = record_result cfg subs h False s
          in (Some err, record_latency X cfg subs h domain None s1)
      | Fetched body latency \<Rightarrow>
          let s1 = record_result cfg subs h True s
          in (None, record_latency X cfg subs h domain (Some latency) s1))"

text \<open>
  The manager: what it was configured with (\<open>None\<close>: the callback is nil), the pool, the tasks, and
  the log of probe events. The answer of the fetcher is an argument of each probe.
\<close>

record probe_config =
  pc_has_fetcher :: bool
  pc_egress_interval :: "int option"
  pc_latency_interval :: "int option"
  pc_authority_interval :: "int option"
  pc_test_url :: "string option"
  pc_authorities :: "string list option"

record probe_manager =
  pm_pool :: node_pool
  pm_env :: env
  pm_queue :: probe_tasks
  pm_events :: "probe_kind list"

definition current_latency_test_url :: "probe_config \<Rightarrow> string" where
  "current_latency_test_url pc = (case pc_test_url pc of None \<Rightarrow> default_latency_test_url | Some u \<Rightarrow> u)"

definition put_pool :: "node_pool \<times> env \<Rightarrow> probe_manager \<Rightarrow> probe_manager" where
  "put_pool s m = m\<lparr>pm_pool := fst s, pm_env := snd s\<rparr>"

definition on_probe_event :: "probe_kind \<Rightarrow> probe_manager \<Rightarrow> probe_manager" where
  "on_probe_event kind m = m\<lparr>pm_events := pm_events m @ [kind]\<rparr>"

definition probe_egress ::
  "external \<Rightarrow> pool_config \<Rightarrow> sub_store \<Rightarrow> probe_config \<Rightarrow> hash \<Rightarrow> node_entry \<Rightarrow> fetch \<Rightarrow> probe_manager \<Rightarrow> probe_manager" where
  "probe_egress X cfg subs pc h e reply m =
     (if \<not> pc_has_fetcher pc then m
      else if \<not> has_outbound e then m
      else let m1 = on_probe_event Kind_Egress m
           in put_pool (snd (perform_egress_probe X cfg subs h reply (pm_pool m1, pm_env m1))) m1)"

definition probe_latency ::
  "external \<Rightarrow> pool_config \<Rightarrow> sub_store \<Rightarrow> probe_config \<Rightarrow> hash \<Rightarrow> node_entry \<Rightarrow> string \<Rightarrow> fetch \<Rightarrow> probe_manager
     \<Rightarrow> probe_manager" where
  "probe_latency X cfg subs pc h e test_url reply m =
     (if \<not> pc_has_fetcher pc then m
      else if \<not> has_outbound e then m
      else let m1 = on_probe_event Kind_Latency m
           in put_pool (snd (perform_latency_probe X cfg subs h test_url reply (pm_pool m1, pm_env m1))) m1)"

definition execute_task ::
  "external \<Rightarrow> pool_config \<Rightarrow> sub_store \<Rightarrow> probe_config \<Rightarrow> task_key \<Rightarrow> fetch \<Rightarrow> probe_manager \<Rightarrow> probe_manager" where
  "execute_task X cfg subs pc k reply m =
     (case get_entry (pm_pool m) (tk_hash k) of
        None \<Rightarrow> m
      | Some e \<Rightarrow>
          if \<not> has_outbound e then m
          else if is_disabled_by_subscriptions e (Some (make_sub_lookup cfg subs)) then m
          else (case tk_kind k of
                  Kind_Egress \<Rightarrow> probe_egress X cfg subs pc (tk_hash k) e reply m
                | Kind_Latency \<Rightarrow> probe_latency X cfg subs pc (tk_hash k) e (current_latency_test_url pc) reply m))"

section \<open>Synchronous probes\<close>

datatype sync_error =
    No_Fetcher | Manager_Stopped | Node_Not_Found | Outbound_Not_Ready
  | Egress_Parse trace_error | Egress_Failed string | Latency_Failed string

text \<open>The average in milliseconds, read back from the table after the probe; reading touches the entry.\<close>

definition read_ewma ::
  "external \<Rightarrow> string \<Rightarrow> hash \<Rightarrow> probe_manager \<Rightarrow> rat \<times> probe_manager" where
  "read_ewma X domain h m =
     (case m_load (pool_nodes (pm_pool m)) h of
        None \<Rightarrow> (0, m)
      | Some e \<Rightarrow>
          (case latency_tab e of
             None \<Rightarrow> (0, m)
           | Some t \<Rightarrow>
               let (now, ev) = time_now (pm_env m);
                   (t', stats) = get_domain_stats X domain now t;
                   m' = m\<lparr>pm_pool := store_entry h (e\<lparr>latency_tab := Some t'\<rparr>) (pm_pool m), pm_env := ev\<rparr>
               in (case stats of None \<Rightarrow> 0 | Some d \<Rightarrow> f64 (f64_of_int (ewma d) / 1000000), m')))"

definition sync_guard :: "probe_config \<Rightarrow> hash \<Rightarrow> probe_manager \<Rightarrow> sync_error option" where
  "sync_guard pc h m =
     (if \<not> pc_has_fetcher pc then Some No_Fetcher
      else if tq_stopped (pt_queue (pm_queue m)) then Some Manager_Stopped
      else case get_entry (pm_pool m) h of
        None \<Rightarrow> Some Node_Not_Found
      | Some e \<Rightarrow> if has_outbound e then None else Some Outbound_Not_Ready)"

definition probe_egress_sync ::
  "external \<Rightarrow> pool_config \<Rightarrow> sub_store \<Rightarrow> probe_config \<Rightarrow> hash \<Rightarrow> fetch \<Rightarrow> probe_manager
     \<Rightarrow> (sync_error + (string \<times> rat)) \<times> probe_manager" where
  "probe_egress_sync X cfg subs pc h reply m =
     (case sync_guard pc h m of
        Some err \<Rightarrow> (Inl err, m)
      | None \<Rightarrow>
          let m1 = on_probe_event Kind_Egress m;
              (r, s) = perform_egress_probe X cfg subs h reply (pm_pool m1, pm_env m1);
              m2 = put_pool s m1
          in (case r of
                Inl (Egress_Parse_Failed err) \<Rightarrow> (Inl (Egress_Parse err), m2)
              | Inl (Egress_Fetch_Failed err) \<Rightarrow> (Inl (Egress_Failed err), m2)
              | Inr ip \<Rightarrow> let (ms, m3) = read_ewma X egress_trace_domain h m2 in (Inr (addr_string X ip, ms), m3)))"

definition probe_latency_sync ::
  "external \<Rightarrow> pool_config \<Rightarrow> sub_store \<Rightarrow> probe_config \<Rightarrow> hash \<Rightarrow> fetch \<Rightarrow> probe_manager
     \<Rightarrow> (sync_error + rat) \<times> probe_manager" where
  "probe_latency_sync X cfg subs pc h reply m =
     (case sync_guard pc h m of
        Some err \<Rightarrow> (Inl err, m)
      | None \<Rightarrow>
          let test_url = current_latency_test_url pc;
              domain = extract_domain X test_url;
              m1 = on_probe_event Kind_Latency m;
              (r, s) = perform_latency_probe X cfg subs h test_url reply (pm_pool m1, pm_env m1);
              m2 = put_pool s m1
          in (case r of
                Some err \<Rightarrow> (Inl (Latency_Failed err), m2)
              | None \<Rightarrow> let (ms, m3) = read_ewma X domain h m2 in (Inr ms, m3)))"

section \<open>Periodic scans\<close>

definition lookahead :: int where "lookahead = 15000000000"

definition is_egress_probe_due :: "node_entry \<Rightarrow> int \<Rightarrow> int \<Rightarrow> bool" where
  "is_egress_probe_due e now interval =
     (let last_check = last_egress_update_attempt e
      in \<not> (last_check > 0 \<and> now < last_check + interval - lookahead))"

definition is_latency_probe_due :: "node_entry \<Rightarrow> int \<Rightarrow> int \<Rightarrow> int \<Rightarrow> string list \<Rightarrow> bool" where
  "is_latency_probe_due e now max_interval max_authority_interval auths =
     (let last_any = last_latency_probe_attempt e in
      if last_any = 0 then True
      else if \<not> now < last_any + max_interval - lookahead then True
      else if auths = [] then False
      else let last_auth = last_authority_latency_probe_attempt e in
        if last_auth = 0 then True
        else \<not> now < last_auth + max_authority_interval - lookahead)"

text \<open>One visit of \<open>pool.Range\<close>; the stop signal ends the walk.\<close>

definition scan_visit ::
  "pool_config \<Rightarrow> sub_store \<Rightarrow> probe_kind \<Rightarrow> (node_entry \<Rightarrow> bool) \<Rightarrow> hash \<times> node_entry \<Rightarrow> probe_tasks \<Rightarrow> probe_tasks" where
  "scan_visit cfg subs kind is_due he st =
     (if tq_stopped (pt_queue st) then st
      else if is_disabled_by_subscriptions (snd he) (Some (make_sub_lookup cfg subs)) then st
      else if \<not> has_outbound (snd he) then st
      else if \<not> is_due (snd he) then st
      else snd (enqueue_probe (fst he) kind Priority_Normal st))"

definition scan_egress :: "pool_config \<Rightarrow> sub_store \<Rightarrow> probe_config \<Rightarrow> probe_manager \<Rightarrow> probe_manager" where
  "scan_egress cfg subs pc m =
     (let (now, ev) = time_now (pm_env m);
          interval = (case pc_egress_interval pc of None \<Rightarrow> 86400000000000 | Some i \<Rightarrow> i)
      in m\<lparr>pm_env := ev,
           pm_queue := fold (scan_visit cfg subs Kind_Egress (\<lambda>e. is_egress_probe_due e now interval))
             (pool_nodes (pm_pool m)) (pm_queue m)\<rparr>)"

definition scan_latency :: "pool_config \<Rightarrow> sub_store \<Rightarrow> probe_config \<Rightarrow> probe_manager \<Rightarrow> probe_manager" where
  "scan_latency cfg subs pc m =
     (let (now, ev) = time_now (pm_env m);
          max_latency = (case pc_latency_interval pc of None \<Rightarrow> 3600000000000 | Some i \<Rightarrow> i);
          max_auth = (case pc_authority_interval pc of None \<Rightarrow> 10800000000000 | Some i \<Rightarrow> i);
          auths = (case pc_authorities pc of None \<Rightarrow> [] | Some a \<Rightarrow> a)
      in m\<lparr>pm_env := ev,
           pm_queue := fold (scan_visit cfg subs Kind_Latency
               (\<lambda>e. is_latency_probe_due e now max_latency max_auth auths))
             (pool_nodes (pm_pool m)) (pm_queue m)\<rparr>)"

section \<open>The attempt times move\<close>

text \<open>Every reading of the clock still to come is at or after \<open>t\<close>.\<close>

definition clock_from :: "int \<Rightarrow> env \<Rightarrow> bool" where
  "clock_from t ev \<longleftrightarrow> clock ev \<noteq> [] \<and> (\<forall>u \<in> set (clock ev). t \<le> u)"

lemma clock_from_now: "clock_from t ev \<Longrightarrow> time_now ev = (now, ev') \<Longrightarrow> t \<le> now \<and> clock_from t ev'"
  by (auto simp: clock_from_def time_now.simps split: list.splits)

text \<open>The three attempt times of a node.\<close>

definition attempts :: "node_pool \<Rightarrow> hash \<Rightarrow> (int \<times> int \<times> int) option" where
  "attempts p h = map_option (\<lambda>e. (last_egress_update_attempt e, last_latency_probe_attempt e,
     last_authority_latency_probe_attempt e)) (m_load (pool_nodes p) h)"

lemma attempts_quiet [simp]:
  "attempts (notify_all_platforms_dirty cfg subs g p) h = attempts p h"
  "attempts (log_event ev p) h = attempts p h"
  by (simp_all add: attempts_def log_event_def)

lemma attempts_store: "attempts (store_entry g e p) h =
    (if g = h then Some (last_egress_update_attempt e, last_latency_probe_attempt e, last_authority_latency_probe_attempt e)
     else attempts p h)"
  by (simp add: attempts_def store_entry_def store_simps)

lemma attempts_result:
  assumes "clock_from t ev" "record_result cfg subs g ok (p, ev) = (p', ev')"
  shows "attempts p' h = attempts p h \<and> clock_from t ev'"
proof (cases "m_load (pool_nodes p) g")
  case None
  with assms show ?thesis by (simp add: record_result_def)
next
  case (Some e)
  obtain now ev1 where now: "time_now ev = (now, ev1)" by (rule prod.exhaust)
  have a: "attempts p g = Some (last_egress_update_attempt e, last_latency_probe_attempt e, last_authority_latency_probe_attempt e)"
    using Some by (simp add: attempts_def)
  show ?thesis
    using assms clock_from_now [OF assms(1) now] a Some now
    by (auto simp: record_result_def Let_def attempts_store split: if_splits)
qed

lemma attempts_egress:
  assumes "clock_from t ev" "attempts p h = Some (a, b, c)"
    "update_node_egress_ip X cfg subs h ip loc (p, ev) = (p', ev')"
  shows "\<exists>a'. attempts p' h = Some (a', b, c) \<and> t \<le> a' \<and> clock_from t ev'"
proof -
  obtain e where e: "m_load (pool_nodes p) h = Some e" "a = last_egress_update_attempt e"
    "b = last_latency_probe_attempt e" "c = last_authority_latency_probe_attempt e"
    using assms(2) by (auto simp: attempts_def)
  obtain now ev1 where now: "time_now ev = (now, ev1)" by (rule prod.exhaust)
  obtain e' ipc rc where pr: "egress_probe X now ip loc e = (e', ipc, rc)" by (metis prod.exhaust)
  have "last_egress_update_attempt e' = now" using pr
    by (auto simp: egress_probe_def Let_def set_egress_region_def set_egress_ip_def split: option.splits if_splits)
  moreover have "last_latency_probe_attempt e' = b" "last_authority_latency_probe_attempt e' = c"
    using egress_probe_shape [OF pr] e by auto
  ultimately show ?thesis
    using assms(3) clock_from_now [OF assms(1) now] e(1) now pr
    by (auto simp: update_node_egress_ip_def Let_def attempts_store)
qed

lemma attempts_latency:
  assumes "clock_from t ev" "attempts p h = Some (a, b, c)"
    "record_latency X cfg subs h target lat (p, ev) = (p', ev')"
  shows "\<exists>b' c'. attempts p' h = Some (a, b', c') \<and> t \<le> b' \<and> clock_from t ev'
    \<and> (if is_authority_domain X cfg (extract_domain X target) then t \<le> c' else c' = c)"
proof -
  obtain e where e: "m_load (pool_nodes p) h = Some e" "a = last_egress_update_attempt e"
    "b = last_latency_probe_attempt e" "c = last_authority_latency_probe_attempt e"
    using assms(2) by (auto simp: attempts_def)
  obtain now ev1 where now: "time_now ev = (now, ev1)" by (rule prod.exhaust)
  obtain now2 ev2 where now2: "time_now ev1 = (now2, ev2)" by (rule prod.exhaust)
  define e2 where "e2 = attempted X cfg (extract_domain X target) now e"
  have e2: "last_egress_update_attempt e2 = a" "last_latency_probe_attempt e2 = now"
    "last_authority_latency_probe_attempt e2 = (if is_authority_domain X cfg (extract_domain X target) then now else c)"
    using e by (simp_all add: e2_def attempted_def Let_def)
  note t1 = clock_from_now [OF assms(1) now] and t2 = clock_from_now [OF conjunct2 [OF clock_from_now [OF assms(1) now]] now2]
  have w: "attempts (fst (write_latency_sample X cfg subs h d ia l e2 tab (q, ev1))) h
      = Some (a, now, last_authority_latency_probe_attempt e2)
      \<and> snd (write_latency_sample X cfg subs h d ia l e2 tab (q, ev1)) = ev2" for d ia l tab q
    using e2 now2 by (auto simp: write_latency_sample_def Let_def attempts_store split: prod.split option.split)
  show ?thesis
    using assms(3) w e2 t1 t2 unfolding record_latency_eq [OF e(1) now]
    by (auto simp: e2_def [symmetric] attempts_store split: option.splits if_splits prod.splits) (metis fst_conv snd_conv)+
qed

lemma probe_moves_attempts:
  assumes "clock_from t ev" "attempts p h = Some (a, b, c)"
  shows "\<exists>a' b' c'. attempts (fst (snd (perform_egress_probe X cfg subs h reply (p, ev)))) h = Some (a', b', c') \<and> t \<le> a'"
    and "\<exists>a' b' c'. attempts (fst (snd (perform_latency_probe X cfg subs h url reply (p, ev)))) h = Some (a', b', c') \<and> t \<le> b'
      \<and> (is_authority_domain X cfg (extract_domain X (extract_domain X url)) \<longrightarrow> t \<le> c')"
proof -
  obtain p1 ev1 where f: "record_result cfg subs h False (p, ev) = (p1, ev1)" by (rule prod.exhaust)
  obtain p2 ev2 where g: "record_result cfg subs h True (p, ev) = (p2, ev2)" by (rule prod.exhaust)
  note f' = attempts_result [OF assms(1) f, of h, unfolded assms(2)]
  note g' = attempts_result [OF assms(1) g, of h, unfolded assms(2)]
  have eg: "\<exists>a' b' c'. attempts (fst (update_node_egress_ip X cfg subs h ip loc (q, ew))) h = Some (a', b', c') \<and> t \<le> a'"
    if "clock_from t ew" "attempts q h = Some (u, v, w)" for q ew u v w ip loc
    using attempts_egress [OF that, of X cfg subs ip loc] by (metis prod.collapse)
  have lt: "\<exists>a' b' c'. attempts (fst (record_latency X cfg subs h target lat (q, ew))) h = Some (a', b', c') \<and> t \<le> b'
      \<and> clock_from t (snd (record_latency X cfg subs h target lat (q, ew)))
      \<and> (is_authority_domain X cfg (extract_domain X target) \<longrightarrow> t \<le> c')"
    if "clock_from t ew" "attempts q h = Some (u, v, w)" for q ew u v w target lat
    using attempts_latency [OF that, of X cfg subs target lat] by (metis prod.collapse)
  show "\<exists>a' b' c'. attempts (fst (snd (perform_latency_probe X cfg subs h url reply (p, ev)))) h = Some (a', b', c') \<and> t \<le> b'
      \<and> (is_authority_domain X cfg (extract_domain X (extract_domain X url)) \<longrightarrow> t \<le> c')"
    using lt f' g' by (cases reply) (auto simp: perform_latency_probe_def Let_def f g; blast)+
  have sample: "\<exists>u v w. attempts (fst (if l > 0 then record_latency X cfg subs h egress_trace_domain (Some l) (p2, ev2)
      else (p2, ev2))) h = Some (u, v, w)
    \<and> clock_from t (snd (if l > 0 then record_latency X cfg subs h egress_trace_domain (Some l) (p2, ev2) else (p2, ev2)))" for l
    using lt [of ev2 p2 a b c egress_trace_domain "Some l"] g' by auto
  show "\<exists>a' b' c'. attempts (fst (snd (perform_egress_probe X cfg subs h reply (p, ev)))) h = Some (a', b', c') \<and> t \<le> a'"
  proof (cases reply)
    case (Fetch_Error err)
    with eg f' show ?thesis by (simp add: perform_egress_probe_def f)
  next
    case (Fetched body l)
    define s where "s = (if l > 0 then record_latency X cfg subs h egress_trace_domain (Some l) (p2, ev2) else (p2, ev2))"
    obtain q ew where q: "s = (q, ew)" by (rule prod.exhaust)
    obtain u v w where "attempts q h = Some (u, v, w)" "clock_from t ew"
      using sample [of l, folded s_def] by (auto simp: q)
    note m = eg [OF this(2,1)]
    have "perform_egress_probe X cfg subs h reply (p, ev) = (case parse_cloudflare_trace X body of
        Inl err \<Rightarrow> (Inl (Egress_Parse_Failed err), update_node_egress_ip X cfg subs h None None s)
      | Inr (ip, loc) \<Rightarrow> (Inr ip, update_node_egress_ip X cfg subs h (Some ip) loc s))"
      unfolding perform_egress_probe_def Fetched fetch.case Let_def g s_def ..
    with m show ?thesis by (auto simp: q split: sum.split)
  qed
qed


section \<open>Probes keep the pool\<close>

lemma perform_probe_ok:
  assumes "pool_ok cfg subs (fst s)"
  shows "pool_ok cfg subs (fst (snd (perform_egress_probe X cfg subs h reply s)))"
    "pool_ok cfg subs (fst (snd (perform_latency_probe X cfg subs h url reply s)))"
  using assms record_result_ok record_latency_ok update_node_egress_ip_ok
  by (auto simp: perform_egress_probe_def perform_latency_probe_def Let_def split: fetch.split sum.split) (metis prod.collapse)+

lemma read_ewma_ok:
  assumes "pool_ok cfg subs (pm_pool m)" "read_ewma X domain h m = (ms, m')"
  shows "pool_ok cfg subs (pm_pool m') \<and> pm_queue m' = pm_queue m"
proof (cases "m_load (pool_nodes (pm_pool m)) h")
  case None
  with assms show ?thesis by (simp add: read_ewma_def)
next
  case (Some e)
  show ?thesis
  proof (cases "latency_tab e")
    case None
    with assms Some show ?thesis by (simp add: read_ewma_def)
  next
    case (Some t)
    obtain now ev where now: "time_now (pm_env m) = (now, ev)" by (rule prod.exhaust)
    obtain t' st where g: "get_domain_stats X domain now t = (t', st)" by (rule prod.exhaust)
    have e: "entry_ok h e" by (rule pool_ok_entry [OF assms(1) \<open>m_load (pool_nodes (pm_pool m)) h = Some e\<close>])
    have t: "table_ok t'" "total_size t' = total_size t" "length (regular t') = length (regular t)"
      using e Some get_domain_stats_ok [of t X domain now] get_domain_stats_size [of X domain now t]
      by (simp_all add: entry_ok_def g)
    have "pool_ok cfg subs (store_entry h (e\<lparr>latency_tab := Some t'\<rparr>) (pm_pool m))"
      by (rule quiet_change [OF assms(1) \<open>m_load (pool_nodes (pm_pool m)) h = Some e\<close>])
        (use t e Some in \<open>auto simp: routing_facts_def has_latency_def get_egress_ip_def get_egress_region_def entry_ok_def\<close>)
    with assms(2) Some \<open>m_load (pool_nodes (pm_pool m)) h = Some e\<close> now g show ?thesis
      by (auto simp: read_ewma_def)
  qed
qed

section \<open>A scan queues what is due\<close>

definition tasks_ok :: "probe_tasks \<Rightarrow> bool" where
  "tasks_ok st \<longleftrightarrow> objs_ok st \<and> queue_ok (pt_queue st) \<and> \<not> tq_stopped (pt_queue st)
     \<and> (\<forall>k. task_flags_ok (pt_queue st) k (flags_of st k))"

definition normal_len :: "probe_tasks \<Rightarrow> nat" where
  "normal_len st = buffer_len (tq_normal (pt_queue st))"

lemma enqueue_normal:
  assumes "queue_enqueue k Priority_Normal q = (ok, q')" "queue_ok q" "\<not> tq_stopped q"
  shows "tq_normal_cap q' = tq_normal_cap q \<and> buffer_len (tq_normal q') \<le> buffer_len (tq_normal q) + 1
    \<and> (ok \<longleftrightarrow> buffer_len (tq_normal q) < tq_normal_cap q)"
  using assms by (auto simp: queue_enqueue_def buffer_len_tasks buffer_push_tasks queue_ok_def split: if_splits)

lemma trigger_keeps_tasks:
  assumes "tasks_ok st" "enqueue_probe h kind prio st = (ok, st')"
  shows "tasks_ok st' \<and> flags_of st' = (flags_of st)(Task_Key h kind := flags_of st' (Task_Key h kind))
    \<and> (fst (queue_enqueue (Task_Key h kind) prio (pt_queue st)) \<longrightarrow> due_flags (flags_of st' (Task_Key h kind)))"
proof -
  let ?k = "Task_Key h kind"
  have inv: "objs_ok st" "queue_ok (pt_queue st)" "\<not> tq_stopped (pt_queue st)"
    "\<And>j. task_flags_ok (pt_queue st) j (flags_of st j)" using assms(1) by (simp_all add: tasks_ok_def)
  note en = enqueue_probe_effect [OF inv(1) assms(2)]
  then have t: "trigger_effect ?k prio (prio = Priority_High) (flags_of st ?k) (pt_queue st)
      = (ok, flags_of st' ?k, pt_queue st')" by blast
  note tf = trigger_flags [OF t inv(4) inv(2)]
  have fl: "flags_of st' = (flags_of st)(?k := flags_of st' ?k)" using en by blast
  have "task_flags_ok (pt_queue st') j (flags_of st' j)" for j
  proof (cases "j = ?k")
    case True
    with tf(2) show ?thesis by simp
  next
    case False
    then have "flags_of st' j = flags_of st j" by (subst fl) simp
    with flags_ok_mono [OF inv(4), of j "pt_queue st'"] mset_subset_eqD [OF tf(4), of j] show ?thesis by simp
  qed
  with en tf(1,6) inv(3) fl show ?thesis by (auto simp: tasks_ok_def)
qed

lemma trigger_normal_len:
  assumes "tasks_ok st" "enqueue_probe h kind Priority_Normal st = (ok, st')"
  shows "tq_normal_cap (pt_queue st') = tq_normal_cap (pt_queue st) \<and> normal_len st' \<le> normal_len st + 1"
proof -
  let ?k = "Task_Key h kind"
  have inv: "objs_ok st" "queue_ok (pt_queue st)" "\<not> tq_stopped (pt_queue st)" using assms(1) by (simp_all add: tasks_ok_def)
  have t: "trigger_effect ?k Priority_Normal False (flags_of st ?k) (pt_queue st) = (ok, flags_of st' ?k, pt_queue st')"
    using enqueue_probe_effect [OF inv(1) assms(2)] by simp
  obtain b q where e: "queue_enqueue ?k Priority_Normal (pt_queue st) = (b, q)" by (rule prod.exhaust)
  from t have "pt_queue st' = pt_queue st \<or> pt_queue st' = q"
    unfolding trigger_effect_def e by (auto split: if_splits)
  with enqueue_normal [OF e inv(2,3)] show ?thesis by (auto simp: normal_len_def)
qed

text \<open>What makes a scan trigger a node.\<close>

definition to_probe :: "pool_config \<Rightarrow> sub_store \<Rightarrow> (node_entry \<Rightarrow> bool) \<Rightarrow> node_entry \<Rightarrow> bool" where
  "to_probe cfg subs is_due e \<longleftrightarrow> \<not> is_disabled_by_subscriptions e (Some (make_sub_lookup cfg subs))
     \<and> has_outbound e \<and> is_due e"

lemma scan_visit_effect:
  assumes "tasks_ok st" "normal_len st < tq_normal_cap (pt_queue st)"
  shows "tasks_ok (scan_visit cfg subs kind is_due (h, e) st)
    \<and> flags_of (scan_visit cfg subs kind is_due (h, e) st)
       = (flags_of st)(Task_Key h kind := flags_of (scan_visit cfg subs kind is_due (h, e) st) (Task_Key h kind))
    \<and> (if to_probe cfg subs is_due e then due_flags (flags_of (scan_visit cfg subs kind is_due (h, e) st) (Task_Key h kind))
       else scan_visit cfg subs kind is_due (h, e) st = st)
    \<and> tq_normal_cap (pt_queue (scan_visit cfg subs kind is_due (h, e) st)) = tq_normal_cap (pt_queue st)
    \<and> normal_len (scan_visit cfg subs kind is_due (h, e) st) \<le> normal_len st + 1"
proof (cases "to_probe cfg subs is_due e")
  case False
  then have "scan_visit cfg subs kind is_due (h, e) st = st" by (auto simp: scan_visit_def to_probe_def)
  with False assms(1) show ?thesis by simp
next
  case True
  obtain ok st' where en: "enqueue_probe h kind Priority_Normal st = (ok, st')" by (rule prod.exhaust)
  obtain b q where e: "queue_enqueue (Task_Key h kind) Priority_Normal (pt_queue st) = (b, q)" by (rule prod.exhaust)
  have inv: "queue_ok (pt_queue st)" "\<not> tq_stopped (pt_queue st)" using assms(1) by (simp_all add: tasks_ok_def)
  have "b" using enqueue_normal [OF e inv] assms(2) by (simp add: normal_len_def)
  moreover have "scan_visit cfg subs kind is_due (h, e) st = st'"
    using True en inv(2) by (simp add: scan_visit_def to_probe_def)
  ultimately show ?thesis
    using trigger_keeps_tasks [OF assms(1) en] trigger_normal_len [OF assms(1) en] True e by simp
qed

lemma scan_fold:
  assumes "tasks_ok st" "normal_len st + length ns \<le> tq_normal_cap (pt_queue st)" "distinct (map fst ns)"
    and "st' = fold (scan_visit cfg subs kind is_due) ns st"
  shows "tasks_ok st' \<and> (\<forall>h e. (h, e) \<in> set ns \<and> to_probe cfg subs is_due e \<longrightarrow> due_flags (flags_of st' (Task_Key h kind)))
    \<and> (\<forall>k. \<not> (\<exists>e. (tk_hash k, e) \<in> set ns \<and> to_probe cfg subs is_due e \<and> tk_kind k = kind) \<longrightarrow> flags_of st' k = flags_of st k)"
  using assms
proof (induction ns arbitrary: st)
  case (Cons he ns)
  obtain h e where he: "he = (h, e)" by (rule prod.exhaust)
  define st1 where "st1 = scan_visit cfg subs kind is_due he st"
  have "normal_len st < tq_normal_cap (pt_queue st)" using Cons.prems(2) by simp
  note v = scan_visit_effect [OF Cons.prems(1) this, of cfg subs kind is_due h e, folded he, folded st1_def]
  have fold1: "st' = fold (scan_visit cfg subs kind is_due) ns st1" using Cons.prems(4) by (simp add: st1_def)
  have "tasks_ok st' \<and> (\<forall>h e. (h, e) \<in> set ns \<and> to_probe cfg subs is_due e \<longrightarrow> due_flags (flags_of st' (Task_Key h kind)))
    \<and> (\<forall>k. \<not> (\<exists>e. (tk_hash k, e) \<in> set ns \<and> to_probe cfg subs is_due e \<and> tk_kind k = kind) \<longrightarrow> flags_of st' k = flags_of st1 k)"
    by (rule Cons.IH [OF _ _ _ fold1]) (use v Cons.prems(2,3) in auto)
  note ih = this
  have mine: "flags_of st' (Task_Key h kind) = flags_of st1 (Task_Key h kind)"
    using ih Cons.prems(3) he by (force simp: image_iff)
  have "flags_of st' k = flags_of st k"
    if "\<not> (\<exists>e. (tk_hash k, e) \<in> set (he # ns) \<and> to_probe cfg subs is_due e \<and> tk_kind k = kind)" for k
  proof -
    have "flags_of st' k = flags_of st1 k" using ih that by auto
    also have "\<dots> = flags_of st k"
    proof (cases "k = Task_Key h kind")
      case True
      with that he have "\<not> to_probe cfg subs is_due e" by auto
      with v show ?thesis by simp
    next
      case False
      have "flags_of st1 = (flags_of st)(Task_Key h kind := flags_of st1 (Task_Key h kind))" using v by blast
      then have "flags_of st1 k = ((flags_of st)(Task_Key h kind := flags_of st1 (Task_Key h kind))) k" by (rule arg_cong)
      with False show ?thesis by simp
    qed
    finally show ?thesis .
  qed
  moreover have "due_flags (flags_of st' (Task_Key g kind))" if "(g, d) \<in> set (he # ns)" "to_probe cfg subs is_due d" for g d
    using that ih v mine he by auto
  ultimately show ?case using ih by blast
qed simp

lemma reachable_tasks_ok:
  "tasks_ok (ps_tasks (fold probe_op_step ops (start_system concurrency queue_capacity)))"
proof -
  have "probe_inv (fold probe_op_step ops (start_system concurrency queue_capacity))"
    by (rule pb.run_inv [OF start_system_inv]) (simp add: list_all_iff)
  then show ?thesis by (simp add: probe_inv_def tasks_ok_def)
qed


section \<open>The trace page, line by line\<close>

definition trace_fields :: "string \<Rightarrow> string list \<Rightarrow> string list" where
  "trace_fields key ls = List.map_filter (drop_prefix key) ls"

lemma ip_line_no_loc: "drop_prefix ''ip='' line = Some raw \<Longrightarrow> drop_prefix ''loc='' line = None"
  by (cases line) (auto split: if_splits)

lemma trace_lines_spec:
  "trace_lines X ls ip loc =
     (if \<exists>raw \<in> set (trace_fields ''ip='' ls). parse_addr X (trim_space raw) = None then Inl Trace_Bad_Address
      else Inr (if trace_fields ''ip='' ls = [] then ip else parse_addr X (trim_space (last (trace_fields ''ip='' ls))),
                if trace_fields ''loc='' ls = [] then loc
                else Some (to_lower (uni_lower X) (trim_space (last (trace_fields ''loc='' ls))))))"
proof (induction ls arbitrary: ip loc)
  case (Cons line ls)
  show ?case
  proof (cases "drop_prefix ''ip='' line")
    case (Some raw)
    with Cons ip_line_no_loc [OF Some] show ?thesis
      by (cases "parse_addr X (trim_space raw)") (auto simp: trace_fields_def List.map_filter_simps)
  next
    case None
    with Cons show ?thesis
      by (cases "drop_prefix ''loc='' line") (auto simp: trace_fields_def List.map_filter_simps)
  qed
qed (simp add: trace_fields_def List.map_filter_simps)

text \<open>
  The page gives the address of its last \<open>ip=\<close> line, as long as all of them parse, and the lower
  case country of its last \<open>loc=\<close> line, none when that is blank.
\<close>

lemma parse_trace_spec:
  fixes body
  defines "ls \<equiv> split_at_byte newline body"
  shows "parse_cloudflare_trace X body =
    (if \<exists>raw \<in> set (trace_fields ''ip='' ls). parse_addr X (trim_space raw) = None then Inl Trace_Bad_Address
     else if trace_fields ''ip='' ls = [] then Inl Trace_No_Address
     else Inr (the (parse_addr X (trim_space (last (trace_fields ''ip='' ls)))),
       if trace_fields ''loc='' ls = [] \<or> to_lower (uni_lower X) (trim_space (last (trace_fields ''loc='' ls))) = [] then None
       else Some (to_lower (uni_lower X) (trim_space (last (trace_fields ''loc='' ls))))))"
proof -
  define ips where "ips = trace_fields ''ip='' ls"
  define locs where "locs = trace_fields ''loc='' ls"
  have run: "parse_cloudflare_trace X body = (case trace_lines X ls None None of
        Inl e \<Rightarrow> Inl e
      | Inr (None, _) \<Rightarrow> Inl Trace_No_Address
      | Inr (Some ip, loc) \<Rightarrow> Inr (ip, if loc = Some [] then None else loc))"
    unfolding parse_cloudflare_trace_def ls_def ..
  note spec = trace_lines_spec [of X ls None None, folded ips_def locs_def]
  note folds = ips_def [symmetric] locs_def [symmetric]
  show ?thesis
  proof (cases "\<exists>raw \<in> set ips. parse_addr X (trim_space raw) = None")
    case True
    then have "trace_lines X ls None None = Inl Trace_Bad_Address" unfolding spec by (rule if_P)
    with True show ?thesis unfolding run folds by (simp only: sum.case if_True)
  next
    case False
    note good = spec [unfolded if_not_P [OF False]]
    show ?thesis
    proof (cases "ips = []")
      case True
      with good have "trace_lines X ls None None = Inr (None, if locs = [] then None
          else Some (to_lower (uni_lower X) (trim_space (last locs))))" by simp
      then show ?thesis unfolding run folds if_not_P [OF False] if_P [OF True] by simp
    next
      case nonempty: False
      then have "last ips \<in> set ips" by (rule last_in_set)
      have "parse_addr X (trim_space (last ips)) \<noteq> None"
        by (rule notI, rule notE [OF False], rule bexI [OF _ \<open>last ips \<in> set ips\<close>])
      then obtain a where a: "parse_addr X (trim_space (last ips)) = Some a" by (meson option.exhaust)
      have "trace_lines X ls None None = Inr (Some a, if locs = [] then None
          else Some (to_lower (uni_lower X) (trim_space (last locs))))"
        using good unfolding if_not_P [OF nonempty] a .
      then show ?thesis
        unfolding run folds if_not_P [OF False] if_not_P [OF nonempty] a by simp
    qed
  qed
qed

section \<open>Witnesses\<close>

definition one_node_pool :: node_pool where
  "one_node_pool = new_global_node_pool\<lparr>pool_nodes := [(replicate 16 1, sample_entry)]\<rparr>"

definition sample_manager :: probe_manager where
  "sample_manager = \<lparr>pm_pool = one_node_pool, pm_env = \<lparr>draws = [], clock = [1000]\<rparr>,
     pm_queue = new_probe_tasks 0 0, pm_events = []\<rparr>"

definition sample_probe_config :: probe_config where
  "sample_probe_config = \<lparr>pc_has_fetcher = True, pc_egress_interval = None, pc_latency_interval = None,
     pc_authority_interval = None, pc_test_url = None, pc_authorities = None\<rparr>"

lemma one_node_enabled: "has_enabled_subscription sample_entry (Some (make_sub_lookup sample_config sample_store))"
  by (simp add: has_enabled_subscription_def sample_entry_def new_node_entry_def make_sub_lookup_def sample_config_def
      sample_store_def sample_sub_def new_subscription_def load_node_def)

lemma one_node_pool_ok: "pool_ok sample_config sample_store one_node_pool"
proof -
  have "entry_ok (replicate 16 1) sample_entry"
    using one_slot_ok by (simp add: entry_ok_def sample_entry_def new_node_entry_def one_slot_table_def)
  then show ?thesis
    by (auto simp: pool_ok_def registry_ok_def views_ok_def registered_def entries_ok_def m_ok_def one_node_pool_def
        new_global_node_pool_def)
qed



end
