(* ===== verification/State_Repo.thy ===== *)
theory State_Repo
  imports Platform Account_Matcher
begin

text \<open>
  \<open>internal/state/repo_state.go\<close>: the tables of the configuration database (platforms,
  subscriptions, endpoints, account header rules, runtime configuration) and the operations on them,
  with their validation, their conflicts and a database that may fail at any statement. A table is a
  map from primary keys to rows; the JSON columns hold the lists they encode. The lemmas show that
  every platform row can be built, that names and ports stay unique, and what each operation does.
\<close>

section \<open>Rows and tables\<close>

record model_subscription =
  ms_id :: string
  ms_name :: string
  ms_source_type :: string
  ms_url :: string
  ms_user_agent :: string
  ms_content :: string
  ms_update_interval_ns :: int
  ms_enabled :: bool
  ms_ephemeral :: bool
  ms_incremental_alive :: bool
  ms_evict_delay_ns :: int
  ms_created_at_ns :: int
  ms_updated_at_ns :: int

record endpoint =
  ep_id :: string
  ep_port :: int
  ep_enabled :: bool
  ep_allow_management :: bool
  ep_allow_proxy :: bool
  ep_require_auth :: bool
  ep_http_forward :: bool
  ep_http_reverse :: bool
  ep_socks5 :: bool
  ep_created_at_ns :: int
  ep_updated_at_ns :: int

record runtime_config =
  rc_request_log :: bool
  rc_log_detail :: bool
  rc_req_headers_max :: int
  rc_req_body_max :: int
  rc_resp_headers_max :: int
  rc_resp_body_max :: int
  rc_max_failures :: int
  rc_latency_interval :: int
  rc_authority_interval :: int
  rc_egress_interval :: int
  rc_test_url :: string
  rc_authorities :: "string list"
  rc_p2c_window :: int
  rc_decay_window :: int
  rc_flush_interval :: int
  rc_flush_threshold :: int

definition default_runtime_config :: runtime_config where
  "default_runtime_config = \<lparr>rc_request_log = True, rc_log_detail = False, rc_req_headers_max = 4096,
     rc_req_body_max = 1024, rc_resp_headers_max = 1024, rc_resp_body_max = 1024, rc_max_failures = 3,
     rc_latency_interval = 3600000000000, rc_authority_interval = 10800000000000,
     rc_egress_interval = 86400000000000, rc_test_url = ''https://www.gstatic.com/generate_204'',
     rc_authorities = [''gstatic.com'', ''google.com'', ''cloudflare.com'', ''github.com''],
     rc_p2c_window = 600000000000, rc_decay_window = 600000000000, rc_flush_interval = 300000000000,
     rc_flush_threshold = 1000\<rparr>"

record state_db =
  sd_platforms :: "(string, model_platform) amap"
  sd_subscriptions :: "(string, model_subscription) amap"
  sd_endpoints :: "(string, endpoint) amap"
  sd_rules :: "(string, header_rule) amap"
  sd_config :: "(runtime_config \<times> int) option"

definition new_state_db :: state_db where
  "new_state_db = \<lparr>sd_platforms = [], sd_subscriptions = [], sd_endpoints = [], sd_rules = [], sd_config = None\<rparr>"

datatype repo_error =
    Repo_Not_Found
  | Repo_Conflict string
  | Repo_Platform_Name platform_error
  | Repo_Platform platform_error
  | Repo_Bad_Value string
  | Repo_Failed string

section \<open>Runtime configuration\<close>

definition get_system_config :: "string option \<Rightarrow> state_db \<Rightarrow> repo_error + (runtime_config option \<times> int)" where
  "get_system_config failed db = (case failed of
     Some err \<Rightarrow> Inl (Repo_Failed err)
   | None \<Rightarrow> Inr (case sd_config db of None \<Rightarrow> (None, 0) | Some (cfg, version) \<Rightarrow> (Some cfg, version)))"

definition save_system_config :: "string option \<Rightarrow> runtime_config \<Rightarrow> int \<Rightarrow> state_db \<Rightarrow> repo_error option \<times> state_db" where
  "save_system_config failed cfg version db = (case failed of
     Some err \<Rightarrow> (Some (Repo_Failed err), db)
   | None \<Rightarrow> (None, db\<lparr>sd_config := Some (cfg, version)\<rparr>))"

section \<open>Platforms\<close>

text \<open>The row \<open>UpsertPlatform\<close> writes, or why it refuses.\<close>

definition canonical_platform :: "external \<Rightarrow> model_platform \<Rightarrow> repo_error + model_platform" where
  "canonical_platform X p0 =
     (let p = p0\<lparr>m_name := normalize_platform_name (m_name p0)\<rparr> in
      case validate_platform_name X (m_name p) of
        Inl e \<Rightarrow> Inl (Repo_Platform_Name e)
      | Inr _ \<Rightarrow>
      (case compile_regex_filters X (m_regex_filters p) of
        Inl e \<Rightarrow> Inl (Repo_Platform e)
      | Inr _ \<Rightarrow>
      (case validate_region_filters (m_region_filters p) of
        Inl e \<Rightarrow> Inl (Repo_Platform e)
      | Inr _ \<Rightarrow>
      (let miss = normalize_miss_action (m_miss_action p) in
       if miss = [] then Inl (Repo_Bad_Value ''reverse_proxy_miss_action'')
       else if \<not> policy_is_valid (m_allocation_policy p) then Inl (Repo_Bad_Value ''allocation_policy'')
       else let trimmed = trim_space (m_empty_account_behavior p);
                behavior = (if trimmed = [] then behavior_random else trimmed)
         in if \<not> behavior_is_valid behavior then Inl (Repo_Bad_Value ''reverse_proxy_empty_account_behavior'')
         else (case normalize_fixed_account_headers X (m_fixed_account_header p) of
           Inl e \<Rightarrow> Inl (Repo_Platform e)
         | Inr (fixed, headers) \<Rightarrow>
             if behavior = behavior_fixed_header \<and> headers = [] then Inl (Repo_Platform Fixed_Header_Required)
             else if m_max_accounts_per_ip p < 0 then Inl (Repo_Platform (Max_Accounts_Negative (m_max_accounts_per_ip p)))
             else if m_ip_account_window_ns p < 0 then Inl (Repo_Platform (Window_Negative (m_ip_account_window_ns p)))
             else Inr (p\<lparr>m_miss_action := miss, m_empty_account_behavior := behavior,
                         m_fixed_account_header := fixed\<rparr>))))))"

text \<open>The unique index on the name column.\<close>

definition name_taken :: "string \<Rightarrow> string \<Rightarrow> (string, model_platform) amap \<Rightarrow> bool" where
  "name_taken pid name rows \<longleftrightarrow> list_ex (\<lambda>(i, q). i \<noteq> pid \<and> m_name q = name) rows"

definition upsert_platform ::
  "external \<Rightarrow> string option \<Rightarrow> model_platform \<Rightarrow> state_db \<Rightarrow> repo_error option \<times> state_db" where
  "upsert_platform X failed p0 db =
     (case canonical_platform X p0 of
        Inl e \<Rightarrow> (Some e, db)
      | Inr p \<Rightarrow>
          (case failed of
             Some err \<Rightarrow> (Some (Repo_Failed err), db)
           | None \<Rightarrow>
               if name_taken (m_id p) (m_name p) (sd_platforms db)
               then (Some (Repo_Conflict ''platform name already exists''), db)
               else (None, db\<lparr>sd_platforms := m_store (m_id p) p (sd_platforms db)\<rparr>)))"

definition repo_delete_platform :: "string option \<Rightarrow> string \<Rightarrow> state_db \<Rightarrow> repo_error option \<times> state_db" where
  "repo_delete_platform failed pid db = (case failed of
     Some err \<Rightarrow> (Some (Repo_Failed err), db)
   | None \<Rightarrow>
       if m_load (sd_platforms db) pid = None then (Some Repo_Not_Found, db)
       else (None, db\<lparr>sd_platforms := m_delete pid (sd_platforms db)\<rparr>))"

definition repo_get_platform :: "string option \<Rightarrow> string \<Rightarrow> state_db \<Rightarrow> repo_error + model_platform" where
  "repo_get_platform failed pid db = (case failed of
     Some err \<Rightarrow> Inl (Repo_Failed err)
   | None \<Rightarrow> (case m_load (sd_platforms db) pid of None \<Rightarrow> Inl Repo_Not_Found | Some p \<Rightarrow> Inr p))"

definition repo_get_platform_name :: "string option \<Rightarrow> string \<Rightarrow> state_db \<Rightarrow> repo_error + string" where
  "repo_get_platform_name failed pid db = (case failed of
     Some err \<Rightarrow> Inl (Repo_Failed err)
   | None \<Rightarrow> (case m_load (sd_platforms db) pid of None \<Rightarrow> Inl Repo_Not_Found | Some p \<Rightarrow> Inr (m_name p)))"

definition list_platforms :: "string option \<Rightarrow> state_db \<Rightarrow> repo_error + model_platform list" where
  "list_platforms failed db = (case failed of
     Some err \<Rightarrow> Inl (Repo_Failed err) | None \<Rightarrow> Inr (map snd (sd_platforms db)))"

section \<open>Subscriptions\<close>

definition upsert_subscription ::
  "string option \<Rightarrow> model_subscription \<Rightarrow> state_db \<Rightarrow> repo_error option \<times> state_db" where
  "upsert_subscription failed s0 db =
     (if ms_update_interval_ns s0 < 30000000000 then (Some (Repo_Bad_Value ''update_interval_ns''), db)
      else let s = (if ms_source_type s0 = [] then s0\<lparr>ms_source_type := ''remote''\<rparr> else s0) in
        if ms_source_type s \<noteq> ''remote'' \<and> ms_source_type s \<noteq> ''local''
        then (Some (Repo_Bad_Value ''source_type''), db)
        else (case failed of
          Some err \<Rightarrow> (Some (Repo_Failed err), db)
        | None \<Rightarrow>
            let row = (case m_load (sd_subscriptions db) (ms_id s) of
                         None \<Rightarrow> s | Some old \<Rightarrow> s\<lparr>ms_created_at_ns := ms_created_at_ns old\<rparr>)
            in (None, db\<lparr>sd_subscriptions := m_store (ms_id s) row (sd_subscriptions db)\<rparr>)))"

definition repo_delete_subscription :: "string option \<Rightarrow> string \<Rightarrow> state_db \<Rightarrow> repo_error option \<times> state_db" where
  "repo_delete_subscription failed sid db = (case failed of
     Some err \<Rightarrow> (Some (Repo_Failed err), db)
   | None \<Rightarrow>
       if m_load (sd_subscriptions db) sid = None then (Some Repo_Not_Found, db)
       else (None, db\<lparr>sd_subscriptions := m_delete sid (sd_subscriptions db)\<rparr>))"

definition list_subscriptions :: "string option \<Rightarrow> state_db \<Rightarrow> repo_error + model_subscription list" where
  "list_subscriptions failed db = (case failed of
     Some err \<Rightarrow> Inl (Repo_Failed err)
   | None \<Rightarrow> Inr (map (\<lambda>(i, s). if ms_source_type s = [] then s\<lparr>ms_source_type := ''remote''\<rparr> else s)
       (sd_subscriptions db)))"

section \<open>Endpoints\<close>

text \<open>
  The table checks the port range, then the primary key, then the unique port. Only the last is
  reported as a conflict.
\<close>

definition port_in_range :: "int \<Rightarrow> bool" where
  "port_in_range p \<longleftrightarrow> 1 \<le> p \<and> p \<le> 65535"

definition port_taken :: "string \<Rightarrow> int \<Rightarrow> (string, endpoint) amap \<Rightarrow> bool" where
  "port_taken eid port rows \<longleftrightarrow> list_ex (\<lambda>(i, e). i \<noteq> eid \<and> ep_port e = port) rows"

definition insert_endpoint :: "string option \<Rightarrow> endpoint \<Rightarrow> state_db \<Rightarrow> repo_error option \<times> state_db" where
  "insert_endpoint failed e db = (case failed of
     Some err \<Rightarrow> (Some (Repo_Failed err), db)
   | None \<Rightarrow>
       if \<not> port_in_range (ep_port e) then (Some (Repo_Failed ''CHECK constraint failed''), db)
       else if m_load (sd_endpoints db) (ep_id e) \<noteq> None then (Some (Repo_Failed ''PRIMARY KEY constraint failed''), db)
       else if port_taken (ep_id e) (ep_port e) (sd_endpoints db)
       then (Some (Repo_Conflict ''endpoint id or port already exists''), db)
       else (None, db\<lparr>sd_endpoints := m_store (ep_id e) e (sd_endpoints db)\<rparr>))"

definition repo_update_endpoint :: "string option \<Rightarrow> endpoint \<Rightarrow> state_db \<Rightarrow> repo_error option \<times> state_db" where
  "repo_update_endpoint failed e db = (case failed of
     Some err \<Rightarrow> (Some (Repo_Failed err), db)
   | None \<Rightarrow> (case m_load (sd_endpoints db) (ep_id e) of
       None \<Rightarrow> (Some Repo_Not_Found, db)
     | Some old \<Rightarrow>
         if \<not> port_in_range (ep_port e) then (Some (Repo_Failed ''CHECK constraint failed''), db)
         else if port_taken (ep_id e) (ep_port e) (sd_endpoints db)
         then (Some (Repo_Conflict ''endpoint port already exists''), db)
         else (None, db\<lparr>sd_endpoints := m_store (ep_id e) (e\<lparr>ep_created_at_ns := ep_created_at_ns old\<rparr>)
                 (sd_endpoints db)\<rparr>)))"

definition repo_delete_endpoint :: "string option \<Rightarrow> string \<Rightarrow> state_db \<Rightarrow> repo_error option \<times> state_db" where
  "repo_delete_endpoint failed eid db = (case failed of
     Some err \<Rightarrow> (Some (Repo_Failed err), db)
   | None \<Rightarrow>
       if m_load (sd_endpoints db) eid = None then (Some Repo_Not_Found, db)
       else (None, db\<lparr>sd_endpoints := m_delete eid (sd_endpoints db)\<rparr>))"

definition repo_get_endpoint :: "string option \<Rightarrow> string \<Rightarrow> state_db \<Rightarrow> repo_error + endpoint" where
  "repo_get_endpoint failed eid db = (case failed of
     Some err \<Rightarrow> Inl (Repo_Failed err)
   | None \<Rightarrow> (case m_load (sd_endpoints db) eid of None \<Rightarrow> Inl Repo_Not_Found | Some e \<Rightarrow> Inr e))"

definition repo_list_endpoints :: "string option \<Rightarrow> state_db \<Rightarrow> repo_error + endpoint list" where
  "repo_list_endpoints failed db = (case failed of
     Some err \<Rightarrow> Inl (Repo_Failed err) | None \<Rightarrow> Inr (sort_key ep_port (map snd (sd_endpoints db))))"

section \<open>Account header rules\<close>

definition ensure_rule :: "string option \<Rightarrow> header_rule \<Rightarrow> state_db \<Rightarrow> (repo_error + bool) \<times> state_db" where
  "ensure_rule failed r db = (case failed of
     Some err \<Rightarrow> (Inl (Repo_Failed err), db)
   | None \<Rightarrow>
       if m_load (sd_rules db) (hr_url_prefix r) \<noteq> None then (Inr False, db)
       else (Inr True, db\<lparr>sd_rules := m_store (hr_url_prefix r) r (sd_rules db)\<rparr>))"

definition upsert_rule :: "string option \<Rightarrow> header_rule \<Rightarrow> state_db \<Rightarrow> (repo_error + bool) \<times> state_db" where
  "upsert_rule failed r db = (case failed of
     Some err \<Rightarrow> (Inl (Repo_Failed err), db)
   | None \<Rightarrow> (Inr (m_load (sd_rules db) (hr_url_prefix r) = None),
       db\<lparr>sd_rules := m_store (hr_url_prefix r) r (sd_rules db)\<rparr>))"

definition repo_delete_rule :: "string option \<Rightarrow> string \<Rightarrow> state_db \<Rightarrow> repo_error option \<times> state_db" where
  "repo_delete_rule failed prefix db = (case failed of
     Some err \<Rightarrow> (Some (Repo_Failed err), db)
   | None \<Rightarrow>
       if m_load (sd_rules db) prefix = None then (Some Repo_Not_Found, db)
       else (None, db\<lparr>sd_rules := m_delete prefix (sd_rules db)\<rparr>))"

definition list_rules :: "string option \<Rightarrow> state_db \<Rightarrow> repo_error + header_rule list" where
  "list_rules failed db = (case failed of
     Some err \<Rightarrow> Inl (Repo_Failed err) | None \<Rightarrow> Inr (map snd (sd_rules db)))"

section \<open>Fixed headers have a normal form\<close>

text \<open>\<open>httpguts.ValidHeaderFieldName\<close> accepts non-empty tokens only.\<close>

definition header_names_are_tokens :: "external \<Rightarrow> bool" where
  "header_names_are_tokens X \<longleftrightarrow> (\<forall>n. valid_header_name X n \<longrightarrow> n \<noteq> [] \<and> list_all token_byte n)"

lemma of_upper: "(of_char (upper_char c) :: nat) = (let n = of_char c in if 97 \<le> n \<and> n \<le> 122 then n - 32 else n)"
  by (auto simp: upper_char_def Let_def)

lemma of_lower: "(of_char (lower_char c) :: nat) = (let n = of_char c in if 65 \<le> n \<and> n \<le> 90 then n + 32 else n)"
  by (auto simp: lower_char_def Let_def)

lemma char_eqI: "(of_char c :: nat) = of_char d \<Longrightarrow> c = d"
  by (simp add: of_char_eq_iff)

lemma case_chars:
  "upper_char (upper_char c) = upper_char c" "lower_char (lower_char c) = lower_char c"
  "upper_char c = CHR ''-'' \<longleftrightarrow> c = CHR ''-''" "lower_char c = CHR ''-'' \<longleftrightarrow> c = CHR ''-''"
  "token_byte c \<Longrightarrow> token_byte (upper_char c)" "token_byte c \<Longrightarrow> token_byte (lower_char c)"
proof -
  show "upper_char (upper_char c) = upper_char c" "lower_char (lower_char c) = lower_char c"
    by (rule char_eqI, auto simp: of_upper of_lower Let_def)+
  have h: "(of_char CHR ''-'' :: nat) = 45" by simp
  have "(of_char (upper_char c) :: nat) = 45 \<longleftrightarrow> (of_char c :: nat) = 45"
    "(of_char (lower_char c) :: nat) = 45 \<longleftrightarrow> (of_char c :: nat) = 45"
    by (auto simp: of_upper of_lower Let_def)
  then show "upper_char c = CHR ''-'' \<longleftrightarrow> c = CHR ''-''" "lower_char c = CHR ''-'' \<longleftrightarrow> c = CHR ''-''"
    unfolding h [symmetric] of_char_eq_iff by blast+
  have t: "token_byte d \<longleftrightarrow> (of_char d :: nat) \<in> {48..57} \<union> {65..90} \<union> {97..122}
      \<union> {33, 35, 36, 37, 38, 39, 42, 43, 45, 46, 94, 95, 96, 124, 126}" for d
    by (simp add: token_byte_def Let_def) blast
  have up: "n \<in> {48..57} \<union> {65..90} \<union> {97..122} \<union> T \<Longrightarrow>
      (if 97 \<le> n \<and> n \<le> 122 then n - 32 else n) \<in> {48..57} \<union> {65..90} \<union> {97..122} \<union> T"
    and low: "n \<in> {48..57} \<union> {65..90} \<union> {97..122} \<union> T \<Longrightarrow>
      (if 65 \<le> n \<and> n \<le> 90 then n + 32 else n) \<in> {48..57} \<union> {65..90} \<union> {97..122} \<union> T" for n :: nat and T
    by (auto split: if_splits)
  show "token_byte c \<Longrightarrow> token_byte (upper_char c)" "token_byte c \<Longrightarrow> token_byte (lower_char c)"
    unfolding t of_upper of_lower Let_def by (rule up low, assumption)+
qed

lemma canonical_bytes_idem: "canonical_bytes b (canonical_bytes b s) = canonical_bytes b s"
  by (induction b s rule: canonical_bytes.induct) (simp_all add: case_chars)

lemma canonical_bytes_tokens: "list_all token_byte s \<Longrightarrow> list_all token_byte (canonical_bytes b s)"
  by (induction b s rule: canonical_bytes.induct) (simp_all add: case_chars)

lemma canonical_key_idem: "canonical_header_key (canonical_header_key s) = canonical_header_key s"
  by (simp add: canonical_header_key_def canonical_bytes_idem canonical_bytes_tokens)

lemma token_plain: "token_byte c \<Longrightarrow> plain_char c \<and> c \<noteq> char_of (10 :: nat) \<and> c \<noteq> char_of (13 :: nat)"
proof -
  assume t: "token_byte c"
  have "c \<noteq> char_of (10 :: nat)" "c \<noteq> char_of (13 :: nat)" using t by (auto simp: token_byte_def Let_def)
  with t show ?thesis by (auto simp: token_byte_def plain_char_def Let_def)
qed

text \<open>A header name as the loop keeps it.\<close>

definition kept_header :: "external \<Rightarrow> string \<Rightarrow> bool" where
  "kept_header X h \<longleftrightarrow> h \<noteq> [] \<and> list_all token_byte h \<and> valid_header_name X h \<and> canonical_header_key h = h"

lemma fixed_header_loop_kept:
  assumes "header_names_are_tokens X" "fixed_header_loop X i ls seen hs = Inr hs'"
    "set seen = to_lower (uni_lower X) ` set hs" "distinct (map (to_lower (uni_lower X)) hs)" "\<forall>h \<in> set hs. kept_header X h"
  shows "distinct (map (to_lower (uni_lower X)) hs') \<and> (\<forall>h \<in> set hs'. kept_header X h)"
  using assms(2-)
proof (induction ls arbitrary: i seen hs)
  case (Cons line ls)
  define name key where "name = canonical_header_key (trim_space (trim_suffix_byte (char_of (13 :: nat)) line))"
    and "key = to_lower (uni_lower X) name"
  have can: "canonical_header_key name = name" unfolding name_def by (rule canonical_key_idem)
  have step: "fixed_header_loop X i (line # ls) seen hs =
     (if name = [] then fixed_header_loop X (Suc i) ls seen hs
      else if \<not> valid_header_name X name then Inl (Bad_Fixed_Header (i + 1))
      else if key \<in> set seen then fixed_header_loop X (Suc i) ls seen hs
      else fixed_header_loop X (Suc i) ls (key # seen) (hs @ [name]))"
    by (simp only: fixed_header_loop.simps name_def key_def Let_def)
  consider (skip) "fixed_header_loop X (Suc i) ls seen hs = Inr hs'"
    | (add) "name \<noteq> []" "valid_header_name X name" "key \<notin> set seen"
        "fixed_header_loop X (Suc i) ls (key # seen) (hs @ [name]) = Inr hs'"
    using Cons.prems(1) unfolding step by (auto split: if_splits)
  then show ?case
  proof cases
    case skip
    then show ?thesis by (rule Cons.IH [OF _ Cons.prems(2-4)])
  next
    case add
    have "kept_header X name" using add(2) can assms(1) unfolding kept_header_def header_names_are_tokens_def by blast
    then show ?thesis
      using Cons.prems(2-4) add(3) by (intro Cons.IH [OF add(4)]) (auto simp: key_def)
  qed
qed simp

lemma kept_header_read:
  assumes "kept_header X h"
  shows "canonical_header_key (trim_space (trim_suffix_byte (char_of (13 :: nat)) h)) = h"
proof -
  from assms have h: "h \<noteq> []" "list_all token_byte h" "canonical_header_key h = h" unfolding kept_header_def by blast+
  have plain: "plain_char (hd h)" "plain_char (last h)" "last h \<noteq> char_of (13 :: nat)"
    using h(2) token_plain hd_in_set [OF h(1)] last_in_set [OF h(1)] unfolding list_all_iff by blast+
  have "trim_suffix_byte (char_of (13 :: nat)) h = h" 
    unfolding trim_suffix_byte_def by (rule if_not_P) (use plain(3) in blast)
  then show ?thesis by (simp only: trim_space_plain [OF plain(1,2) h(1)] h(3))
qed

lemma fixed_header_loop_again:
  assumes "\<forall>h \<in> set hs. kept_header X h" "distinct (map (to_lower (uni_lower X)) hs)"
    "set seen \<inter> to_lower (uni_lower X) ` set hs = {}"
  shows "fixed_header_loop X i hs seen acc = Inr (acc @ hs)"
  using assms
proof (induction hs arbitrary: i seen acc)
  case (Cons h hs)
  have k: "kept_header X h" "h \<noteq> []" "valid_header_name X h" using Cons.prems(1) by (auto simp: kept_header_def)
  show ?case using Cons.prems k by (simp add: kept_header_read [OF k(1)] Let_def Cons.IH)
qed simp

lemma header_split_join:
  assumes "hs \<noteq> []" "\<forall>h \<in> set hs. c \<notin> set h"
  shows "split_at_byte c (join_with [c] hs) = hs"
proof -
  have split_append: "split_at_byte c (h @ c # rest) = h # split_at_byte c rest" if "c \<notin> set h" for h rest
    using that by (induction h) auto
  have split_alone: "split_at_byte c h = [h]" if "c \<notin> set h" for h using that by (induction h) auto
  show ?thesis using assms by (induction "[c]" hs rule: join_with.induct) (simp_all add: split_append split_alone)
qed

lemma fixed_headers_normal:
  assumes "header_names_are_tokens X" "normalize_fixed_account_headers X raw = Inr (fixed, headers)"
  shows "normalize_fixed_account_headers X fixed = Inr (fixed, headers)" "fixed = [] \<longleftrightarrow> headers = []"
proof -
  let ?nl = "char_of (10 :: nat) :: char"
  have kept: "(headers = [] \<and> fixed = []) \<or> (fixed = join_with [?nl] headers
      \<and> distinct (map (to_lower (uni_lower X)) headers) \<and> (\<forall>h \<in> set headers. kept_header X h))"
    using assms(2) fixed_header_loop_kept [OF assms(1), of 0 _ "[]" "[]"]
    by (auto simp: normalize_fixed_account_headers_def split: if_splits sum.splits)
  show "normalize_fixed_account_headers X fixed = Inr (fixed, headers)" "fixed = [] \<longleftrightarrow> headers = []"
  proof (atomize (full), cases "headers = []")
    case True
    with kept show "normalize_fixed_account_headers X fixed = Inr (fixed, headers) \<and> (fixed = [] \<longleftrightarrow> headers = [])"
      by (auto simp: normalize_fixed_account_headers_def)
  next
    case False
    with kept have k: "fixed = join_with [?nl] headers" "distinct (map (to_lower (uni_lower X)) headers)"
      "\<forall>h \<in> set headers. kept_header X h" by auto
    then have tok: "h \<noteq> [] \<and> list_all token_byte h" if "h \<in> set headers" for h using that by (simp add: kept_header_def)
    then have split: "split_at_byte ?nl fixed = headers" unfolding k(1)
      using False token_plain by (intro header_split_join) (auto simp: list_all_iff)
    have ends: "hs \<noteq> [] \<Longrightarrow> \<forall>h \<in> set hs. h \<noteq> [] \<and> list_all token_byte h \<Longrightarrow>
        join_with [?nl] hs \<noteq> [] \<and> token_byte (hd (join_with [?nl] hs)) \<and> token_byte (last (join_with [?nl] hs))" for hs
      by (induction "[?nl]" hs rule: join_with.induct) (auto simp: list_all_iff)
    have f: "fixed \<noteq> []" "token_byte (hd fixed)" "token_byte (last fixed)"
      using ends [OF False] tok unfolding k(1) by blast+
    then have "trim_space fixed \<noteq> []" using token_plain trim_space_plain by metis
    then show "normalize_fixed_account_headers X fixed = Inr (fixed, headers) \<and> (fixed = [] \<longleftrightarrow> headers = [])"
      using False f(1) split fixed_header_loop_again [OF k(3,2), of "[]" 0 "[]"] k(1)
      by (simp add: normalize_fixed_account_headers_def)
  qed
qed

section \<open>What the tables hold\<close>

lemma trim_space_idem: "trim_space (trim_space s) = trim_space s"
proof -
  define u where "u = trim_front go_spaces s"
  define v where "v = trim_front (map rev go_spaces) (rev u)"
  have v: "trim_space s = rev v" by (simp only: trim_space_def u_def v_def)
  have behind: "drop_first_of (map rev go_spaces) v = None"
    unfolding v_def by (rule trim_front_done [OF go_spaces_nonempty(2)])
  have front: "drop_first_of go_spaces u = None" unfolding u_def by (rule trim_front_done [OF go_spaces_nonempty(1)])
  obtain q where "rev u = q @ v" unfolding v_def using trim_front_suffix by blast
  then have u: "u = rev v @ rev q" by (metis rev_append rev_rev_ident)
  have "drop_first_of go_spaces (rev v) = None"
    using front unfolding drop_first_of_None u by (metis append_assoc)
  then have "trim_front go_spaces (rev v) = rev v" by (rule trim_front_fix)
  then show ?thesis
    unfolding v by (subst trim_space_def) (simp only: rev_rev_ident trim_front_fix [OF behind])
qed

lemma normalize_miss_idem: "normalize_miss_action (normalize_miss_action a) = normalize_miss_action a"
  by (auto simp: normalize_miss_action_def Let_def trim_space_idem)

text \<open>A row of the platform table: what \<open>canonical_platform\<close> leaves unchanged.\<close>

definition platform_row_ok :: "external \<Rightarrow> model_platform \<Rightarrow> bool" where
  "platform_row_ok X p \<longleftrightarrow> trim_space (m_name p) = m_name p \<and> validate_platform_name X (m_name p) = Inr ()
     \<and> (\<exists>f. compile_regex_filters X (m_regex_filters p) = Inr f)
     \<and> validate_region_filters (m_region_filters p) = Inr ()
     \<and> m_miss_action p \<noteq> [] \<and> normalize_miss_action (m_miss_action p) = m_miss_action p
     \<and> policy_is_valid (m_allocation_policy p) \<and> behavior_is_valid (m_empty_account_behavior p)
     \<and> (\<exists>headers. normalize_fixed_account_headers X (m_fixed_account_header p) = Inr (m_fixed_account_header p, headers))
     \<and> (m_empty_account_behavior p = behavior_fixed_header \<longrightarrow> m_fixed_account_header p \<noteq> [])
     \<and> 0 \<le> m_max_accounts_per_ip p \<and> 0 \<le> m_ip_account_window_ns p"

lemma canonical_platform_row:
  assumes "header_names_are_tokens X" "canonical_platform X p0 = Inr p"
  shows "platform_row_ok X p" "m_id p = m_id p0"
proof -
  from assms(2) obtain fixed headers where n: "normalize_fixed_account_headers X (m_fixed_account_header p0) = Inr (fixed, headers)"
    by (auto simp: canonical_platform_def Let_def split: sum.splits if_splits)
  note f = fixed_headers_normal [OF assms(1) n]
  show "platform_row_ok X p"
    using assms(2) n f unfolding platform_row_ok_def
    by (auto simp: canonical_platform_def Let_def normalize_miss_idem normalize_platform_name_def trim_space_idem
        split: sum.splits if_splits)
  show "m_id p = m_id p0"
    using assms(2) by (auto simp: canonical_platform_def Let_def split: sum.splits if_splits)
qed

definition subscription_row_ok :: "model_subscription \<Rightarrow> bool" where
  "subscription_row_ok s \<longleftrightarrow> 30000000000 \<le> ms_update_interval_ns s
     \<and> (ms_source_type s = ''remote'' \<or> ms_source_type s = ''local'')"

definition state_db_ok :: "external \<Rightarrow> state_db \<Rightarrow> bool" where
  "state_db_ok X db \<longleftrightarrow> m_ok (sd_platforms db) \<and> m_ok (sd_subscriptions db) \<and> m_ok (sd_endpoints db) \<and> m_ok (sd_rules db)
     \<and> (\<forall>i p. m_load (sd_platforms db) i = Some p \<longrightarrow> m_id p = i \<and> platform_row_ok X p)
     \<and> (\<forall>i j p q. m_load (sd_platforms db) i = Some p \<and> m_load (sd_platforms db) j = Some q \<and> m_name p = m_name q \<longrightarrow> i = j)
     \<and> (\<forall>i s. m_load (sd_subscriptions db) i = Some s \<longrightarrow> ms_id s = i \<and> subscription_row_ok s)
     \<and> (\<forall>i e. m_load (sd_endpoints db) i = Some e \<longrightarrow> ep_id e = i \<and> port_in_range (ep_port e))
     \<and> (\<forall>i j e f. m_load (sd_endpoints db) i = Some e \<and> m_load (sd_endpoints db) j = Some f \<and> ep_port e = ep_port f \<longrightarrow> i = j)
     \<and> (\<forall>u r. m_load (sd_rules db) u = Some r \<longrightarrow> hr_url_prefix r = u)"

datatype repo_op =
    Op_Save_Config runtime_config int
  | Op_Upsert_Platform model_platform
  | Op_Delete_Platform string
  | Op_Upsert_Subscription model_subscription
  | Op_Delete_Subscription string
  | Op_Insert_Endpoint endpoint
  | Op_Update_Endpoint endpoint
  | Op_Delete_Endpoint string
  | Op_Ensure_Rule header_rule
  | Op_Upsert_Rule header_rule
  | Op_Delete_Rule string

text \<open>An operation, and whether the database fails under it.\<close>

fun repo_step :: "external \<Rightarrow> repo_op \<times> string option \<Rightarrow> state_db \<Rightarrow> state_db" where
  "repo_step X (Op_Save_Config c v, failed) db = snd (save_system_config failed c v db)"
| "repo_step X (Op_Upsert_Platform p, failed) db = snd (upsert_platform X failed p db)"
| "repo_step X (Op_Delete_Platform i, failed) db = snd (repo_delete_platform failed i db)"
| "repo_step X (Op_Upsert_Subscription s, failed) db = snd (upsert_subscription failed s db)"
| "repo_step X (Op_Delete_Subscription i, failed) db = snd (repo_delete_subscription failed i db)"
| "repo_step X (Op_Insert_Endpoint e, failed) db = snd (insert_endpoint failed e db)"
| "repo_step X (Op_Update_Endpoint e, failed) db = snd (repo_update_endpoint failed e db)"
| "repo_step X (Op_Delete_Endpoint i, failed) db = snd (repo_delete_endpoint failed i db)"
| "repo_step X (Op_Ensure_Rule r, failed) db = snd (ensure_rule failed r db)"
| "repo_step X (Op_Upsert_Rule r, failed) db = snd (upsert_rule failed r db)"
| "repo_step X (Op_Delete_Rule i, failed) db = snd (repo_delete_rule failed i db)"

lemma name_taken_iff: "m_ok rows \<Longrightarrow> name_taken pid name rows \<longleftrightarrow> (\<exists>i q. m_load rows i = Some q \<and> i \<noteq> pid \<and> m_name q = name)"
  by (auto simp: name_taken_def list_ex_iff m_ok_def)

lemma port_taken_iff: "m_ok rows \<Longrightarrow> port_taken eid port rows \<longleftrightarrow> (\<exists>i q. m_load rows i = Some q \<and> i \<noteq> eid \<and> ep_port q = port)"
  by (auto simp: port_taken_def list_ex_iff m_ok_def)

lemma state_db_okD:
  assumes "state_db_ok X db"
  shows "m_ok (sd_platforms db)" "m_ok (sd_subscriptions db)" "m_ok (sd_endpoints db)" "m_ok (sd_rules db)"
    and "m_load (sd_platforms db) i = Some p \<Longrightarrow> m_id p = i \<and> platform_row_ok X p"
    and "m_load (sd_platforms db) i = Some p \<Longrightarrow> m_load (sd_platforms db) j = Some q \<Longrightarrow> m_name p = m_name q \<Longrightarrow> i = j"
    and "m_load (sd_subscriptions db) i = Some s \<Longrightarrow> ms_id s = i \<and> subscription_row_ok s"
    and "m_load (sd_endpoints db) i = Some e \<Longrightarrow> ep_id e = i \<and> port_in_range (ep_port e)"
    and "m_load (sd_endpoints db) i = Some e \<Longrightarrow> m_load (sd_endpoints db) j = Some f \<Longrightarrow> ep_port e = ep_port f \<Longrightarrow> i = j"
    and "m_load (sd_rules db) u = Some r \<Longrightarrow> hr_url_prefix r = u"
  using assms unfolding state_db_ok_def by blast+

lemma new_state_db_ok: "state_db_ok X new_state_db"
  by (simp add: state_db_ok_def new_state_db_def)

lemma upsert_platform_cases:
  assumes "upsert_platform X failed p0 db = (err, db')"
  shows "(err \<noteq> None \<and> db' = db) \<or> (\<exists>p. err = None \<and> failed = None \<and> canonical_platform X p0 = Inr p
    \<and> \<not> name_taken (m_id p) (m_name p) (sd_platforms db) \<and> db' = db\<lparr>sd_platforms := m_store (m_id p) p (sd_platforms db)\<rparr>)"
  using assms by (auto simp: upsert_platform_def split: sum.splits option.splits if_splits)

lemma upsert_platform_ok:
  assumes "header_names_are_tokens X" "state_db_ok X db" "upsert_platform X failed p0 db = (err, db')"
  shows "state_db_ok X db'"
proof -
  note d = state_db_okD [OF assms(2)]
  from upsert_platform_cases [OF assms(3)] consider "db' = db"
    | p where "canonical_platform X p0 = Inr p" "\<not> name_taken (m_id p) (m_name p) (sd_platforms db)"
        "db' = db\<lparr>sd_platforms := m_store (m_id p) p (sd_platforms db)\<rparr>" by blast
  then show ?thesis
  proof cases
    case 2
    note row = canonical_platform_row [OF assms(1) 2(1)]
    have free: "m_load (sd_platforms db) i = Some q \<Longrightarrow> m_name q = m_name p \<Longrightarrow> i = m_id p" for i q
      using 2(2) name_taken_iff [OF d(1)] by blast
    show ?thesis
      unfolding state_db_ok_def 2(3)
      by (intro conjI allI impI) (use d row free in \<open>auto simp: store_simps split: if_splits\<close>)
  qed (use assms(2) in simp)
qed

lemma delete_row_ok:
  assumes "state_db_ok X db"
  shows "state_db_ok X (db\<lparr>sd_platforms := m_delete i (sd_platforms db)\<rparr>)"
    "state_db_ok X (db\<lparr>sd_subscriptions := m_delete i (sd_subscriptions db)\<rparr>)"
    "state_db_ok X (db\<lparr>sd_endpoints := m_delete i (sd_endpoints db)\<rparr>)"
    "state_db_ok X (db\<lparr>sd_rules := m_delete i (sd_rules db)\<rparr>)"
  unfolding state_db_ok_def
  by (intro conjI allI impI; use state_db_okD [OF assms] in \<open>auto simp: store_simps split: if_splits\<close>)+

lemma store_row_ok:
  assumes "state_db_ok X db"
  shows "subscription_row_ok s \<Longrightarrow> state_db_ok X (db\<lparr>sd_subscriptions := m_store (ms_id s) s (sd_subscriptions db)\<rparr>)"
    "port_in_range (ep_port e) \<Longrightarrow> \<not> port_taken (ep_id e) (ep_port e) (sd_endpoints db)
      \<Longrightarrow> state_db_ok X (db\<lparr>sd_endpoints := m_store (ep_id e) e (sd_endpoints db)\<rparr>)"
    "state_db_ok X (db\<lparr>sd_rules := m_store (hr_url_prefix r) r (sd_rules db)\<rparr>)"
proof -
  note d = state_db_okD [OF assms]
  show "subscription_row_ok s \<Longrightarrow> state_db_ok X (db\<lparr>sd_subscriptions := m_store (ms_id s) s (sd_subscriptions db)\<rparr>)"
    "state_db_ok X (db\<lparr>sd_rules := m_store (hr_url_prefix r) r (sd_rules db)\<rparr>)"
    unfolding state_db_ok_def
    by (intro conjI allI impI; use d in \<open>auto simp: store_simps split: if_splits\<close>)+
  assume e: "port_in_range (ep_port e)" "\<not> port_taken (ep_id e) (ep_port e) (sd_endpoints db)"
  then have free: "m_load (sd_endpoints db) i = Some q \<Longrightarrow> ep_port q = ep_port e \<Longrightarrow> i = ep_id e" for i q
    using port_taken_iff [OF d(3)] by blast
  show "state_db_ok X (db\<lparr>sd_endpoints := m_store (ep_id e) e (sd_endpoints db)\<rparr>)"
    unfolding state_db_ok_def
    by (intro conjI allI impI) (use d e(1) free in \<open>auto simp: store_simps split: if_splits\<close>)
qed

lemma upsert_subscription_row:
  assumes "upsert_subscription failed s0 db = (err, db')"
  shows "db' = db \<or> (\<exists>s. subscription_row_ok s \<and> ms_id s = ms_id s0
    \<and> db' = db\<lparr>sd_subscriptions := m_store (ms_id s) s (sd_subscriptions db)\<rparr>)"
proof (cases "db' = db")
  case False
  define s where "s = (if ms_source_type s0 = [] then s0\<lparr>ms_source_type := ''remote''\<rparr> else s0)"
  define row where "row = (case m_load (sd_subscriptions db) (ms_id s) of
    None \<Rightarrow> s | Some old \<Rightarrow> s\<lparr>ms_created_at_ns := ms_created_at_ns old\<rparr>)"
  have f: "ms_id row = ms_id s0" "ms_id s = ms_id s0" "subscription_row_ok row = subscription_row_ok s"
    by (auto simp: row_def s_def subscription_row_ok_def split: option.split)
  have "subscription_row_ok s \<and> db' = db\<lparr>sd_subscriptions := m_store (ms_id s) row (sd_subscriptions db)\<rparr>"
    using assms False unfolding upsert_subscription_def s_def [symmetric] Let_def row_def [symmetric]
    by (auto simp: subscription_row_ok_def s_def split: option.splits if_splits)
  with f show ?thesis by metis
qed simp

interpretation rp: invariant_machine "repo_step X" "\<lambda>_. header_names_are_tokens X" "state_db_ok X" for X
proof
  fix db :: state_db and op :: "repo_op \<times> string option"
  assume ok: "state_db_ok X db" and X: "header_names_are_tokens X"
  obtain o1 failed where op: "op = (o1, failed)" by (rule prod.exhaust)
  note r = delete_row_ok [OF ok] store_row_ok [OF ok]
  show "state_db_ok X (repo_step X op db)"
  proof (cases o1)
    case (Op_Save_Config c v)
    with ok show ?thesis by (auto simp: op save_system_config_def state_db_ok_def split: option.split)
  next
    case (Op_Upsert_Platform p)
    then show ?thesis using upsert_platform_ok [OF X ok] by (metis op prod.collapse repo_step.simps(2))
  next
    case (Op_Upsert_Subscription s)
    with upsert_subscription_row [of failed s db] r ok show ?thesis by (metis op prod.collapse repo_step.simps(4))
  next
    case (Op_Insert_Endpoint e)
    with r ok show ?thesis by (auto simp: op insert_endpoint_def split: option.split)
  next
    case (Op_Update_Endpoint e)
    have "port_in_range (ep_port e) \<Longrightarrow> \<not> port_taken (ep_id e) (ep_port e) (sd_endpoints db) \<Longrightarrow>
        state_db_ok X (db\<lparr>sd_endpoints := m_store (ep_id e) (e\<lparr>ep_created_at_ns := c\<rparr>) (sd_endpoints db)\<rparr>)" for c
      using r(6) [of "e\<lparr>ep_created_at_ns := c\<rparr>"] by simp
    with Op_Update_Endpoint ok show ?thesis by (auto simp: op repo_update_endpoint_def split: option.split)
  qed (use r ok in \<open>auto simp: op repo_delete_platform_def repo_delete_subscription_def repo_delete_endpoint_def
    ensure_rule_def upsert_rule_def repo_delete_rule_def split: option.split\<close>)
qed

lemma platform_row_builds:
  assumes "platform_row_ok X p"
  shows "\<exists>q. build_from_model X p = Inr q \<and> plat_id q = m_id p \<and> plat_name q = m_name p"
proof -
  obtain headers where "normalize_fixed_account_headers X (m_fixed_account_header p) = Inr (m_fixed_account_header p, headers)"
    using assms by (auto simp: platform_row_ok_def)
  with assms show ?thesis
    by (auto simp: platform_row_ok_def build_from_model_def compile_model_regex_filters_def Let_def
        new_configured_platform_def new_platform_with_tag_filter_def)
qed

text \<open>
  C28. Whatever is written to the configuration database, and whenever it fails, what it holds can be
  loaded again: every platform row has an acceptable name of its own and builds into a platform with
  its id and name, every subscription row has a known source type and an interval of at least 30
  seconds, and every endpoint row has a legal port of its own.
\<close>

theorem stored_rows_valid:
  assumes "header_names_are_tokens X" "db = fold (repo_step X) ops new_state_db"
  shows "(\<forall>pid p. m_load (sd_platforms db) pid = Some p \<longrightarrow> validate_platform_name X (m_name p) = Inr ()
       \<and> (\<exists>q. build_from_model X p = Inr q \<and> plat_id q = pid \<and> plat_name q = m_name p)
       \<and> (\<forall>j q. m_load (sd_platforms db) j = Some q \<and> m_name q = m_name p \<longrightarrow> j = pid))
    \<and> (\<forall>sid s. m_load (sd_subscriptions db) sid = Some s \<longrightarrow> 30000000000 \<le> ms_update_interval_ns s
       \<and> (ms_source_type s = ''remote'' \<or> ms_source_type s = ''local''))
    \<and> (\<forall>eid e. m_load (sd_endpoints db) eid = Some e \<longrightarrow> 1 \<le> ep_port e \<and> ep_port e \<le> 65535
       \<and> (\<forall>j f. m_load (sd_endpoints db) j = Some f \<and> ep_port f = ep_port e \<longrightarrow> j = eid))"
proof -
  have ok: "state_db_ok X db"
    unfolding assms(2) by (rule rp.run_inv [OF new_state_db_ok]) (simp add: assms(1) list_all_iff)
  note d = state_db_okD [OF ok]
  show ?thesis
  proof (intro conjI allI impI)
    fix pid p assume p: "m_load (sd_platforms db) pid = Some p"
    show "validate_platform_name X (m_name p) = Inr ()" using d(5) [OF p] by (simp add: platform_row_ok_def)
    show "\<exists>q. build_from_model X p = Inr q \<and> plat_id q = pid \<and> plat_name q = m_name p"
      using d(5) [OF p] platform_row_builds [of X p] by simp
    show "j = pid" if "m_load (sd_platforms db) j = Some q \<and> m_name q = m_name p" for j q
      using d(6) p that by blast
  next
    fix sid s assume "m_load (sd_subscriptions db) sid = Some s"
    from d(7) [OF this] show "30000000000 \<le> ms_update_interval_ns s"
      "ms_source_type s = ''remote'' \<or> ms_source_type s = ''local''" by (simp_all add: subscription_row_ok_def)
  next
    fix eid e assume e: "m_load (sd_endpoints db) eid = Some e"
    from d(8) [OF this] show "1 \<le> ep_port e" "ep_port e \<le> 65535" by (simp_all add: port_in_range_def)
    show "j = eid" if "m_load (sd_endpoints db) j = Some f \<and> ep_port f = ep_port e" for j f
      using d(9) e that by blast
  qed
qed

definition token_external :: external where
  "token_external = plain_external\<lparr>valid_header_name := \<lambda>s. s \<noteq> [] \<and> list_all token_byte s\<rparr>"

lemma token_external_tokens: "header_names_are_tokens token_external"
  by (simp add: header_names_are_tokens_def token_external_def)

definition sample_row :: model_platform where
  "sample_row = sample_model\<lparr>m_allocation_policy := ''BALANCED''\<rparr>"

lemma sample_row_trim: "trim_space ''n'' = ''n''" "trim_space ''RANDOM'' = ''RANDOM''"
  by (rule trim_space_plain, simp_all add: plain_char_def)+

lemma sample_name_valid: "validate_platform_name token_external ''n'' = Inr ()"
proof -
  have "list_all (\<lambda>c. c \<noteq> CHR ''n'') (name_forbidden_chars @ name_forbidden_spacing)"
    by (simp add: name_forbidden_chars_def name_forbidden_spacing_def char_of_def)
  then have "\<not> contains_any ''n'' name_forbidden_chars" "\<not> contains_any ''n'' name_forbidden_spacing"
    by (auto simp: contains_any_def list_all_iff)
  then show ?thesis by (simp add: validate_platform_name_def equal_fold_def token_external_def plain_external_def)
qed

lemma token_external_regex: "regex_compile token_external p = Some (\<lambda>s. p = s)"
  by (simp add: token_external_def plain_external_def)

lemma sample_row_canonical: "canonical_platform token_external sample_row = Inr sample_row"
  by (simp add: canonical_platform_def sample_row_def sample_model_def normalize_platform_name_def sample_row_trim trim_reject
      token_external_regex
      sample_name_valid compile_regex_filters_def validate_region_filters_def is_lower_alpha2_def Let_def
      normalize_miss_action_def miss_action_is_valid_def miss_reject_def policy_is_valid_def policy_balanced_def
      behavior_is_valid_def behavior_random_def behavior_fixed_header_def normalize_fixed_account_headers_def)

theorem stored_rows_valid_witness:
  "let db = fold (repo_step token_external) [(Op_Upsert_Platform sample_row, None)] new_state_db
   in m_load (sd_platforms db) ''p'' = Some sample_row
     \<and> (\<exists>q. build_from_model token_external sample_row = Inr q \<and> plat_id q = ''p'')"
proof -
  define db where "db = fold (repo_step token_external) [(Op_Upsert_Platform sample_row, None)] new_state_db"
  have row: "m_load (sd_platforms db) ''p'' = Some sample_row"
    by (simp add: db_def upsert_platform_def sample_row_canonical name_taken_def new_state_db_def)
      (simp add: sample_row_def sample_model_def)
  with stored_rows_valid [OF token_external_tokens db_def]
  show ?thesis unfolding db_def [symmetric] Let_def by blast
qed

end
