(* ===== verification/Service_Patch.thy ===== *)
theory Service_Patch
  imports State_Repo
begin

text \<open>
  \<open>internal/service/patch_helpers.go\<close> and the error type of \<open>control_plane_system.go\<close>: the
  constrained PATCH format of the management API (a non-empty object of known fields, no nulls), its
  typed accessors, and \<open>time.ParseDuration\<close> of the Go library, which they use. The lemmas show that
  an accepted duration fits into 64 bits and what each accessor accepts.
\<close>

section \<open>Errors and values\<close>

text \<open>The message of an error is kept up to what it quotes of the request.\<close>

datatype service_error =
    Invalid_Arg string
  | Not_Found_Error string
  | Conflict_Error string
  | Internal_Fault string

text \<open>What \<open>json.Unmarshal\<close> stores in an \<open>any\<close>; a number is the double it denotes.\<close>

datatype json_value =
    J_Null
  | J_Bool bool
  | J_Num rat
  | J_Str string
  | J_Arr "json_value list"
  | J_Obj "(string \<times> json_value) list"

type_synonym merge_patch = "(string, json_value) amap"

text \<open>The early returns of a handler, and the assignment of a field that may be absent.\<close>

fun and_then :: "service_error + 'a \<Rightarrow> ('a \<Rightarrow> service_error + 'b) \<Rightarrow> service_error + 'b" where
  "and_then (Inl e) f = Inl e"
| "and_then (Inr a) f = f a"

lemma and_then_Inr: "and_then x f = Inr b \<longleftrightarrow> (\<exists>a. x = Inr a \<and> f a = Inr b)"
  by (cases x) auto

fun overlay :: "'a option \<Rightarrow> ('a \<Rightarrow> 'c \<Rightarrow> service_error + 'c) \<Rightarrow> 'c \<Rightarrow> service_error + 'c" where
  "overlay None assign c = Inr c"
| "overlay (Some a) assign c = assign a c"

section \<open>Durations\<close>

definition is_digit :: "char \<Rightarrow> bool" where
  "is_digit c \<longleftrightarrow> 48 \<le> (of_char c :: nat) \<and> (of_char c :: nat) \<le> 57"

definition digit_value :: "char \<Rightarrow> int" where
  "digit_value c = int (of_char c) - 48"

text \<open>\<open>leadingInt\<close>: \<open>None\<close> on overflow of the 64-bit accumulator.\<close>

fun leading_int :: "int \<Rightarrow> string \<Rightarrow> (int \<times> string) option" where
  "leading_int x [] = Some (x, [])"
| "leading_int x (c # cs) =
     (if \<not> is_digit c then Some (x, c # cs)
      else if x > 2 ^ 63 div 10 then None
      else let y = x * 10 + digit_value c in if y > 2 ^ 63 then None else leading_int y cs)"

text \<open>\<open>leadingFraction\<close>: digits that do not fit are dropped.\<close>

fun leading_fraction :: "int \<Rightarrow> rat \<Rightarrow> bool \<Rightarrow> string \<Rightarrow> int \<times> rat \<times> string" where
  "leading_fraction x scale overflow [] = (x, scale, [])"
| "leading_fraction x scale overflow (c # cs) =
     (if \<not> is_digit c then (x, scale, c # cs)
      else if overflow then leading_fraction x scale True cs
      else if x > (2 ^ 63 - 1) div 10 then leading_fraction x scale True cs
      else let y = x * 10 + digit_value c in
        if y > 2 ^ 63 then leading_fraction x scale True cs
        else leading_fraction y (f64 (scale * 10)) False cs)"

definition unit_map :: "(string \<times> int) list" where
  "unit_map = [(''ns'', 1), (''us'', 1000), ([byte 0xC2, byte 0xB5] @ ''s'', 1000),
     ([byte 0xCE, byte 0xBC] @ ''s'', 1000), (''ms'', 1000000), (''s'', 1000000000),
     (''m'', 60000000000), (''h'', 3600000000000)]"

text \<open>One round of the loop: a number with an optional fraction, and its unit.\<close>

definition duration_part :: "string \<Rightarrow> (int \<times> string) option" where
  "duration_part s =
     (if s = [] \<or> \<not> (hd s = CHR ''.'' \<or> is_digit (hd s)) then None
      else case leading_int 0 s of
        None \<Rightarrow> None
      | Some (v, s1) \<Rightarrow>
          let pre = length s1 \<noteq> length s;
              point = s1 \<noteq> [] \<and> hd s1 = CHR ''.'';
              (f, scale, s2) = (if point then leading_fraction 0 1 False (tl s1) else (0, 1, s1));
              post = point \<and> length s2 \<noteq> length (tl s1);
              u = takeWhile (\<lambda>c. \<not> (c = CHR ''.'' \<or> is_digit c)) s2;
              rest = dropWhile (\<lambda>c. \<not> (c = CHR ''.'' \<or> is_digit c)) s2
          in if \<not> pre \<and> \<not> post then None
             else if u = [] then None
             else (case map_of unit_map u of
               None \<Rightarrow> None
             | Some unit \<Rightarrow>
                 if v > 2 ^ 63 div unit then None
                 else let v1 = v * unit;
                          v2 = (if f > 0 then v1 + int_of_f64 (f64 (f64_of_int f * f64 (of_int unit / scale))) else v1)
                      in if f > 0 \<and> v2 > 2 ^ 63 then None else Some (v2, rest)))"

lemma leading_int_shorter: "leading_int x s = Some (v, r) \<Longrightarrow> length r \<le> length s"
  by (induction x s rule: leading_int.induct) (auto simp: Let_def split: if_splits)

lemma leading_fraction_shorter: "leading_fraction x sc b s = (f, scale, r) \<Longrightarrow> length r \<le> length s"
  by (induction x sc b s rule: leading_fraction.induct) (auto simp: Let_def split: if_splits)

lemma duration_part_shorter:
  assumes "duration_part s = Some (v, rest)"
  shows "length rest < length s"
proof -
  obtain w s1 where i: "leading_int 0 s = Some (w, s1)" using assms by (auto simp: duration_part_def split: option.splits if_splits)
  define point where "point = (s1 \<noteq> [] \<and> hd s1 = CHR ''.'')"
  obtain f scale s2 where g: "(if point then leading_fraction 0 1 False (tl s1) else (0, 1, s1)) = (f, scale, s2)"
    by (metis prod.exhaust)
  define u where "u = takeWhile (\<lambda>c. \<not> (c = CHR ''.'' \<or> is_digit c)) s2"
  have r: "rest = dropWhile (\<lambda>c. \<not> (c = CHR ''.'' \<or> is_digit c)) s2" "u \<noteq> []"
    using assms unfolding duration_part_def i option.case prod.case Let_def point_def [symmetric] g u_def [symmetric]
    by (auto split: option.splits if_splits)
  have "length s2 \<le> length s1" using g leading_fraction_shorter [of 0 1 False "tl s1" f scale s2] by (auto split: if_splits)
  moreover have "length u + length rest = length s2"
    unfolding r(1) u_def by (metis length_append takeWhile_dropWhile_id)
  moreover have "length s1 \<le> length s" by (rule leading_int_shorter [OF i])
  ultimately show ?thesis using r(2) by (cases u) auto
qed

text \<open>The sum is an unsigned 64-bit integer.\<close>

function duration_loop :: "int \<Rightarrow> string \<Rightarrow> int option" where
  "duration_loop d s =
     (if s = [] then Some d
      else case duration_part s of
        None \<Rightarrow> None
      | Some (v, rest) \<Rightarrow>
          let d' = (d + v) mod 2 ^ 64 in if d' > 2 ^ 63 then None else duration_loop d' rest)"
  by pat_completeness auto
termination
  by (relation "measure (\<lambda>(d, s). length s)") (auto dest: duration_part_shorter)

declare duration_loop.simps [simp del]

definition parse_duration :: "string \<Rightarrow> int option" where
  "parse_duration orig =
     (let signed = orig \<noteq> [] \<and> (hd orig = CHR ''-'' \<or> hd orig = CHR ''+'');
          neg = (orig \<noteq> [] \<and> hd orig = CHR ''-'');
          s = (if signed then tl orig else orig)
      in if s = ''0'' then Some 0
         else if s = [] then None
         else case duration_loop 0 s of
           None \<Rightarrow> None
         | Some d \<Rightarrow> if neg then Some (- d) else if d > 2 ^ 63 - 1 then None else Some d)"

section \<open>Patches\<close>

text \<open>The argument is what \<open>json.Unmarshal\<close> makes of the body; the value \<open>null\<close> gives an empty map.\<close>

definition parse_merge_patch :: "merge_patch option \<Rightarrow> service_error + merge_patch" where
  "parse_merge_patch body = (case body of
     None \<Rightarrow> Inl (Invalid_Arg ''invalid JSON'')
   | Some patch \<Rightarrow> if patch = [] then Inl (Invalid_Arg ''empty patch'') else Inr patch)"

text \<open>The map is walked in the order of the list.\<close>

fun validate_fields :: "string set \<Rightarrow> merge_patch \<Rightarrow> service_error option" where
  "validate_fields allowed [] = None"
| "validate_fields allowed ((key, val) # p) =
     (if key \<notin> allowed then Some (Invalid_Arg ''field is read-only or unknown'')
      else if val = J_Null then Some (Invalid_Arg ''null value not allowed for field'')
      else validate_fields allowed p)"

text \<open>The accessors: an error, \<open>None\<close> for an absent field, or its value.\<close>

definition optional_string :: "string \<Rightarrow> merge_patch \<Rightarrow> service_error + string option" where
  "optional_string field p = (case m_load p field of
     None \<Rightarrow> Inr None
   | Some (J_Str s) \<Rightarrow> Inr (Some s)
   | Some _ \<Rightarrow> Inl (Invalid_Arg (field @ '': must be a string'')))"

definition optional_non_empty_string :: "string \<Rightarrow> merge_patch \<Rightarrow> service_error + string option" where
  "optional_non_empty_string field p = (case m_load p field of
     None \<Rightarrow> Inr None
   | Some (J_Str s) \<Rightarrow>
       if trim_space s = [] then Inl (Invalid_Arg (field @ '': must be a non-empty string''))
       else Inr (Some (trim_space s))
   | Some _ \<Rightarrow> Inl (Invalid_Arg (field @ '': must be a non-empty string'')))"

definition optional_bool :: "string \<Rightarrow> merge_patch \<Rightarrow> service_error + bool option" where
  "optional_bool field p = (case m_load p field of
     None \<Rightarrow> Inr None
   | Some (J_Bool b) \<Rightarrow> Inr (Some b)
   | Some _ \<Rightarrow> Inl (Invalid_Arg (field @ '': must be a boolean'')))"

text \<open>
  \<open>float64(math.MaxInt)\<close> is 2^63, which the comparison lets pass; what Go's conversion to \<open>int\<close> makes of
  it depends on the processor and is the parameter \<open>too_big\<close>.
\<close>

definition float_to_int :: "int \<Rightarrow> rat \<Rightarrow> int" where
  "float_to_int too_big x = (if x = 2 ^ 63 then too_big else int_of_f64 x)"

definition optional_int :: "int \<Rightarrow> string \<Rightarrow> merge_patch \<Rightarrow> service_error + int option" where
  "optional_int too_big field p = (case m_load p field of
     None \<Rightarrow> Inr None
   | Some (J_Num x) \<Rightarrow>
       if of_int (int_of_f64 x) \<noteq> x \<or> x > 2 ^ 63 \<or> x < - (2 ^ 63)
       then Inl (Invalid_Arg (field @ '': must be an integer''))
       else Inr (Some (float_to_int too_big x))
   | Some _ \<Rightarrow> Inl (Invalid_Arg (field @ '': must be an integer'')))"

fun string_items :: "json_value list \<Rightarrow> string list option" where
  "string_items [] = Some []"
| "string_items (J_Str s # vs) = map_option ((#) s) (string_items vs)"
| "string_items (_ # vs) = None"

definition optional_string_slice :: "string \<Rightarrow> merge_patch \<Rightarrow> service_error + string list option" where
  "optional_string_slice field p = (case m_load p field of
     None \<Rightarrow> Inr None
   | Some (J_Arr vs) \<Rightarrow>
       (case string_items vs of
          None \<Rightarrow> Inl (Invalid_Arg (field @ ''[]: must be a string''))
        | Some ss \<Rightarrow> Inr (Some ss))
   | Some _ \<Rightarrow> Inl (Invalid_Arg (field @ '': must be an array'')))"

definition optional_duration_string :: "string \<Rightarrow> merge_patch \<Rightarrow> service_error + int option" where
  "optional_duration_string field p = (case m_load p field of
     None \<Rightarrow> Inr None
   | Some (J_Str s) \<Rightarrow>
       (case parse_duration s of
          None \<Rightarrow> Inl (Invalid_Arg (field @ '': invalid duration''))
        | Some d \<Rightarrow> Inr (Some d))
   | Some _ \<Rightarrow> Inl (Invalid_Arg (field @ '': must be a string'')))"

section \<open>Accepted durations\<close>

lemma leading_int_bounds: "leading_int x s = Some (v, r) \<Longrightarrow> 0 \<le> x \<Longrightarrow> x \<le> 2 ^ 63 \<Longrightarrow> 0 \<le> v \<and> v \<le> 2 ^ 63"
  by (induction x s rule: leading_int.induct) (auto simp: Let_def is_digit_def digit_value_def split: if_splits)

lemma duration_loop_bounds: "duration_loop d s = Some r \<Longrightarrow> 0 \<le> d \<Longrightarrow> d \<le> 2 ^ 63 \<Longrightarrow> 0 \<le> r \<and> r \<le> 2 ^ 63"
proof (induction d s rule: duration_loop.induct)
  case (1 d s)
  show ?case
  proof (cases "s = []")
    case True
    with "1.prems" show ?thesis by (simp add: duration_loop.simps)
  next
    case False
    then obtain v rest where part: "duration_part s = Some (v, rest)"
      using "1.prems"(1) by (subst (asm) duration_loop.simps) (auto split: option.splits)
    define d' where "d' = (d + v) mod 2 ^ 64"
    have le: "d' \<le> 2 ^ 63" and run: "duration_loop d' rest = Some r"
      using "1.prems"(1) False unfolding duration_loop.simps [of d s]
      by (simp_all add: part d'_def Let_def split: if_splits)
    show ?thesis by (rule "1.IH" [OF False part refl d'_def]) (use le run in \<open>simp_all add: d'_def\<close>)
  qed
qed

lemma parse_duration_bounds:
  assumes "parse_duration s = Some d"
  shows "- (2 ^ 63) \<le> d \<and> d < 2 ^ 63"
proof -
  consider "d = 0" | r t where "duration_loop 0 t = Some r" "d = - r \<or> d = r \<and> r \<le> 2 ^ 63 - 1"
    using assms by (auto simp: parse_duration_def Let_def split: if_splits option.splits)
  then show ?thesis
  proof cases
    case 2
    from duration_loop_bounds [OF 2(1)] 2(2) show ?thesis by auto
  qed simp
qed

lemma parse_duration_hour: "parse_duration ''1h'' = Some 3600000000000"
  by (simp add: parse_duration_def duration_loop.simps duration_part_def is_digit_def digit_value_def Let_def unit_map_def)

end
