(* ===== verification/Control_Platform.thy ===== *)
theory Control_Platform
  imports Node_Pool Service_Patch
begin

text \<open>
  \<open>internal/service/control_plane_platform.go\<close>, with the platform part of the start-up
  (\<open>bootstrapTopology\<close>, \<open>ensureDefaultPlatform\<close>) and of the environment check: creating, changing,
  resetting and deleting platforms, in the database and in the pool. The lemmas show, operation by
  operation, that the registered platforms stay what the rows of the database build, and that a
  failed request changes nothing; \<open>Control_Platform_Runs\<close> composes them.
\<close>

section \<open>The environment\<close>

record platform_env =
  pe_sticky_ttl :: int
  pe_regex_filters :: "string list"
  pe_region_filters :: "string list"
  pe_miss_action :: string
  pe_empty_behavior :: string
  pe_fixed_header :: string
  pe_allocation_policy :: string

text \<open>The platform part of \<open>LoadEnvConfig\<close>: the complaints, and the values as it leaves them.\<close>

definition check_platform_env :: "external \<Rightarrow> platform_env \<Rightarrow> string list \<times> platform_env" where
  "check_platform_env X e =
     (let ttl = (if pe_sticky_ttl e \<le> 0 then [''STICKY_TTL''] else []);
          regexes = (case compile_regex_filters X (pe_regex_filters e) of Inl _ \<Rightarrow> [''REGEX_FILTERS''] | Inr _ \<Rightarrow> []);
          regions = (case validate_region_filters (pe_region_filters e) of Inl _ \<Rightarrow> [''REGION_FILTERS''] | Inr _ \<Rightarrow> []);
          miss = normalize_miss_action (pe_miss_action e);
          (miss_errs, e1) = (if miss = [] then ([''MISS_ACTION''], e) else ([], e\<lparr>pe_miss_action := miss\<rparr>));
          behavior = (if \<not> behavior_is_valid (pe_empty_behavior e) then [''EMPTY_ACCOUNT_BEHAVIOR''] else []);
          (header_errs, fixed, e2) = (case normalize_fixed_account_headers X (pe_fixed_header e) of
             Inl _ \<Rightarrow> ([''FIXED_ACCOUNT_HEADER''], [], e1)
           | Inr (normalized, hs) \<Rightarrow> ([], hs, e1\<lparr>pe_fixed_header := normalized\<rparr>));
          required = (if pe_empty_behavior e = behavior_fixed_header \<and> fixed = [] then [''FIXED_ACCOUNT_HEADER''] else []);
          policy = (if \<not> policy_is_valid (pe_allocation_policy e) then [''ALLOCATION_POLICY''] else [])
      in (ttl @ regexes @ regions @ miss_errs @ behavior @ header_errs @ required @ policy, e2))"

section \<open>The configuration of a platform\<close>

record platform_config =
  cf_name :: string
  cf_sticky_ttl_ns :: int
  cf_regex_filters :: "string list"
  cf_region_filters :: "string list"
  cf_miss_action :: string
  cf_empty_behavior :: string
  cf_fixed_header :: string
  cf_allocation_policy :: string
  cf_passive_disabled :: bool
  cf_max_accounts :: int
  cf_window_ns :: int

definition normalize_empty_behavior :: "string \<Rightarrow> string" where
  "normalize_empty_behavior raw = (if behavior_is_valid raw then raw else behavior_random)"

definition normalize_header_field_name :: "external \<Rightarrow> string \<Rightarrow> string" where
  "normalize_header_field_name X raw = (case normalize_fixed_account_headers X raw of
     Inl _ \<Rightarrow> trim_space raw | Inr (normalized, _) \<Rightarrow> normalized)"

definition default_platform_config :: "external \<Rightarrow> platform_env \<Rightarrow> string \<Rightarrow> platform_config" where
  "default_platform_config X e name =
     \<lparr>cf_name = name, cf_sticky_ttl_ns = pe_sticky_ttl e, cf_regex_filters = pe_regex_filters e,
      cf_region_filters = pe_region_filters e, cf_miss_action = pe_miss_action e,
      cf_empty_behavior = normalize_empty_behavior (pe_empty_behavior e),
      cf_fixed_header = normalize_header_field_name X (pe_fixed_header e),
      cf_allocation_policy = pe_allocation_policy e, cf_passive_disabled = False, cf_max_accounts = 0,
      cf_window_ns = 0\<rparr>"

definition config_from_model :: "external \<Rightarrow> model_platform \<Rightarrow> platform_config" where
  "config_from_model X mp =
     \<lparr>cf_name = m_name mp, cf_sticky_ttl_ns = m_sticky_ttl_ns mp, cf_regex_filters = m_regex_filters mp,
      cf_region_filters = m_region_filters mp, cf_miss_action = m_miss_action mp,
      cf_empty_behavior = normalize_empty_behavior (m_empty_account_behavior mp),
      cf_fixed_header = normalize_header_field_name X (m_fixed_account_header mp),
      cf_allocation_policy = m_allocation_policy mp, cf_passive_disabled = m_passive_disabled mp,
      cf_max_accounts = m_max_accounts_per_ip mp, cf_window_ns = m_ip_account_window_ns mp\<rparr>"

definition config_to_model :: "platform_config \<Rightarrow> string \<Rightarrow> int \<Rightarrow> model_platform" where
  "config_to_model c pid now =
     \<lparr>m_id = pid, m_name = cf_name c, m_sticky_ttl_ns = cf_sticky_ttl_ns c, m_regex_filters = cf_regex_filters c,
      m_region_filters = cf_region_filters c, m_miss_action = cf_miss_action c,
      m_empty_account_behavior = cf_empty_behavior c, m_fixed_account_header = cf_fixed_header c,
      m_allocation_policy = cf_allocation_policy c, m_passive_disabled = cf_passive_disabled c,
      m_max_accounts_per_ip = cf_max_accounts c, m_ip_account_window_ns = cf_window_ns c, m_updated_at_ns = now\<rparr>"

definition to_runtime :: "external \<Rightarrow> platform_config \<Rightarrow> string \<Rightarrow> platform_error + platform" where
  "to_runtime X c pid = (case compile_regex_filters X (cf_regex_filters c) of
     Inl e \<Rightarrow> Inl e
   | Inr filters \<Rightarrow> Inr (new_configured_platform X pid (cf_name c) filters (cf_region_filters c) (cf_sticky_ttl_ns c)
       (cf_miss_action c) (cf_empty_behavior c) (cf_fixed_header c) (cf_allocation_policy c) (cf_passive_disabled c)
       (cf_max_accounts c) (cf_window_ns c)))"

section \<open>Setters and validation\<close>

definition set_sticky_ttl :: "int \<Rightarrow> platform_config \<Rightarrow> service_error + platform_config" where
  "set_sticky_ttl d c = (if d \<le> 0 then Inl (Invalid_Arg ''sticky_ttl: must be > 0'') else Inr (c\<lparr>cf_sticky_ttl_ns := d\<rparr>))"

definition set_max_accounts :: "int \<Rightarrow> platform_config \<Rightarrow> service_error + platform_config" where
  "set_max_accounts n c =
     (if n < 0 then Inl (Invalid_Arg ''max_accounts_per_ip: must be >= 0'') else Inr (c\<lparr>cf_max_accounts := n\<rparr>))"

definition set_account_window :: "int \<Rightarrow> platform_config \<Rightarrow> service_error + platform_config" where
  "set_account_window d c =
     (if d \<le> 0 then Inl (Invalid_Arg ''ip_account_window: must be > 0'') else Inr (c\<lparr>cf_window_ns := d\<rparr>))"

definition set_miss_action :: "string \<Rightarrow> platform_config \<Rightarrow> service_error + platform_config" where
  "set_miss_action a c =
     (if normalize_miss_action a = [] then Inl (Invalid_Arg ''reverse_proxy_miss_action'')
      else Inr (c\<lparr>cf_miss_action := normalize_miss_action a\<rparr>))"

definition set_empty_behavior :: "string \<Rightarrow> platform_config \<Rightarrow> service_error + platform_config" where
  "set_empty_behavior b c =
     (if \<not> behavior_is_valid b then Inl (Invalid_Arg ''reverse_proxy_empty_account_behavior'')
      else Inr (c\<lparr>cf_empty_behavior := b\<rparr>))"

definition set_allocation_policy :: "string \<Rightarrow> platform_config \<Rightarrow> service_error + platform_config" where
  "set_allocation_policy a c =
     (if \<not> policy_is_valid a then Inl (Invalid_Arg ''allocation_policy'') else Inr (c\<lparr>cf_allocation_policy := a\<rparr>))"

definition validate_empty_account_config :: "external \<Rightarrow> platform_config \<Rightarrow> service_error + platform_config" where
  "validate_empty_account_config X c =
     (if \<not> behavior_is_valid (cf_empty_behavior c) then Inl (Invalid_Arg ''reverse_proxy_empty_account_behavior'')
      else case normalize_fixed_account_headers X (cf_fixed_header c) of
        Inl _ \<Rightarrow> Inl (Invalid_Arg ''reverse_proxy_fixed_account_header'')
      | Inr (normalized, hs) \<Rightarrow>
          if cf_empty_behavior c = behavior_fixed_header \<and> hs = []
          then Inl (Invalid_Arg ''reverse_proxy_fixed_account_header: required'')
          else Inr (c\<lparr>cf_fixed_header := normalized\<rparr>))"

definition validate_platform_config :: "external \<Rightarrow> bool \<Rightarrow> platform_config \<Rightarrow> service_error + platform_config" where
  "validate_platform_config X check_regions c =
     (case (if check_regions then validate_region_filters (cf_region_filters c) else Inr ()) of
        Inl _ \<Rightarrow> Inl (Invalid_Arg ''region_filters'')
      | Inr _ \<Rightarrow> validate_empty_account_config X c)"

section \<open>The state and the common write\<close>

record control_state =
  cs_db :: state_db
  cs_pool :: node_pool
  cs_env :: env

text \<open>Which error of the repository the client is told.\<close>

definition platform_upsert_error :: "repo_error \<Rightarrow> service_error" where
  "platform_upsert_error e = (case e of
     Repo_Conflict _ \<Rightarrow> Conflict_Error ''platform name already exists''
   | Repo_Platform_Name _ \<Rightarrow> Invalid_Arg ''name''
   | Repo_Failed err \<Rightarrow>
       if drop_prefix ''platform name: '' err \<noteq> None then Invalid_Arg ''name'' else Internal_Fault ''persist platform''
   | _ \<Rightarrow> Internal_Fault ''persist platform'')"

definition compile_and_upsert ::
  "external \<Rightarrow> string option \<Rightarrow> string \<Rightarrow> platform_config \<Rightarrow> control_state
     \<Rightarrow> (service_error + model_platform \<times> platform) \<times> control_state" where
  "compile_and_upsert X failed pid c s =
     (case validate_platform_name X (cf_name c) of
        Inl _ \<Rightarrow> (Inl (Invalid_Arg ''name''), s)
      | Inr _ \<Rightarrow>
     (case to_runtime X c pid of
        Inl _ \<Rightarrow> (Inl (Invalid_Arg ''regex_filters''), s)
      | Inr plat \<Rightarrow>
          let (now, ev) = time_now (cs_env s); mp = config_to_model c pid now in
          case upsert_platform X failed mp (cs_db s) of
            (Some e, db) \<Rightarrow> (Inl (platform_upsert_error e), s\<lparr>cs_env := ev, cs_db := db\<rparr>)
          | (None, db) \<Rightarrow> (Inr (mp, plat), s\<lparr>cs_env := ev, cs_db := db\<rparr>)))"

definition get_platform_model :: "string option \<Rightarrow> string \<Rightarrow> state_db \<Rightarrow> service_error + model_platform" where
  "get_platform_model failed pid db = (case repo_get_platform failed pid db of
     Inl Repo_Not_Found \<Rightarrow> Inl (Not_Found_Error ''platform not found'')
   | Inl _ \<Rightarrow> Inl (Internal_Fault ''get platform'')
   | Inr p \<Rightarrow> Inr p)"

section \<open>Creating\<close>

definition default_platform_name :: string where
  "default_platform_name = ''Default''"

record create_platform_request =
  cr_name :: "string option"
  cr_sticky_ttl :: "string option"
  cr_regex_filters :: "string list option"
  cr_region_filters :: "string list option"
  cr_miss_action :: "string option"
  cr_empty_behavior :: "string option"
  cr_fixed_header :: "string option"
  cr_allocation_policy :: "string option"
  cr_passive_disabled :: "bool option"
  cr_max_accounts :: "int option"
  cr_account_window :: "string option"

definition parse_duration_arg :: "string \<Rightarrow> string \<Rightarrow> service_error + int" where
  "parse_duration_arg field s =
     (case parse_duration s of None \<Rightarrow> Inl (Invalid_Arg field) | Some d \<Rightarrow> Inr d)"

definition overlay_request ::
  "create_platform_request \<Rightarrow> platform_config \<Rightarrow> service_error + platform_config" where
  "overlay_request req c =
     and_then (overlay (cr_sticky_ttl req) (\<lambda>v c. and_then (parse_duration_arg ''sticky_ttl'' v) (\<lambda>d. set_sticky_ttl d c)) c) (\<lambda>c.
     and_then (overlay (cr_regex_filters req) (\<lambda>v c. Inr (c\<lparr>cf_regex_filters := v\<rparr>)) c) (\<lambda>c.
     and_then (overlay (cr_region_filters req) (\<lambda>v c. Inr (c\<lparr>cf_region_filters := v\<rparr>)) c) (\<lambda>c.
     and_then (overlay (cr_miss_action req) set_miss_action c) (\<lambda>c.
     and_then (overlay (cr_empty_behavior req) set_empty_behavior c) (\<lambda>c.
     and_then (overlay (cr_fixed_header req) (\<lambda>v c. Inr (c\<lparr>cf_fixed_header := v\<rparr>)) c) (\<lambda>c.
     and_then (overlay (cr_allocation_policy req) set_allocation_policy c) (\<lambda>c.
     and_then (overlay (cr_passive_disabled req) (\<lambda>v c. Inr (c\<lparr>cf_passive_disabled := v\<rparr>)) c) (\<lambda>c.
     and_then (overlay (cr_max_accounts req) set_max_accounts c) (\<lambda>c.
     overlay (cr_account_window req) (\<lambda>v c. and_then (parse_duration_arg ''ip_account_window'' v) (\<lambda>d. set_account_window d c)) c)))))))))"

definition create_config ::
  "external \<Rightarrow> platform_env \<Rightarrow> create_platform_request \<Rightarrow> service_error + platform_config" where
  "create_config X e req =
     (case cr_name req of
        None \<Rightarrow> Inl (Invalid_Arg ''name is required'')
      | Some raw \<Rightarrow>
          let name = normalize_platform_name raw in
          if name = [] then Inl (Invalid_Arg ''name is required'')
          else case validate_platform_name X name of
            Inl _ \<Rightarrow> Inl (Invalid_Arg ''name'')
          | Inr _ \<Rightarrow>
              if name = default_platform_name then Inl (Conflict_Error ''cannot use reserved name Default'')
              else and_then (overlay_request req (default_platform_config X e name)) (validate_platform_config X True))"

text \<open>\<open>pid\<close> is the identifier that \<open>uuid.New\<close> draws.\<close>

definition create_platform ::
  "external \<Rightarrow> pool_config \<Rightarrow> sub_store \<Rightarrow> platform_env \<Rightarrow> string option \<Rightarrow> string \<Rightarrow> create_platform_request
     \<Rightarrow> control_state \<Rightarrow> (service_error + model_platform) \<times> control_state" where
  "create_platform X cfg subs e failed pid req s =
     (case create_config X e req of
        Inl err \<Rightarrow> (Inl err, s)
      | Inr c \<Rightarrow>
          (case compile_and_upsert X failed pid c s of
             (Inl err, s1) \<Rightarrow> (Inl err, s1)
           | (Inr (mp, plat), s1) \<Rightarrow>
               let (p1, r) = alloc_platform plat (cs_pool s1);
                   p2 = rebuild_platform cfg subs r p1
               in (Inr mp, s1\<lparr>cs_pool := register_platform r p2\<rparr>)))"

section \<open>Changing, resetting, deleting\<close>

definition platform_patch_fields :: "string set" where
  "platform_patch_fields = {''name'', ''sticky_ttl'', ''regex_filters'', ''region_filters'', ''reverse_proxy_miss_action'',
     ''reverse_proxy_empty_account_behavior'', ''reverse_proxy_fixed_account_header'', ''allocation_policy'',
     ''passive_circuit_breaker_disabled'', ''max_accounts_per_ip'', ''ip_account_window''}"

definition patch_name ::
  "external \<Rightarrow> string \<Rightarrow> string \<Rightarrow> platform_config \<Rightarrow> service_error + platform_config" where
  "patch_name X pid raw c =
     (let name = normalize_platform_name raw in
      case validate_platform_name X name of
        Inl _ \<Rightarrow> Inl (Invalid_Arg ''name'')
      | Inr _ \<Rightarrow>
          if name = default_platform_name \<and> pid \<noteq> default_platform_id
          then Inl (Conflict_Error ''cannot use reserved name Default'')
          else Inr (c\<lparr>cf_name := name\<rparr>))"

definition patch_platform ::
  "external \<Rightarrow> int \<Rightarrow> string \<Rightarrow> merge_patch \<Rightarrow> platform_config \<Rightarrow> service_error + platform_config" where
  "patch_platform X too_big pid p c =
     and_then (and_then (optional_non_empty_string ''name'' p) (\<lambda>v. overlay v (patch_name X pid) c)) (\<lambda>c.
     and_then (and_then (optional_duration_string ''sticky_ttl'' p) (\<lambda>v. overlay v set_sticky_ttl c)) (\<lambda>c.
     and_then (and_then (optional_string_slice ''regex_filters'' p)
       (\<lambda>v. overlay v (\<lambda>v c. Inr (c\<lparr>cf_regex_filters := v\<rparr>)) c)) (\<lambda>c.
     and_then (and_then (optional_string_slice ''region_filters'' p)
       (\<lambda>v. overlay v (\<lambda>v c. Inr (c\<lparr>cf_region_filters := v\<rparr>)) c)) (\<lambda>c.
     and_then (and_then (optional_string ''reverse_proxy_miss_action'' p) (\<lambda>v. overlay v set_miss_action c)) (\<lambda>c.
     and_then (and_then (optional_string ''reverse_proxy_empty_account_behavior'' p) (\<lambda>v. overlay v set_empty_behavior c)) (\<lambda>c.
     and_then (and_then (optional_string ''reverse_proxy_fixed_account_header'' p)
       (\<lambda>v. overlay v (\<lambda>v c. Inr (c\<lparr>cf_fixed_header := v\<rparr>)) c)) (\<lambda>c.
     and_then (and_then (optional_string ''allocation_policy'' p) (\<lambda>v. overlay v set_allocation_policy c)) (\<lambda>c.
     and_then (and_then (optional_bool ''passive_circuit_breaker_disabled'' p)
       (\<lambda>v. overlay v (\<lambda>v c. Inr (c\<lparr>cf_passive_disabled := v\<rparr>)) c)) (\<lambda>c.
     and_then (and_then (optional_int too_big ''max_accounts_per_ip'' p) (\<lambda>v. overlay v set_max_accounts c)) (\<lambda>c.
     and_then (and_then (optional_duration_string ''ip_account_window'' p) (\<lambda>v. overlay v set_account_window c))
       (validate_platform_config X (m_load p ''region_filters'' \<noteq> None))))))))))))"

definition renames_default :: "merge_patch \<Rightarrow> bool" where
  "renames_default p \<longleftrightarrow> (case m_load p ''name'' of
     None \<Rightarrow> False
   | Some (J_Str n) \<Rightarrow> n \<noteq> default_platform_name
   | Some _ \<Rightarrow> True)"

text \<open>The first half of an update: everything up to the write. It only reads.\<close>

definition update_config ::
  "external \<Rightarrow> int \<Rightarrow> string option \<Rightarrow> string \<Rightarrow> merge_patch option \<Rightarrow> control_state \<Rightarrow> service_error + platform_config" where
  "update_config X too_big failed pid body s =
     and_then (parse_merge_patch body) (\<lambda>p.
     case validate_fields platform_patch_fields p of
       Some e \<Rightarrow> Inl e
     | None \<Rightarrow>
         and_then (get_platform_model failed pid (cs_db s)) (\<lambda>current.
         if m_id current = default_platform_id \<and> renames_default p
         then Inl (Conflict_Error ''cannot rename Default platform'')
         else patch_platform X too_big (m_id current) p (config_from_model X current)))"

text \<open>The second half of an update, and of a reset: write the row, then replace the platform.\<close>

definition write_platform ::
  "external \<Rightarrow> pool_config \<Rightarrow> sub_store \<Rightarrow> string option \<Rightarrow> string \<Rightarrow> platform_config
     \<Rightarrow> control_state \<Rightarrow> (service_error + model_platform) \<times> control_state" where
  "write_platform X cfg subs failed pid c s =
     (case compile_and_upsert X failed pid c s of
        (Inl err, s1) \<Rightarrow> (Inl err, s1)
      | (Inr (mp, plat), s1) \<Rightarrow>
          let (p1, r) = alloc_platform plat (cs_pool s1) in
          case replace_platform cfg subs r p1 of
            (p2, Some _) \<Rightarrow> (Inl (Internal_Fault ''replace platform in pool''), s1\<lparr>cs_pool := p2\<rparr>)
          | (p2, None) \<Rightarrow> (Inr mp, s1\<lparr>cs_pool := p2\<rparr>))"

definition update_platform ::
  "external \<Rightarrow> pool_config \<Rightarrow> sub_store \<Rightarrow> int \<Rightarrow> string option \<times> string option \<Rightarrow> string \<Rightarrow> merge_patch option
     \<Rightarrow> control_state \<Rightarrow> (service_error + model_platform) \<times> control_state" where
  "update_platform X cfg subs too_big failed pid body s =
     (case update_config X too_big (fst failed) pid body s of
        Inl err \<Rightarrow> (Inl err, s)
      | Inr c \<Rightarrow> write_platform X cfg subs (snd failed) pid c s)"

definition delete_platform ::
  "string option \<Rightarrow> string \<Rightarrow> control_state \<Rightarrow> service_error option \<times> control_state" where
  "delete_platform failed pid s =
     (if pid = default_platform_id then (Some (Conflict_Error ''cannot delete Default platform''), s)
      else case repo_delete_platform failed pid (cs_db s) of
        (Some Repo_Not_Found, _) \<Rightarrow> (Some (Not_Found_Error ''platform not found''), s)
      | (Some _, _) \<Rightarrow> (Some (Internal_Fault ''delete platform''), s)
      | (None, db) \<Rightarrow> (None, s\<lparr>cs_db := db, cs_pool := unregister_platform pid (cs_pool s)\<rparr>))"

definition reset_platform ::
  "external \<Rightarrow> pool_config \<Rightarrow> sub_store \<Rightarrow> platform_env \<Rightarrow> string option \<times> string option \<Rightarrow> string
     \<Rightarrow> control_state \<Rightarrow> (service_error + model_platform) \<times> control_state" where
  "reset_platform X cfg subs e failed pid s =
     (case repo_get_platform_name (fst failed) pid (cs_db s) of
        Inl Repo_Not_Found \<Rightarrow> (Inl (Not_Found_Error ''platform not found''), s)
      | Inl _ \<Rightarrow> (Inl (Internal_Fault ''get platform''), s)
      | Inr name \<Rightarrow> write_platform X cfg subs (snd failed) pid (default_platform_config X e name) s)"

definition rebuild_platform_view ::
  "pool_config \<Rightarrow> sub_store \<Rightarrow> string \<Rightarrow> control_state \<Rightarrow> service_error option \<times> control_state" where
  "rebuild_platform_view cfg subs pid s =
     (case m_load (by_id (cs_pool s)) pid of
        None \<Rightarrow> (Some (Not_Found_Error ''platform not found''), s)
      | Some r \<Rightarrow> (None, s\<lparr>cs_pool := rebuild_platform cfg subs r (cs_pool s)\<rparr>))"

section \<open>Responses and the filter preview\<close>

text \<open>The stored part and the run-time part of a response; durations and times are printed elsewhere.\<close>

record platform_response =
  pr_platform :: model_platform
  pr_routable_nodes :: int
  pr_leases :: nat

definition platform_to_response :: "external \<Rightarrow> model_platform \<Rightarrow> platform_response" where
  "platform_to_response X p =
     \<lparr>pr_platform = p\<lparr>m_empty_account_behavior := normalize_empty_behavior (m_empty_account_behavior p),
        m_fixed_account_header := normalize_header_field_name X (m_fixed_account_header p)\<rparr>,
      pr_routable_nodes = 0, pr_leases = 0\<rparr>"

text \<open>\<open>leases\<close> is \<open>RangeLeases\<close> of the router: \<open>None\<close> for a platform it has no state for.\<close>

definition with_runtime_info ::
  "node_pool \<Rightarrow> (string \<Rightarrow> (string \<times> 'l) list option) \<Rightarrow> platform_response \<Rightarrow> platform_response" where
  "with_runtime_info p leases resp = (case get_platform p (m_id (pr_platform resp)) of
     None \<Rightarrow> resp
   | Some plat \<Rightarrow> resp\<lparr>pr_routable_nodes := view_size (view plat),
       pr_leases := (case leases (m_id (pr_platform resp)) of None \<Rightarrow> 0 | Some ls \<Rightarrow> length ls)\<rparr>)"

definition get_platform_response ::
  "external \<Rightarrow> string option \<Rightarrow> (string \<Rightarrow> (string \<times> 'l) list option) \<Rightarrow> string \<Rightarrow> control_state
     \<Rightarrow> service_error + platform_response" where
  "get_platform_response X failed leases pid s =
     and_then (get_platform_model failed pid (cs_db s))
       (\<lambda>p. Inr (with_runtime_info (cs_pool s) leases (platform_to_response X p)))"

definition list_platform_responses ::
  "external \<Rightarrow> string option \<Rightarrow> (string \<Rightarrow> (string \<times> 'l) list option) \<Rightarrow> control_state
     \<Rightarrow> service_error + platform_response list" where
  "list_platform_responses X failed leases s = (case list_platforms failed (cs_db s) of
     Inl _ \<Rightarrow> Inl (Internal_Fault ''list platforms'')
   | Inr ps \<Rightarrow> Inr (map (\<lambda>p. with_runtime_info (cs_pool s) leases (platform_to_response X p)) ps))"

text \<open>The platform, or the specification, whose filters are previewed.\<close>

definition preview_filters ::
  "external \<Rightarrow> node_pool \<Rightarrow> string option \<Rightarrow> (string list \<times> string list) option
     \<Rightarrow> service_error + tag_filter \<times> string list" where
  "preview_filters X p pid spec =
     (if (pid \<noteq> None \<and> pid \<noteq> Some []) = (spec \<noteq> None)
      then Inl (Invalid_Arg ''exactly one of platform_id or platform_spec is required'')
      else case spec of
        None \<Rightarrow> (case get_platform p (the pid) of
                   None \<Rightarrow> Inl (Not_Found_Error ''platform not found'')
                 | Some plat \<Rightarrow> Inr (regex_filters plat, region_filters plat))
      | Some (regexes, regions) \<Rightarrow>
          (case compile_regex_filters X regexes of
             Inl _ \<Rightarrow> Inl (Invalid_Arg ''regex_filters'')
           | Inr compiled \<Rightarrow>
               (case validate_region_filters regions of
                  Inl _ \<Rightarrow> Inl (Invalid_Arg ''region_filters'')
                | Inr _ \<Rightarrow> Inr (compiled, regions))))"

definition previewed :: "pool_config \<Rightarrow> sub_store \<Rightarrow> tag_filter \<times> string list \<Rightarrow> node_entry \<Rightarrow> bool" where
  "previewed cfg subs f e \<longleftrightarrow> match_tag_filter e (fst f) (Some (make_sub_lookup cfg subs))
     \<and> (snd f = [] \<or> match_region_filter (get_region e (geo_lookup cfg)) (snd f))"

definition preview_filter ::
  "external \<Rightarrow> pool_config \<Rightarrow> sub_store \<Rightarrow> string option \<Rightarrow> (string list \<times> string list) option \<Rightarrow> control_state
     \<Rightarrow> service_error + (hash \<times> node_entry) list" where
  "preview_filter X cfg subs pid spec s =
     and_then (preview_filters X (cs_pool s) pid spec)
       (\<lambda>f. Inr (filter (\<lambda>he. previewed cfg subs f (snd he)) (pool_nodes (cs_pool s))))"

section \<open>Start-up\<close>

datatype boot_error = Boot_Database repo_error | Boot_Names nat | Boot_Decode platform_error

text \<open>How many of the rows have a name that is no longer legal.\<close>

definition validate_persisted_names :: "external \<Rightarrow> model_platform list \<Rightarrow> nat" where
  "validate_persisted_names X ps = length (filter (\<lambda>p. validate_platform_name X (m_name p) \<noteq> Inr ()) ps)"

definition default_platform_model :: "platform_env \<Rightarrow> int \<Rightarrow> model_platform" where
  "default_platform_model e now =
     \<lparr>m_id = default_platform_id, m_name = default_platform_name, m_sticky_ttl_ns = pe_sticky_ttl e,
      m_regex_filters = pe_regex_filters e, m_region_filters = pe_region_filters e, m_miss_action = pe_miss_action e,
      m_empty_account_behavior = pe_empty_behavior e, m_fixed_account_header = pe_fixed_header e,
      m_allocation_policy = pe_allocation_policy e, m_passive_disabled = False, m_max_accounts_per_ip = 0,
      m_ip_account_window_ns = 0, m_updated_at_ns = now\<rparr>"

definition ensure_default_platform ::
  "external \<Rightarrow> string option \<Rightarrow> platform_env \<Rightarrow> model_platform list \<Rightarrow> control_state \<Rightarrow> repo_error option \<times> control_state" where
  "ensure_default_platform X failed e ps s =
     (if list_ex (\<lambda>p. m_id p = default_platform_id) ps then (None, s)
      else let (now, ev) = time_now (cs_env s);
               (err, db) = upsert_platform X failed (default_platform_model e now) (cs_db s)
           in (err, s\<lparr>cs_env := ev, cs_db := db\<rparr>))"

fun register_rows :: "external \<Rightarrow> model_platform list \<Rightarrow> node_pool \<Rightarrow> platform_error option \<times> node_pool" where
  "register_rows X [] p = (None, p)"
| "register_rows X (mp # mps) p = (case build_from_model X mp of
     Inl e \<Rightarrow> (Some e, p)
   | Inr plat \<Rightarrow> let (p1, r) = alloc_platform plat p in register_rows X mps (register_platform r p1))"

text \<open>The database may fail at the first listing, the creation of the default platform and the second listing.\<close>

definition bootstrap_platforms ::
  "external \<Rightarrow> platform_env \<Rightarrow> string option \<times> string option \<times> string option \<Rightarrow> control_state
     \<Rightarrow> boot_error option \<times> control_state" where
  "bootstrap_platforms X e failed s =
     (case list_platforms (fst failed) (cs_db s) of
        Inl err \<Rightarrow> (Some (Boot_Database err), s)
      | Inr ps \<Rightarrow>
          let bad = validate_persisted_names X ps in
          if bad > 0 then (Some (Boot_Names bad), s)
          else (case ensure_default_platform X (fst (snd failed)) e ps s of
            (Some err, s1) \<Rightarrow> (Some (Boot_Database err), s1)
          | (None, s1) \<Rightarrow>
              (case list_platforms (snd (snd failed)) (cs_db s1) of
                 Inl err \<Rightarrow> (Some (Boot_Database err), s1)
               | Inr ps1 \<Rightarrow>
                   (case register_rows X ps1 (cs_pool s1) of
                      (Some err, p) \<Rightarrow> (Some (Boot_Decode err), s1\<lparr>cs_pool := p\<rparr>)
                    | (None, p) \<Rightarrow> (None, s1\<lparr>cs_pool := p\<rparr>)))))"

section \<open>What the rows say and what is registered\<close>

text \<open>The settings of a platform are all of it but its view.\<close>

definition settings :: "platform \<Rightarrow> platform" where
  "settings p = p\<lparr>view := new_routable_view\<rparr>"

definition registered_settings :: "node_pool \<Rightarrow> string \<Rightarrow> platform option" where
  "registered_settings p pid = map_option settings (get_platform p pid)"

definition row_settings :: "external \<Rightarrow> state_db \<Rightarrow> string \<Rightarrow> platform option" where
  "row_settings X db pid = (case m_load (sd_platforms db) pid of
     None \<Rightarrow> None
   | Some mp \<Rightarrow> (case build_from_model X mp of Inl _ \<Rightarrow> None | Inr q \<Rightarrow> Some q))"

definition control_ok :: "external \<Rightarrow> pool_config \<Rightarrow> sub_store \<Rightarrow> control_state \<Rightarrow> bool" where
  "control_ok X cfg subs s \<longleftrightarrow> state_db_ok X (cs_db s) \<and> pool_ok cfg subs (cs_pool s)
     \<and> m_load (sd_platforms (cs_db s)) [] = None \<and> registered_settings (cs_pool s) = row_settings X (cs_db s)"

section \<open>Configurations that are written as they are\<close>

definition config_pre_ok :: "platform_config \<Rightarrow> bool" where
  "config_pre_ok c \<longleftrightarrow> trim_space (cf_name c) = cf_name c \<and> cf_miss_action c \<noteq> []
     \<and> normalize_miss_action (cf_miss_action c) = cf_miss_action c \<and> policy_is_valid (cf_allocation_policy c)
     \<and> 0 \<le> cf_max_accounts c \<and> 0 \<le> cf_window_ns c"

definition config_ok :: "external \<Rightarrow> platform_config \<Rightarrow> bool" where
  "config_ok X c \<longleftrightarrow> config_pre_ok c \<and> behavior_is_valid (cf_empty_behavior c)
     \<and> (\<exists>hs. normalize_fixed_account_headers X (cf_fixed_header c) = Inr (cf_fixed_header c, hs))
     \<and> (cf_empty_behavior c = behavior_fixed_header \<longrightarrow> cf_fixed_header c \<noteq> [])"

lemma setters_pre_ok:
  "set_sticky_ttl d c = Inr c' \<Longrightarrow> config_pre_ok c \<Longrightarrow> config_pre_ok c'"
  "set_max_accounts n c = Inr c' \<Longrightarrow> config_pre_ok c \<Longrightarrow> config_pre_ok c'"
  "set_account_window d c = Inr c' \<Longrightarrow> config_pre_ok c \<Longrightarrow> config_pre_ok c'"
  "set_miss_action a c = Inr c' \<Longrightarrow> config_pre_ok c \<Longrightarrow> config_pre_ok c'"
  "set_empty_behavior a c = Inr c' \<Longrightarrow> config_pre_ok c \<Longrightarrow> config_pre_ok c'"
  "set_allocation_policy a c = Inr c' \<Longrightarrow> config_pre_ok c \<Longrightarrow> config_pre_ok c'"
  "config_pre_ok c \<Longrightarrow> config_pre_ok (c\<lparr>cf_regex_filters := rs\<rparr>)"
  "config_pre_ok c \<Longrightarrow> config_pre_ok (c\<lparr>cf_region_filters := rs\<rparr>)"
  "config_pre_ok c \<Longrightarrow> config_pre_ok (c\<lparr>cf_fixed_header := h\<rparr>)"
  "config_pre_ok c \<Longrightarrow> config_pre_ok (c\<lparr>cf_passive_disabled := b\<rparr>)"
  by (auto simp: config_pre_ok_def set_sticky_ttl_def set_max_accounts_def set_account_window_def set_miss_action_def
      set_empty_behavior_def set_allocation_policy_def normalize_miss_idem split: if_splits)

lemma patch_name_pre_ok: "patch_name X pid raw c = Inr c' \<Longrightarrow> config_pre_ok c \<Longrightarrow> config_pre_ok c'"
  by (auto simp: patch_name_def Let_def config_pre_ok_def normalize_platform_name_def trim_space_idem split: sum.splits if_splits)

lemma overlay_pre_ok:
  assumes "overlay v f c = Inr c'" "config_pre_ok c" "\<And>a c'. f a c = Inr c' \<Longrightarrow> config_pre_ok c'"
  shows "config_pre_ok c'"
  using assms by (cases v) auto

text \<open>One step of a chain: what holds after it is what the next step starts with.\<close>

lemma chain_pre_ok:
  assumes "and_then x f = Inr c'" "\<And>c. x = Inr c \<Longrightarrow> Q c" "\<And>c. Q c \<Longrightarrow> f c = Inr c' \<Longrightarrow> R"
  shows R
  using assms by (cases x) auto

lemma patched_pre_ok:
  assumes "and_then acc (\<lambda>v. overlay v f c) = Inr c'" "config_pre_ok c" "\<And>a c'. f a c = Inr c' \<Longrightarrow> config_pre_ok c'"
  shows "config_pre_ok c'"
  using assms by (cases acc) (auto elim: overlay_pre_ok)

lemma validated_config_ok:
  assumes "header_names_are_tokens X" "validate_platform_config X b c = Inr c'" "config_pre_ok c"
  shows "config_ok X c'"
proof -
  from assms(2) obtain fixed hs where n: "normalize_fixed_account_headers X (cf_fixed_header c) = Inr (fixed, hs)"
    and c': "c' = c\<lparr>cf_fixed_header := fixed\<rparr>" "behavior_is_valid (cf_empty_behavior c)"
      "cf_empty_behavior c = behavior_fixed_header \<Longrightarrow> hs \<noteq> []"
    by (auto simp: validate_platform_config_def validate_empty_account_config_def split: sum.splits if_splits prod.splits)
  from fixed_headers_normal [OF assms(1) n] c' assms(3) show ?thesis
    by (auto simp: config_ok_def setters_pre_ok)
qed

lemma overlay_request_pre_ok:
  assumes "overlay_request req c = Inr c'" "config_pre_ok c"
  shows "config_pre_ok c'"
  using assms(1) unfolding overlay_request_def
  by (elim chain_pre_ok [where Q = config_pre_ok] overlay_pre_ok)
    (use assms(2) in \<open>auto simp: and_then_Inr intro: setters_pre_ok elim: overlay_pre_ok\<close>)

lemma patch_platform_ok:
  assumes "header_names_are_tokens X" "patch_platform X too_big pid p c = Inr c'" "config_pre_ok c"
  shows "config_ok X c'"
  using assms(2) unfolding patch_platform_def
proof (elim chain_pre_ok [where Q = config_pre_ok] patched_pre_ok)
  show "validate_platform_config X (m_load p ''region_filters'' \<noteq> None) c1 = Inr c' \<Longrightarrow> config_pre_ok c1 \<Longrightarrow> config_ok X c'" for c1
    by (rule validated_config_ok [OF assms(1)])
qed (use assms(3) in \<open>auto intro: setters_pre_ok patch_name_pre_ok\<close>)

lemma row_config_pre_ok: "platform_row_ok X p \<Longrightarrow> config_pre_ok (config_from_model X p)"
  by (auto simp: platform_row_ok_def config_pre_ok_def config_from_model_def)

lemma checked_env_config_ok:
  assumes "header_names_are_tokens X" "check_platform_env X raw = ([], e)" "trim_space name = name"
  shows "config_ok X (default_platform_config X e name)" "\<exists>f. compile_regex_filters X (pe_regex_filters e) = Inr f"
    "validate_region_filters (pe_region_filters e) = Inr ()" "behavior_is_valid (pe_empty_behavior e)"
    "normalize_header_field_name X (pe_fixed_header e) = pe_fixed_header e"
proof -
  from assms(2) obtain fixed hs where n: "normalize_fixed_account_headers X (pe_fixed_header raw) = Inr (fixed, hs)"
    and e: "e = raw\<lparr>pe_miss_action := normalize_miss_action (pe_miss_action raw), pe_fixed_header := fixed\<rparr>"
    and c: "normalize_miss_action (pe_miss_action raw) \<noteq> []" "behavior_is_valid (pe_empty_behavior raw)"
      "pe_empty_behavior raw = behavior_fixed_header \<Longrightarrow> hs \<noteq> []" "policy_is_valid (pe_allocation_policy raw)"
      "\<exists>f. compile_regex_filters X (pe_regex_filters raw) = Inr f" "validate_region_filters (pe_region_filters raw) = Inr ()"
    by (auto simp: check_platform_env_def Let_def split: sum.splits if_splits prod.splits)
  note f = fixed_headers_normal [OF assms(1) n]
  have h: "normalize_header_field_name X fixed = fixed" by (simp add: normalize_header_field_name_def f(1))
  show "config_ok X (default_platform_config X e name)"
    using f c(1-4) assms(3) h
    by (auto simp: config_ok_def config_pre_ok_def default_platform_config_def e normalize_miss_idem normalize_empty_behavior_def)
  show "\<exists>f. compile_regex_filters X (pe_regex_filters e) = Inr f" "validate_region_filters (pe_region_filters e) = Inr ()"
    "behavior_is_valid (pe_empty_behavior e)" "normalize_header_field_name X (pe_fixed_header e) = pe_fixed_header e"
    using c h by (simp_all add: e)
qed

lemma create_config_ok:
  assumes "header_names_are_tokens X" "check_platform_env X raw = ([], e)" "create_config X e req = Inr c"
  shows "config_ok X c"
proof -
  obtain name where "and_then (overlay_request req (default_platform_config X e (normalize_platform_name name)))
      (validate_platform_config X True) = Inr c"
    using assms(3) by (auto simp: create_config_def Let_def split: option.splits sum.splits if_splits)
  then obtain c1 where c1: "overlay_request req (default_platform_config X e (normalize_platform_name name)) = Inr c1"
    "validate_platform_config X True c1 = Inr c" by (auto simp: and_then_Inr)
  have "config_ok X (default_platform_config X e (normalize_platform_name name))"
    by (rule checked_env_config_ok [OF assms(1,2)]) (simp add: normalize_platform_name_def trim_space_idem)
  then have "config_pre_ok (default_platform_config X e (normalize_platform_name name))" by (simp add: config_ok_def)
  from validated_config_ok [OF assms(1) c1(2) overlay_request_pre_ok [OF c1(1) this]] show ?thesis .
qed

lemma valid_behavior_trim: "behavior_is_valid b \<Longrightarrow> trim_space b = b \<and> b \<noteq> []"
proof -
  have "trim_space behavior_random = behavior_random" "trim_space behavior_fixed_header = behavior_fixed_header"
    "trim_space behavior_account_header_rule = behavior_account_header_rule"
    unfolding behavior_random_def behavior_fixed_header_def behavior_account_header_rule_def
    by (rule trim_space_plain, simp_all add: plain_char_def)+
  moreover assume "behavior_is_valid b"
  ultimately show ?thesis by (auto simp: behavior_is_valid_def behavior_random_def behavior_fixed_header_def behavior_account_header_rule_def)
qed

text \<open>A row is written as it is, and builds the platform that is put into the pool.\<close>

lemma config_row_kept:
  assumes "header_names_are_tokens X" "config_ok X c" "canonical_platform X (config_to_model c pid now) = Inr p"
  shows "p = config_to_model c pid now"
proof -
  obtain hs where n: "normalize_fixed_account_headers X (cf_fixed_header c) = Inr (cf_fixed_header c, hs)"
    and c: "trim_space (cf_name c) = cf_name c" "normalize_miss_action (cf_miss_action c) = cf_miss_action c"
      "trim_space (cf_empty_behavior c) = cf_empty_behavior c" "cf_empty_behavior c \<noteq> []"
    using assms(2) valid_behavior_trim [of "cf_empty_behavior c"] by (auto simp: config_ok_def config_pre_ok_def)
  from assms(3) show ?thesis
    by (auto simp: canonical_platform_def Let_def config_to_model_def normalize_platform_name_def n c split: sum.splits if_splits)
qed

lemma config_builds:
  assumes "config_ok X c" "platform_row_ok X (config_to_model c pid now)" "to_runtime X c pid = Inr plat"
  shows "build_from_model X (config_to_model c pid now) = Inr plat"
proof -
  obtain hs where n: "normalize_fixed_account_headers X (cf_fixed_header c) = Inr (cf_fixed_header c, hs)"
    using assms(1) by (auto simp: config_ok_def)
  obtain f where f: "compile_regex_filters X (cf_regex_filters c) = Inr f"
    "plat = new_configured_platform X pid (cf_name c) f (cf_region_filters c) (cf_sticky_ttl_ns c)
       (cf_miss_action c) (cf_empty_behavior c) (cf_fixed_header c) (cf_allocation_policy c) (cf_passive_disabled c)
       (cf_max_accounts c) (cf_window_ns c)"
    using assms(3) by (auto simp: to_runtime_def split: sum.splits)
  show ?thesis
    using assms(1,2) n f
    by (auto simp: build_from_model_def compile_model_regex_filters_def config_to_model_def platform_row_ok_def Let_def
        config_ok_def config_pre_ok_def)
qed

lemma to_runtime_names:
  assumes "to_runtime X c pid = Inr plat"
  shows "plat_id plat = pid" "plat_name plat = cf_name c" "view plat = new_routable_view" "settings plat = plat"
  using assms by (auto simp: to_runtime_def new_configured_platform_def new_platform_with_tag_filter_def settings_def Let_def
      split: sum.splits prod.splits)

section \<open>The write\<close>

lemma compile_and_upsert_cases:
  assumes "header_names_are_tokens X" "state_db_ok X (cs_db s)" "config_ok X c"
    and "compile_and_upsert X failed pid c s = (res, s1)"
  shows "(\<exists>err. res = Inl err \<and> cs_db s1 = cs_db s \<and> cs_pool s1 = cs_pool s)
    \<or> (\<exists>mp plat. res = Inr (mp, plat) \<and> cs_pool s1 = cs_pool s \<and> m_id mp = pid \<and> m_name mp = cf_name c
      \<and> \<not> name_taken pid (cf_name c) (sd_platforms (cs_db s))
      \<and> cs_db s1 = (cs_db s)\<lparr>sd_platforms := m_store pid mp (sd_platforms (cs_db s))\<rparr> \<and> state_db_ok X (cs_db s1)
      \<and> build_from_model X mp = Inr plat \<and> plat_id plat = pid \<and> plat_name plat = cf_name c
      \<and> view plat = new_routable_view \<and> settings plat = plat)"
proof (cases res)
  case (Inl err)
  then show ?thesis
    using assms(4) by (auto simp: compile_and_upsert_def upsert_platform_def Let_def
        split: sum.splits prod.splits option.splits if_splits)
next
  case (Inr mpp)
  obtain mp plat where mpp: "mpp = (mp, plat)" by (rule prod.exhaust)
  obtain now ev where tn: "time_now (cs_env s) = (now, ev)" by (rule prod.exhaust)
  have run: "to_runtime X c pid = Inr plat" "mp = config_to_model c pid now"
    "upsert_platform X failed mp (cs_db s) = (None, cs_db s1)" "cs_pool s1 = cs_pool s"
    using assms(4) tn Inr mpp by (auto simp: compile_and_upsert_def Let_def split: sum.splits prod.splits option.splits)
  from upsert_platform_cases [OF run(3)] obtain p where p: "canonical_platform X mp = Inr p"
    "\<not> name_taken (m_id p) (m_name p) (sd_platforms (cs_db s))"
    "cs_db s1 = (cs_db s)\<lparr>sd_platforms := m_store (m_id p) p (sd_platforms (cs_db s))\<rparr>" by auto
  have p_mp: "p = mp" unfolding run(2) by (rule config_row_kept [OF assms(1,3)]) (use p(1) run(2) in simp)
  have row: "platform_row_ok X (config_to_model c pid now)"
    using canonical_platform_row(1) [OF assms(1) p(1)] p_mp run(2) by simp
  have ids: "m_id mp = pid" "m_name mp = cf_name c" by (simp_all add: run(2) config_to_model_def)
  have "state_db_ok X (cs_db s1)" by (rule upsert_platform_ok [OF assms(1,2) run(3)])
  then show ?thesis
    using p p_mp ids run Inr mpp config_builds [OF assms(3) row run(1)] to_runtime_names [OF run(1)] by auto
qed

section \<open>What the registry operations do to the settings\<close>

lemma registered_settings_load: "registered_settings p i = map_option (\<lambda>r. settings (deref p r)) (m_load (by_id p) i)"
  by (simp add: registered_settings_def get_platform_def option.map_comp comp_def)

lemma settings_only_view: "q = p\<lparr>view := v\<rparr> \<Longrightarrow> settings q = settings p"
  by (simp add: settings_def)

lemma settings_full_rebuild [simp]: "settings (full_rebuild ns lk geo p) = settings p"
  using full_rebuild_only_view settings_only_view by metis

lemma settings_rebuild_platform:
  "r < length (plat_heap p) \<Longrightarrow> settings (deref (rebuild_platform cfg subs r p) i) = settings (deref p i)"
  by (simp add: rebuild_platform_deref)

lemma settings_names: "settings p = settings q \<Longrightarrow> plat_id p = plat_id q \<and> plat_name p = plat_name q"
  by (metis settings_def platform.select_convs(1,2) platform.surjective platform.update_convs(14))

lemma rebuild_registered:
  "r < length (plat_heap p) \<Longrightarrow> registered_settings (rebuild_platform cfg subs r p) = registered_settings p"
  by (intro ext) (simp add: registered_settings_load settings_rebuild_platform)

lemma alloc_registered:
  assumes "pool_ok cfg subs p" "alloc_platform plat p = (p1, r)"
  shows "registered_settings p1 = registered_settings p"
proof
  fix i
  note a = alloc_platform_simps [OF assms(2)]
  show "registered_settings p1 i = registered_settings p i"
  proof (cases "m_load (by_id p) i")
    case (Some t)
    then have "deref p1 t = deref p t" using pool_okD(5) [OF assms(1)] a(4) by simp
    with Some a(5) show ?thesis by (simp add: registered_settings_load)
  qed (simp add: registered_settings_load a(5))
qed

lemma register_registered:
  assumes "m_load (by_id p) (plat_id (deref p r)) = None"
  shows "registered_settings (register_platform r p) = (registered_settings p)(plat_id (deref p r) \<mapsto> settings (deref p r))"
  using assms by (intro ext) (simp add: registered_settings_load register_platform_def Let_def store_simps)

lemma create_registered:
  assumes "pool_ok cfg subs p" "alloc_platform plat p = (p1, r)" "m_load (by_id p) (plat_id plat) = None"
  shows "registered_settings (register_platform r (rebuild_platform cfg subs r p1)) = (registered_settings p)(plat_id plat \<mapsto> settings plat)"
proof -
  note a = alloc_platform_simps [OF assms(2)]
  have r: "r < length (plat_heap p1)" using a(1,2) by simp
  have id: "plat_id (deref (rebuild_platform cfg subs r p1) r) = plat_id plat"
    using rebuild_platform_names(1) [OF r] a(3) by simp
  have free: "m_load (by_id (rebuild_platform cfg subs r p1)) (plat_id (deref (rebuild_platform cfg subs r p1) r)) = None"
    unfolding id using assms(3) a(5) by simp
  show ?thesis
    unfolding register_registered [OF free] id
    by (simp add: rebuild_registered [OF r] alloc_registered [OF assms(1,2)] settings_rebuild_platform [OF r] a(3))
qed

lemma unregister_registered:
  assumes "pool_ok cfg subs p"
  shows "registered_settings (unregister_platform pid p) = (registered_settings p)(pid := None)"
proof
  fix i
  have d: "deref (unregister_platform pid p) = deref p"
    by (auto simp: unregister_platform_def Let_def split: option.splits)
  have "m_load (by_id (unregister_platform pid p)) i = ((m_load (by_id p))(pid := None)) i"
    using pool_okD(2) [OF assms] by (auto simp: unregister_platform_def Let_def store_simps split: option.splits)
  then show "registered_settings (unregister_platform pid p) i = ((registered_settings p)(pid := None)) i"
    by (simp add: registered_settings_load d)
qed

lemma replace_registered:
  assumes "pool_ok cfg subs p" "alloc_platform plat p = (p1, r)" "replace_platform cfg subs r p1 = (q, err)"
  shows "registered_settings q = (if err = None then (registered_settings p)(plat_id plat \<mapsto> settings plat) else registered_settings p)"
proof
  fix i
  note a = alloc_platform_simps [OF assms(2)]
  have r: "r < length (plat_heap p1)" by (simp add: a)
  have old: "m_load (by_id p) i = Some t \<Longrightarrow> deref p1 t = deref p t" for t
    using pool_okD(5) [OF assms(1)] a(4) by simp
  have old_map: "map_option (\<lambda>t. settings (deref p1 t)) (m_load (by_id p) i) = registered_settings p i"
    using old by (cases "m_load (by_id p) i") (simp_all add: registered_settings_load)
  define p' where "p' = rebuild_platform cfg subs r p1"
  have s: "settings (deref p' t) = settings (deref p1 t)" for t unfolding p'_def by (rule settings_rebuild_platform [OF r])
  from replace_platform_cases [OF r assms(3), folded p'_def]
  consider "err \<noteq> None" "q = p1 \<or> q = p'"
    | current where "err = None" "q = p'\<lparr>by_id := m_store (plat_id (deref p1 r)) r (by_id p1),
        by_name := replaced_names p' current r\<rparr>" by blast
  then show "registered_settings q i
      = (if err = None then (registered_settings p)(plat_id plat \<mapsto> settings plat) else registered_settings p) i"
  proof cases
    case 1
    then have "registered_settings q i = map_option (\<lambda>t. settings (deref p1 t)) (m_load (by_id p) i)"
      using s by (auto simp: registered_settings_load a(5) p'_def)
    with 1(1) old_map show ?thesis by auto
  next
    case 2
    have "registered_settings q i = map_option (\<lambda>t. settings (deref p1 t)) (m_load (m_store (plat_id plat) r (by_id p)) i)"
      using s by (simp add: registered_settings_load 2(2) a(3,5))
    with 2(1) old_map a(3) show ?thesis by (simp add: store_simps)
  qed
qed

lemma row_settings_store:
  "build_from_model X mp = Inr q \<Longrightarrow>
    row_settings X (db\<lparr>sd_platforms := m_store pid mp (sd_platforms db)\<rparr>) = (row_settings X db)(pid \<mapsto> q)"
  by (intro ext) (simp add: row_settings_def store_simps)

lemma row_settings_delete:
  "m_ok (sd_platforms db) \<Longrightarrow>
    row_settings X (db\<lparr>sd_platforms := m_delete pid (sd_platforms db)\<rparr>) = (row_settings X db)(pid := None)"
  by (intro ext) (simp add: row_settings_def store_simps)

lemma control_okD:
  assumes "control_ok X cfg subs s"
  shows "state_db_ok X (cs_db s)" "pool_ok cfg subs (cs_pool s)" "m_load (sd_platforms (cs_db s)) [] = None"
    "registered_settings (cs_pool s) = row_settings X (cs_db s)"
    and "m_load (sd_platforms (cs_db s)) pid = Some mp \<Longrightarrow> \<exists>r. m_load (by_id (cs_pool s)) pid = Some r \<and> pid \<noteq> []
      \<and> build_from_model X mp = Inr (settings (deref (cs_pool s) r)) \<and> plat_name (deref (cs_pool s) r) = m_name mp"
    and "m_load (sd_platforms (cs_db s)) pid = None \<longleftrightarrow> m_load (by_id (cs_pool s)) pid = None"
proof -
  show ok: "state_db_ok X (cs_db s)" "pool_ok cfg subs (cs_pool s)" "m_load (sd_platforms (cs_db s)) [] = None"
    "registered_settings (cs_pool s) = row_settings X (cs_db s)"
    using assms by (simp_all add: control_ok_def)
  have builds: "\<exists>q. build_from_model X mp = Inr q \<and> plat_name q = m_name mp" if "m_load (sd_platforms (cs_db s)) i = Some mp" for i mp
    using state_db_okD(5) [OF ok(1) that] platform_row_builds by blast
  have eq: "map_option (\<lambda>r. settings (deref (cs_pool s) r)) (m_load (by_id (cs_pool s)) i) = row_settings X (cs_db s) i" for i
    using fun_cong [OF ok(4), of i] by (simp add: registered_settings_load)
  show "\<exists>r. m_load (by_id (cs_pool s)) pid = Some r \<and> pid \<noteq> []
      \<and> build_from_model X mp = Inr (settings (deref (cs_pool s) r)) \<and> plat_name (deref (cs_pool s) r) = m_name mp"
    if mp: "m_load (sd_platforms (cs_db s)) pid = Some mp" for pid mp
  proof -
    obtain q where q: "build_from_model X mp = Inr q" "plat_name q = m_name mp" using builds [OF mp] by blast
    with eq [of pid] mp obtain r where r: "m_load (by_id (cs_pool s)) pid = Some r" "settings (deref (cs_pool s) r) = q"
      by (auto simp: row_settings_def)
    moreover have "plat_name (deref (cs_pool s) r) = plat_name q" unfolding r(2) [symmetric] by (simp add: settings_def)
    moreover have "pid \<noteq> []" using mp ok(3) by auto
    ultimately show ?thesis using q by auto
  qed
  show "m_load (sd_platforms (cs_db s)) pid = None \<longleftrightarrow> m_load (by_id (cs_pool s)) pid = None"
    using eq [of pid] builds [of pid] by (cases "m_load (sd_platforms (cs_db s)) pid") (auto simp: row_settings_def)
qed

text \<open>Writing the row of an existing platform always finds the platform to replace, under a free name.\<close>

lemma write_replaces:
  assumes "control_ok X cfg subs s" "m_load (sd_platforms (cs_db s)) pid \<noteq> None"
    and "\<not> name_taken pid (plat_name plat) (sd_platforms (cs_db s))" "plat_id plat = pid"
    and "alloc_platform plat (cs_pool s) = (p1, r)" "replace_platform cfg subs r p1 = (q, err)"
  shows "err = None"
proof -
  note d = control_okD [OF assms(1)] and a = alloc_platform_simps [OF assms(5)]
  obtain mp where "m_load (sd_platforms (cs_db s)) pid = Some mp" using assms(2) by blast
  from d(5) [OF this] obtain current where cur: "m_load (by_id (cs_pool s)) pid = Some current" "pid \<noteq> []" by blast
  have "t = current" if t: "m_load (by_name (cs_pool s)) (plat_name plat) = Some t" for t
  proof -
    define i where "i = plat_id (deref (cs_pool s) t)"
    have nm: "plat_name (deref (cs_pool s) t) = plat_name plat" "m_load (by_id (cs_pool s)) i = Some t"
      using pool_okD(6) [OF d(2) t] by (simp_all add: i_def)
    then obtain mq where mq: "m_load (sd_platforms (cs_db s)) i = Some mq" using d(6) [of i] by fastforce
    from d(5) [OF mq] nm have "m_name mq = plat_name plat" by auto
    with assms(3) mq name_taken_iff [OF state_db_okD(1) [OF d(1)]] have "i = pid" by blast
    with nm(2) cur(1) show ?thesis by simp
  qed
  then have "plat_name plat \<noteq> [] \<longrightarrow> m_load (by_name (cs_pool s)) (plat_name plat) \<in> {None, Some current}"
    by (cases "m_load (by_name (cs_pool s)) (plat_name plat)") auto
  then have "snd (replace_platform cfg subs r p1) = None"
    using cur by (cases "plat_name plat = []") (auto simp: replace_platform_def Let_def a(3,5,6) assms(4))
  with assms(6) show ?thesis by simp
qed

section \<open>Every operation keeps rows and platforms together\<close>

lemma control_ok_write:
  assumes "control_ok X cfg subs s" "state_db_ok X db" "db = (cs_db s)\<lparr>sd_platforms := m_store pid mp (sd_platforms (cs_db s))\<rparr>"
    and "build_from_model X mp = Inr plat" "pool_ok cfg subs q" "pid \<noteq> []"
    and "registered_settings q = (registered_settings (cs_pool s))(pid \<mapsto> plat)"
  shows "control_ok X cfg subs (s\<lparr>cs_env := ev, cs_db := db, cs_pool := q\<rparr>)"
  using control_okD(3,4) [OF assms(1)] assms(2,5-7) row_settings_store [OF assms(4)]
  unfolding control_ok_def assms(3) by (simp add: store_simps)

lemma control_ok_same:
  "control_ok X cfg subs s \<Longrightarrow> cs_db s1 = cs_db s \<Longrightarrow> cs_pool s1 = cs_pool s \<Longrightarrow> control_ok X cfg subs s1"
  by (simp add: control_ok_def)

text \<open>What a request that writes one row leaves: on success the row, and what it builds; on failure nothing.\<close>

definition wrote_row ::
  "external \<Rightarrow> pool_config \<Rightarrow> sub_store \<Rightarrow> string \<Rightarrow> (service_error + model_platform) \<times> control_state \<Rightarrow> control_state \<Rightarrow> bool" where
  "wrote_row X cfg subs pid out s \<longleftrightarrow> control_ok X cfg subs (snd out) \<and>
     (case fst out of
        Inl _ \<Rightarrow> cs_db (snd out) = cs_db s \<and> registered_settings (cs_pool (snd out)) = registered_settings (cs_pool s)
      | Inr mp \<Rightarrow> m_id mp = pid
          \<and> cs_db (snd out) = (cs_db s)\<lparr>sd_platforms := m_store pid mp (sd_platforms (cs_db s))\<rparr>)"

lemma write_platform_ok:
  assumes "header_names_are_tokens X" "control_ok X cfg subs s" "config_ok X c"
    and "m_load (sd_platforms (cs_db s)) pid \<noteq> None"
  shows "wrote_row X cfg subs pid (write_platform X cfg subs failed pid c s) s"
proof -
  note d = control_okD [OF assms(2)]
  obtain res s1 where run: "compile_and_upsert X failed pid c s = (res, s1)" by (rule prod.exhaust)
  from compile_and_upsert_cases [OF assms(1) d(1) assms(3) run] consider
    (fail) err where "res = Inl err" "cs_db s1 = cs_db s" "cs_pool s1 = cs_pool s"
  | (ok) mp plat where "res = Inr (mp, plat)" "cs_pool s1 = cs_pool s" "m_id mp = pid"
      "\<not> name_taken pid (cf_name c) (sd_platforms (cs_db s))"
      "cs_db s1 = (cs_db s)\<lparr>sd_platforms := m_store pid mp (sd_platforms (cs_db s))\<rparr>" "state_db_ok X (cs_db s1)"
      "build_from_model X mp = Inr plat" "plat_id plat = pid" "plat_name plat = cf_name c"
      "view plat = new_routable_view" "settings plat = plat" by blast
  then show ?thesis
  proof cases
    case fail
    with run control_ok_same [OF assms(2)] show ?thesis by (simp add: write_platform_def wrote_row_def)
  next
    case ok
    obtain p1 r where alloc: "alloc_platform plat (cs_pool s) = (p1, r)" by (rule prod.exhaust)
    obtain q err where rep: "replace_platform cfg subs r p1 = (q, err)" by (rule prod.exhaust)
    have err: "err = None"
      by (rule write_replaces [OF assms(2,4) _ ok(8) alloc rep]) (use ok(4,9) in simp)
    have out: "write_platform X cfg subs failed pid c s = (Inr mp, s1\<lparr>cs_pool := q\<rparr>)"
      using run ok(1,2) alloc rep err by (simp add: write_platform_def)
    have q: "pool_ok cfg subs q"
      using change_platform_ok [OF d(2) _ alloc] ok(10) rep new_view_ok by simp
    have pid: "pid \<noteq> []" using assms(4) d(3) by auto
    have eq: "s1\<lparr>cs_pool := q\<rparr> = s\<lparr>cs_env := cs_env s1, cs_db := cs_db s1, cs_pool := q\<rparr>" by simp
    have "control_ok X cfg subs (s1\<lparr>cs_pool := q\<rparr>)"
      unfolding eq using replace_registered [OF d(2) alloc rep] err ok(8,11)
      by (intro control_ok_write [OF assms(2) ok(6,5,7) q pid]) simp
    then show ?thesis using out ok(3,5) by (simp add: wrote_row_def)
  qed
qed

lemma control_create_ok:
  assumes "header_names_are_tokens X" "control_ok X cfg subs s" "check_platform_env X raw = ([], e)"
    and "m_load (sd_platforms (cs_db s)) pid = None" "pid \<noteq> []"
  shows "wrote_row X cfg subs pid (create_platform X cfg subs e failed pid req s) s"
proof (cases "create_config X e req")
  case (Inl err)
  with assms(2) show ?thesis by (simp add: create_platform_def wrote_row_def)
next
  case (Inr c)
  note d = control_okD [OF assms(2)]
  note c = create_config_ok [OF assms(1,3) Inr]
  obtain res s1 where run: "compile_and_upsert X failed pid c s = (res, s1)" by (rule prod.exhaust)
  from compile_and_upsert_cases [OF assms(1) d(1) c run] consider
    (fail) err where "res = Inl err" "cs_db s1 = cs_db s" "cs_pool s1 = cs_pool s"
  | (ok) mp plat where "res = Inr (mp, plat)" "cs_pool s1 = cs_pool s" "m_id mp = pid"
      "cs_db s1 = (cs_db s)\<lparr>sd_platforms := m_store pid mp (sd_platforms (cs_db s))\<rparr>" "state_db_ok X (cs_db s1)"
      "build_from_model X mp = Inr plat" "plat_id plat = pid" "view plat = new_routable_view" "settings plat = plat" by blast
  then show ?thesis
  proof cases
    case fail
    with run Inr control_ok_same [OF assms(2)] show ?thesis by (simp add: create_platform_def wrote_row_def)
  next
    case ok
    obtain p1 r where alloc: "alloc_platform plat (cs_pool s) = (p1, r)" by (rule prod.exhaust)
    define q where "q = register_platform r (rebuild_platform cfg subs r p1)"
    have out: "create_platform X cfg subs e failed pid req s = (Inr mp, s1\<lparr>cs_pool := q\<rparr>)"
      using run ok(1,2) alloc Inr by (simp add: create_platform_def q_def)
    have q: "pool_ok cfg subs q"
      unfolding q_def by (rule Node_Pool.create_platform_ok [OF d(2) _ alloc]) (simp add: ok(8) new_view_ok)
    have free: "m_load (by_id (cs_pool s)) (plat_id plat) = None" using d(6) [of pid] assms(4) ok(7) by simp
    have eq: "s1\<lparr>cs_pool := q\<rparr> = s\<lparr>cs_env := cs_env s1, cs_db := cs_db s1, cs_pool := q\<rparr>" by simp
    have "control_ok X cfg subs (s1\<lparr>cs_pool := q\<rparr>)"
      unfolding eq using create_registered [OF d(2) alloc free] ok(7,9)
      by (intro control_ok_write [OF assms(2) ok(5,4,6) q assms(5)]) (simp add: q_def)
    then show ?thesis using out ok(3,4) by (simp add: wrote_row_def)
  qed
qed

lemma update_config_ok:
  assumes "header_names_are_tokens X" "control_ok X cfg subs s" "update_config X too_big failed pid body s = Inr c"
  shows "config_ok X c \<and> (\<exists>mp. m_load (sd_platforms (cs_db s)) pid = Some mp \<and> m_id mp = pid
    \<and> (\<exists>p. patch_platform X too_big pid p (config_from_model X mp) = Inr c \<and> \<not> (pid = default_platform_id \<and> renames_default p)))"
proof -
  obtain p mp where p: "patch_platform X too_big (m_id mp) p (config_from_model X mp) = Inr c"
    "\<not> (m_id mp = default_platform_id \<and> renames_default p)"
    and mp: "get_platform_model failed pid (cs_db s) = Inr mp"
    using assms(3) by (auto simp: update_config_def and_then_Inr split: option.splits if_splits)
  have row: "m_load (sd_platforms (cs_db s)) pid = Some mp"
    using mp by (auto simp: get_platform_model_def repo_get_platform_def split: option.splits sum.splits repo_error.splits)
  from state_db_okD(5) [OF control_okD(1) [OF assms(2)] row]
  have "m_id mp = pid" "config_pre_ok (config_from_model X mp)" by (simp_all add: row_config_pre_ok)
  with patch_platform_ok [OF assms(1) p(1)] row p show ?thesis by blast
qed

lemma update_platform_ok:
  assumes "header_names_are_tokens X" "control_ok X cfg subs s"
  shows "wrote_row X cfg subs pid (update_platform X cfg subs too_big failed pid body s) s"
proof (cases "update_config X too_big (fst failed) pid body s")
  case (Inl err)
  with assms(2) show ?thesis by (simp add: update_platform_def wrote_row_def)
next
  case (Inr c)
  with update_config_ok [OF assms Inr] write_platform_ok [OF assms] show ?thesis by (auto simp: update_platform_def)
qed

lemma reset_platform_ok:
  assumes "header_names_are_tokens X" "control_ok X cfg subs s" "check_platform_env X raw = ([], e)"
  shows "wrote_row X cfg subs pid (reset_platform X cfg subs e failed pid s) s"
proof (cases "repo_get_platform_name (fst failed) pid (cs_db s)")
  case (Inl err)
  with assms(2) show ?thesis by (cases err) (simp_all add: reset_platform_def wrote_row_def)
next
  case (Inr name)
  then obtain mp where mp: "m_load (sd_platforms (cs_db s)) pid = Some mp" "name = m_name mp"
    by (auto simp: repo_get_platform_name_def split: option.splits)
  then have "trim_space name = name"
    using state_db_okD(5) [OF control_okD(1) [OF assms(2)] mp(1)] by (simp add: platform_row_ok_def)
  with checked_env_config_ok(1) [OF assms(1,3)] write_platform_ok [OF assms(1,2)] mp(1) Inr show ?thesis
    by (simp add: reset_platform_def)
qed

lemma delete_platform_ok:
  assumes "control_ok X cfg subs s" "delete_platform failed pid s = (err, s')"
  shows "control_ok X cfg subs s' \<and> (err \<noteq> None \<longrightarrow> s' = s)
    \<and> (err = None \<longrightarrow> pid \<noteq> default_platform_id \<and> cs_db s' = (cs_db s)\<lparr>sd_platforms := m_delete pid (sd_platforms (cs_db s))\<rparr>)"
proof -
  note d = control_okD [OF assms(1)]
  have "control_ok X cfg subs (s\<lparr>cs_db := (cs_db s)\<lparr>sd_platforms := m_delete pid (sd_platforms (cs_db s))\<rparr>,
      cs_pool := unregister_platform pid (cs_pool s)\<rparr>)"
    using d(3,4) delete_row_ok(1) [OF d(1)] unregister_platform_ok [OF d(2)] unregister_registered [OF d(2)]
      row_settings_delete [OF state_db_okD(1) [OF d(1)]] state_db_okD(1) [OF d(1)]
    by (simp add: control_ok_def store_simps)
  with assms show ?thesis
    by (auto simp: delete_platform_def repo_delete_platform_def split: if_splits option.splits)
qed

lemma rebuild_platform_view_ok:
  assumes "control_ok X cfg subs s"
  shows "control_ok X cfg subs (snd (rebuild_platform_view cfg subs pid s))"
    "cs_db (snd (rebuild_platform_view cfg subs pid s)) = cs_db s"
proof -
  note d = control_okD [OF assms]
  show "control_ok X cfg subs (snd (rebuild_platform_view cfg subs pid s))"
  proof (cases "m_load (by_id (cs_pool s)) pid")
    case (Some r)
    then have r: "r < length (plat_heap (cs_pool s))" "view_ok (view (deref (cs_pool s) r))"
      using pool_okD(5) [OF d(2)] by (auto simp: view_coherent_def)
    have "pool_ok cfg subs (rebuild_platform cfg subs r (cs_pool s))" by (rule rebuild_platform_ok(1) [OF d(2) r])
    with Some rebuild_registered [OF r(1)] d show ?thesis by (simp add: rebuild_platform_view_def control_ok_def)
  qed (simp add: rebuild_platform_view_def assms)
qed (simp add: rebuild_platform_view_def split: option.split)

end
