(* ===== verification/Control_Platform_Runs.thy ===== *)
theory Control_Platform_Runs
  imports Control_Platform
begin

text \<open>
  The platform part of the control plane in operation: the first start, requests and restarts in any
  order, with a database that may refuse any statement. The properties show that platforms follow
  rows, that the built-in platform stays, what a patch sets, that requests are all or nothing, and
  what happens when a change and a deletion of the same platform overlap.
\<close>

section \<open>Start-up reaches such a state\<close>

lemma built_settings:
  assumes "build_from_model X mp = Inr q"
  shows "settings q = q" "view q = new_routable_view" "plat_id q = m_id mp"
  using assms by (auto simp: build_from_model_def new_configured_platform_def new_platform_with_tag_filter_def settings_def Let_def
      split: sum.splits prod.splits if_splits)

lemma view_contains_new: "\<not> view_contains new_routable_view h"
proof -
  have "view_clear new_routable_view = new_routable_view" by (simp add: view_clear_def new_routable_view_def empty_shard_def)
  with rv.contains_clear [OF new_view_ok] show ?thesis by simp
qed

lemma register_rows_ok:
  assumes "distinct (map m_id mps)" "\<forall>mp \<in> set mps. platform_row_ok X mp \<and> m_load (by_id p) (m_id mp) = None"
    and "pool_ok cfg subs p" "pool_nodes p = []"
  shows "\<exists>q. register_rows X mps p = (None, q) \<and> pool_ok cfg subs q
    \<and> registered_settings q = (\<lambda>i. case map_of (map (\<lambda>mp. (m_id mp, mp)) mps) i of None \<Rightarrow> registered_settings p i
        | Some mp \<Rightarrow> (case build_from_model X mp of Inl _ \<Rightarrow> None | Inr plat \<Rightarrow> Some plat))"
  using assms
proof (induction mps arbitrary: p)
  case (Cons mp mps)
  obtain plat where plat: "build_from_model X mp = Inr plat" "plat_id plat = m_id mp"
    using platform_row_builds Cons.prems(2) by fastforce
  note b = built_settings [OF plat(1)]
  obtain p1 r where alloc: "alloc_platform plat p = (p1, r)" by (rule prod.exhaust)
  note a = alloc_platform_simps [OF alloc] and ok = alloc_platform_ok [OF Cons.prems(3) alloc]
  have v: "view_coherent (pool_nodes p1) lk geo (deref p1 r)" for lk geo
    using rv.contains_clear [OF new_view_ok] a(3,7) Cons.prems(4) b(2)
    by (simp add: view_coherent_def new_view_ok routable_def view_contains_new)
  define p2 where "p2 = register_platform r p1"
  have free: "m_load (by_id p1) (plat_id (deref p1 r)) = None" using Cons.prems(2) plat(2) a(3,5) by simp
  have p2: "pool_ok cfg subs p2" unfolding p2_def by (rule register_platform_ok [OF ok(1,3) v])
  have ids: "by_id p2 = m_store (m_id mp) r (by_id p)" "pool_nodes p2 = []"
    using free a Cons.prems(4) plat(2) by (simp_all add: p2_def register_platform_def Let_def)
  have st: "registered_settings p2 = (registered_settings p)(m_id mp \<mapsto> plat)"
    unfolding p2_def register_registered [OF free] using a(3) plat(2) b(1) alloc_registered [OF Cons.prems(3) alloc] by simp
  have "\<forall>m \<in> set mps. platform_row_ok X m \<and> m_load (by_id p2) (m_id m) = None"
    using Cons.prems(1,2) ids(1) by (auto simp: store_simps image_iff)
  from Cons.IH [OF _ this p2 ids(2)] Cons.prems(1) obtain q where q: "register_rows X mps p2 = (None, q)" "pool_ok cfg subs q"
    "registered_settings q = (\<lambda>i. case map_of (map (\<lambda>mp. (m_id mp, mp)) mps) i of None \<Rightarrow> registered_settings p2 i
        | Some mp \<Rightarrow> (case build_from_model X mp of Inl _ \<Rightarrow> None | Inr plat \<Rightarrow> Some plat))" by auto
  have none: "map_of (map (\<lambda>mp. (m_id mp, mp)) mps) (m_id mp) = None"
    using Cons.prems(1) by (auto simp: map_of_eq_None_iff image_iff)
  have "register_rows X (mp # mps) p = (None, q)" using q(1) plat(1) alloc by (simp add: p2_def)
  with q(2,3) st none plat(1) show ?case by (auto intro!: exI [of _ q] ext split: option.split)
qed simp

text \<open>The default platform is there, under its name; names are unique, so no other has it.\<close>

definition default_ok :: "state_db \<Rightarrow> bool" where
  "default_ok db \<longleftrightarrow> (\<exists>mp. m_load (sd_platforms db) default_platform_id = Some mp \<and> m_name mp = default_platform_name)"

definition bootable :: "external \<Rightarrow> state_db \<Rightarrow> bool" where
  "bootable X db \<longleftrightarrow> state_db_ok X db \<and> m_load (sd_platforms db) [] = None
     \<and> (default_ok db \<or> (\<forall>i mp. m_load (sd_platforms db) i = Some mp \<longrightarrow> i \<noteq> default_platform_id \<and> m_name mp \<noteq> default_platform_name))"

lemma default_model: "header_names_are_tokens X \<Longrightarrow> check_platform_env X raw = ([], e) \<Longrightarrow> trim_space default_platform_name = default_platform_name \<Longrightarrow>
    default_platform_model e now = config_to_model (default_platform_config X e default_platform_name) default_platform_id now"
  using checked_env_config_ok [of X raw e default_platform_name]
  by (simp add: default_platform_model_def config_to_model_def default_platform_config_def normalize_empty_behavior_def)

lemma trim_default: "trim_space default_platform_name = default_platform_name"
  unfolding default_platform_name_def by (rule trim_space_plain) (simp_all add: plain_char_def)

lemma default_name_valid: "validate_platform_name X default_platform_name = Inr ()"
proof -
  have "ascii default_platform_name" "ascii ''api''" by (simp_all add: ascii_def default_platform_name_def)
  then have "\<not> equal_fold (uni_fold X) default_platform_name ''api''"
    by (simp add: equal_fold_def default_platform_name_def)
  moreover have "list_all (\<lambda>c. c \<notin> set default_platform_name) (name_forbidden_chars @ name_forbidden_spacing)"
    by (simp add: name_forbidden_chars_def name_forbidden_spacing_def default_platform_name_def char_of_def)
  then have "\<not> contains_any default_platform_name name_forbidden_chars \<and> \<not> contains_any default_platform_name name_forbidden_spacing"
    by (auto simp: contains_any_def list_all_iff list_ex_iff)
  ultimately show ?thesis by (simp add: validate_platform_name_def default_platform_name_def)
qed

lemma listed_rows:
  assumes "m_ok rows"
  shows "mp \<in> set (map snd rows) \<longleftrightarrow> (\<exists>i. m_load rows i = Some mp)"
proof -
  have "mp \<in> set (map snd rows) \<longleftrightarrow> (\<exists>i. (i, mp) \<in> set rows)" by force
  with assms show ?thesis by (simp add: m_ok_mem)
qed

lemma ensure_default_ok:
  assumes "header_names_are_tokens X" "check_platform_env X raw = ([], e)" "bootable X (cs_db s)"
    and "ensure_default_platform X None e (map snd (sd_platforms (cs_db s))) s = (err, s1)"
  shows "err = None \<and> cs_pool s1 = cs_pool s \<and> state_db_ok X (cs_db s1) \<and> default_ok (cs_db s1)
    \<and> m_load (sd_platforms (cs_db s1)) [] = None
    \<and> (\<forall>i. i \<noteq> default_platform_id \<longrightarrow> m_load (sd_platforms (cs_db s1)) i = m_load (sd_platforms (cs_db s)) i)
    \<and> (\<forall>mp. m_load (sd_platforms (cs_db s)) default_platform_id = Some mp \<longrightarrow> cs_db s1 = cs_db s)"
proof -
  have ok: "state_db_ok X (cs_db s)" "m_load (sd_platforms (cs_db s)) [] = None" using assms(3) by (simp_all add: bootable_def)
  note d = state_db_okD [OF ok(1)]
  have has: "list_ex (\<lambda>p. m_id p = default_platform_id) (map snd (sd_platforms (cs_db s)))
      \<longleftrightarrow> m_load (sd_platforms (cs_db s)) default_platform_id \<noteq> None"
    unfolding list_ex_iff Bex_def listed_rows [OF d(1)] using d(5) by (metis not_Some_eq)
  show ?thesis
  proof (cases "m_load (sd_platforms (cs_db s)) default_platform_id")
    case (Some mp)
    with has assms(4) have "err = None" "s1 = s" by (simp_all add: ensure_default_platform_def)
    moreover have "default_ok (cs_db s)" using assms(3) Some by (auto simp: bootable_def)
    ultimately show ?thesis using ok by simp
  next
    case None
    obtain now ev where tn: "time_now (cs_env s) = (now, ev)" by (rule prod.exhaust)
    define mp where "mp = default_platform_model e now"
    note c = checked_env_config_ok [OF assms(1,2) trim_default]
    have mp: "mp = config_to_model (default_platform_config X e default_platform_name) default_platform_id now"
      unfolding mp_def by (rule default_model [OF assms(1,2) trim_default])
    obtain hs where fixed: "normalize_fixed_account_headers X (pe_fixed_header e) = Inr (pe_fixed_header e, hs)"
      "pe_empty_behavior e = behavior_fixed_header \<longrightarrow> pe_fixed_header e \<noteq> []"
      using c(1,4,5) by (auto simp: config_ok_def default_platform_config_def normalize_empty_behavior_def)
    have hs: "pe_fixed_header e = [] \<longleftrightarrow> hs = []" by (rule fixed_headers_normal(2) [OF assms(1) fixed(1)])
    have "\<exists>p. canonical_platform X mp = Inr p"
      using c fixed hs valid_behavior_trim [of "pe_empty_behavior e"]
      by (auto simp: canonical_platform_def Let_def mp_def default_platform_model_def normalize_platform_name_def trim_default
          default_name_valid config_ok_def config_pre_ok_def default_platform_config_def)
    then have can: "canonical_platform X mp = Inr mp" using config_row_kept [OF assms(1) c(1)] mp by metis
    have "\<not> name_taken default_platform_id default_platform_name (sd_platforms (cs_db s))"
      using assms(3) None name_taken_iff [OF d(1)] by (auto simp: bootable_def default_ok_def)
    then have up: "upsert_platform X None mp (cs_db s)
        = (None, (cs_db s)\<lparr>sd_platforms := m_store default_platform_id mp (sd_platforms (cs_db s))\<rparr>)"
      by (simp add: upsert_platform_def can) (simp add: mp_def default_platform_model_def)
    have s1: "err = None" "s1 = s\<lparr>cs_env := ev,
        cs_db := (cs_db s)\<lparr>sd_platforms := m_store default_platform_id mp (sd_platforms (cs_db s))\<rparr>\<rparr>"
      using assms(4) has None tn up by (simp_all add: ensure_default_platform_def mp_def [symmetric] Let_def)
    moreover have "state_db_ok X (cs_db s1)" using upsert_platform_ok [OF assms(1) ok(1) up] s1(2) by simp
    moreover have "m_name mp = default_platform_name" by (simp add: mp_def default_platform_model_def)
    moreover have "default_platform_id \<noteq> []" by (simp add: default_platform_id_def)
    ultimately show ?thesis using ok None by (auto simp: default_ok_def store_simps)
  qed
qed

lemma bootstrap_ok:
  assumes "header_names_are_tokens X" "check_platform_env X raw = ([], e)" "bootable X (cs_db s)"
    and "cs_pool s = new_global_node_pool" "bootstrap_platforms X e (None, None, None) s = (err, s')"
  shows "err = None" "control_ok X cfg subs s'" "default_ok (cs_db s')"
    "i \<noteq> default_platform_id \<Longrightarrow> m_load (sd_platforms (cs_db s')) i = m_load (sd_platforms (cs_db s)) i"
proof -
  have ok: "state_db_ok X (cs_db s)" using assms(3) by (simp add: bootable_def)
  note d = state_db_okD [OF ok]
  have names: "validate_persisted_names X (map snd (sd_platforms (cs_db s))) = 0"
    using d(1,5) by (auto simp: validate_persisted_names_def filter_empty_conv m_ok_mem platform_row_ok_def)
  obtain err1 s1 where en: "ensure_default_platform X None e (map snd (sd_platforms (cs_db s))) s = (err1, s1)" by (rule prod.exhaust)
  note e1 = ensure_default_ok [OF assms(1-3) en]
  define rows where "rows = map snd (sd_platforms (cs_db s1))"
  note d1 = state_db_okD [OF conjunct1 [OF conjunct2 [OF conjunct2 [OF e1]]]]
  have keyed: "map (\<lambda>mp. (m_id mp, mp)) rows = sd_platforms (cs_db s1)"
    using d1(1,5) by (auto simp: rows_def m_ok_mem intro!: map_idI)
  have dist: "distinct (map m_id rows)"
    using d1(1) unfolding m_ok_def keyed [symmetric] by (simp add: comp_def)
  have row: "platform_row_ok X mp" if "mp \<in> set rows" for mp
    using that d1(1,5) by (auto simp: rows_def m_ok_mem)
  have empty: "by_id (cs_pool s1) = []" "pool_nodes (cs_pool s1) = []" "pool_ok cfg subs (cs_pool s1)"
    using e1 assms(4) new_pool_ok by (simp_all add: new_global_node_pool_def [THEN arg_cong [where f = by_id]]
      new_global_node_pool_def [THEN arg_cong [where f = pool_nodes]])
  obtain q where q: "register_rows X rows (cs_pool s1) = (None, q)" "pool_ok cfg subs q"
    "registered_settings q = (\<lambda>i. case m_load (sd_platforms (cs_db s1)) i of None \<Rightarrow> registered_settings (cs_pool s1) i
        | Some mp \<Rightarrow> (case build_from_model X mp of Inl _ \<Rightarrow> None | Inr plat \<Rightarrow> Some plat))"
    using register_rows_ok [OF dist _ empty(3,2), of X] row empty(1) unfolding keyed by auto
  have run: "err = None" "s' = s1\<lparr>cs_pool := q\<rparr>"
    using assms(5) names en e1 q(1) by (auto simp: bootstrap_platforms_def list_platforms_def rows_def)
  show "err = None" by (rule run(1))
  have "registered_settings (cs_pool s1) = Map.empty"
    using e1 assms(4) by (auto simp: registered_settings_load new_global_node_pool_def)
  then have "registered_settings q = row_settings X (cs_db s1)" unfolding q(3) by (auto simp: row_settings_def split: option.split)
  with run q(2) e1 show "control_ok X cfg subs s'" "default_ok (cs_db s')" by (simp_all add: control_ok_def)
  show "i \<noteq> default_platform_id \<Longrightarrow> m_load (sd_platforms (cs_db s')) i = m_load (sd_platforms (cs_db s)) i"
    using e1 run by simp
qed

section \<open>The default platform keeps its name\<close>

lemma write_platform_row:
  assumes "fst (write_platform X cfg subs failed pid c s) = Inr mp"
  shows "\<exists>now. mp = config_to_model c pid now"
  using assms by (auto simp: write_platform_def compile_and_upsert_def Let_def split: sum.splits prod.splits option.splits)

text \<open>What the patch makes of the name; no later step of the chain touches it.\<close>

definition patched_name :: "merge_patch \<Rightarrow> string \<Rightarrow> string" where
  "patched_name p name = (case m_load p ''name'' of Some (J_Str n) \<Rightarrow> trim_space n | _ \<Rightarrow> name)"

lemma setters_name:
  "set_sticky_ttl d c = Inr c' \<Longrightarrow> cf_name c' = cf_name c" "set_max_accounts n c = Inr c' \<Longrightarrow> cf_name c' = cf_name c"
  "set_account_window d c = Inr c' \<Longrightarrow> cf_name c' = cf_name c" "set_miss_action a c = Inr c' \<Longrightarrow> cf_name c' = cf_name c"
  "set_empty_behavior a c = Inr c' \<Longrightarrow> cf_name c' = cf_name c" "set_allocation_policy a c = Inr c' \<Longrightarrow> cf_name c' = cf_name c"
  "validate_platform_config X b c = Inr c' \<Longrightarrow> cf_name c' = cf_name c"
  by (auto simp: set_sticky_ttl_def set_max_accounts_def set_account_window_def set_miss_action_def set_empty_behavior_def
      set_allocation_policy_def validate_platform_config_def validate_empty_account_config_def
      split: if_splits sum.splits prod.splits)

lemma patched_name_step:
  assumes "and_then acc (\<lambda>v. overlay v f c) = Inr c'" "cf_name c = n" "\<And>a c'. f a c = Inr c' \<Longrightarrow> cf_name c' = cf_name c"
  shows "cf_name c' = n"
proof (cases acc)
  case (Inr v)
  with assms show ?thesis by (cases v) auto
qed (use assms(1) in simp)

lemma patch_platform_name:
  assumes "patch_platform X too_big pid p c = Inr c'"
  shows "cf_name c' = patched_name p (cf_name c)"
proof (rule chain_pre_ok [OF assms [unfolded patch_platform_def], where Q = "\<lambda>c1. cf_name c1 = patched_name p (cf_name c)"],
    goal_cases)
  case (1 c1)
  then show ?case
    by (auto simp: and_then_Inr optional_non_empty_string_def patched_name_def patch_name_def normalize_platform_name_def
        trim_space_idem Let_def split: option.splits json_value.splits if_splits sum.splits)
next
  case (2 c1)
  from 2(2) show ?case
    by (elim chain_pre_ok [where Q = "\<lambda>c2. cf_name c2 = patched_name p (cf_name c)"] patched_name_step)
      (use 2(1) in \<open>auto dest: setters_name\<close>)
qed

lemma update_keeps_default:
  assumes "header_names_are_tokens X" "control_ok X cfg subs s" "default_ok (cs_db s)"
    and "update_platform X cfg subs too_big failed default_platform_id body s = (Inr mp, s')"
  shows "m_name mp = default_platform_name"
proof -
  obtain c where c: "update_config X too_big (fst failed) default_platform_id body s = Inr c"
    "fst (write_platform X cfg subs (snd failed) default_platform_id c s) = Inr mp"
    using assms(4) by (auto simp: update_platform_def split: sum.splits)
  from update_config_ok [OF assms(1,2) c(1)] obtain row p where
    row: "m_load (sd_platforms (cs_db s)) default_platform_id = Some row"
    and p: "patch_platform X too_big default_platform_id p (config_from_model X row) = Inr c" "\<not> renames_default p" by blast
  have "m_name row = default_platform_name" using assms(3) row by (simp add: default_ok_def)
  then have "cf_name c = default_platform_name"
    using patch_platform_name [OF p(1)] p(2) trim_default
    by (auto simp: patched_name_def renames_default_def config_from_model_def split: option.splits json_value.splits)
  with write_platform_row [OF c(2)] show ?thesis by (auto simp: config_to_model_def)
qed

lemma reset_keeps_name:
  assumes "reset_platform X cfg subs e failed pid s = (Inr mp, s')"
  shows "\<exists>row. m_load (sd_platforms (cs_db s)) pid = Some row \<and> m_name mp = m_name row"
proof -
  obtain name where n: "repo_get_platform_name (fst failed) pid (cs_db s) = Inr name"
    "fst (write_platform X cfg subs (snd failed) pid (default_platform_config X e name) s) = Inr mp"
    using assms by (auto simp: reset_platform_def split: sum.splits repo_error.splits)
  with write_platform_row [OF n(2)] show ?thesis
    by (auto simp: config_to_model_def default_platform_config_def repo_get_platform_name_def split: option.splits)
qed

lemma wrote_row_default:
  assumes "wrote_row X cfg subs pid out s" "default_ok (cs_db s)"
    and "\<And>mp. fst out = Inr mp \<Longrightarrow> pid = default_platform_id \<Longrightarrow> m_name mp = default_platform_name"
  shows "control_ok X cfg subs (snd out) \<and> default_ok (cs_db (snd out))"
  using assms by (cases "fst out") (auto simp: wrote_row_def default_ok_def store_simps)

section \<open>Runs\<close>

text \<open>
  Requests in any order, each with what the database answers, and restarts: a new process with an
  empty pool that reads the rows back.
\<close>

datatype control_op =
    Ctl_Create "string option" string create_platform_request
  | Ctl_Update int "string option \<times> string option" string "merge_patch option"
  | Ctl_Delete "string option" string
  | Ctl_Reset "string option \<times> string option" string
  | Ctl_Rebuild string
  | Ctl_Restart

definition restart :: "external \<Rightarrow> platform_env \<Rightarrow> control_state \<Rightarrow> boot_error option \<times> control_state" where
  "restart X e s = bootstrap_platforms X e (None, None, None) (s\<lparr>cs_pool := new_global_node_pool\<rparr>)"

fun control_step ::
  "external \<Rightarrow> pool_config \<Rightarrow> sub_store \<Rightarrow> platform_env \<Rightarrow> control_op \<Rightarrow> control_state \<Rightarrow> control_state" where
  "control_step X cfg subs e (Ctl_Create failed pid req) s = snd (create_platform X cfg subs e failed pid req s)"
| "control_step X cfg subs e (Ctl_Update too_big failed pid body) s = snd (update_platform X cfg subs too_big failed pid body s)"
| "control_step X cfg subs e (Ctl_Delete failed pid) s = snd (delete_platform failed pid s)"
| "control_step X cfg subs e (Ctl_Reset failed pid) s = snd (reset_platform X cfg subs e failed pid s)"
| "control_step X cfg subs e (Ctl_Rebuild pid) s = snd (rebuild_platform_view cfg subs pid s)"
| "control_step X cfg subs e Ctl_Restart s = snd (restart X e s)"

text \<open>\<open>uuid.New\<close> draws identifiers that no row has.\<close>

fun fresh_op :: "control_op \<Rightarrow> control_state \<Rightarrow> bool" where
  "fresh_op (Ctl_Create failed pid req) s \<longleftrightarrow> pid \<noteq> [] \<and> m_load (sd_platforms (cs_db s)) pid = None"
| "fresh_op _ s \<longleftrightarrow> True"

fun fresh_run ::
  "external \<Rightarrow> pool_config \<Rightarrow> sub_store \<Rightarrow> platform_env \<Rightarrow> control_op list \<Rightarrow> control_state \<Rightarrow> bool" where
  "fresh_run X cfg subs e [] s \<longleftrightarrow> True"
| "fresh_run X cfg subs e (op # ops) s \<longleftrightarrow> fresh_op op s \<and> fresh_run X cfg subs e ops (control_step X cfg subs e op s)"

text \<open>The first start, on an empty database.\<close>

definition first_start :: "external \<Rightarrow> platform_env \<Rightarrow> env \<Rightarrow> control_state" where
  "first_start X e ev = snd (restart X e \<lparr>cs_db = new_state_db, cs_pool = new_global_node_pool, cs_env = ev\<rparr>)"

lemma restart_ok:
  assumes "header_names_are_tokens X" "check_platform_env X raw = ([], e)" "bootable X (cs_db s)"
  shows "fst (restart X e s) = None" "control_ok X cfg subs (snd (restart X e s))" "default_ok (cs_db (snd (restart X e s)))"
    "i \<noteq> default_platform_id \<Longrightarrow> m_load (sd_platforms (cs_db (snd (restart X e s)))) i = m_load (sd_platforms (cs_db s)) i"
proof -
  have run: "bootstrap_platforms X e (None, None, None) (s\<lparr>cs_pool := new_global_node_pool\<rparr>) = (fst (restart X e s), snd (restart X e s))"
    by (simp add: restart_def)
  have boot: "bootable X (cs_db (s\<lparr>cs_pool := new_global_node_pool\<rparr>))" "cs_pool (s\<lparr>cs_pool := new_global_node_pool\<rparr>) = new_global_node_pool"
    using assms(3) by simp_all
  note b = bootstrap_ok [OF assms(1,2) boot run]
  show "fst (restart X e s) = None" by (rule b(1))
  show "control_ok X cfg subs (snd (restart X e s))" by (rule b(2))
  show "default_ok (cs_db (snd (restart X e s)))" by (rule b(3))
  show "i \<noteq> default_platform_id \<Longrightarrow> m_load (sd_platforms (cs_db (snd (restart X e s)))) i = m_load (sd_platforms (cs_db s)) i"
    using b(4) [of i] by simp
qed

lemma control_step_ok:
  assumes "header_names_are_tokens X" "check_platform_env X raw = ([], e)"
    and "control_ok X cfg subs s" "default_ok (cs_db s)" "fresh_op op s"
  shows "control_ok X cfg subs (control_step X cfg subs e op s) \<and> default_ok (cs_db (control_step X cfg subs e op s))"
proof (cases op)
  case (Ctl_Create failed pid req)
  with assms(4,5) have "m_load (sd_platforms (cs_db s)) pid = None" "pid \<noteq> []" "pid \<noteq> default_platform_id"
    by (auto simp: default_ok_def)
  from wrote_row_default [OF control_create_ok [OF assms(1,3,2) this(1,2)] assms(4)] this(3) Ctl_Create
  show ?thesis by simp
next
  case (Ctl_Update too_big failed pid body)
  from wrote_row_default [OF update_platform_ok [OF assms(1,3)] assms(4)] update_keeps_default [OF assms(1,3,4)]
  show ?thesis unfolding Ctl_Update control_step.simps by (metis prod.collapse)
next
  case (Ctl_Delete failed pid)
  obtain err s' where run: "delete_platform failed pid s = (err, s')" by (rule prod.exhaust)
  from delete_platform_ok [OF assms(3) run] show ?thesis
    using assms(3,4) state_db_okD(1) [OF control_okD(1) [OF assms(3)]]
    by (cases err) (auto simp: Ctl_Delete run default_ok_def store_simps)
next
  case (Ctl_Reset failed pid)
  from wrote_row_default [OF reset_platform_ok [OF assms(1,3,2)] assms(4)] reset_keeps_name assms(4)
  show ?thesis unfolding Ctl_Reset control_step.simps default_ok_def by (metis option.inject prod.collapse)
next
  case (Ctl_Rebuild pid)
  with rebuild_platform_view_ok [OF assms(3)] assms(4) show ?thesis by simp
next
  case Ctl_Restart
  have "bootable X (cs_db s)" using control_okD(1,3) [OF assms(3)] assms(4) by (simp add: bootable_def)
  from restart_ok [OF assms(1,2) this] Ctl_Restart show ?thesis by simp
qed

lemma control_run_ok:
  assumes "header_names_are_tokens X" "check_platform_env X raw = ([], e)" "fresh_run X cfg subs e ops (first_start X e ev)"
  defines "s \<equiv> fold (control_step X cfg subs e) ops (first_start X e ev)"
  shows "control_ok X cfg subs s \<and> default_ok (cs_db s)"
proof -
  have "control_ok X cfg subs (fold (control_step X cfg subs e) ops t) \<and> default_ok (cs_db (fold (control_step X cfg subs e) ops t))"
    if "control_ok X cfg subs t" "default_ok (cs_db t)" "fresh_run X cfg subs e ops t" for t
    using that
  proof (induction ops arbitrary: t)
    case (Cons op ops)
    from control_step_ok [OF assms(1,2) Cons.prems(1,2)] Cons show ?case by simp
  qed simp
  moreover have "bootable X new_state_db"
    using new_state_db_ok by (simp add: bootable_def) (simp add: new_state_db_def)
  then have "control_ok X cfg subs (first_start X e ev)" "default_ok (cs_db (first_start X e ev))"
    unfolding first_start_def by (simp_all add: restart_ok [OF assms(1,2)])
  ultimately show ?thesis unfolding s_def using assms(3) by blast
qed

section \<open>What a patch sets\<close>

definition patched_text :: "merge_patch \<Rightarrow> string \<Rightarrow> string \<Rightarrow> string" where
  "patched_text p field old = (case m_load p field of Some (J_Str t) \<Rightarrow> t | _ \<Rightarrow> old)"

definition patched_duration :: "merge_patch \<Rightarrow> string \<Rightarrow> int \<Rightarrow> int" where
  "patched_duration p field old = (case m_load p field of Some (J_Str t) \<Rightarrow> the (parse_duration t) | _ \<Rightarrow> old)"

definition patched_list :: "merge_patch \<Rightarrow> string \<Rightarrow> string list \<Rightarrow> string list" where
  "patched_list p field old = (case m_load p field of Some (J_Arr vs) \<Rightarrow> the (string_items vs) | _ \<Rightarrow> old)"

definition patched_flag :: "merge_patch \<Rightarrow> string \<Rightarrow> bool \<Rightarrow> bool" where
  "patched_flag p field old = (case m_load p field of Some (J_Bool b) \<Rightarrow> b | _ \<Rightarrow> old)"

definition patched_int :: "int \<Rightarrow> merge_patch \<Rightarrow> string \<Rightarrow> int \<Rightarrow> int" where
  "patched_int too_big p field old = (case m_load p field of Some (J_Num x) \<Rightarrow> float_to_int too_big x | _ \<Rightarrow> old)"

lemmas patch_accessors = optional_string_def optional_non_empty_string_def optional_duration_string_def
  optional_string_slice_def optional_bool_def optional_int_def
  patched_text_def patched_duration_def patched_list_def patched_flag_def patched_int_def patched_name_def

lemmas accessor_splits = option.splits json_value.splits if_splits

lemma patch_steps:
  "and_then (optional_non_empty_string ''name'' p) (\<lambda>v. overlay v (patch_name X pid) c) = Inr c'
     \<Longrightarrow> c' = c\<lparr>cf_name := patched_name p (cf_name c)\<rparr>"
  "and_then (optional_duration_string f p) (\<lambda>v. overlay v set_sticky_ttl c) = Inr c'
     \<Longrightarrow> c' = c\<lparr>cf_sticky_ttl_ns := patched_duration p f (cf_sticky_ttl_ns c)\<rparr>"
  "and_then (optional_duration_string f p) (\<lambda>v. overlay v set_account_window c) = Inr c'
     \<Longrightarrow> c' = c\<lparr>cf_window_ns := patched_duration p f (cf_window_ns c)\<rparr>"
  "and_then (optional_string_slice f p) (\<lambda>v. overlay v (\<lambda>v c. Inr (c\<lparr>cf_regex_filters := v\<rparr>)) c) = Inr c'
     \<Longrightarrow> c' = c\<lparr>cf_regex_filters := patched_list p f (cf_regex_filters c)\<rparr>"
  "and_then (optional_string_slice f p) (\<lambda>v. overlay v (\<lambda>v c. Inr (c\<lparr>cf_region_filters := v\<rparr>)) c) = Inr c'
     \<Longrightarrow> c' = c\<lparr>cf_region_filters := patched_list p f (cf_region_filters c)\<rparr>"
  "and_then (optional_string f p) (\<lambda>v. overlay v set_miss_action c) = Inr c' \<Longrightarrow> normalize_miss_action (cf_miss_action c) = cf_miss_action c
     \<Longrightarrow> c' = c\<lparr>cf_miss_action := normalize_miss_action (patched_text p f (cf_miss_action c))\<rparr>"
  "and_then (optional_string f p) (\<lambda>v. overlay v set_empty_behavior c) = Inr c'
     \<Longrightarrow> c' = c\<lparr>cf_empty_behavior := patched_text p f (cf_empty_behavior c)\<rparr>"
  "and_then (optional_string f p) (\<lambda>v. overlay v (\<lambda>v c. Inr (c\<lparr>cf_fixed_header := v\<rparr>)) c) = Inr c'
     \<Longrightarrow> c' = c\<lparr>cf_fixed_header := patched_text p f (cf_fixed_header c)\<rparr>"
  "and_then (optional_string f p) (\<lambda>v. overlay v set_allocation_policy c) = Inr c'
     \<Longrightarrow> c' = c\<lparr>cf_allocation_policy := patched_text p f (cf_allocation_policy c)\<rparr>"
  "and_then (optional_bool f p) (\<lambda>v. overlay v (\<lambda>v c. Inr (c\<lparr>cf_passive_disabled := v\<rparr>)) c) = Inr c'
     \<Longrightarrow> c' = c\<lparr>cf_passive_disabled := patched_flag p f (cf_passive_disabled c)\<rparr>"
  "and_then (optional_int too_big f p) (\<lambda>v. overlay v set_max_accounts c) = Inr c'
     \<Longrightarrow> c' = c\<lparr>cf_max_accounts := patched_int too_big p f (cf_max_accounts c)\<rparr>"
  subgoal by (auto simp: patch_accessors patch_name_def normalize_platform_name_def trim_space_idem Let_def
      split: accessor_splits sum.splits)
  subgoal by (auto simp: patch_accessors set_sticky_ttl_def split: accessor_splits)
  subgoal by (auto simp: patch_accessors set_account_window_def split: accessor_splits)
  subgoal by (auto simp: patch_accessors split: accessor_splits)
  subgoal by (auto simp: patch_accessors split: accessor_splits)
  subgoal by (auto simp: patch_accessors set_miss_action_def split: accessor_splits)
  subgoal by (auto simp: patch_accessors set_empty_behavior_def split: accessor_splits)
  subgoal by (auto simp: patch_accessors split: accessor_splits)
  subgoal by (auto simp: patch_accessors set_allocation_policy_def split: accessor_splits)
  subgoal by (auto simp: patch_accessors split: accessor_splits)
  subgoal by (auto simp: patch_accessors set_max_accounts_def split: accessor_splits)
  done

lemma validated_header:
  "validate_platform_config X b c = Inr c' \<Longrightarrow> c' = c\<lparr>cf_fixed_header := normalize_header_field_name X (cf_fixed_header c)\<rparr>"
  by (auto simp: validate_platform_config_def validate_empty_account_config_def normalize_header_field_name_def
      split: sum.splits if_splits prod.splits)

lemma step_chain: "and_then x f = Inr c' \<Longrightarrow> (\<And>c1. x = Inr c1 \<Longrightarrow> c1 = g) \<Longrightarrow> f g = Inr c'"
  by (cases x) auto

lemma patch_platform_result:
  assumes "patch_platform X too_big pid p c = Inr c'" "normalize_miss_action (cf_miss_action c) = cf_miss_action c"
  shows "c' = c\<lparr>cf_name := patched_name p (cf_name c),
     cf_sticky_ttl_ns := patched_duration p ''sticky_ttl'' (cf_sticky_ttl_ns c),
     cf_regex_filters := patched_list p ''regex_filters'' (cf_regex_filters c),
     cf_region_filters := patched_list p ''region_filters'' (cf_region_filters c),
     cf_miss_action := normalize_miss_action (patched_text p ''reverse_proxy_miss_action'' (cf_miss_action c)),
     cf_empty_behavior := patched_text p ''reverse_proxy_empty_account_behavior'' (cf_empty_behavior c),
     cf_fixed_header := normalize_header_field_name X (patched_text p ''reverse_proxy_fixed_account_header'' (cf_fixed_header c)),
     cf_allocation_policy := patched_text p ''allocation_policy'' (cf_allocation_policy c),
     cf_passive_disabled := patched_flag p ''passive_circuit_breaker_disabled'' (cf_passive_disabled c),
     cf_max_accounts := patched_int too_big p ''max_accounts_per_ip'' (cf_max_accounts c),
     cf_window_ns := patched_duration p ''ip_account_window'' (cf_window_ns c)\<rparr>"
proof -
  note r = step_chain [OF step_chain [OF step_chain [OF step_chain [OF assms(1) [unfolded patch_platform_def]
      patch_steps(1)] patch_steps(2)] patch_steps(4)] patch_steps(5)]
  have miss: "normalize_miss_action (cf_miss_action (c\<lparr>cf_name := n, cf_sticky_ttl_ns := t, cf_regex_filters := rs, cf_region_filters := gs\<rparr>))
      = cf_miss_action (c\<lparr>cf_name := n, cf_sticky_ttl_ns := t, cf_regex_filters := rs, cf_region_filters := gs\<rparr>)" for n t rs gs
    using assms(2) by simp
  note r1 = step_chain [OF step_chain [OF step_chain [OF step_chain [OF r patch_steps(6) [OF _ miss]]
      patch_steps(7)] patch_steps(8)] patch_steps(9)]
  note r2 = step_chain [OF step_chain [OF step_chain [OF r1 patch_steps(10)] patch_steps(11)] patch_steps(3)]
  from validated_header [OF r2] show ?thesis by simp
qed

lemma row_config_same:
  assumes "platform_row_ok X mp"
  shows "config_from_model X mp =
     \<lparr>cf_name = m_name mp, cf_sticky_ttl_ns = m_sticky_ttl_ns mp, cf_regex_filters = m_regex_filters mp,
      cf_region_filters = m_region_filters mp, cf_miss_action = m_miss_action mp,
      cf_empty_behavior = m_empty_account_behavior mp, cf_fixed_header = m_fixed_account_header mp,
      cf_allocation_policy = m_allocation_policy mp, cf_passive_disabled = m_passive_disabled mp,
      cf_max_accounts = m_max_accounts_per_ip mp, cf_window_ns = m_ip_account_window_ns mp\<rparr>"
    "normalize_miss_action (m_miss_action mp) = m_miss_action mp"
  using assms by (auto simp: platform_row_ok_def config_from_model_def normalize_header_field_name_def normalize_empty_behavior_def)

section \<open>Properties\<close>

text \<open>
  C20. What is registered is what the database says: after the first start on an empty database and any
  sequence of requests and restarts, with a database that may refuse any statement, every row builds
  and its platform is registered with exactly the built settings, nothing else is registered, and every
  registered view holds exactly the nodes its filter accepts.
\<close>

theorem platforms_follow_rows:
  assumes "header_names_are_tokens X" "check_platform_env X raw = ([], e)"
    and "fresh_run X cfg subs e ops (first_start X e ev)"
    and "s = fold (control_step X cfg subs e) ops (first_start X e ev)"
  shows "pool_ok cfg subs (cs_pool s) \<and> (\<forall>pid. case m_load (sd_platforms (cs_db s)) pid of
      None \<Rightarrow> registered_settings (cs_pool s) pid = None
    | Some mp \<Rightarrow> \<exists>q. build_from_model X mp = Inr q \<and> registered_settings (cs_pool s) pid = Some q)"
proof -
  have ok: "control_ok X cfg subs s" unfolding assms(4) using control_run_ok [OF assms(1-3)] by blast
  note d = control_okD(1,2,4) [OF ok]
  have "case m_load (sd_platforms (cs_db s)) pid of
      None \<Rightarrow> registered_settings (cs_pool s) pid = None
    | Some mp \<Rightarrow> \<exists>q. build_from_model X mp = Inr q \<and> registered_settings (cs_pool s) pid = Some q" for pid
    using platform_row_builds state_db_okD(5) [OF d(1), of pid] unfolding d(3) row_settings_def
    by (fastforce split: option.split)
  with d(2) show ?thesis by blast
qed

text \<open>
  C24. The built-in platform survives everything the interface offers: in every reachable state its row
  is there under the name Default, no other row has that name, and it is registered.
\<close>

theorem default_platform_stays:
  assumes "header_names_are_tokens X" "check_platform_env X raw = ([], e)"
    and "fresh_run X cfg subs e ops (first_start X e ev)"
    and "s = fold (control_step X cfg subs e) ops (first_start X e ev)"
  shows "(\<forall>pid mp. m_load (sd_platforms (cs_db s)) pid = Some mp \<longrightarrow> (m_name mp = ''Default'' \<longleftrightarrow> pid = default_platform_id))
    \<and> (\<exists>p. get_platform (cs_pool s) default_platform_id = Some p \<and> plat_name p = ''Default'')"
proof -
  have ok: "control_ok X cfg subs s" "default_ok (cs_db s)"
    unfolding assms(4) using control_run_ok [OF assms(1-3)] by blast+
  note d = control_okD [OF ok(1)]
  obtain mp where mp: "m_load (sd_platforms (cs_db s)) default_platform_id = Some mp" "m_name mp = ''Default''"
    using ok(2) by (auto simp: default_ok_def default_platform_name_def)
  have "m_name q = ''Default'' \<longleftrightarrow> pid = default_platform_id" if "m_load (sd_platforms (cs_db s)) pid = Some q" for pid q
    using state_db_okD(6) [OF d(1) that mp(1)] mp that by auto
  moreover have "\<exists>p. get_platform (cs_pool s) default_platform_id = Some p \<and> plat_name p = ''Default''"
    using d(5) [OF mp(1)] mp(2) by (auto simp: get_platform_def)
  ultimately show ?thesis by blast
qed

text \<open>
  A request that wrote one row: on failure neither rows nor registered settings changed, on success
  both changed at its identifier only.
\<close>

definition all_or_nothing ::
  "external \<Rightarrow> string \<Rightarrow> (service_error + model_platform) \<times> control_state \<Rightarrow> control_state \<Rightarrow> bool" where
  "all_or_nothing X pid out s \<longleftrightarrow>
     (case fst out of
        Inl _ \<Rightarrow> cs_db (snd out) = cs_db s \<and> registered_settings (cs_pool (snd out)) = registered_settings (cs_pool s)
      | Inr mp \<Rightarrow> m_load (sd_platforms (cs_db (snd out))) = (m_load (sd_platforms (cs_db s)))(pid \<mapsto> mp)
          \<and> (\<exists>q. build_from_model X mp = Inr q
               \<and> registered_settings (cs_pool (snd out)) = (registered_settings (cs_pool s))(pid \<mapsto> q)))"

lemma wrote_row_all_or_nothing:
  assumes "wrote_row X cfg subs pid out s" "control_ok X cfg subs s"
  shows "all_or_nothing X pid out s"
proof (cases "fst out")
  case (Inl err)
  with assms(1) show ?thesis by (simp add: wrote_row_def all_or_nothing_def)
next
  case (Inr mp)
  with assms(1) have w: "control_ok X cfg subs (snd out)"
    "cs_db (snd out) = (cs_db s)\<lparr>sd_platforms := m_store pid mp (sd_platforms (cs_db s))\<rparr>" by (simp_all add: wrote_row_def)
  then have load: "m_load (sd_platforms (cs_db (snd out))) = (m_load (sd_platforms (cs_db s)))(pid \<mapsto> mp)"
    by (auto simp: store_simps)
  then obtain q where q: "build_from_model X mp = Inr q"
    using state_db_okD(5) [OF control_okD(1) [OF w(1)], of pid mp] platform_row_builds by auto
  have "registered_settings (cs_pool (snd out)) = (registered_settings (cs_pool s))(pid \<mapsto> q)"
    using control_okD(4) [OF w(1)] control_okD(4) [OF assms(2)] row_settings_store [OF q] w(2) by simp
  with Inr load q show ?thesis by (simp add: all_or_nothing_def)
qed

text \<open>
  C21. Platform requests are atomic: in every reachable state a creation, an update or a reset that
  reports an error, whatever the reason, has changed neither the rows nor a registered platform, and
  one that succeeds has changed both at its own identifier only; a deletion removes both or nothing.
\<close>

theorem platform_requests_atomic:
  assumes "header_names_are_tokens X" "check_platform_env X raw = ([], e)"
    and "fresh_run X cfg subs e ops (first_start X e ev)"
    and "s = fold (control_step X cfg subs e) ops (first_start X e ev)"
  shows "(pid \<noteq> [] \<and> m_load (sd_platforms (cs_db s)) pid = None \<longrightarrow>
      all_or_nothing X pid (create_platform X cfg subs e failed pid req s) s)
    \<and> all_or_nothing X pid (update_platform X cfg subs too_big failed2 pid body s) s
    \<and> all_or_nothing X pid (reset_platform X cfg subs e failed2 pid s) s
    \<and> (case delete_platform failed pid s of
         (Some _, s') \<Rightarrow> s' = s
       | (None, s') \<Rightarrow> m_load (sd_platforms (cs_db s')) = (m_load (sd_platforms (cs_db s)))(pid := None)
           \<and> registered_settings (cs_pool s') = (registered_settings (cs_pool s))(pid := None))"
proof -
  have ok: "control_ok X cfg subs s" unfolding assms(4) using control_run_ok [OF assms(1-3)] by blast
  note w = wrote_row_all_or_nothing [OF _ ok]
  obtain err s' where run: "delete_platform failed pid s = (err, s')" by (rule prod.exhaust)
  have rows: "m_ok (sd_platforms (cs_db s))" using state_db_okD(1) [OF control_okD(1) [OF ok]] .
  note del = delete_platform_ok [OF ok run]
  have "case err of Some _ \<Rightarrow> s' = s
      | None \<Rightarrow> m_load (sd_platforms (cs_db s')) = (m_load (sd_platforms (cs_db s)))(pid := None)
          \<and> registered_settings (cs_pool s') = (registered_settings (cs_pool s))(pid := None)"
  proof (cases err)
    case None
    with del have s': "control_ok X cfg subs s'" "cs_db s' = (cs_db s)\<lparr>sd_platforms := m_delete pid (sd_platforms (cs_db s))\<rparr>" by simp_all
    have "registered_settings (cs_pool s') = (registered_settings (cs_pool s))(pid := None)"
      using control_okD(4) [OF s'(1)] control_okD(4) [OF ok] row_settings_delete [OF rows] s'(2) by simp
    with None s'(2) rows show ?thesis by (auto simp: store_simps)
  qed (use del in simp)
  then show ?thesis
    using w [OF control_create_ok [OF assms(1) ok assms(2)]] w [OF update_platform_ok [OF assms(1) ok]]
      w [OF reset_platform_ok [OF assms(1) ok assms(2)]]
    unfolding run by (simp split: option.splits)
qed

text \<open>
  C22. An update sets exactly what its patch names: in every reachable state a successful update leaves
  a row in which each named field has the (normalized) value of the patch, every other field its old
  value, and the time of the change is new.
\<close>

theorem update_sets_patched_fields:
  assumes "header_names_are_tokens X" "check_platform_env X raw = ([], e)"
    and "fresh_run X cfg subs e ops (first_start X e ev)"
    and "s = fold (control_step X cfg subs e) ops (first_start X e ev)"
    and "m_load (sd_platforms (cs_db s)) pid = Some mp"
    and "fst (update_platform X cfg subs too_big failed pid (Some p) s) = Inr mp'"
  shows "\<exists>now. mp' = mp\<lparr>m_name := patched_name p (m_name mp),
     m_sticky_ttl_ns := patched_duration p ''sticky_ttl'' (m_sticky_ttl_ns mp),
     m_regex_filters := patched_list p ''regex_filters'' (m_regex_filters mp),
     m_region_filters := patched_list p ''region_filters'' (m_region_filters mp),
     m_miss_action := normalize_miss_action (patched_text p ''reverse_proxy_miss_action'' (m_miss_action mp)),
     m_empty_account_behavior := patched_text p ''reverse_proxy_empty_account_behavior'' (m_empty_account_behavior mp),
     m_fixed_account_header :=
       normalize_header_field_name X (patched_text p ''reverse_proxy_fixed_account_header'' (m_fixed_account_header mp)),
     m_allocation_policy := patched_text p ''allocation_policy'' (m_allocation_policy mp),
     m_passive_disabled := patched_flag p ''passive_circuit_breaker_disabled'' (m_passive_disabled mp),
     m_max_accounts_per_ip := patched_int too_big p ''max_accounts_per_ip'' (m_max_accounts_per_ip mp),
     m_ip_account_window_ns := patched_duration p ''ip_account_window'' (m_ip_account_window_ns mp),
     m_updated_at_ns := now\<rparr>"
proof -
  have ok: "control_ok X cfg subs s" unfolding assms(4) using control_run_ok [OF assms(1-3)] by blast
  have row: "m_id mp = pid" "platform_row_ok X mp" using state_db_okD(5) [OF control_okD(1) [OF ok] assms(5)] by simp_all
  obtain c where c: "update_config X too_big (fst failed) pid (Some p) s = Inr c"
    "fst (write_platform X cfg subs (snd failed) pid c s) = Inr mp'"
    using assms(6) by (auto simp: update_platform_def split: sum.splits)
  have "get_platform_model (fst failed) pid (cs_db s) \<in> {Inr mp} \<union> range Inl"
    using assms(5) by (auto simp: get_platform_model_def repo_get_platform_def split: option.splits)
  then have "patch_platform X too_big pid p (config_from_model X mp) = Inr c"
    using c(1) row(1) by (auto simp: update_config_def and_then_Inr parse_merge_patch_def split: option.splits if_splits)
  note c' = patch_platform_result [OF this [unfolded row_config_same(1) [OF row(2)]]]
  obtain now where "mp' = config_to_model c pid now" using write_platform_row [OF c(2)] by blast
  with c' row(1) row_config_same(2) [OF row(2)] show ?thesis
    by (intro exI [of _ now]) (simp add: config_to_model_def model_platform.equality)
qed

text \<open>
  C23. Nothing orders a change and a deletion of the same platform: when the deletion runs between the
  reading and the writing of an update that alone would succeed, the update brings the deleted row
  back and then reports an internal error, because it finds no platform to replace; requests are
  not routed to the platform until the next restart, which registers it again.
\<close>

theorem deleted_platform_returns:
  assumes "header_names_are_tokens X" "check_platform_env X raw = ([], e)" "control_ok X cfg subs s" "default_ok (cs_db s)"
    and "update_config X too_big None pid body s = Inr c" "fst (write_platform X cfg subs None pid c s) = Inr mp"
    and "delete_platform None pid s = (None, s1)" "write_platform X cfg subs None pid c s1 = (res, s2)"
  shows "res = Inl (Internal_Fault ''replace platform in pool'')
    \<and> (\<exists>row. m_load (sd_platforms (cs_db s2)) pid = Some row)
    \<and> get_platform (cs_pool s2) pid = None
    \<and> (\<exists>q. registered_settings (cs_pool (snd (restart X e s2))) pid = Some q)"
proof -
  note d = control_okD [OF assms(3)] and c = conjunct1 [OF update_config_ok [OF assms(1,3,5)]]
  note del = delete_platform_ok [OF assms(3,7)]
  have s1: "control_ok X cfg subs s1" "pid \<noteq> default_platform_id"
    "cs_db s1 = (cs_db s)\<lparr>sd_platforms := m_delete pid (sd_platforms (cs_db s))\<rparr>" "cs_env s1 = cs_env s"
    using del assms(7) by (auto simp: delete_platform_def split: prod.splits option.splits repo_error.splits if_splits)
  note d1 = control_okD [OF s1(1)]
  obtain now ev where tn: "time_now (cs_env s) = (now, ev)" by (rule prod.exhaust)
  define row where "row = config_to_model c pid now"
  obtain plat where plat: "validate_platform_name X (cf_name c) = Inr ()" "to_runtime X c pid = Inr plat"
    and up: "fst (upsert_platform X None row (cs_db s)) = None"
    using assms(6) tn by (auto simp: write_platform_def compile_and_upsert_def Let_def row_def
        split: sum.splits prod.splits option.splits)
  from upsert_platform_cases [of X None row "cs_db s"] up obtain p where p: "canonical_platform X row = Inr p"
    "\<not> name_taken (m_id p) (m_name p) (sd_platforms (cs_db s))" by (metis prod.collapse)
  have p_row: "p = row" unfolding row_def by (rule config_row_kept [OF assms(1) c]) (use p(1) row_def in simp)
  have ids: "m_id row = pid" "m_name row = cf_name c" by (simp_all add: row_def config_to_model_def)
  have "\<not> name_taken pid (cf_name c) (sd_platforms (cs_db s1))"
    using p(2) state_db_okD(1) [OF d(1)] unfolding s1(3) p_row ids
    by (auto simp: name_taken_iff store_simps)
  then have up1: "upsert_platform X None row (cs_db s1)
      = (None, (cs_db s1)\<lparr>sd_platforms := m_store pid row (sd_platforms (cs_db s1))\<rparr>)"
    by (simp add: upsert_platform_def p(1) p_row ids)
  define db2 where "db2 = (cs_db s1)\<lparr>sd_platforms := m_store pid row (sd_platforms (cs_db s1))\<rparr>"
  have comp: "compile_and_upsert X None pid c s1 = (Inr (row, plat), s1\<lparr>cs_env := ev, cs_db := db2\<rparr>)"
    using plat tn up1 s1(4) by (simp add: compile_and_upsert_def row_def [symmetric] db2_def)
  have gone: "m_load (by_id (cs_pool s1)) pid = None"
    using d1(6) [of pid] s1(3) state_db_okD(1) [OF d(1)] by (simp add: store_simps)
  obtain p1 r where alloc: "alloc_platform plat (cs_pool s1) = (p1, r)" by (rule prod.exhaust)
  note a = alloc_platform_simps [OF alloc]
  have pid: "pid \<noteq> []"
    using d(3) conjunct2 [OF update_config_ok [OF assms(1,3,5)]] by auto
  obtain q err where rep: "replace_platform cfg subs r p1 = (q, err)" by (rule prod.exhaust)
  have err: "err \<noteq> None" "by_id q = by_id (cs_pool s1)"
    using rep gone to_runtime_names(1) [OF plat(2)] pid by (auto simp: replace_platform_def Let_def a(3,5) split: if_splits)
  have out: "res = Inl (Internal_Fault ''replace platform in pool'')" "s2 = s1\<lparr>cs_env := ev, cs_db := db2, cs_pool := q\<rparr>"
    using assms(8) comp alloc rep err(1) by (auto simp: write_platform_def)
  have db2: "state_db_ok X db2" unfolding db2_def by (rule upsert_platform_ok [OF assms(1) d1(1) up1])
  have "default_ok db2" using assms(4) s1(2,3) state_db_okD(1) [OF d(1)] by (auto simp: default_ok_def db2_def store_simps)
  then have boot: "bootable X (cs_db s2)" using db2 d1(3) pid by (simp add: bootable_def out(2) db2_def store_simps)
  note re = restart_ok [OF assms(1,2) boot]
  have "m_load (sd_platforms (cs_db (snd (restart X e s2)))) pid = Some row"
    using re(4) [OF s1(2)] by (simp add: out(2) db2_def store_simps)
  from control_okD(5) [OF re(2) this] have "\<exists>q. registered_settings (cs_pool (snd (restart X e s2))) pid = Some q"
    by (auto simp: registered_settings_load)
  then show ?thesis using out gone err(2) by (auto simp: db2_def store_simps get_platform_def)
qed

text \<open>An environment, and one platform made from it.\<close>

definition sample_env :: platform_env where
  "sample_env = \<lparr>pe_sticky_ttl = 1, pe_regex_filters = [], pe_region_filters = [], pe_miss_action = ''REJECT'',
     pe_empty_behavior = ''RANDOM'', pe_fixed_header = [], pe_allocation_policy = ''BALANCED''\<rparr>"

definition sample_request :: create_platform_request where
  "sample_request = \<lparr>cr_name = Some ''n'', cr_sticky_ttl = None, cr_regex_filters = None, cr_region_filters = None,
     cr_miss_action = None, cr_empty_behavior = None, cr_fixed_header = None, cr_allocation_policy = None,
     cr_passive_disabled = None, cr_max_accounts = None, cr_account_window = None\<rparr>"

definition sample_create :: "control_op list" where
  "sample_create = [Ctl_Create None ''p'' sample_request]"

definition sample_start :: control_state where
  "sample_start = first_start token_external sample_env \<lparr>draws = [], clock = [7]\<rparr>"

definition sample_control :: control_state where
  "sample_control = fold (control_step token_external sample_config sample_store sample_env) sample_create sample_start"

lemma sample_env_checked: "check_platform_env token_external sample_env = ([], sample_env)"
  by (simp add: check_platform_env_def sample_env_def compile_regex_filters_def validate_region_filters_def
      normalize_miss_action_def trim_reject miss_action_is_valid_def miss_reject_def behavior_is_valid_def behavior_random_def
      normalize_fixed_account_headers_def behavior_fixed_header_def policy_is_valid_def policy_balanced_def)

lemma sample_start_ok:
  "control_ok token_external sample_config sample_store sample_start" "default_ok (cs_db sample_start)"
  "m_load (sd_platforms (cs_db sample_start)) ''p'' = None"
proof -
  have boot: "bootable token_external (cs_db \<lparr>cs_db = new_state_db, cs_pool = new_global_node_pool, cs_env = ev\<rparr>)" for ev
    using new_state_db_ok by (simp add: bootable_def) (simp add: new_state_db_def)
  note r = restart_ok [OF token_external_tokens sample_env_checked boot]
  show "control_ok token_external sample_config sample_store sample_start" "default_ok (cs_db sample_start)"
    unfolding sample_start_def first_start_def by (rule r)+
  have "''p'' \<noteq> default_platform_id" by (simp add: default_platform_id_def)
  from r(4) [OF this] show "m_load (sd_platforms (cs_db sample_start)) ''p'' = None"
    unfolding sample_start_def first_start_def by (simp add: new_state_db_def)
qed

lemma sample_fresh:
  "fresh_run token_external sample_config sample_store sample_env sample_create
     (first_start token_external sample_env \<lparr>draws = [], clock = [7]\<rparr>)"
  using sample_start_ok(3) by (simp add: sample_create_def sample_start_def [symmetric])

text \<open>The environment writes its own values, so the row is known but for the time.\<close>

definition sample_config_n :: platform_config where
  "sample_config_n = default_platform_config token_external sample_env ''n''"

lemma sample_config_n_eq: "sample_config_n = \<lparr>cf_name = ''n'', cf_sticky_ttl_ns = 1, cf_regex_filters = [], cf_region_filters = [],
    cf_miss_action = ''REJECT'', cf_empty_behavior = ''RANDOM'', cf_fixed_header = [], cf_allocation_policy = ''BALANCED'',
    cf_passive_disabled = False, cf_max_accounts = 0, cf_window_ns = 0\<rparr>"
  by (simp add: sample_config_n_def default_platform_config_def sample_env_def normalize_empty_behavior_def
      behavior_is_valid_def behavior_random_def normalize_header_field_name_def normalize_fixed_account_headers_def)

lemma sample_validate: "validate_platform_config token_external True sample_config_n = Inr sample_config_n"
  by (simp add: sample_config_n_eq validate_platform_config_def validate_region_filters_def validate_empty_account_config_def
      behavior_is_valid_def behavior_random_def normalize_fixed_account_headers_def behavior_fixed_header_def)

lemma sample_create_config: "create_config token_external sample_env sample_request = Inr sample_config_n"
  by (simp add: create_config_def sample_request_def normalize_platform_name_def sample_row_trim sample_name_valid
      default_platform_name_def overlay_request_def sample_config_n_def [symmetric] sample_validate)

text \<open>What a request needs to get through.\<close>

lemma compile_and_upsert_succeeds:
  assumes "header_names_are_tokens X" "config_ok X c" "validate_platform_name X (cf_name c) = Inr ()"
    and "to_runtime X c pid = Inr plat" "validate_region_filters (cf_region_filters c) = Inr ()"
    and "\<not> name_taken pid (cf_name c) (sd_platforms (cs_db s))"
  shows "\<exists>now ev. compile_and_upsert X None pid c s = (Inr (config_to_model c pid now, plat),
    s\<lparr>cs_env := ev, cs_db := (cs_db s)\<lparr>sd_platforms := m_store pid (config_to_model c pid now) (sd_platforms (cs_db s))\<rparr>\<rparr>)"
proof -
  obtain now ev where tn: "time_now (cs_env s) = (now, ev)" by (rule prod.exhaust)
  obtain hs where n: "normalize_fixed_account_headers X (cf_fixed_header c) = Inr (cf_fixed_header c, hs)"
    and c: "trim_space (cf_name c) = cf_name c" "normalize_miss_action (cf_miss_action c) = cf_miss_action c"
      "trim_space (cf_empty_behavior c) = cf_empty_behavior c" "cf_empty_behavior c \<noteq> []"
    using assms(2) valid_behavior_trim [of "cf_empty_behavior c"] by (auto simp: config_ok_def config_pre_ok_def)
  obtain f where f: "compile_regex_filters X (cf_regex_filters c) = Inr f" using assms(4) by (auto simp: to_runtime_def split: sum.splits)
  have "canonical_platform X (config_to_model c pid now) = Inr (config_to_model c pid now)"
    using assms(2,3,5) n c f fixed_headers_normal(2) [OF assms(1) n]
    by (auto simp: canonical_platform_def config_to_model_def normalize_platform_name_def config_ok_def config_pre_ok_def Let_def)
  then have "upsert_platform X None (config_to_model c pid now) (cs_db s)
      = (None, (cs_db s)\<lparr>sd_platforms := m_store pid (config_to_model c pid now) (sd_platforms (cs_db s))\<rparr>)"
    using assms(6) by (simp add: upsert_platform_def config_to_model_def)
  then show ?thesis using assms(3,4) tn by (auto simp: compile_and_upsert_def Let_def)
qed

lemma write_platform_succeeds:
  assumes "header_names_are_tokens X" "control_ok X cfg subs s" "config_ok X c" "validate_platform_name X (cf_name c) = Inr ()"
    and "to_runtime X c pid = Inr plat" "validate_region_filters (cf_region_filters c) = Inr ()"
    and "\<not> name_taken pid (cf_name c) (sd_platforms (cs_db s))" "m_load (sd_platforms (cs_db s)) pid \<noteq> None"
  shows "\<exists>mp. fst (write_platform X cfg subs None pid c s) = Inr mp"
proof -
  obtain now ev where run: "compile_and_upsert X None pid c s = (Inr (config_to_model c pid now, plat),
      s\<lparr>cs_env := ev, cs_db := (cs_db s)\<lparr>sd_platforms := m_store pid (config_to_model c pid now) (sd_platforms (cs_db s))\<rparr>\<rparr>)"
    using compile_and_upsert_succeeds [OF assms(1,3-7)] by blast
  obtain p1 r where alloc: "alloc_platform plat (cs_pool s) = (p1, r)" by (rule prod.exhaust)
  obtain q err where rep: "replace_platform cfg subs r p1 = (q, err)" by (rule prod.exhaust)
  note names = to_runtime_names [OF assms(5)]
  have "err = None" by (rule write_replaces [OF assms(2,8) _ names(1) alloc rep]) (simp add: names(2) assms(7))
  with run alloc rep show ?thesis by (simp add: write_platform_def)
qed

lemma sample_config_writable:
  "config_ok token_external (sample_config_n\<lparr>cf_passive_disabled := b\<rparr>)"
  "\<exists>plat. to_runtime token_external (sample_config_n\<lparr>cf_passive_disabled := b\<rparr>) pid = Inr plat"
proof -
  have "config_pre_ok sample_config_n"
    by (simp add: config_pre_ok_def sample_config_n_eq sample_row_trim normalize_miss_action_def trim_reject miss_action_is_valid_def
        miss_reject_def policy_is_valid_def policy_balanced_def)
  from validated_config_ok [OF token_external_tokens sample_validate this]
  show "config_ok token_external (sample_config_n\<lparr>cf_passive_disabled := b\<rparr>)" by (simp add: config_ok_def config_pre_ok_def)
  show "\<exists>plat. to_runtime token_external (sample_config_n\<lparr>cf_passive_disabled := b\<rparr>) pid = Inr plat"
    by (simp add: to_runtime_def sample_config_n_eq compile_regex_filters_def)
qed

lemma sample_start_names: "\<not> name_taken pid ''n'' (sd_platforms (cs_db sample_start))"
proof -
  have boot: "bootable token_external (cs_db \<lparr>cs_db = new_state_db, cs_pool = new_global_node_pool, cs_env = ev\<rparr>)" for ev
    using new_state_db_ok by (simp add: bootable_def) (simp add: new_state_db_def)
  have only: "m_load (sd_platforms (cs_db sample_start)) i = None" if "i \<noteq> default_platform_id" for i
    using restart_ok(4) [OF token_external_tokens sample_env_checked boot that]
    unfolding sample_start_def first_start_def by (simp add: new_state_db_def)
  have "m_name mp \<noteq> ''n''" if "m_load (sd_platforms (cs_db sample_start)) i = Some mp" for i mp
    using that only [of i] sample_start_ok(2) by (cases "i = default_platform_id") (auto simp: default_ok_def default_platform_name_def)
  then show ?thesis using name_taken_iff [OF state_db_okD(1) [OF control_okD(1) [OF sample_start_ok(1)]]] by blast
qed

lemma sample_control_ok:
  "control_ok token_external sample_config sample_store sample_control" "default_ok (cs_db sample_control)"
  "\<exists>now. sd_platforms (cs_db sample_control) = m_store ''p'' (config_to_model sample_config_n ''p'' now) (sd_platforms (cs_db sample_start))"
proof -
  show "control_ok token_external sample_config sample_store sample_control" "default_ok (cs_db sample_control)"
    using control_run_ok [OF token_external_tokens sample_env_checked sample_fresh]
    unfolding sample_control_def sample_start_def by blast+
  obtain plat where plat: "to_runtime token_external sample_config_n ''p'' = Inr plat"
    using sample_config_writable(2) [of False "''p''"] by (auto simp: sample_config_n_eq)
  have "config_ok token_external sample_config_n" using sample_config_writable(1) [of False] by (simp add: sample_config_n_eq)
  from compile_and_upsert_succeeds [OF token_external_tokens this _ plat, of sample_start]
  show "\<exists>now. sd_platforms (cs_db sample_control) = m_store ''p'' (config_to_model sample_config_n ''p'' now) (sd_platforms (cs_db sample_start))"
    using sample_start_names sample_name_valid
    by (auto simp: sample_control_def sample_create_def create_platform_def sample_create_config
        sample_config_n_eq validate_region_filters_def split: prod.split)
qed

lemma sample_control_run: "sample_control = fold (control_step token_external sample_config sample_store sample_env) sample_create
    (first_start token_external sample_env \<lparr>draws = [], clock = [7]\<rparr>)"
  by (simp add: sample_control_def sample_start_def)

lemma sample_row_stored: "\<exists>now. m_load (sd_platforms (cs_db sample_control)) ''p'' = Some (config_to_model sample_config_n ''p'' now)"
  using sample_control_ok(3) by (auto simp: store_simps)

theorem platforms_follow_rows_witness:
  "\<exists>q. registered_settings (cs_pool sample_control) ''p'' = Some q \<and> plat_name q = ''n''"
proof -
  obtain now where row: "m_load (sd_platforms (cs_db sample_control)) ''p'' = Some (config_to_model sample_config_n ''p'' now)"
    using sample_row_stored by blast
  note follow = spec [OF conjunct2 [OF platforms_follow_rows [OF token_external_tokens sample_env_checked sample_fresh sample_control_run]],
    of "''p''", unfolded row option.case]
  from follow obtain q where q: "build_from_model token_external (config_to_model sample_config_n ''p'' now) = Inr q"
    "registered_settings (cs_pool sample_control) ''p'' = Some q" by blast
  obtain plat where plat: "to_runtime token_external sample_config_n ''p'' = Inr plat"
    using sample_config_writable(2) [of False "''p''"] by (auto simp: sample_config_n_eq)
  have "platform_row_ok token_external (config_to_model sample_config_n ''p'' now)"
    using state_db_okD(5) [OF control_okD(1) [OF sample_control_ok(1)] row] by simp
  then have "plat_name q = ''n''" using platform_row_builds q(1) by (fastforce simp: config_to_model_def sample_config_n_eq)
  with q(2) show ?thesis by blast
qed

theorem default_platform_stays_witness:
  "\<exists>p. get_platform (cs_pool sample_control) default_platform_id = Some p \<and> plat_name p = ''Default''"
  using default_platform_stays [OF token_external_tokens sample_env_checked sample_fresh sample_control_run] by blast

theorem platform_requests_atomic_witness:
  "all_or_nothing token_external ''p''
     (update_platform token_external sample_config sample_store 0 (None, Some ''disk full'') ''p'' None sample_control) sample_control"
  using platform_requests_atomic [OF token_external_tokens sample_env_checked sample_fresh sample_control_run] by blast

definition sample_patch :: merge_patch where
  "sample_patch = [(''passive_circuit_breaker_disabled'', J_Bool True)]"

lemma sample_update_config:
  "update_config token_external 0 None ''p'' (Some sample_patch) sample_control = Inr (sample_config_n\<lparr>cf_passive_disabled := True\<rparr>)"
proof -
  obtain now where row: "m_load (sd_platforms (cs_db sample_control)) ''p'' = Some (config_to_model sample_config_n ''p'' now)"
    using sample_row_stored by blast
  have get: "get_platform_model None ''p'' (cs_db sample_control) = Inr (config_to_model sample_config_n ''p'' now)"
    by (simp add: get_platform_model_def repo_get_platform_def row)
  have cfg: "config_from_model token_external (config_to_model sample_config_n ''p'' now) = sample_config_n"
    by (simp add: config_from_model_def config_to_model_def sample_config_n_eq normalize_empty_behavior_def behavior_is_valid_def
        behavior_random_def normalize_header_field_name_def normalize_fixed_account_headers_def)
  have val: "validate_platform_config token_external False (sample_config_n\<lparr>cf_passive_disabled := True\<rparr>)
      = Inr (sample_config_n\<lparr>cf_passive_disabled := True\<rparr>)"
    by (simp add: sample_config_n_eq validate_platform_config_def validate_empty_account_config_def
        behavior_is_valid_def behavior_random_def normalize_fixed_account_headers_def behavior_fixed_header_def)
  have "patch_platform token_external 0 ''p'' sample_patch sample_config_n = Inr (sample_config_n\<lparr>cf_passive_disabled := True\<rparr>)"
    by (simp add: patch_platform_def sample_patch_def patch_accessors val)
  moreover have "m_id (config_to_model sample_config_n ''p'' now) = ''p''" "''p'' \<noteq> default_platform_id"
    by (simp_all add: config_to_model_def default_platform_id_def)
  ultimately show ?thesis
    by (simp add: update_config_def parse_merge_patch_def sample_patch_def platform_patch_fields_def get cfg)
qed

lemma sample_write: "\<exists>mp. fst (write_platform token_external sample_config sample_store None ''p''
    (sample_config_n\<lparr>cf_passive_disabled := True\<rparr>) sample_control) = Inr mp"
proof -
  obtain plat where plat: "to_runtime token_external (sample_config_n\<lparr>cf_passive_disabled := True\<rparr>) ''p'' = Inr plat"
    using sample_config_writable(2) by blast
  obtain now where rows: "sd_platforms (cs_db sample_control)
      = m_store ''p'' (config_to_model sample_config_n ''p'' now) (sd_platforms (cs_db sample_start))"
    using sample_control_ok(3) by blast
  have ok: "m_ok (sd_platforms (cs_db sample_start))" using state_db_okD(1) [OF control_okD(1) [OF sample_start_ok(1)]] .
  have "\<not> name_taken ''p'' ''n'' (sd_platforms (cs_db sample_control))"
    using sample_start_names [of "''p''"] unfolding rows name_taken_iff [OF ok]
    by (subst name_taken_iff) (auto simp: ok store_simps split: if_splits)
  then show ?thesis
    using sample_row_stored sample_name_valid
    by (intro write_platform_succeeds [OF token_external_tokens sample_control_ok(1) sample_config_writable(1) _ plat])
      (auto simp: sample_config_n_eq validate_region_filters_def)
qed

theorem update_sets_patched_fields_witness:
  "\<exists>mp now. fst (update_platform token_external sample_config sample_store 0 (None, None) ''p'' (Some sample_patch) sample_control)
      = Inr (mp\<lparr>m_passive_disabled := True, m_updated_at_ns := now\<rparr>) \<and> m_sticky_ttl_ns mp = 1"
proof -
  obtain mp' where mp': "fst (update_platform token_external sample_config sample_store 0 (None, None) ''p'' (Some sample_patch)
      sample_control) = Inr mp'"
    using sample_write by (auto simp: update_platform_def sample_update_config)
  obtain t where row: "m_load (sd_platforms (cs_db sample_control)) ''p'' = Some (config_to_model sample_config_n ''p'' t)"
    using sample_row_stored by blast
  from update_sets_patched_fields [OF token_external_tokens sample_env_checked sample_fresh sample_control_run row mp']
  have "m_passive_disabled mp'" "m_sticky_ttl_ns mp' = 1"
    by (auto simp: sample_patch_def patch_accessors config_to_model_def sample_config_n_eq)
  then show ?thesis using mp'
    by (intro exI [of _ mp'] exI [of _ "m_updated_at_ns mp'"]) simp
qed

theorem deleted_platform_returns_witness:
  "let s1 = snd (delete_platform None ''p'' sample_control);
       out = write_platform token_external sample_config sample_store None ''p''
         (sample_config_n\<lparr>cf_passive_disabled := True\<rparr>) s1
   in fst out = Inl (Internal_Fault ''replace platform in pool'') \<and> get_platform (cs_pool (snd out)) ''p'' = None
     \<and> m_load (sd_platforms (cs_db (snd out))) ''p'' \<noteq> None"
proof -
  define s1 where "s1 = snd (delete_platform None ''p'' sample_control)"
  define out where "out = write_platform token_external sample_config sample_store None ''p''
         (sample_config_n\<lparr>cf_passive_disabled := True\<rparr>) s1"
  obtain mp where mp: "fst (write_platform token_external sample_config sample_store None ''p''
    (sample_config_n\<lparr>cf_passive_disabled := True\<rparr>) sample_control) = Inr mp" using sample_write by blast
  have del: "delete_platform None ''p'' sample_control = (None, s1)"
    using sample_row_stored by (auto simp: s1_def delete_platform_def repo_delete_platform_def default_platform_id_def)
  have w: "write_platform token_external sample_config sample_store None ''p''
      (sample_config_n\<lparr>cf_passive_disabled := True\<rparr>) s1 = (fst out, snd out)" by (simp add: out_def)
  from deleted_platform_returns [OF token_external_tokens sample_env_checked sample_control_ok(1,2) sample_update_config mp del w]
  show ?thesis unfolding s1_def [symmetric] out_def [symmetric] Let_def by blast
qed

end
