(* ===== verification/Inbound_Mux.thy ===== *)
theory Inbound_Mux
  imports Proxy_Identity State_Repo
begin

text \<open>
  \<open>cmd/resin/inbound_mux.go\<close>, \<open>inbound_demux.go\<close> and the SOCKS gate of \<open>endpoint_runtime.go\<close>: one
  port serves the management API, the token API, the forward and reverse proxies and SOCKS5; which of
  them a connection reaches depends on its first byte, the request, the proxy token and the
  capabilities of the endpoint. The lemmas show that no capability is reached that the endpoint does
  not grant, and that the queue between the two servers hands over every connection once, in order.
\<close>

section \<open>Requests\<close>

text \<open>What the multiplexer reads of a request and its URL.\<close>

record request_url =
  ru_absolute :: bool
  ru_path :: string
  ru_escaped_path :: string

record mux_request =
  rq_method :: string
  rq_url :: "request_url option"
  rq_request_uri :: string

definition should_route_forward_proxy :: "external \<Rightarrow> mux_request \<Rightarrow> bool" where
  "should_route_forward_proxy X r \<longleftrightarrow>
     (if rq_method r = ''CONNECT'' then True
      else if (case rq_url r of None \<Rightarrow> False | Some u \<Rightarrow> ru_absolute u) then True
      else let uri = to_lower (uni_lower X) (trim_space (rq_request_uri r))
           in drop_prefix ''http://'' uri \<noteq> None \<or> drop_prefix ''https://'' uri \<noteq> None)"

definition should_route_control_plane :: "mux_request \<Rightarrow> bool" where
  "should_route_control_plane r \<longleftrightarrow> (case rq_url r of
     None \<Rightarrow> False
   | Some u \<Rightarrow> let p = ru_path u in
       p = ''/'' \<or> p = ''/healthz'' \<or> (p = ''/api'' \<or> drop_prefix ''/api/'' p \<noteq> None)
       \<or> (p = ''/ui'' \<or> drop_prefix ''/ui/'' p \<noteq> None))"

definition escaped_path_segments :: "mux_request \<Rightarrow> string list" where
  "escaped_path_segments r = (case rq_url r of
     None \<Rightarrow> []
   | Some u \<Rightarrow>
       let raw = (if ru_escaped_path u = [] then ru_path u else ru_escaped_path u);
           path = (case drop_prefix ''/'' raw of None \<Rightarrow> raw | Some rest \<Rightarrow> rest)
       in if path = [] then [] else split_at_byte CHR ''/'' path)"

definition should_route_token_api :: "string \<Rightarrow> mux_request \<Rightarrow> bool" where
  "should_route_token_api token r \<longleftrightarrow>
     (let segments = escaped_path_segments r in
      if length segments < 2 then False
      else case path_unescape (segments ! 0) of
        None \<Rightarrow> False
      | Some t \<Rightarrow>
          if token \<noteq> [] \<and> t \<noteq> token then False
          else path_unescape (segments ! 1) = Some ''api'')"

definition should_reject_reverse_proxy :: "string \<Rightarrow> mux_request \<Rightarrow> bool" where
  "should_reject_reverse_proxy token r \<longleftrightarrow>
     (if token = [] then False
      else case escaped_path_segments r of
        [] \<Rightarrow> False
      | seg # _ \<Rightarrow> (case path_unescape seg of None \<Rightarrow> False | Some t \<Rightarrow> t \<noteq> token))"

section \<open>The multiplexer\<close>

text \<open>The handler that is called, with the policy it finds in the context, or the page that is written.\<close>

datatype mux_outcome =
    Serve_Forward bool
  | Serve_Api
  | Serve_Token_Action
  | Serve_Reverse
  | Page_Not_Found
  | Capability_Disabled
  | Mux_Auth_Failed

definition endpoint_mux :: "external \<Rightarrow> endpoint \<Rightarrow> string \<Rightarrow> mux_request \<Rightarrow> mux_outcome" where
  "endpoint_mux X e token r =
     (if should_route_forward_proxy X r
      then if \<not> ep_allow_proxy e \<or> \<not> ep_http_forward e then Capability_Disabled
           else Serve_Forward (ep_require_auth e)
      else if should_route_control_plane r
      then if (case rq_url r of None \<Rightarrow> False | Some u \<Rightarrow> ru_path u \<noteq> ''/healthz'') \<and> \<not> ep_allow_management e then Page_Not_Found
           else Serve_Api
      else if should_route_token_api token r
      then if \<not> ep_allow_proxy e then Capability_Disabled else Serve_Token_Action
      else if \<not> ep_allow_proxy e \<or> \<not> ep_http_reverse e then Capability_Disabled
      else if should_reject_reverse_proxy token r then Mux_Auth_Failed
      else Serve_Reverse)"

section \<open>SOCKS and HTTP on one port\<close>

datatype socks_outcome = Refuse_Socks string | Serve_Socks bool

definition socks_gate :: "endpoint \<Rightarrow> bool \<Rightarrow> socks_outcome" where
  "socks_gate e has_handler =
     (if \<not> ep_allow_proxy e \<or> \<not> ep_socks5 e \<or> \<not> has_handler then Refuse_Socks [byte 0x05, byte 0xFF]
      else Serve_Socks (ep_require_auth e))"

text \<open>
  What a connection is turned into after its first byte was peeked: the bytes the next handler reads
  are those buffered so far followed by those still in the connection.
\<close>

datatype demuxed = Demux_Close | Demux_Socks string | Demux_Http string

definition prebuffered :: "string \<Rightarrow> string \<Rightarrow> string" where
  "prebuffered buffered rest = (if buffered = [] then rest else buffered @ rest)"

definition handle_accepted_conn :: "bool \<Rightarrow> string \<Rightarrow> string \<Rightarrow> demuxed" where
  "handle_accepted_conn has_socks buffered rest =
     (if buffered = [] then Demux_Close
      else if hd buffered = byte 0x05
      then if \<not> has_socks then Demux_Close else Demux_Socks (prebuffered buffered rest)
      else Demux_Http (prebuffered buffered rest))"

text \<open>The retry delay of the accept loop; the error is temporary or it is not.\<close>

definition accept_retry_delay :: "bool \<Rightarrow> int \<Rightarrow> int option" where
  "accept_retry_delay temporary prev =
     (if \<not> temporary then None
      else if prev \<le> 0 then Some 5000000
      else Some (if i64 (prev * 2) > 1000000000 then 1000000000 else i64 (prev * 2)))"

section \<open>The queue between the two servers\<close>

text \<open>\<open>None\<close> is a call that waits; a waiting call is repeated when the queue changes.\<close>

record 'c conn_listener =
  cl_conns :: "'c list"
  cl_closed :: bool

definition conn_listener_capacity :: nat where
  "conn_listener_capacity = 128"

definition new_conn_listener :: "'c conn_listener" where
  "new_conn_listener = \<lparr>cl_conns = [], cl_closed = False\<rparr>"

definition listener_accept :: "'c conn_listener \<Rightarrow> ('c option \<times> 'c conn_listener) option" where
  "listener_accept l =
     (if cl_conns l = [] \<and> \<not> cl_closed l then None
      else if cl_conns l = [] then Some (None, l)
      else Some (Some (hd (cl_conns l)), l\<lparr>cl_conns := tl (cl_conns l)\<rparr>))"

definition listener_enqueue :: "'c \<Rightarrow> 'c conn_listener \<Rightarrow> (bool \<times> 'c conn_listener) option" where
  "listener_enqueue c l =
     (if conn_listener_capacity \<le> length (cl_conns l) \<and> \<not> cl_closed l then None
      else if cl_closed l then Some (False, l)
      else Some (True, l\<lparr>cl_conns := cl_conns l @ [c]\<rparr>))"

text \<open>Closing returns the connections it closes.\<close>

definition listener_close :: "'c conn_listener \<Rightarrow> 'c list \<times> 'c conn_listener" where
  "listener_close l = (if cl_closed l then ([], l) else (cl_conns l, l\<lparr>cl_closed := True, cl_conns := []\<rparr>))"

section \<open>What an endpoint grants\<close>

lemma mux_forward:
  "endpoint_mux X e token r = Serve_Forward b \<Longrightarrow> ep_allow_proxy e \<and> ep_http_forward e \<and> b = ep_require_auth e"
  by (auto simp: endpoint_mux_def split: if_splits)

lemma mux_api:
  "endpoint_mux X e token r = Serve_Api \<Longrightarrow>
    ep_allow_management e \<or> (\<exists>u. rq_url r = Some u \<and> ru_path u = ''/healthz'')"
  by (auto simp: endpoint_mux_def should_route_control_plane_def split: if_splits option.splits)

lemma mux_token_action:
  "endpoint_mux X e token r = Serve_Token_Action \<Longrightarrow> ep_allow_proxy e
    \<and> (token \<noteq> [] \<longrightarrow> path_unescape (escaped_path_segments r ! 0) = Some token)"
  by (auto simp: endpoint_mux_def should_route_token_api_def Let_def split: if_splits option.splits)

lemma mux_reverse:
  "endpoint_mux X e token r = Serve_Reverse \<Longrightarrow> ep_allow_proxy e \<and> ep_http_reverse e
    \<and> (token \<noteq> [] \<and> escaped_path_segments r = seg # segs \<and> path_unescape seg = Some t \<longrightarrow> t = token)"
  by (auto simp: endpoint_mux_def should_reject_reverse_proxy_def split: if_splits)

lemma socks_granted:
  "socks_gate e h = Serve_Socks b \<Longrightarrow> ep_allow_proxy e \<and> ep_socks5 e \<and> b = ep_require_auth e"
  by (auto simp: socks_gate_def split: if_splits)

lemma demux_keeps_bytes:
  "handle_accepted_conn h buffered rest \<in> {Demux_Close, Demux_Socks (buffered @ rest), Demux_Http (buffered @ rest)}"
  by (auto simp: handle_accepted_conn_def prebuffered_def)

text \<open>The retry delay doubles up to a second.\<close>

lemma accept_retry_bounds:
  assumes "accept_retry_delay temporary prev = Some d" "prev \<le> 1000000000"
  shows "0 < d \<and> d \<le> 1000000000 \<and> (prev < d \<or> prev = 1000000000)"
proof (cases "prev \<le> 0")
  case False
  with assms(2) have "i64 (prev * 2) = prev * 2" by (intro i64_id) (auto simp: min_i64_def max_i64_def)
  with False assms show ?thesis by (auto simp: accept_retry_delay_def split: if_splits)
qed (use assms in \<open>auto simp: accept_retry_delay_def split: if_splits\<close>)

section \<open>No connection is lost between the servers\<close>

datatype 'c listener_op = Op_Enqueue 'c | Op_Accept | Op_Close

text \<open>The queue, and what was enqueued, handed over and closed so far; a call that waits does nothing.\<close>

record 'c listener_run =
  lr_queue :: "'c conn_listener"
  lr_enqueued :: "'c list"
  lr_delivered :: "'c list"
  lr_dropped :: "'c list"

fun listener_step :: "'c listener_op \<Rightarrow> 'c listener_run \<Rightarrow> 'c listener_run" where
  "listener_step (Op_Enqueue c) s = (case listener_enqueue c (lr_queue s) of
     None \<Rightarrow> s
   | Some (ok, l) \<Rightarrow> s\<lparr>lr_queue := l, lr_enqueued := (if ok then lr_enqueued s @ [c] else lr_enqueued s)\<rparr>)"
| "listener_step Op_Accept s = (case listener_accept (lr_queue s) of
     None \<Rightarrow> s
   | Some (None, l) \<Rightarrow> s\<lparr>lr_queue := l\<rparr>
   | Some (Some c, l) \<Rightarrow> s\<lparr>lr_queue := l, lr_delivered := lr_delivered s @ [c]\<rparr>)"
| "listener_step Op_Close s = (let (cs, l) = listener_close (lr_queue s)
     in s\<lparr>lr_queue := l, lr_dropped := lr_dropped s @ cs\<rparr>)"

definition listener_inv :: "'c listener_run \<Rightarrow> bool" where
  "listener_inv s \<longleftrightarrow> lr_enqueued s = lr_delivered s @ lr_dropped s @ cl_conns (lr_queue s)
     \<and> length (cl_conns (lr_queue s)) \<le> conn_listener_capacity
     \<and> (if cl_closed (lr_queue s) then cl_conns (lr_queue s) = [] else lr_dropped s = [])"

interpretation cq: invariant_machine listener_step "\<lambda>_. True" listener_inv
proof
  fix s :: "'c listener_run" and op
  assume "listener_inv s"
  then show "listener_inv (listener_step op s)"
    by (cases op; cases "cl_conns (lr_queue s)")
      (auto simp: listener_inv_def listener_enqueue_def listener_accept_def listener_close_def
        split: if_splits)
qed

lemma connections_handed_over:
  assumes "s = fold listener_step ops \<lparr>lr_queue = new_conn_listener, lr_enqueued = [], lr_delivered = [], lr_dropped = []\<rparr>"
  shows "lr_enqueued s = lr_delivered s @ lr_dropped s @ cl_conns (lr_queue s)"
proof -
  have "listener_inv s"
    unfolding assms by (rule cq.run_inv) (simp_all add: listener_inv_def new_conn_listener_def list_all_iff)
  then show ?thesis by (simp add: listener_inv_def)
qed

end
