(* ===== verification/Control_Endpoint.thy ===== *)
theory Control_Endpoint
  imports Service_Patch Inbound_Mux
begin

text \<open>
  \<open>internal/service/control_plane_endpoint.go\<close> and the listeners it drives
  (\<open>cmd/resin/endpoint_runtime.go\<close>, the restoring of \<open>app_runtime.go\<close>): endpoints are rows of the
  database and listeners of the process, kept together by requests that may fail in the database or
  at the port. What the model leaves out: a listener that is replaced or removed goes on with the
  connections it has for a few seconds.
\<close>

section \<open>Listeners\<close>

record endpoint_status =
  es_state :: string
  es_last_error :: string

text \<open>
  A managed listener: the current configuration, the port it listens on, whether it serves; the
  serial number is the identity of the object.
\<close>

record managed_runtime =
  mr_config :: endpoint
  mr_port :: int
  mr_started :: bool
  mr_serial :: nat

record runtime_manager =
  rm_runtimes :: "(string, managed_runtime) amap"
  rm_statuses :: "(string, endpoint_status) amap"
  rm_started :: bool
  rm_stopping :: bool
  rm_serials :: nat

definition new_runtime_manager :: runtime_manager where
  "new_runtime_manager = \<lparr>rm_runtimes = [], rm_statuses = [], rm_started = False, rm_stopping = False, rm_serials = 0\<rparr>"

definition set_status :: "string \<Rightarrow> string \<Rightarrow> string \<Rightarrow> runtime_manager \<Rightarrow> runtime_manager" where
  "set_status eid state err m = m\<lparr>rm_statuses := m_store eid \<lparr>es_state = state, es_last_error = err\<rparr> (rm_statuses m)\<rparr>"

definition start_runtime :: "string \<Rightarrow> runtime_manager \<Rightarrow> runtime_manager" where
  "start_runtime eid m = (case m_load (rm_runtimes m) eid of
     None \<Rightarrow> m
   | Some r \<Rightarrow>
       if mr_started r then m
       else set_status eid ''active'' [] (m\<lparr>rm_runtimes := m_store eid (r\<lparr>mr_started := True\<rparr>) (rm_runtimes m)\<rparr>))"

text \<open>\<open>listen\<close> is the error of \<open>net.Listen\<close>, if any; it is only called when a new listener is needed.\<close>

definition apply_endpoint :: "string option \<Rightarrow> endpoint \<Rightarrow> runtime_manager \<Rightarrow> string option \<times> runtime_manager" where
  "apply_endpoint listen e m =
     (if rm_stopping m then (Some ''use of closed network connection'', m)
      else case m_load (rm_runtimes m) (ep_id e) of
        Some r \<Rightarrow>
          if ep_port (mr_config r) = ep_port e
          then (None, set_status (ep_id e) (if mr_started r then ''active'' else ''starting'') []
                  (m\<lparr>rm_runtimes := m_store (ep_id e) (r\<lparr>mr_config := e\<rparr>) (rm_runtimes m)\<rparr>))
          else (case listen of
            Some err \<Rightarrow> (Some err, m)
          | None \<Rightarrow>
              let m1 = set_status (ep_id e) ''starting'' [] (m\<lparr>rm_serials := Suc (rm_serials m),
                    rm_runtimes := m_store (ep_id e) \<lparr>mr_config = e, mr_port = ep_port e, mr_started = False,
                      mr_serial = rm_serials m\<rparr> (rm_runtimes m)\<rparr>)
              in (None, if rm_started m then start_runtime (ep_id e) m1 else m1))
      | None \<Rightarrow>
          (case listen of
            Some err \<Rightarrow> (Some err, set_status (ep_id e) ''error'' err m)
          | None \<Rightarrow>
              let m1 = set_status (ep_id e) ''starting'' [] (m\<lparr>rm_serials := Suc (rm_serials m),
                    rm_runtimes := m_store (ep_id e) \<lparr>mr_config = e, mr_port = ep_port e, mr_started = False,
                      mr_serial = rm_serials m\<rparr> (rm_runtimes m)\<rparr>)
              in (None, if rm_started m then start_runtime (ep_id e) m1 else m1)))"

definition remove_endpoint :: "string \<Rightarrow> runtime_manager \<Rightarrow> runtime_manager" where
  "remove_endpoint eid m =
     m\<lparr>rm_runtimes := m_delete eid (rm_runtimes m), rm_statuses := m_delete eid (rm_statuses m)\<rparr>"

definition endpoint_status_of :: "string \<Rightarrow> runtime_manager \<Rightarrow> endpoint_status" where
  "endpoint_status_of eid m = (case m_load (rm_statuses m) eid of
     None \<Rightarrow> \<lparr>es_state = ''inactive'', es_last_error = []\<rparr>
   | Some st \<Rightarrow> if es_state st = [] then st\<lparr>es_state := ''inactive''\<rparr> else st)"

definition record_endpoint_error :: "endpoint \<Rightarrow> string \<Rightarrow> runtime_manager \<Rightarrow> runtime_manager" where
  "record_endpoint_error e err m = set_status (ep_id e) ''error'' err m"

definition start_manager :: "runtime_manager \<Rightarrow> runtime_manager" where
  "start_manager m =
     (if \<not> rm_started m \<and> \<not> rm_stopping m
      then fold start_runtime (map fst (rm_runtimes m)) (m\<lparr>rm_started := True\<rparr>) else m)"

definition default_endpoint_id :: string where
  "default_endpoint_id = ''default''"

text \<open>
  The server of a listener object has failed: it is forgotten if it is still the current one. The
  result says whether the process is told to end.
\<close>

definition handle_runtime_error :: "string \<Rightarrow> nat \<Rightarrow> string \<Rightarrow> runtime_manager \<Rightarrow> bool \<times> runtime_manager" where
  "handle_runtime_error eid serial err m =
     (\<not> rm_stopping m \<and> eid = default_endpoint_id,
      case m_load (rm_runtimes m) eid of
        None \<Rightarrow> m
      | Some r \<Rightarrow> if mr_serial r = serial
          then set_status eid ''error'' err (m\<lparr>rm_runtimes := m_delete eid (rm_runtimes m)\<rparr>) else m)"

definition shutdown_manager :: "runtime_manager \<Rightarrow> runtime_manager" where
  "shutdown_manager m = m\<lparr>rm_stopping := True, rm_runtimes := []\<rparr>"

section \<open>Requests\<close>

definition new_default_endpoint :: "int \<Rightarrow> endpoint" where
  "new_default_endpoint port =
     \<lparr>ep_id = default_endpoint_id, ep_port = (if port = 0 then 2260 else port), ep_enabled = True,
      ep_allow_management = True, ep_allow_proxy = True, ep_require_auth = False, ep_http_forward = True,
      ep_http_reverse = True, ep_socks5 = True, ep_created_at_ns = 0, ep_updated_at_ns = 0\<rparr>"

definition validate_endpoint :: "int \<Rightarrow> endpoint \<Rightarrow> service_error option" where
  "validate_endpoint resin_port e =
     (if ep_port e < 1 \<or> ep_port e > 65535 then Some (Invalid_Arg ''port'')
      else if ep_id e \<noteq> default_endpoint_id \<and> ep_port e = ep_port (new_default_endpoint resin_port)
      then Some (Conflict_Error ''port is reserved by the default endpoint'')
      else if \<not> ep_allow_management e \<and> \<not> ep_allow_proxy e
      then Some (Invalid_Arg ''at least one of allow_management or allow_proxy must be enabled'')
      else if \<not> ep_allow_proxy e
      then if ep_http_forward e \<or> ep_http_reverse e \<or> ep_socks5 e \<or> ep_require_auth e
           then Some (Invalid_Arg ''proxy protocol settings must be disabled when allow_proxy is false'')
           else None
      else if \<not> ep_http_forward e \<and> \<not> ep_http_reverse e \<and> \<not> ep_socks5 e
      then Some (Invalid_Arg ''at least one proxy protocol must be enabled when allow_proxy is true'')
      else if ep_require_auth e \<and> \<not> ep_http_forward e \<and> \<not> ep_socks5 e
      then Some (Invalid_Arg ''require_proxy_auth_info requires HTTP forward proxy or SOCKS5'')
      else None)"

record endpoint_control =
  ec_db :: state_db
  ec_manager :: runtime_manager
  ec_env :: env

text \<open>The response without its printed times.\<close>

record endpoint_response =
  er_endpoint :: endpoint
  er_source :: string
  er_read_only :: bool
  er_status :: endpoint_status

definition make_endpoint_response :: "endpoint \<Rightarrow> string \<Rightarrow> bool \<Rightarrow> endpoint_control \<Rightarrow> endpoint_response" where
  "make_endpoint_response e source ro s =
     \<lparr>er_endpoint = e, er_source = source, er_read_only = ro, er_status = endpoint_status_of (ep_id e) (ec_manager s)\<rparr>"

definition list_endpoints ::
  "int \<Rightarrow> string option \<Rightarrow> endpoint_control \<Rightarrow> service_error + endpoint_response list" where
  "list_endpoints resin_port failed s = (case repo_list_endpoints failed (ec_db s) of
     Inl _ \<Rightarrow> Inl (Internal_Fault ''list endpoints'')
   | Inr es \<Rightarrow> Inr (make_endpoint_response (new_default_endpoint resin_port) ''environment'' True s
       # map (\<lambda>e. make_endpoint_response e ''database'' False s) es))"

definition get_endpoint ::
  "int \<Rightarrow> string option \<Rightarrow> string \<Rightarrow> endpoint_control \<Rightarrow> service_error + endpoint_response" where
  "get_endpoint resin_port failed eid s =
     (if eid = default_endpoint_id
      then Inr (make_endpoint_response (new_default_endpoint resin_port) ''environment'' True s)
      else case repo_get_endpoint failed eid (ec_db s) of
        Inl Repo_Not_Found \<Rightarrow> Inl (Not_Found_Error ''endpoint not found'')
      | Inl _ \<Rightarrow> Inl (Internal_Fault ''get endpoint'')
      | Inr e \<Rightarrow> Inr (make_endpoint_response e ''database'' False s))"

record create_endpoint_request =
  ce_port :: int
  ce_enabled :: "bool option"
  ce_allow_management :: "bool option"
  ce_allow_proxy :: "bool option"
  ce_require_auth :: "bool option"
  ce_http_forward :: "bool option"
  ce_http_reverse :: "bool option"
  ce_socks5 :: "bool option"

definition bool_or_default :: "bool option \<Rightarrow> bool \<Rightarrow> bool" where
  "bool_or_default v d = (case v of None \<Rightarrow> d | Some b \<Rightarrow> b)"

definition requested_endpoint :: "create_endpoint_request \<Rightarrow> string \<Rightarrow> int \<Rightarrow> endpoint" where
  "requested_endpoint req eid now =
     (let proxy = bool_or_default (ce_allow_proxy req) True
      in \<lparr>ep_id = eid, ep_port = ce_port req, ep_enabled = bool_or_default (ce_enabled req) True,
          ep_allow_management = bool_or_default (ce_allow_management req) False, ep_allow_proxy = proxy,
          ep_require_auth = bool_or_default (ce_require_auth req) False,
          ep_http_forward = bool_or_default (ce_http_forward req) proxy,
          ep_http_reverse = bool_or_default (ce_http_reverse req) proxy,
          ep_socks5 = bool_or_default (ce_socks5 req) proxy, ep_created_at_ns = now, ep_updated_at_ns = now\<rparr>)"

text \<open>
  What may fail under a request: the write, the listening, and the write that takes the first one back.
\<close>

record endpoint_faults =
  ef_write :: "string option"
  ef_listen :: "string option"
  ef_rollback :: "string option"

definition create_endpoint ::
  "int \<Rightarrow> endpoint_faults \<Rightarrow> string \<Rightarrow> create_endpoint_request \<Rightarrow> endpoint_control
     \<Rightarrow> (service_error + endpoint_response) \<times> endpoint_control" where
  "create_endpoint resin_port faults eid req s0 =
     (let (now, ev) = time_now (ec_env s0); s = s0\<lparr>ec_env := ev\<rparr>; e = requested_endpoint req eid now in
      case validate_endpoint resin_port e of
        Some err \<Rightarrow> (Inl err, s)
      | None \<Rightarrow>
      (case insert_endpoint (ef_write faults) e (ec_db s) of
        (Some (Repo_Conflict _), db) \<Rightarrow> (Inl (Conflict_Error ''endpoint port already exists''), s\<lparr>ec_db := db\<rparr>)
      | (Some _, db) \<Rightarrow> (Inl (Internal_Fault ''persist endpoint''), s\<lparr>ec_db := db\<rparr>)
      | (None, db) \<Rightarrow>
          let s1 = s\<lparr>ec_db := db\<rparr> in
          if ep_enabled e
          then (case apply_endpoint (ef_listen faults) e (ec_manager s1) of
             (Some _, m) \<Rightarrow>
               let m' = remove_endpoint eid m in
               (case repo_delete_endpoint (ef_rollback faults) eid db of
                  (Some _, db') \<Rightarrow> (Inl (Internal_Fault ''rollback endpoint after listener failure''),
                      s1\<lparr>ec_db := db', ec_manager := m'\<rparr>)
                | (None, db') \<Rightarrow> (Inl (Conflict_Error ''listen''), s1\<lparr>ec_db := db', ec_manager := m'\<rparr>))
           | (None, m) \<Rightarrow>
               let s2 = s1\<lparr>ec_manager := m\<rparr> in (Inr (make_endpoint_response e ''database'' False s2), s2))
          else (Inr (make_endpoint_response e ''database'' False s1), s1)))"

definition endpoint_patch_fields :: "string set" where
  "endpoint_patch_fields = {''enabled'', ''port'', ''allow_management'', ''allow_proxy'', ''require_proxy_auth_info'',
     ''allow_http_forward'', ''allow_http_reverse'', ''allow_socks5''}"

definition endpoint_bool_fields :: "(string \<times> (bool \<Rightarrow> endpoint \<Rightarrow> endpoint)) list" where
  "endpoint_bool_fields =
     [(''enabled'', \<lambda>v e. e\<lparr>ep_enabled := v\<rparr>), (''allow_management'', \<lambda>v e. e\<lparr>ep_allow_management := v\<rparr>),
      (''allow_proxy'', \<lambda>v e. e\<lparr>ep_allow_proxy := v\<rparr>), (''require_proxy_auth_info'', \<lambda>v e. e\<lparr>ep_require_auth := v\<rparr>),
      (''allow_http_forward'', \<lambda>v e. e\<lparr>ep_http_forward := v\<rparr>), (''allow_http_reverse'', \<lambda>v e. e\<lparr>ep_http_reverse := v\<rparr>),
      (''allow_socks5'', \<lambda>v e. e\<lparr>ep_socks5 := v\<rparr>)]"

fun apply_bool_fields ::
  "(string \<times> (bool \<Rightarrow> endpoint \<Rightarrow> endpoint)) list \<Rightarrow> merge_patch \<Rightarrow> endpoint \<Rightarrow> service_error + endpoint" where
  "apply_bool_fields [] p e = Inr e"
| "apply_bool_fields ((name, assign) # fs) p e = and_then (optional_bool name p)
     (\<lambda>v. apply_bool_fields fs p (case v of None \<Rightarrow> e | Some b \<Rightarrow> assign b e))"

definition patch_endpoint :: "int \<Rightarrow> merge_patch \<Rightarrow> endpoint \<Rightarrow> service_error + endpoint" where
  "patch_endpoint too_big p e =
     and_then (optional_int too_big ''port'' p)
       (\<lambda>v. apply_bool_fields endpoint_bool_fields p (case v of None \<Rightarrow> e | Some n \<Rightarrow> e\<lparr>ep_port := n\<rparr>))"

definition read_endpoint :: "string option \<Rightarrow> string \<Rightarrow> state_db \<Rightarrow> service_error + endpoint" where
  "read_endpoint failed eid db = (case repo_get_endpoint failed eid db of
     Inl Repo_Not_Found \<Rightarrow> Inl (Not_Found_Error ''endpoint not found'')
   | Inl _ \<Rightarrow> Inl (Internal_Fault ''get endpoint'')
   | Inr e \<Rightarrow> Inr e)"

definition update_endpoint ::
  "int \<Rightarrow> int \<Rightarrow> string option \<Rightarrow> endpoint_faults \<Rightarrow> string \<Rightarrow> merge_patch option \<Rightarrow> endpoint_control
     \<Rightarrow> (service_error + endpoint_response) \<times> endpoint_control" where
  "update_endpoint resin_port too_big read_fault faults eid body s =
     (if eid = default_endpoint_id then (Inl (Conflict_Error ''default endpoint is read-only''), s)
      else case parse_merge_patch body of
        Inl err \<Rightarrow> (Inl err, s)
      | Inr p \<Rightarrow>
      (case validate_fields endpoint_patch_fields p of
        Some err \<Rightarrow> (Inl err, s)
      | None \<Rightarrow>
      (case read_endpoint read_fault eid (ec_db s) of
        Inl err \<Rightarrow> (Inl err, s)
      | Inr current \<Rightarrow>
      (case patch_endpoint too_big p current of
        Inl err \<Rightarrow> (Inl err, s)
      | Inr patched \<Rightarrow>
      (case validate_endpoint resin_port patched of
        Some err \<Rightarrow> (Inl err, s)
      | None \<Rightarrow>
          if patched = current then (Inr (make_endpoint_response current ''database'' False s), s)
          else let (now, ev) = time_now (ec_env s);
                   upd = patched\<lparr>ep_updated_at_ns := now\<rparr>;
                   s1 = s\<lparr>ec_env := ev\<rparr>
            in (case repo_update_endpoint (ef_write faults) upd (ec_db s1) of
                 (Some (Repo_Conflict _), db) \<Rightarrow> (Inl (Conflict_Error ''endpoint port already exists''), s1\<lparr>ec_db := db\<rparr>)
               | (Some Repo_Not_Found, db) \<Rightarrow> (Inl (Not_Found_Error ''endpoint not found''), s1\<lparr>ec_db := db\<rparr>)
               | (Some _, db) \<Rightarrow> (Inl (Internal_Fault ''persist endpoint''), s1\<lparr>ec_db := db\<rparr>)
               | (None, db) \<Rightarrow>
                   let s2 = s1\<lparr>ec_db := db\<rparr> in
                   if ep_enabled upd
                   then (case apply_endpoint (ef_listen faults) upd (ec_manager s2) of
                      (Some _, m) \<Rightarrow>
                        let m' = (if \<not> ep_enabled current then remove_endpoint eid m else m) in
                        (case repo_update_endpoint (ef_rollback faults) current db of
                           (Some _, db') \<Rightarrow> (Inl (Internal_Fault ''rollback endpoint after listener failure''),
                               s2\<lparr>ec_db := db', ec_manager := m'\<rparr>)
                         | (None, db') \<Rightarrow> (Inl (Conflict_Error ''listen''), s2\<lparr>ec_db := db', ec_manager := m'\<rparr>))
                    | (None, m) \<Rightarrow>
                        let s3 = s2\<lparr>ec_manager := m\<rparr> in (Inr (make_endpoint_response upd ''database'' False s3), s3))
                   else let s3 = s2\<lparr>ec_manager := remove_endpoint eid (ec_manager s2)\<rparr>
                     in (Inr (make_endpoint_response upd ''database'' False s3), s3)))))))"

definition delete_endpoint ::
  "string option \<Rightarrow> string \<Rightarrow> endpoint_control \<Rightarrow> service_error option \<times> endpoint_control" where
  "delete_endpoint failed eid s =
     (if eid = default_endpoint_id then (Some (Conflict_Error ''default endpoint is read-only''), s)
      else case repo_delete_endpoint failed eid (ec_db s) of
        (Some Repo_Not_Found, _) \<Rightarrow> (Some (Not_Found_Error ''endpoint not found''), s)
      | (Some _, _) \<Rightarrow> (Some (Internal_Fault ''delete endpoint''), s)
      | (None, db) \<Rightarrow> (None, s\<lparr>ec_db := db, ec_manager := remove_endpoint eid (ec_manager s)\<rparr>))"

section \<open>Start-up\<close>

definition restore_endpoint :: "(string \<Rightarrow> string option) \<Rightarrow> endpoint \<Rightarrow> runtime_manager \<Rightarrow> runtime_manager" where
  "restore_endpoint listen e m =
     (if \<not> ep_enabled e then m
      else case apply_endpoint (listen (ep_id e)) e m of
        (Some err, m') \<Rightarrow> record_endpoint_error e err m'
      | (None, m') \<Rightarrow> m')"

definition restore_persisted_endpoints ::
  "(string \<Rightarrow> string option) \<Rightarrow> string option \<Rightarrow> state_db \<Rightarrow> runtime_manager \<Rightarrow> repo_error option \<times> runtime_manager" where
  "restore_persisted_endpoints listen failed db m = (case repo_list_endpoints failed db of
     Inl err \<Rightarrow> (Some err, m)
   | Inr es \<Rightarrow> (None, fold (restore_endpoint listen) es m))"

text \<open>The endpoint part of the wiring; without the default listener or the rows the process does not start.\<close>

definition start_endpoints ::
  "int \<Rightarrow> (string \<Rightarrow> string option) \<Rightarrow> string option \<Rightarrow> endpoint_control \<Rightarrow> bool \<times> endpoint_control" where
  "start_endpoints resin_port listen failed s =
     (case apply_endpoint (listen default_endpoint_id) (new_default_endpoint resin_port) new_runtime_manager of
        (Some err, m) \<Rightarrow> (False, s\<lparr>ec_manager := m\<rparr>)
      | (None, m) \<Rightarrow>
          (case restore_persisted_endpoints listen failed (ec_db s) m of
             (Some err, m') \<Rightarrow> (False, s\<lparr>ec_manager := remove_endpoint default_endpoint_id m'\<rparr>)
           | (None, m') \<Rightarrow> (True, s\<lparr>ec_manager := m'\<rparr>)))"

end
