(* ===== verification/Control_Endpoint_Runs.thy ===== *)
theory Control_Endpoint_Runs
  imports Control_Endpoint
begin

text \<open>
  Every run of requests, failures of servers, restarts and shutdowns over \<open>Control_Endpoint\<close>: a
  listener runs exactly under the policy of an enabled row, a request that fails changes nothing, and
  with the multiplexer, nothing is served on a port that no row grants. Each operation touches one
  endpoint (\<open>touches\<close>), so its proof is a lemma about that endpoint and a frame.
\<close>

section \<open>Rows and listeners together\<close>

abbreviation endpoint_row :: "state_db \<Rightarrow> string \<Rightarrow> endpoint option" where
  "endpoint_row db \<equiv> m_load (sd_endpoints db)"

abbreviation runtime_of :: "runtime_manager \<Rightarrow> string \<Rightarrow> managed_runtime option" where
  "runtime_of m \<equiv> m_load (rm_runtimes m)"

definition endpoints_ok :: "int \<Rightarrow> state_db \<Rightarrow> bool" where
  "endpoints_ok resin_port db \<longleftrightarrow> m_ok (sd_endpoints db) \<and> endpoint_row db default_endpoint_id = None
     \<and> (\<forall>i e. endpoint_row db i = Some e \<longrightarrow> ep_id e = i \<and> validate_endpoint resin_port e = None)
     \<and> (\<forall>i j e f. endpoint_row db i = Some e \<and> endpoint_row db j = Some f \<and> ep_port e = ep_port f \<longrightarrow> i = j)"

text \<open>A listener runs under the current row, or is the default one.\<close>

definition runtime_follows :: "int \<Rightarrow> state_db \<Rightarrow> string \<Rightarrow> managed_runtime \<Rightarrow> bool" where
  "runtime_follows resin_port db i r \<longleftrightarrow>
     (if i = default_endpoint_id then mr_config r = new_default_endpoint resin_port
      else endpoint_row db i = Some (mr_config r) \<and> ep_enabled (mr_config r))"

text \<open>An enabled row has a listener, or its status says why not.\<close>

definition row_served :: "state_db \<Rightarrow> runtime_manager \<Rightarrow> string \<Rightarrow> bool" where
  "row_served db m i \<longleftrightarrow> (\<forall>e. endpoint_row db i = Some e \<and> ep_enabled e \<longrightarrow>
     runtime_of m i \<noteq> None \<or> es_state (endpoint_status_of i m) = ''error'')"

text \<open>The manager follows the rows, but for the endpoints that are being changed.\<close>

definition manager_ok :: "int \<Rightarrow> state_db \<Rightarrow> string set \<Rightarrow> runtime_manager \<Rightarrow> bool" where
  "manager_ok resin_port db E m \<longleftrightarrow> m_ok (rm_runtimes m) \<and> m_ok (rm_statuses m)
     \<and> (\<forall>i r. runtime_of m i = Some r \<longrightarrow> ep_id (mr_config r) = i \<and> mr_port r = ep_port (mr_config r))
     \<and> (\<forall>i r. i \<notin> E \<and> runtime_of m i = Some r \<longrightarrow> runtime_follows resin_port db i r)
     \<and> (\<forall>i. i \<notin> E \<and> \<not> rm_stopping m \<longrightarrow> row_served db m i)"

lemma manager_okD:
  assumes "manager_ok rp db E m"
  shows "m_ok (rm_runtimes m)" "m_ok (rm_statuses m)"
    "runtime_of m i = Some r \<Longrightarrow> ep_id (mr_config r) = i \<and> mr_port r = ep_port (mr_config r)"
    "i \<notin> E \<Longrightarrow> runtime_of m i = Some r \<Longrightarrow> runtime_follows rp db i r"
    "i \<notin> E \<Longrightarrow> \<not> rm_stopping m \<Longrightarrow> row_served db m i"
  using assms by (simp_all add: manager_ok_def)

lemma manager_ok_frame:
  assumes "manager_ok rp db E m" "\<And>i. i \<notin> F \<Longrightarrow> i \<notin> E \<and> endpoint_row db' i = endpoint_row db i"
  shows "manager_ok rp db' F m"
proof -
  note d = manager_okD [OF assms(1)]
  have "runtime_follows rp db' i r = runtime_follows rp db i r" "row_served db' m i = row_served db m i" "i \<notin> E"
    if "i \<notin> F" for i r
    using assms(2) [OF that] by (simp_all add: runtime_follows_def row_served_def)
  with d show ?thesis unfolding manager_ok_def by blast
qed

lemma manager_ok_settle:
  assumes "manager_ok rp db (insert i E) m" "\<And>r. runtime_of m i = Some r \<Longrightarrow> runtime_follows rp db i r"
    and "\<not> rm_stopping m \<Longrightarrow> row_served db m i"
  shows "manager_ok rp db E m"
proof -
  note d = manager_okD [OF assms(1)]
  have "runtime_follows rp db j r" if "j \<notin> E" "runtime_of m j = Some r" for j r
    using that d(4) assms(2) by (cases "j = i") auto
  moreover have "row_served db m j" if "j \<notin> E" "\<not> rm_stopping m" for j
    using that d(5) assms(3) by (cases "j = i") auto
  ultimately show ?thesis using d(1-3) unfolding manager_ok_def by blast
qed

text \<open>An operation that touches one endpoint.\<close>

definition touches :: "string \<Rightarrow> runtime_manager \<Rightarrow> runtime_manager \<Rightarrow> bool" where
  "touches i m m' \<longleftrightarrow> m_ok (rm_runtimes m') \<and> m_ok (rm_statuses m') \<and> rm_stopping m' = rm_stopping m
     \<and> (\<forall>j. j \<noteq> i \<longrightarrow> runtime_of m' j = runtime_of m j \<and> endpoint_status_of j m' = endpoint_status_of j m)
     \<and> (\<forall>r. runtime_of m' i = Some r \<longrightarrow> ep_id (mr_config r) = i \<and> mr_port r = ep_port (mr_config r))"

lemma touchesD:
  assumes "touches i m m'"
  shows "m_ok (rm_runtimes m')" "m_ok (rm_statuses m')" "rm_stopping m' = rm_stopping m"
    "j \<noteq> i \<Longrightarrow> runtime_of m' j = runtime_of m j" "j \<noteq> i \<Longrightarrow> endpoint_status_of j m' = endpoint_status_of j m"
    "runtime_of m' i = Some r \<Longrightarrow> ep_id (mr_config r) = i \<and> mr_port r = ep_port (mr_config r)"
  using assms by (simp_all add: touches_def)

lemma manager_ok_touched:
  assumes "manager_ok rp db E m" "i \<in> E" "touches i m m'"
  shows "manager_ok rp db E m'"
proof -
  note d = manager_okD [OF assms(1)] and t = touchesD [OF assms(3)]
  have same: "runtime_of m' j = runtime_of m j" "endpoint_status_of j m' = endpoint_status_of j m" if "j \<notin> E" for j
    using t(4,5) [of j] assms(2) that by auto
  show ?thesis
    unfolding manager_ok_def
  proof (intro conjI allI impI)
    fix j r assume "runtime_of m' j = Some r"
    then show "ep_id (mr_config r) = j" "mr_port r = ep_port (mr_config r)"
      using d(3) [of j r] t(4) [of j] t(6) [of r] by (cases "j = i"; simp)+
  next
    fix j r assume "j \<notin> E \<and> runtime_of m' j = Some r"
    then show "runtime_follows rp db j r" using same(1) [of j] d(4) [of j r] by simp
  next
    fix j assume "j \<notin> E \<and> \<not> rm_stopping m'"
    then show "row_served db m' j" using same [of j] d(5) [of j] t(3) by (simp add: row_served_def)
  qed (rule t)+
qed

lemma set_status_simps [simp]:
  "rm_runtimes (set_status i st err m) = rm_runtimes m" "rm_stopping (set_status i st err m) = rm_stopping m"
  "rm_started (set_status i st err m) = rm_started m"
  "endpoint_status_of j (set_status i st err m) = (if j = i then
     (if st = [] then \<lparr>es_state = ''inactive'', es_last_error = err\<rparr> else \<lparr>es_state = st, es_last_error = err\<rparr>)
     else endpoint_status_of j m)"
  by (simp_all add: set_status_def endpoint_status_of_def store_simps)

lemma statuses_ok [simp]: "m_ok (rm_statuses m) \<Longrightarrow> m_ok (rm_statuses (set_status i st err m))"
  by (simp add: set_status_def)

lemma set_status_touches: "m_ok (rm_runtimes m) \<Longrightarrow> m_ok (rm_statuses m) \<Longrightarrow>
    (\<And>r. runtime_of m i = Some r \<Longrightarrow> ep_id (mr_config r) = i \<and> mr_port r = ep_port (mr_config r)) \<Longrightarrow>
    touches i m (set_status i st err m)"
  by (simp add: touches_def)

lemma remove_touches: "m_ok (rm_runtimes m) \<Longrightarrow> m_ok (rm_statuses m) \<Longrightarrow> touches i m (remove_endpoint i m)"
  by (simp add: touches_def remove_endpoint_def endpoint_status_of_def store_simps)

lemma remove_gone: "m_ok (rm_runtimes m) \<Longrightarrow> runtime_of (remove_endpoint i m) i = None"
  by (simp add: remove_endpoint_def store_simps)

lemma apply_endpoint_success:
  assumes "apply_endpoint listen e m = (None, m')" "manager_ok rp db E m"
  shows "touches (ep_id e) m m'" "\<exists>r. runtime_of m' (ep_id e) = Some r \<and> mr_config r = e"
proof -
  note d = manager_okD [OF assms(2)]
  show "touches (ep_id e) m m'" "\<exists>r. runtime_of m' (ep_id e) = Some r \<and> mr_config r = e"
    using assms(1) d(1-3) unfolding apply_endpoint_def touches_def
    by (auto simp: Let_def start_runtime_def store_simps endpoint_status_of_def set_status_def
        split: if_splits option.splits)
qed

lemma apply_endpoint_failure:
  assumes "apply_endpoint listen e m = (Some err, m')"
  shows "m' = m \<or> runtime_of m (ep_id e) = None \<and> m' = set_status (ep_id e) ''error'' err m"
  using assms by (auto simp: apply_endpoint_def Let_def split: if_splits option.splits)

lemma apply_failure_touches:
  assumes "apply_endpoint listen e m = (Some err, m')" "manager_ok rp db E m"
  shows "touches (ep_id e) m m'" "runtime_of m' = runtime_of m"
    "es_state (endpoint_status_of (ep_id e) m) = ''error'' \<Longrightarrow> es_state (endpoint_status_of (ep_id e) m') = ''error''"
proof -
  note d = manager_okD [OF assms(2)]
  show "touches (ep_id e) m m'"
    using apply_endpoint_failure [OF assms(1)] d(1-3) by (auto simp: touches_def)
  show "runtime_of m' = runtime_of m" "es_state (endpoint_status_of (ep_id e) m) = ''error'' \<Longrightarrow> es_state (endpoint_status_of (ep_id e) m') = ''error''"
    using apply_endpoint_failure [OF assms(1)] by auto
qed

text \<open>A row and its endpoint are changed together: the row first, then the manager.\<close>

lemma manager_follows_change:
  assumes "manager_ok rp db {} m" "\<And>j. j \<noteq> i \<Longrightarrow> endpoint_row db' j = endpoint_row db j" "touches i m m'"
    and "\<And>r. runtime_of m' i = Some r \<Longrightarrow> runtime_follows rp db' i r" "\<not> rm_stopping m' \<Longrightarrow> row_served db' m' i"
  shows "manager_ok rp db' {} m'"
proof -
  have "manager_ok rp db' {i} m" by (rule manager_ok_frame [OF assms(1)]) (use assms(2) in simp)
  from manager_ok_touched [OF this _ assms(3)] have "manager_ok rp db' (insert i {}) m'" by simp
  then show ?thesis by (rule manager_ok_settle) (use assms(4,5) in auto)
qed

lemma touches_trans: "touches i m m' \<Longrightarrow> touches i m' m'' \<Longrightarrow> touches i m m''"
  by (simp add: touches_def)

lemma removed_follows:
  assumes "manager_ok rp db {} m" "\<And>j. j \<noteq> i \<Longrightarrow> endpoint_row db' j = endpoint_row db j" "touches i m m1"
    and "\<And>e. endpoint_row db' i = Some e \<Longrightarrow> \<not> ep_enabled e"
  shows "manager_ok rp db' {} (remove_endpoint i m1)"
proof (rule manager_follows_change [OF assms(1,2)])
  note t = touchesD [OF assms(3)]
  show "touches i m (remove_endpoint i m1)" using touches_trans [OF assms(3) remove_touches] t(1,2) by blast
  show "runtime_follows rp db' i r" if "runtime_of (remove_endpoint i m1) i = Some r" for r
    using that remove_gone [OF t(1)] by simp
  show "row_served db' (remove_endpoint i m1) i" using assms(4) by (auto simp: row_served_def)
qed assumption

lemma touches_refl: "manager_ok rp db E m \<Longrightarrow> touches i m m"
  by (simp add: touches_def manager_ok_def)

lemma applied_follows:
  assumes "manager_ok rp db {} m" "\<And>j. j \<noteq> ep_id e \<Longrightarrow> endpoint_row db' j = endpoint_row db j"
    and "apply_endpoint listen e m = (None, m')" "\<And>r. mr_config r = e \<Longrightarrow> runtime_follows rp db' (ep_id e) r"
  shows "manager_ok rp db' {} m'"
proof -
  note a = apply_endpoint_success [OF assms(3,1)]
  show ?thesis
    by (rule manager_follows_change [OF assms(1,2) a(1)]) (use a(2) assms(4) in \<open>auto simp: row_served_def\<close>)
qed

text \<open>A failed change leaves the endpoint as it was, when the row is put back.\<close>

lemma failed_apply_follows:
  assumes "manager_ok rp db {} m" "\<And>j. endpoint_row db' j = endpoint_row db j"
    and "apply_endpoint listen e m = (Some err, m')"
  shows "manager_ok rp db' {} m'"
proof -
  note f = apply_failure_touches [OF assms(3,1)] and d = manager_okD [OF assms(1)]
  show ?thesis
  proof (rule manager_follows_change [OF assms(1,2) f(1)])
    show "runtime_follows rp db' (ep_id e) r" if "runtime_of m' (ep_id e) = Some r" for r
      using d(4) [of "ep_id e" r] that f(2) assms(2) by (simp add: runtime_follows_def)
    show "row_served db' m' (ep_id e)" if "\<not> rm_stopping m'"
      using d(5) [of "ep_id e"] that f touchesD(3) [OF f(1)] assms(2) by (auto simp: row_served_def)
  qed
qed

section \<open>The rows stay valid\<close>

lemma endpoints_okD:
  assumes "endpoints_ok rp db"
  shows "m_ok (sd_endpoints db)" "endpoint_row db default_endpoint_id = None"
    "endpoint_row db i = Some e \<Longrightarrow> ep_id e = i \<and> validate_endpoint rp e = None"
    "endpoint_row db i = Some e \<Longrightarrow> endpoint_row db j = Some f \<Longrightarrow> ep_port e = ep_port f \<Longrightarrow> i = j"
  using assms unfolding endpoints_ok_def by blast+

lemma endpoints_ok_store:
  assumes "endpoints_ok rp db" "validate_endpoint rp e = None" "ep_id e \<noteq> default_endpoint_id"
    and "\<not> port_taken (ep_id e) (ep_port e) (sd_endpoints db)"
  shows "endpoints_ok rp (db\<lparr>sd_endpoints := m_store (ep_id e) e (sd_endpoints db)\<rparr>)"
proof -
  note d = endpoints_okD [OF assms(1)]
  have free: "endpoint_row db i = Some q \<Longrightarrow> ep_port q = ep_port e \<Longrightarrow> i = ep_id e" for i q
    using assms(4) port_taken_iff [OF d(1)] by blast
  show ?thesis
    unfolding endpoints_ok_def
    by (intro conjI allI impI) (use d assms(2,3) free in \<open>auto simp: store_simps split: if_splits\<close>)
qed

lemma endpoints_ok_delete:
  assumes "endpoints_ok rp db"
  shows "endpoints_ok rp (db\<lparr>sd_endpoints := m_delete i (sd_endpoints db)\<rparr>)"
  unfolding endpoints_ok_def
  by (intro conjI allI impI) (use endpoints_okD [OF assms] in \<open>auto simp: store_simps split: if_splits\<close>)

lemma insert_endpoint_cases:
  assumes "insert_endpoint failed e db = (err, db')"
  shows "err \<noteq> None \<and> db' = db \<or> err = None \<and> endpoint_row db (ep_id e) = None
    \<and> \<not> port_taken (ep_id e) (ep_port e) (sd_endpoints db) \<and> db' = db\<lparr>sd_endpoints := m_store (ep_id e) e (sd_endpoints db)\<rparr>"
  using assms by (auto simp: insert_endpoint_def split: option.splits if_splits)

lemma update_endpoint_cases:
  assumes "repo_update_endpoint failed e db = (err, db')"
  shows "err \<noteq> None \<and> db' = db \<or> err = None \<and> (\<exists>old. endpoint_row db (ep_id e) = Some old
    \<and> \<not> port_taken (ep_id e) (ep_port e) (sd_endpoints db)
    \<and> db' = db\<lparr>sd_endpoints := m_store (ep_id e) (e\<lparr>ep_created_at_ns := ep_created_at_ns old\<rparr>) (sd_endpoints db)\<rparr>)"
  using assms by (auto simp: repo_update_endpoint_def split: option.splits if_splits)

lemma validate_times [simp]:
  "validate_endpoint rp (e\<lparr>ep_updated_at_ns := t\<rparr>) = validate_endpoint rp e"
  "validate_endpoint rp (e\<lparr>ep_created_at_ns := t\<rparr>) = validate_endpoint rp e"
  by (simp_all add: validate_endpoint_def)

section \<open>Every request keeps rows and listeners together\<close>

definition endpoint_inv :: "int \<Rightarrow> endpoint_control \<Rightarrow> bool" where
  "endpoint_inv rp s \<longleftrightarrow> endpoints_ok rp (ec_db s) \<and> manager_ok rp (ec_db s) {} (ec_manager s)"

lemma endpoint_inv_env [simp]: "endpoint_inv rp (s\<lparr>ec_env := ev\<rparr>) = endpoint_inv rp s"
  by (simp add: endpoint_inv_def)

definition same_endpoints :: "endpoint_control \<Rightarrow> endpoint_control \<Rightarrow> bool" where
  "same_endpoints s s' \<longleftrightarrow> (\<forall>i. endpoint_row (ec_db s') i = endpoint_row (ec_db s) i
     \<and> runtime_of (ec_manager s') i = runtime_of (ec_manager s) i)"

lemma no_row_no_listener:
  assumes "manager_ok rp db {} m" "i \<noteq> default_endpoint_id" "\<And>e. endpoint_row db i = Some e \<Longrightarrow> \<not> ep_enabled e"
  shows "runtime_of m i = None"
proof (rule ccontr)
  assume "runtime_of m i \<noteq> None"
  then obtain r where "runtime_of m i = Some r" by blast
  from manager_okD(4) [OF assms(1) _ this] assms(2,3) show False by (auto simp: runtime_follows_def)
qed

lemma removed_same:
  assumes "manager_ok rp db {} m" "apply_endpoint listen e m = (Some err, m1)" "runtime_of m (ep_id e) = None"
  shows "runtime_of (remove_endpoint (ep_id e) m1) i = runtime_of m i"
  using apply_failure_touches(2) [OF assms(2,1)] touchesD(1) [OF apply_failure_touches(1) [OF assms(2,1)]] assms(3)
  by (cases "i = ep_id e") (simp_all add: remove_endpoint_def store_simps)

lemma create_endpoint_inv:
  assumes "endpoint_inv rp s0" "eid \<noteq> default_endpoint_id" "ef_rollback faults = None"
    "create_endpoint rp faults eid req s0 = (res, s')"
  shows "endpoint_inv rp s' \<and> (\<forall>err. res = Inl err \<longrightarrow> same_endpoints s0 s')"
proof -
  obtain now ev where tn: "time_now (ec_env s0) = (now, ev)" by fastforce
  define e where "e = requested_endpoint req eid now"
  define s where "s = s0\<lparr>ec_env := ev\<rparr>"
  have eid: "ep_id e = eid" by (simp add: e_def requested_endpoint_def Let_def)
  have inv: "endpoints_ok rp (ec_db s)" "manager_ok rp (ec_db s) {} (ec_manager s)"
    using assms(1) by (simp_all add: endpoint_inv_def s_def)
  have same: "same_endpoints s0 = same_endpoints s" by (rule ext) (simp add: same_endpoints_def s_def)
  note d = endpoints_okD [OF inv(1)]
  note run = assms(4) [unfolded create_endpoint_def tn prod.case Let_def, folded e_def s_def]
  obtain err db where ins: "insert_endpoint (ef_write faults) e (ec_db s) = (err, db)" by fastforce
  show ?thesis
  proof (cases "validate_endpoint rp e = None \<and> err = None")
    case False
    have "db = ec_db s" if "err \<noteq> None" using insert_endpoint_cases [OF ins] that by simp
    with False run ins inv show ?thesis
      by (auto simp: endpoint_inv_def same same_endpoints_def split: option.splits repo_error.splits)
  next
    case True
    with insert_endpoint_cases [OF ins] have new: "endpoint_row (ec_db s) eid = None"
        "\<not> port_taken (ep_id e) (ep_port e) (sd_endpoints (ec_db s))"
      and db: "db = ec_db s\<lparr>sd_endpoints := m_store (ep_id e) e (sd_endpoints (ec_db s))\<rparr>" by (simp_all add: eid)
    have ok: "endpoints_ok rp db"
      unfolding db by (rule endpoints_ok_store [OF inv(1)]) (use True assms(2) eid new in simp_all)
    have row: "endpoint_row db eid = Some e" "\<And>j. j \<noteq> eid \<Longrightarrow> endpoint_row db j = endpoint_row (ec_db s) j"
      by (simp_all add: db eid store_simps d(1))
    note run = run [unfolded ins True [THEN conjunct1] True [THEN conjunct2] option.case prod.case]
    show ?thesis
    proof (cases "ep_enabled e")
      case False
      have gone: "runtime_of (ec_manager s) eid = None"
        by (rule no_row_no_listener [OF inv(2) assms(2)]) (simp add: new(1))
      have "manager_ok rp db {} (ec_manager s)"
        by (rule manager_follows_change [where i = eid, OF inv(2) row(2) touches_refl [OF inv(2)]])
          (use False in \<open>simp_all add: row_served_def gone row(1)\<close>)
      with False run ok show ?thesis by (auto simp: endpoint_inv_def)
    next
      case True
      obtain lerr m where ap: "apply_endpoint (ef_listen faults) e (ec_manager s) = (lerr, m)" by fastforce
      show ?thesis
      proof (cases lerr)
        case None
        have "manager_ok rp db {} m"
          by (rule applied_follows [OF inv(2) _ ap [unfolded None]])
            (use True assms(2) in \<open>simp_all add: runtime_follows_def eid row\<close>)
        with None True run ap ok show ?thesis by (auto simp: endpoint_inv_def)
      next
        case (Some err)
        define db' where "db' = db\<lparr>sd_endpoints := m_delete eid (sd_endpoints db)\<rparr>"
        have del: "repo_delete_endpoint (ef_rollback faults) eid db = (None, db')"
          using assms(3) row(1) by (simp add: repo_delete_endpoint_def db'_def)
        have row': "endpoint_row db' eid = None" "\<And>j. j \<noteq> eid \<Longrightarrow> endpoint_row db' j = endpoint_row (ec_db s) j"
          using row endpoints_okD(1) [OF ok] by (simp_all add: db'_def store_simps)
        have "manager_ok rp db' {} (remove_endpoint eid m)"
          by (rule removed_follows [where i = eid, OF inv(2) row'(2) apply_failure_touches(1) [OF ap [unfolded Some] inv(2), unfolded eid]])
            (simp_all add: row'(1))
        moreover have "endpoints_ok rp db'" unfolding db'_def by (rule endpoints_ok_delete [OF ok])
        moreover have "runtime_of (remove_endpoint eid m) i = runtime_of (ec_manager s) i" for i
          by (rule removed_same [OF inv(2) ap [unfolded Some], unfolded eid]) (rule no_row_no_listener [OF inv(2) assms(2)], simp add: new(1))
        moreover have "endpoint_row db' i = endpoint_row (ec_db s) i" for i
          using row' new(1) by (cases "i = eid") simp_all
        ultimately show ?thesis using Some True run ap del by (auto simp: endpoint_inv_def same same_endpoints_def)
      qed
    qed
  qed
qed

lemma delete_endpoint_inv:
  assumes "endpoint_inv rp s" "delete_endpoint failed eid s = (res, s')"
  shows "endpoint_inv rp s'"
proof -
  have inv: "endpoints_ok rp (ec_db s)" "manager_ok rp (ec_db s) {} (ec_manager s)"
    using assms(1) by (simp_all add: endpoint_inv_def)
  define db where "db = ec_db s\<lparr>sd_endpoints := m_delete eid (sd_endpoints (ec_db s))\<rparr>"
  have row: "endpoint_row db eid = None" "\<And>j. j \<noteq> eid \<Longrightarrow> endpoint_row db j = endpoint_row (ec_db s) j"
    using endpoints_okD(1) [OF inv(1)] by (simp_all add: db_def store_simps)
  have "manager_ok rp db {} (remove_endpoint eid (ec_manager s))"
    by (rule removed_follows [where i = eid, OF inv(2) row(2) touches_refl [OF inv(2)]]) (simp_all add: row(1))
  moreover have "endpoints_ok rp db" unfolding db_def by (rule endpoints_ok_delete [OF inv(1)])
  moreover have "s' = s \<or> s' = s\<lparr>ec_db := db, ec_manager := remove_endpoint eid (ec_manager s)\<rparr>"
    using assms(2) unfolding delete_endpoint_def repo_delete_endpoint_def
    by (auto simp: db_def split: if_splits option.splits)
  ultimately show ?thesis using assms(1) by (auto simp: endpoint_inv_def)
qed

lemma read_endpoint_row: "read_endpoint failed eid db = Inr e \<Longrightarrow> endpoint_row db eid = Some e"
  by (auto simp: read_endpoint_def repo_get_endpoint_def split: option.splits sum.splits repo_error.splits)

lemma bool_fields_keep:
  "apply_bool_fields fs p e = Inr e' \<Longrightarrow> set fs \<subseteq> set endpoint_bool_fields \<Longrightarrow>
    ep_id e' = ep_id e \<and> ep_created_at_ns e' = ep_created_at_ns e \<and> ep_port e' = ep_port e"
proof (induction fs p e rule: apply_bool_fields.induct)
  case (2 name assign fs p e)
  then obtain v where v: "optional_bool name p = Inr v"
    and rest: "apply_bool_fields fs p (case v of None \<Rightarrow> e | Some b \<Rightarrow> assign b e) = Inr e'" by (auto simp: and_then_Inr)
  have "ep_id (assign b e) = ep_id e \<and> ep_created_at_ns (assign b e) = ep_created_at_ns e \<and> ep_port (assign b e) = ep_port e" for b
    using 2(3) by (auto simp: endpoint_bool_fields_def)
  with 2(1) [OF rest] 2(3) show ?case by (auto split: option.splits)
qed simp

lemma patch_endpoint_keeps:
  assumes "patch_endpoint too_big p e = Inr e'"
  shows "ep_id e' = ep_id e" "ep_created_at_ns e' = ep_created_at_ns e"
proof -
  obtain v where "apply_bool_fields endpoint_bool_fields p (case v of None \<Rightarrow> e | Some n \<Rightarrow> e\<lparr>ep_port := n\<rparr>) = Inr e'"
    using assms by (auto simp: patch_endpoint_def and_then_Inr)
  from bool_fields_keep [OF this subset_refl] show "ep_id e' = ep_id e" "ep_created_at_ns e' = ep_created_at_ns e"
    by (auto split: option.splits)
qed

text \<open>The part of an update after its checks.\<close>

lemma update_endpoint_cases_run:
  assumes "update_endpoint rp too_big rf faults eid body s = (res, s')"
  shows "s' = s \<or> (\<exists>p current patched now ev err db. eid \<noteq> default_endpoint_id \<and> endpoint_row (ec_db s) eid = Some current
    \<and> patch_endpoint too_big p current = Inr patched \<and> validate_endpoint rp patched = None
    \<and> time_now (ec_env s) = (now, ev)
    \<and> repo_update_endpoint (ef_write faults) (patched\<lparr>ep_updated_at_ns := now\<rparr>) (ec_db s) = (err, db)
    \<and> (err \<noteq> None \<and> s' = s\<lparr>ec_env := ev, ec_db := db\<rparr>
       \<or> err = None \<and> \<not> ep_enabled patched \<and> \<not> isl res \<and> s' = s\<lparr>ec_env := ev, ec_db := db, ec_manager := remove_endpoint eid (ec_manager s)\<rparr>
       \<or> (\<exists>m. err = None \<and> ep_enabled patched \<and> apply_endpoint (ef_listen faults) (patched\<lparr>ep_updated_at_ns := now\<rparr>) (ec_manager s) = (None, m)
           \<and> \<not> isl res \<and> s' = s\<lparr>ec_env := ev, ec_db := db, ec_manager := m\<rparr>)
       \<or> (\<exists>lerr m. err = None \<and> ep_enabled patched \<and> apply_endpoint (ef_listen faults) (patched\<lparr>ep_updated_at_ns := now\<rparr>) (ec_manager s) = (Some lerr, m)
           \<and> s' = s\<lparr>ec_env := ev, ec_db := snd (repo_update_endpoint (ef_rollback faults) current db),
                 ec_manager := (if \<not> ep_enabled current then remove_endpoint eid m else m)\<rparr>)))"
proof (cases "s' = s")
  case False
  obtain p current patched where c: "eid \<noteq> default_endpoint_id" "parse_merge_patch body = Inr p"
    "validate_fields endpoint_patch_fields p = None" "read_endpoint rf eid (ec_db s) = Inr current"
    "patch_endpoint too_big p current = Inr patched" "validate_endpoint rp patched = None" "patched \<noteq> current"
    using assms False unfolding update_endpoint_def by (auto split: if_splits sum.splits option.splits)
  obtain now ev where tn: "time_now (ec_env s) = (now, ev)" by fastforce
  define upd where "upd = patched\<lparr>ep_updated_at_ns := now\<rparr>"
  obtain err db where w: "repo_update_endpoint (ef_write faults) upd (ec_db s) = (err, db)" by fastforce
  obtain lerr m where ap: "apply_endpoint (ef_listen faults) upd (ec_manager s) = (lerr, m)" by fastforce
  obtain rerr db' where rb: "repo_update_endpoint (ef_rollback faults) current db = (rerr, db')" by fastforce
  have en: "ep_enabled upd = ep_enabled patched" by (simp add: upd_def)
  note run = assms [unfolded update_endpoint_def c(2-6) tn prod.case sum.case option.case Let_def, folded upd_def]
  have "err \<noteq> None \<and> s' = s\<lparr>ec_env := ev, ec_db := db\<rparr>
      \<or> err = None \<and> \<not> ep_enabled patched \<and> \<not> isl res \<and> s' = s\<lparr>ec_env := ev, ec_db := db, ec_manager := remove_endpoint eid (ec_manager s)\<rparr>
      \<or> err = None \<and> ep_enabled patched \<and> lerr = None \<and> \<not> isl res \<and> s' = s\<lparr>ec_env := ev, ec_db := db, ec_manager := m\<rparr>
      \<or> err = None \<and> ep_enabled patched \<and> lerr \<noteq> None \<and> s' = s\<lparr>ec_env := ev, ec_db := db',
           ec_manager := (if \<not> ep_enabled current then remove_endpoint eid m else m)\<rparr>"
    using run c(1,7) by (simp add: w ap rb en split: if_splits option.splits repo_error.splits; auto)
  with c read_endpoint_row [OF c(4)] tn w ap rb show ?thesis unfolding upd_def by fastforce
qed simp

lemma endpoint_put_back:
  assumes "endpoints_ok rp db0" "endpoint_row db0 eid = Some current"
    "db = db0\<lparr>sd_endpoints := m_store eid upd (sd_endpoints db0)\<rparr>" "ep_id upd = eid"
    and "ep_created_at_ns upd = ep_created_at_ns current" "eid \<noteq> default_endpoint_id"
  obtains db' where "repo_update_endpoint None current db = (None, db')" "endpoints_ok rp db'"
    "\<And>j. endpoint_row db' j = endpoint_row db0 j"
proof -
  note d = endpoints_okD [OF assms(1)]
  define db' where "db' = db\<lparr>sd_endpoints := m_store eid current (sd_endpoints db)\<rparr>"
  have cur: "ep_id current = eid" "validate_endpoint rp current = None" using d(3) [OF assms(2)] by simp_all
  have mok: "m_ok (sd_endpoints db)" using d(1) by (simp add: assms(3))
  have row: "endpoint_row db j = (if j = eid then Some upd else endpoint_row db0 j)" for j
    by (simp add: assms(3) store_simps d(1))
  have free: "\<not> port_taken eid (ep_port current) (sd_endpoints db)"
    using d(4) [OF assms(2)] by (auto simp: port_taken_iff [OF mok] row)
  have range: "port_in_range (ep_port current)"
    using cur(2) by (auto simp: validate_endpoint_def port_in_range_def split: if_splits)
  have same: "current\<lparr>ep_created_at_ns := ep_created_at_ns upd\<rparr> = current" by (simp add: assms(5))
  have put: "repo_update_endpoint None current db = (None, db')"
    using range free by (simp add: repo_update_endpoint_def row cur(1) same db'_def)
  have rows: "endpoint_row db' j = endpoint_row db0 j" for j
    using mok assms(2) by (simp add: db'_def store_simps row)
  moreover have "m_ok (sd_endpoints db')" using mok by (simp add: db'_def)
  ultimately have "endpoints_ok rp db'" using d(2-4) unfolding endpoints_ok_def rows by blast
  with put rows that show ?thesis by blast
qed

lemma update_endpoint_inv:
  assumes "endpoint_inv rp s" "ef_rollback faults = None"
    "update_endpoint rp too_big rf faults eid body s = (res, s')"
  shows "endpoint_inv rp s' \<and> (\<forall>msg. res = Inl msg \<longrightarrow> same_endpoints s s')"
proof (cases "s' = s")
  case False
  have inv: "endpoints_ok rp (ec_db s)" "manager_ok rp (ec_db s) {} (ec_manager s)"
    using assms(1) by (simp_all add: endpoint_inv_def)
  note d = endpoints_okD [OF inv(1)]
  from update_endpoint_cases_run [OF assms(3)] False obtain p current patched now ev err db where
    c: "eid \<noteq> default_endpoint_id" "endpoint_row (ec_db s) eid = Some current"
      "patch_endpoint too_big p current = Inr patched" "validate_endpoint rp patched = None"
    and w: "repo_update_endpoint (ef_write faults) (patched\<lparr>ep_updated_at_ns := now\<rparr>) (ec_db s) = (err, db)"
    and run: "err \<noteq> None \<and> s' = s\<lparr>ec_env := ev, ec_db := db\<rparr>
       \<or> err = None \<and> \<not> ep_enabled patched \<and> \<not> isl res \<and> s' = s\<lparr>ec_env := ev, ec_db := db, ec_manager := remove_endpoint eid (ec_manager s)\<rparr>
       \<or> (\<exists>m. err = None \<and> ep_enabled patched \<and> apply_endpoint (ef_listen faults) (patched\<lparr>ep_updated_at_ns := now\<rparr>) (ec_manager s) = (None, m)
           \<and> \<not> isl res \<and> s' = s\<lparr>ec_env := ev, ec_db := db, ec_manager := m\<rparr>)
       \<or> (\<exists>lerr m. err = None \<and> ep_enabled patched \<and> apply_endpoint (ef_listen faults) (patched\<lparr>ep_updated_at_ns := now\<rparr>) (ec_manager s) = (Some lerr, m)
           \<and> s' = s\<lparr>ec_env := ev, ec_db := snd (repo_update_endpoint (ef_rollback faults) current db),
                 ec_manager := (if \<not> ep_enabled current then remove_endpoint eid m else m)\<rparr>)" by blast
  define upd where "upd = patched\<lparr>ep_updated_at_ns := now\<rparr>"
  have cur: "ep_id current = eid" "validate_endpoint rp current = None" using d(3) [OF c(2)] by simp_all
  have upd: "ep_id upd = eid" "ep_created_at_ns upd = ep_created_at_ns current" "validate_endpoint rp upd = None"
      "ep_enabled upd = ep_enabled patched"
    using patch_endpoint_keeps [OF c(3)] c(4) cur by (simp_all add: upd_def)
  have same: "upd\<lparr>ep_created_at_ns := ep_created_at_ns current\<rparr> = upd" using upd(2) by simp
  show ?thesis
  proof (cases "err = None")
    case False
    with run update_endpoint_cases [OF w] have "s' = s\<lparr>ec_env := ev, ec_db := ec_db s\<rparr>" by auto
    then show ?thesis using inv by (simp add: endpoint_inv_def same_endpoints_def)
  next
    case True
    with update_endpoint_cases [OF w, folded upd_def] c(2) have free: "\<not> port_taken eid (ep_port upd) (sd_endpoints (ec_db s))"
      and db: "db = ec_db s\<lparr>sd_endpoints := m_store eid upd (sd_endpoints (ec_db s))\<rparr>" by (simp_all add: upd(1) same)
    have ok: "endpoints_ok rp db"
      using endpoints_ok_store [OF inv(1) upd(3)] free c(1) by (simp add: db upd(1))
    have row: "endpoint_row db eid = Some upd" "\<And>j. j \<noteq> eid \<Longrightarrow> endpoint_row db j = endpoint_row (ec_db s) j"
      by (simp_all add: db store_simps d(1))
    from run True consider
        (off) "\<not> ep_enabled patched" "\<not> isl res" "s' = s\<lparr>ec_env := ev, ec_db := db, ec_manager := remove_endpoint eid (ec_manager s)\<rparr>"
      | (on) m where "ep_enabled patched" "apply_endpoint (ef_listen faults) upd (ec_manager s) = (None, m)"
          "\<not> isl res" "s' = s\<lparr>ec_env := ev, ec_db := db, ec_manager := m\<rparr>"
      | (failed) lerr m where "apply_endpoint (ef_listen faults) upd (ec_manager s) = (Some lerr, m)"
          "s' = s\<lparr>ec_env := ev, ec_db := snd (repo_update_endpoint (ef_rollback faults) current db),
                 ec_manager := (if \<not> ep_enabled current then remove_endpoint eid m else m)\<rparr>"
      unfolding upd_def by blast
    then show ?thesis
    proof cases
      case off
      have "manager_ok rp db {} (remove_endpoint eid (ec_manager s))"
        by (rule removed_follows [where i = eid, OF inv(2) row(2) touches_refl [OF inv(2)]])
          (simp_all add: row(1) upd(4) off(1))
      with off ok show ?thesis by (auto simp: endpoint_inv_def)
    next
      case on
      have "manager_ok rp db {} m"
        by (rule applied_follows [OF inv(2) _ on(2)])
          (use row on(1) upd c(1) in \<open>simp_all add: runtime_follows_def\<close>)
      with on ok show ?thesis by (auto simp: endpoint_inv_def)
    next
      case failed
      obtain db' where restored: "repo_update_endpoint None current db = (None, db')"
          "endpoints_ok rp db'" "\<And>j. endpoint_row db' j = endpoint_row (ec_db s) j"
        by (rule endpoint_put_back [OF inv(1) c(2) db upd(1,2) c(1)]) (rule that)
      have "manager_ok rp db' {} (if \<not> ep_enabled current then remove_endpoint eid m else m)
        \<and> (\<forall>i. runtime_of (if \<not> ep_enabled current then remove_endpoint eid m else m) i = runtime_of (ec_manager s) i)"
      proof (cases "ep_enabled current")
        case True
        with failed_apply_follows [OF inv(2) restored(3) failed(1)] apply_failure_touches(2) [OF failed(1) inv(2)]
        show ?thesis by simp
      next
        case False
        have "manager_ok rp db' {} (remove_endpoint eid m)"
          by (rule removed_follows [where i = eid, OF inv(2) restored(3) apply_failure_touches(1) [OF failed(1) inv(2), unfolded upd(1)]])
            (use restored(3) c(2) False in simp_all)
        moreover have "runtime_of (remove_endpoint eid m) i = runtime_of (ec_manager s) i" for i
          by (rule removed_same [OF inv(2) failed(1), unfolded upd(1)])
            (rule no_row_no_listener [OF inv(2) c(1)], use c(2) False in simp)
        ultimately show ?thesis using False by simp
      qed
      with failed(2) restored show ?thesis by (simp add: endpoint_inv_def same_endpoints_def assms(2))
    qed
  qed
qed (use assms(1) in \<open>simp add: same_endpoints_def\<close>)

section \<open>Start, failure, shutdown, restart\<close>

lemma start_runtime_ok:
  assumes "manager_ok rp db {} m"
  shows "manager_ok rp db {} (start_runtime i m)"
proof (cases "\<exists>r. runtime_of m i = Some r \<and> \<not> mr_started r")
  case True
  then obtain r where r: "runtime_of m i = Some r" "\<not> mr_started r" by blast
  note d = manager_okD [OF assms]
  define m' where "m' = start_runtime i m"
  have m': "m' = set_status i ''active'' [] (m\<lparr>rm_runtimes := m_store i (r\<lparr>mr_started := True\<rparr>) (rm_runtimes m)\<rparr>)"
    using r by (simp add: m'_def start_runtime_def)
  have run: "runtime_of m' i = Some (r\<lparr>mr_started := True\<rparr>)" by (simp add: m' store_simps d(1))
  have t: "touches i m m'"
    using d(1-3) r by (auto simp: touches_def m' store_simps endpoint_status_of_def set_status_def)
  show ?thesis
    unfolding m'_def [symmetric]
    by (rule manager_follows_change [OF assms refl t])
      (use run d(4) [OF _ r(1)] in \<open>simp_all add: row_served_def runtime_follows_def\<close>)
next
  case False
  then have "start_runtime i m = m" by (auto simp: start_runtime_def split: option.splits)
  with assms show ?thesis by simp
qed

lemma start_manager_ok:
  assumes "manager_ok rp db {} m"
  shows "manager_ok rp db {} (start_manager m)"
proof -
  have "manager_ok rp db {} (m\<lparr>rm_started := True\<rparr>)"
    using assms by (simp add: manager_ok_def row_served_def endpoint_status_of_def)
  moreover have "manager_ok rp db {} m1 \<Longrightarrow> manager_ok rp db {} (fold start_runtime ids m1)" for ids m1
    by (induction ids arbitrary: m1) (simp_all add: start_runtime_ok)
  ultimately have "manager_ok rp db {} (fold start_runtime ids (m\<lparr>rm_started := True\<rparr>))" for ids by blast
  with assms show ?thesis by (simp add: start_manager_def)
qed

lemma runtime_error_ok:
  assumes "manager_ok rp db {} m" "handle_runtime_error i serial err m = (b, m')"
  shows "manager_ok rp db {} m'"
proof (cases "m' = m")
  case False
  note d = manager_okD [OF assms(1)]
  have m': "m' = set_status i ''error'' err (m\<lparr>rm_runtimes := m_delete i (rm_runtimes m)\<rparr>)"
    using assms(2) False by (auto simp: handle_runtime_error_def split: option.splits if_splits)
  have gone: "runtime_of m' i = None" by (simp add: m' store_simps d(1))
  have t: "touches i m m'"
    using d(1-3) gone by (auto simp: touches_def m' store_simps endpoint_status_of_def set_status_def)
  show ?thesis
    by (rule manager_follows_change [OF assms(1) refl t]) (simp_all add: gone, simp add: m' row_served_def)
qed (use assms(1) in simp)

lemma shutdown_manager_ok: "manager_ok rp db E m \<Longrightarrow> manager_ok rp db {} (shutdown_manager m)"
  by (simp add: manager_ok_def shutdown_manager_def)

lemma restore_endpoint_ok:
  assumes "manager_ok rp db (insert (ep_id e) E) m" "endpoint_row db (ep_id e) = Some e" "ep_id e \<noteq> default_endpoint_id"
    and "runtime_of m (ep_id e) = None"
  shows "manager_ok rp db E (restore_endpoint listen e m) \<and> touches (ep_id e) m (restore_endpoint listen e m)"
proof -
  define m' where "m' = restore_endpoint listen e m"
  note d = manager_okD [OF assms(1)]
  obtain err m1 where ap: "apply_endpoint (listen (ep_id e)) e m = (err, m1)" by fastforce
  have "m' = (if \<not> ep_enabled e then m else case err of None \<Rightarrow> m1 | Some msg \<Rightarrow> set_status (ep_id e) ''error'' msg m1)"
    by (cases err) (simp_all add: m'_def restore_endpoint_def record_endpoint_error_def ap)
  then consider (off) "\<not> ep_enabled e" "m' = m"
    | (failed) msg where "err = Some msg" "m' = set_status (ep_id e) ''error'' msg m1"
    | (on) "ep_enabled e" "err = None" "m' = m1"
    by (cases err) (auto split: if_splits)
  then have "touches (ep_id e) m m' \<and> (\<forall>r. runtime_of m' (ep_id e) = Some r \<longrightarrow> runtime_follows rp db (ep_id e) r)
    \<and> row_served db m' (ep_id e)"
  proof cases
    case off
    with touches_refl [OF assms(1)] assms(2,4) show ?thesis by (simp add: row_served_def)
  next
    case failed
    note f = apply_failure_touches [OF ap [unfolded failed(1)] assms(1)] and t = touchesD [OF f(1)]
    have "touches (ep_id e) m1 m'"
      unfolding failed(2) by (rule set_status_touches) (use t f(2) assms(4) in simp_all)
    with touches_trans [OF f(1)] f(2) failed(2) assms(4) show ?thesis by (simp add: row_served_def)
  next
    case on
    from apply_endpoint_success [OF ap [unfolded on(2)] assms(1)] on assms(2,3) show ?thesis
      by (auto simp: row_served_def runtime_follows_def)
  qed
  moreover from this have "manager_ok rp db (insert (ep_id e) E) m'" using manager_ok_touched [OF assms(1)] by blast
  ultimately have "manager_ok rp db E m' \<and> touches (ep_id e) m m'" using manager_ok_settle by blast
  then show ?thesis by (simp only: m'_def)
qed

lemma restore_rows_ok:
  "manager_ok rp db (ep_id ` set es) m \<Longrightarrow> distinct (map ep_id es) \<Longrightarrow>
    (\<forall>e \<in> set es. endpoint_row db (ep_id e) = Some e \<and> ep_id e \<noteq> default_endpoint_id \<and> runtime_of m (ep_id e) = None) \<Longrightarrow>
    manager_ok rp db {} (fold (restore_endpoint listen) es m)"
proof (induction es arbitrary: m)
  case (Cons e es)
  define m1 where "m1 = restore_endpoint listen e m"
  have "manager_ok rp db (ep_id ` set es) m1 \<and> touches (ep_id e) m m1"
    unfolding m1_def by (rule restore_endpoint_ok) (use Cons.prems in simp_all)
  moreover from this have "runtime_of m1 (ep_id f) = None" if "f \<in> set es" for f
    using touchesD(4) [of "ep_id e" m m1 "ep_id f"] Cons.prems(2,3) that by (force simp: image_iff)
  ultimately have "manager_ok rp db {} (fold (restore_endpoint listen) es m1)"
    using Cons.IH [of m1] Cons.prems by simp
  then show ?case by (simp add: m1_def)
qed simp

lemma listed_endpoints:
  assumes "endpoints_ok rp db" "repo_list_endpoints failed db = Inr es"
  shows "distinct (map ep_id es)" "e \<in> set es \<longleftrightarrow> endpoint_row db (ep_id e) = Some e"
proof -
  note d = endpoints_okD [OF assms(1)]
  have es: "es = sort_key ep_port (map snd (sd_endpoints db))"
    using assms(2) by (simp add: repo_list_endpoints_def split: option.splits)
  have row: "endpoint_row db i = Some f" if "(i, f) \<in> set (sd_endpoints db)" for i f
    using that d(1) by (simp add: m_ok_def)
  then have key: "ep_id f = i" if "(i, f) \<in> set (sd_endpoints db)" for i f using d(3) that by blast
  then have keys: "map ep_id (map snd (sd_endpoints db)) = map fst (sd_endpoints db)" by (auto simp: map_eq_conv)
  then have "distinct (map ep_id (map snd (sd_endpoints db)))" using d(1) by (simp only: m_ok_def)
  then show "distinct (map ep_id es)" unfolding es distinct_map [of ep_id] by simp
  show "e \<in> set es \<longleftrightarrow> endpoint_row db (ep_id e) = Some e"
  proof
    assume "e \<in> set es"
    then obtain i where "(i, e) \<in> set (sd_endpoints db)" by (auto simp: es)
    with row key show "endpoint_row db (ep_id e) = Some e" by blast
  next
    assume "endpoint_row db (ep_id e) = Some e"
    from map_of_SomeD [OF this] show "e \<in> set es" by (auto simp: es intro: rev_image_eqI)
  qed
qed

lemma default_first:
  assumes "endpoints_ok rp db" "apply_endpoint listen (new_default_endpoint rp) new_runtime_manager = (None, m)"
  shows "manager_ok rp db {i. endpoint_row db i \<noteq> None} m" "runtime_of m i \<noteq> None \<Longrightarrow> i = default_endpoint_id"
proof -
  have start: "manager_ok rp db UNIV new_runtime_manager"
    by (simp add: manager_ok_def new_runtime_manager_def m_ok_def)
  have dflt: "ep_id (new_default_endpoint rp) = default_endpoint_id" by (simp add: new_default_endpoint_def)
  note a = apply_endpoint_success [OF assms(2) start, unfolded dflt]
  note d = manager_okD [OF manager_ok_touched [OF start UNIV_I a(1)]]
  have only: "runtime_of m j = None" if "j \<noteq> default_endpoint_id" for j
    using touchesD(4) [OF a(1) that] by (simp add: new_runtime_manager_def)
  show "i = default_endpoint_id" if "runtime_of m i \<noteq> None" using only [of i] that by (cases "i = default_endpoint_id") simp_all
  show "manager_ok rp db {i. endpoint_row db i \<noteq> None} m"
    unfolding manager_ok_def
  proof (intro conjI allI impI)
    fix i r assume r: "i \<notin> {i. endpoint_row db i \<noteq> None} \<and> runtime_of m i = Some r"
    then have "i = default_endpoint_id" using only [of i] by fastforce
    with r a(2) show "runtime_follows rp db i r" by (auto simp: runtime_follows_def)
  next
    fix i assume "i \<notin> {i. endpoint_row db i \<noteq> None} \<and> \<not> rm_stopping m"
    then show "row_served db m i" by (simp add: row_served_def)
  next
    fix i r assume "runtime_of m i = Some r"
    from d(3) [OF this] show "ep_id (mr_config r) = i" "mr_port r = ep_port (mr_config r)" by simp_all
  qed (rule d)+
qed

lemma start_endpoints_inv:
  assumes "endpoint_inv rp s" "start_endpoints rp listen failed s = (True, s')"
  shows "endpoint_inv rp s'"
proof -
  have ok: "endpoints_ok rp (ec_db s)" using assms(1) by (simp add: endpoint_inv_def)
  obtain m es where ap: "apply_endpoint (listen default_endpoint_id) (new_default_endpoint rp) new_runtime_manager = (None, m)"
    and es: "repo_list_endpoints failed (ec_db s) = Inr es"
    and s': "s' = s\<lparr>ec_manager := fold (restore_endpoint listen) es m\<rparr>"
    using assms(2) by (auto simp: start_endpoints_def restore_persisted_endpoints_def split: prod.splits option.splits sum.splits)
  note l = listed_endpoints [OF ok es] and f = default_first [OF ok ap]
  have ids: "{i. endpoint_row (ec_db s) i \<noteq> None} = ep_id ` set es"
  proof (intro equalityI subsetI)
    fix i assume "i \<in> {i. endpoint_row (ec_db s) i \<noteq> None}"
    then obtain e where row: "endpoint_row (ec_db s) i = Some e" by blast
    from endpoints_okD(3) [OF ok row] have i: "ep_id e = i" by simp
    with row l(2) [of e] have "e \<in> set es" by simp
    with i show "i \<in> ep_id ` set es" by blast
  qed (use l(2) in auto)
  have "manager_ok rp (ec_db s) {} (fold (restore_endpoint listen) es m)"
  proof (rule restore_rows_ok [OF f(1) [unfolded ids] l(1)], intro ballI conjI)
    fix e assume "e \<in> set es"
    then have row: "endpoint_row (ec_db s) (ep_id e) = Some e" using l(2) by blast
    with endpoints_okD(2) [OF ok] show other: "ep_id e \<noteq> default_endpoint_id" by auto
    with f(2) show "runtime_of m (ep_id e) = None" by blast
    show "endpoint_row (ec_db s) (ep_id e) = Some e" by (rule row)
  qed
  with ok s' show ?thesis by (simp add: endpoint_inv_def)
qed

section \<open>Runs\<close>

datatype endpoint_op =
    Ep_Create endpoint_faults string create_endpoint_request
  | Ep_Update "string option" endpoint_faults string "merge_patch option"
  | Ep_Delete "string option" string
  | Ep_Start
  | Ep_Server_Failed string nat string
  | Ep_Shutdown
  | Ep_Restart "string \<Rightarrow> string option" "string option"

text \<open>A process that cannot start its endpoints ends.\<close>

fun endpoint_step :: "int \<Rightarrow> int \<Rightarrow> endpoint_op \<Rightarrow> endpoint_control \<Rightarrow> endpoint_control" where
  "endpoint_step rp too_big (Ep_Create faults eid req) s = snd (create_endpoint rp faults eid req s)"
| "endpoint_step rp too_big (Ep_Update rf faults eid body) s = snd (update_endpoint rp too_big rf faults eid body s)"
| "endpoint_step rp too_big (Ep_Delete failed eid) s = snd (delete_endpoint failed eid s)"
| "endpoint_step rp too_big Ep_Start s = s\<lparr>ec_manager := start_manager (ec_manager s)\<rparr>"
| "endpoint_step rp too_big (Ep_Server_Failed eid serial err) s =
     s\<lparr>ec_manager := snd (handle_runtime_error eid serial err (ec_manager s))\<rparr>"
| "endpoint_step rp too_big Ep_Shutdown s = s\<lparr>ec_manager := shutdown_manager (ec_manager s)\<rparr>"
| "endpoint_step rp too_big (Ep_Restart listen failed) s =
     (case start_endpoints rp listen failed s of
        (True, s') \<Rightarrow> s'
      | (False, _) \<Rightarrow> s\<lparr>ec_manager := shutdown_manager (ec_manager s)\<rparr>)"

text \<open>The write that takes a change back succeeds, and a fresh identifier is not the default one.\<close>

fun endpoint_op_ok :: "endpoint_op \<Rightarrow> bool" where
  "endpoint_op_ok (Ep_Create faults eid req) \<longleftrightarrow> eid \<noteq> default_endpoint_id \<and> ef_rollback faults = None"
| "endpoint_op_ok (Ep_Update rf faults eid body) \<longleftrightarrow> ef_rollback faults = None"
| "endpoint_op_ok op \<longleftrightarrow> True"

definition new_endpoint_control :: "env \<Rightarrow> endpoint_control" where
  "new_endpoint_control ev = \<lparr>ec_db = new_state_db, ec_manager = new_runtime_manager, ec_env = ev\<rparr>"

lemma new_endpoint_inv: "endpoint_inv rp (new_endpoint_control ev)"
  by (simp add: endpoint_inv_def endpoints_ok_def manager_ok_def new_endpoint_control_def new_state_db_def
      new_runtime_manager_def m_ok_def row_served_def)

interpretation ep: invariant_machine "endpoint_step rp too_big" endpoint_op_ok "endpoint_inv rp" for rp too_big
proof
  fix s op assume inv: "endpoint_inv rp s" and ok: "endpoint_op_ok op"
  have m: "endpoint_inv rp (s\<lparr>ec_manager := m\<rparr>)" if "manager_ok rp (ec_db s) {} m" for m
    using inv that by (simp add: endpoint_inv_def)
  have man: "manager_ok rp (ec_db s) {} (ec_manager s)" using inv by (simp add: endpoint_inv_def)
  show "endpoint_inv rp (endpoint_step rp too_big op s)"
  proof (cases op)
    case (Ep_Create faults eid req)
    obtain res s' where run: "create_endpoint rp faults eid req s = (res, s')" by fastforce
    from create_endpoint_inv [OF inv _ _ run] Ep_Create ok run show ?thesis by simp
  next
    case (Ep_Update rf faults eid body)
    obtain res s' where run: "update_endpoint rp too_big rf faults eid body s = (res, s')" by fastforce
    from update_endpoint_inv [OF inv _ run] Ep_Update ok run show ?thesis by simp
  next
    case (Ep_Delete failed eid)
    obtain res s' where run: "delete_endpoint failed eid s = (res, s')" by fastforce
    from delete_endpoint_inv [OF inv run] Ep_Delete run show ?thesis by simp
  next
    case (Ep_Server_Failed eid serial err)
    obtain b m' where run: "handle_runtime_error eid serial err (ec_manager s) = (b, m')" by fastforce
    from m [OF runtime_error_ok [OF man run]] Ep_Server_Failed run show ?thesis by simp
  next
    case (Ep_Restart listen failed)
    obtain up s' where run: "start_endpoints rp listen failed s = (up, s')" by fastforce
    from start_endpoints_inv [OF inv] m [OF shutdown_manager_ok [OF man]] run show ?thesis
      by (cases up) (simp_all add: Ep_Restart)
  qed (use m start_manager_ok [OF man] shutdown_manager_ok [OF man] in simp_all)
qed

lemma reachable_endpoints:
  "list_all endpoint_op_ok ops \<Longrightarrow> endpoint_inv rp (fold (endpoint_step rp too_big) ops (new_endpoint_control ev))"
  by (rule ep.run_inv [OF new_endpoint_inv])

lemma listener_grant:
  assumes "endpoint_inv rp s" "runtime_of (ec_manager s) i = Some r" "i \<noteq> default_endpoint_id"
  shows "endpoint_row (ec_db s) i = Some (mr_config r)" "ep_enabled (mr_config r)" "mr_port r = ep_port (mr_config r)"
  using assms manager_okD(3,4) [of rp "ec_db s" "{}" "ec_manager s" i r]
  by (simp_all add: endpoint_inv_def runtime_follows_def)

text \<open>The listeners of different endpoints listen on different ports.\<close>

lemma listener_ports:
  assumes "endpoint_inv rp s" "runtime_of (ec_manager s) i = Some r" "runtime_of (ec_manager s) j = Some q"
    "mr_port r = mr_port q"
  shows "i = j"
proof -
  have ok: "endpoints_ok rp (ec_db s)" "manager_ok rp (ec_db s) {} (ec_manager s)"
    using assms(1) by (simp_all add: endpoint_inv_def)
  have dflt: "mr_port r = ep_port (new_default_endpoint rp)" if "runtime_of (ec_manager s) default_endpoint_id = Some r" for r
    using manager_okD(3,4) [OF ok(2), of default_endpoint_id r] that by (simp add: runtime_follows_def)
  have other: "mr_port r \<noteq> ep_port (new_default_endpoint rp)"
    if r: "runtime_of (ec_manager s) i = Some r" and i: "i \<noteq> default_endpoint_id" for i r
  proof -
    note g = listener_grant [OF assms(1) r i]
    from endpoints_okD(3) [OF ok(1) g(1)] i have "ep_id (mr_config r) \<noteq> default_endpoint_id"
        "validate_endpoint rp (mr_config r) = None" by simp_all
    then have "ep_port (mr_config r) \<noteq> ep_port (new_default_endpoint rp)" unfolding validate_endpoint_def by (simp split: if_splits)
    with g(3) show ?thesis by simp
  qed
  show ?thesis
  proof (cases "i = default_endpoint_id \<or> j = default_endpoint_id")
    case True
    then show ?thesis using dflt [of r] dflt [of q] other [of i r] other [of j q] assms(2-4) by (cases "i = j") auto
  next
    case False
    note gi = listener_grant [OF assms(1,2)] and gj = listener_grant [OF assms(1,3)]
    have "ep_port (mr_config r) = ep_port (mr_config q)" using gi(3) gj(3) False assms(4) by simp
    then show ?thesis using endpoints_okD(4) [OF ok(1) gi(1) gj(1)] False by simp
  qed
qed


text \<open>
  C26. Nothing is served on the port of an endpoint that its current row does not grant: the
  management interface (but for the health check) only where the row allows management, the forward
  proxy only where it allows the forward proxy and under its authentication policy, the reverse proxy
  only where it allows that, the token actions only where it allows the proxy and under the proxy
  token, and SOCKS5 only where it allows SOCKS5, under its authentication policy.
\<close>

theorem service_needs_grant:
  assumes "list_all endpoint_op_ok ops" "s = fold (endpoint_step rp too_big) ops (new_endpoint_control ev)"
    and "m_load (rm_runtimes (ec_manager s)) i = Some r" "i \<noteq> default_endpoint_id"
    and "served = endpoint_mux X (mr_config r) token rq"
  shows "\<exists>e. m_load (sd_endpoints (ec_db s)) i = Some e \<and> ep_enabled e \<and> ep_port e = mr_port r
    \<and> (served = Serve_Api \<longrightarrow> ep_allow_management e \<or> (\<exists>u. rq_url rq = Some u \<and> ru_path u = ''/healthz''))
    \<and> (\<forall>b. served = Serve_Forward b \<longrightarrow> ep_allow_proxy e \<and> ep_http_forward e \<and> b = ep_require_auth e)
    \<and> (served = Serve_Reverse \<longrightarrow> ep_allow_proxy e \<and> ep_http_reverse e)
    \<and> (served = Serve_Token_Action \<longrightarrow> ep_allow_proxy e
         \<and> (token \<noteq> [] \<longrightarrow> path_unescape (escaped_path_segments rq ! 0) = Some token))
    \<and> (\<forall>h b. socks_gate (mr_config r) h = Serve_Socks b \<longrightarrow> ep_allow_proxy e \<and> ep_socks5 e \<and> b = ep_require_auth e)"
proof -
  have "endpoint_inv rp s" unfolding assms(2) by (rule reachable_endpoints [OF assms(1)])
  note g = listener_grant [OF this assms(3,4)]
  have "(served = Serve_Api \<longrightarrow> ep_allow_management (mr_config r) \<or> (\<exists>u. rq_url rq = Some u \<and> ru_path u = ''/healthz''))"
    "(\<forall>b. served = Serve_Forward b \<longrightarrow> ep_allow_proxy (mr_config r) \<and> ep_http_forward (mr_config r) \<and> b = ep_require_auth (mr_config r))"
    "(served = Serve_Reverse \<longrightarrow> ep_allow_proxy (mr_config r) \<and> ep_http_reverse (mr_config r))"
    "(served = Serve_Token_Action \<longrightarrow> ep_allow_proxy (mr_config r)
         \<and> (token \<noteq> [] \<longrightarrow> path_unescape (escaped_path_segments rq ! 0) = Some token))"
    "(\<forall>h b. socks_gate (mr_config r) h = Serve_Socks b \<longrightarrow> ep_allow_proxy (mr_config r) \<and> ep_socks5 (mr_config r) \<and> b = ep_require_auth (mr_config r))"
    unfolding assms(5)
    by (intro impI, erule mux_api) (intro allI impI, erule mux_forward, simp add: mux_reverse,
      intro impI, erule mux_token_action, intro allI impI, erule socks_granted)
  with g show ?thesis by (intro exI [of _ "mr_config r"] conjI; simp)
qed


section \<open>Samples\<close>

definition no_endpoint_faults :: endpoint_faults where
  "no_endpoint_faults = \<lparr>ef_write = None, ef_listen = None, ef_rollback = None\<rparr>"

definition sample_create :: create_endpoint_request where
  "sample_create = \<lparr>ce_port = 2261, ce_enabled = None, ce_allow_management = None, ce_allow_proxy = None,
     ce_require_auth = Some True, ce_http_forward = None, ce_http_reverse = None, ce_socks5 = None\<rparr>"

definition sample_endpoint_ops :: "endpoint_op list" where
  "sample_endpoint_ops = [Ep_Restart (\<lambda>_. None) None, Ep_Start, Ep_Create no_endpoint_faults ''e'' sample_create]"

definition sample_control :: endpoint_control where
  "sample_control = fold (endpoint_step 0 0) sample_endpoint_ops (new_endpoint_control \<lparr>draws = [], clock = [7]\<rparr>)"

lemma sample_ops_ok: "list_all endpoint_op_ok sample_endpoint_ops"
  by (simp add: sample_endpoint_ops_def no_endpoint_faults_def default_endpoint_id_def)

lemma sample_listener:
  "m_load (rm_runtimes (ec_manager sample_control)) ''e'' = Some \<lparr>mr_config = requested_endpoint sample_create ''e'' 7,
     mr_port = 2261, mr_started = True, mr_serial = 1\<rparr>"
  by code_simp


definition management_request :: mux_request where
  "management_request = \<lparr>rq_method = ''GET'', rq_url = Some \<lparr>ru_absolute = False, ru_path = ''/ui'', ru_escaped_path = ''/ui''\<rparr>,
     rq_request_uri = ''/ui''\<rparr>"

theorem service_needs_grant_witness:
  "\<exists>e. m_load (sd_endpoints (ec_db sample_control)) ''e'' = Some e \<and> ep_port e = 2261
     \<and> (endpoint_mux plain_external (requested_endpoint sample_create ''e'' 7) [] management_request = Serve_Api
          \<longrightarrow> ep_allow_management e)"
  using service_needs_grant [OF sample_ops_ok sample_control_def sample_listener, of _ plain_external "[]" management_request, OF _ refl]
  by (auto simp: default_endpoint_id_def management_request_def)

definition failed_create :: "(service_error + endpoint_response) \<times> endpoint_control" where
  "failed_create = create_endpoint 0 (no_endpoint_faults\<lparr>ef_listen := Some ''busy''\<rparr>) ''f'' (sample_create\<lparr>ce_port := 2262\<rparr>)
     sample_control"

lemma failed_create_error: "fst failed_create = Inl (Conflict_Error ''listen'')"
  by code_simp


end
