(* ===== verification/Spec2Isabelle.thy ===== *)
theory Spec2Isabelle
  imports Latency_Table IP_Window Route_Select Net_Domain Subscription Sub_Scheduler Lease_Cleaner
    Persist_Runs Account_Matcher Proxy_Identity Socks5 Probe_Tasks Probe_Threads Probe_Manager Control_Platform_Runs
    Control_Endpoint_Runs
begin

text \<open>
  A verification library for Resin, a gateway that spreads proxy requests over a pool of upstream
  nodes (\<open>src/\<close>, the Go packages below \<open>src/internal\<close>).

  \<^bold>\<open>The program.\<close> Subscriptions list upstream nodes. A scheduler refreshes them and puts their nodes
  into a global pool; the pool keeps a health record, latency statistics and the egress address of
  each node. Platforms are filters over the pool; each keeps the set of nodes it may route to (its
  routable view) up to date as nodes change. The router answers a request \<open>(platform, account,
  target)\<close> with a node of the platform's view. Requests with an account are sticky: a lease ties the
  account to an egress address, an optional quota bounds the accounts per address. A cleaner removes
  expired leases. Probes measure nodes in the background. Changes of nodes, subscriptions and leases
  are marked dirty and written to a database by a flush worker; a restart reads them back. In front
  of the router, the forward, reverse and SOCKS5 inbounds authenticate a client and find platform,
  account and target in its request.

  \<^bold>\<open>Theories and sources.\<close>
  \<^item> \<open>Resin_Prelude\<close>, \<open>Go_Std\<close>: association maps (\<open>amap\<close>) for Go maps and \<open>xsync.Map\<close>, the
    interfaces shared by the components (locales \<open>invariant_machine\<close> and others), 64-bit integers
    with wrap-around (\<open>i64\<close>), clock and random draws (\<open>env\<close>), the string functions of the Go
    library the code uses. The record \<open>external\<close> holds the functions that are not under \<open>src/\<close>
    (address parsing and printing, public suffix list, regular expressions and the like).
  \<^item> \<open>Latency_Table\<close> (\<open>node/latency.go\<close>), \<open>Node_Hash\<close> (\<open>node/hash.go\<close>), \<open>Node_Entry\<close>
    (\<open>node/entry.go\<close>), \<open>Routable_View\<close> and \<open>Platform\<close> (\<open>platform/\<close>, \<open>model/models.go\<close>),
    \<open>Subscription\<close> (\<open>subscription/subscription.go\<close>), \<open>Net_Domain\<close> (\<open>netutil/domain.go\<close>).
  \<^item> \<open>Node_Pool\<close> (\<open>topology/pool.go\<close>): one function per method of \<open>GlobalNodePool\<close>; platforms
    have an identity, so that replacing and updating in place differ. The interpretation proves that
    views stay coherent.
  \<^item> \<open>Sub_Scheduler\<close> (the other files of \<open>topology/\<close>, \<open>service/control_plane_subscription.go\<close>): a
    refresh is two steps with the fetch between them; evictions, deletions and settings changes
    interleave with it in any order (\<open>topo_step\<close>).
  \<^item> \<open>IP_Window\<close>, \<open>Lease_Table\<close>, \<open>Route_Select\<close>, \<open>Router\<close>, \<open>Lease_Admin\<close>, \<open>Lease_Cleaner\<close>
    (\<open>routing/\<close>): the quota window, leases with load counters, the choice of nodes, the request
    handler composed as \<open>RouteRequest\<close> composes it, administration and the sweep.
  \<^item> \<open>Weak_Persist\<close> (\<open>state/dirtyset.go\<close>, \<open>engine.go\<close>, \<open>flush.go\<close>, \<open>repo_cache.go\<close>) and
    \<open>Persist_Runs\<close> (\<open>state/consistency.go\<close>, the callbacks of \<open>cmd/resin/main.go\<close> and
    \<open>app_runtime.go\<close>): dirty sets, flush, repair and restart, composed with the router.
  \<^item> \<open>Account_Matcher\<close> (\<open>proxy/account_matcher.go\<close>, \<open>rule_prefix.go\<close>), \<open>Proxy_Identity\<close>
    (\<open>proxy/identity_v1.go\<close>, \<open>forward.go\<close>, \<open>reverse.go\<close>), \<open>Socks5\<close> (\<open>proxy/socks5.go\<close>).
  \<^item> \<open>Probe_Tasks\<close>, \<open>Probe_Threads\<close>, \<open>Probe_Manager\<close> (\<open>probe/manager.go\<close>, \<open>trace.go\<close>): the task
    scheduling, first one operation at a time, then in every interleaving of atomic steps; the probes
    themselves, their effect on the pool, and the periodic scans.
  \<^item> \<open>State_Repo\<close> (\<open>state/repo_state.go\<close>, rows of \<open>model/models.go\<close> and \<open>config/runtime.go\<close>): the
    tables of the configuration database, with a database that may fail under every operation.
  \<^item> \<open>Service_Patch\<close> (\<open>service/patch_helpers.go\<close>), \<open>Control_Platform\<close> and \<open>Control_Platform_Runs\<close>
    (\<open>service/control_plane_platform.go\<close>, \<open>bootstrapTopology\<close> of \<open>cmd/resin/main.go\<close>, the platform
    checks of \<open>config/env.go\<close>): management requests on platforms, in database and pool, and restarts.
  \<^item> \<open>Inbound_Mux\<close> (\<open>cmd/resin/inbound_mux.go\<close>, \<open>inbound_demux.go\<close>): what a connection to a port
    reaches. \<open>Control_Endpoint\<close> and \<open>Control_Endpoint_Runs\<close> (\<open>service/control_plane_endpoint.go\<close>,
    \<open>cmd/resin/endpoint_runtime.go\<close>): requests on endpoints, and the listeners that follow their rows.

  \<^bold>\<open>What is shown.\<close> Pool: coherence of all views, refinement of the pool to a set of references,
  the circuit breaker as a function of the last results, atomic replacement of platforms. Topology:
  both invariants in every reachable state of pool and subscriptions, and what a refresh installs.
  Router: a sticky request refines a four-way lease protocol, routes only to nodes that pass the
  filter, keeps the egress address, respects the quota, is available; events replay the leases and
  counters are exact in every run. Persistence: a flush makes the database equal to memory, changes
  made during a flush are not lost, and a restart restores what the last flush wrote. Proxy: the
  matcher equals longest-prefix search and does not depend on the order of rules; identities, paths
  and handshakes are understood, and no inbound accepts a client without the token. Probes: no trigger
  is lost when operations do not overlap, no object is run twice at once when they do, workers come to
  rest, a scan queues what is due and a probe settles it. Configuration: every stored row can be loaded, the
  registered platforms are what the rows build in every run of requests and restarts, and requests are
  all or nothing as long as they do not overlap. Endpoints: listeners follow the enabled rows in every
  run, and no port serves what its row does not grant.

  \<^bold>\<open>Modelling decisions.\<close> Methods under a lock are one step. Operations on different subscriptions
  are atomic with respect to each other, as their locks are per subscription and they touch the pool
  only through its atomic methods. Callbacks are logs or marks that the function returns. A word of
  flags is the set of its bits; a compare-and-swap loop is the round that succeeds. Loops that retry
  (\<open>live_pick_attempts\<close>, the quota pick loop) carry the bound of the code. Map iteration orders are
  the order of the association list, and theorems hold for every such list. The fetcher of
  subscriptions, the parser, the geoip lookup, base64 decoding and URL parsing are parameters.

  \<^bold>\<open>Not modelled.\<close> The formats of subscriptions (\<open>subscription/parser.go\<close>), request forwarding and
  tunnels, SQL text and migrations (tables are maps from keys to rows), the HTTP API, metrics, the request log, configuration, downloads, the
  construction of outbounds and the wiring of the process.
\<close>

end
